(* ===== verification/Prelude.thy ===== *)
theory Prelude
  imports Main "HOL-Library.Word"
begin

unbundle bit_operations_syntax

text \<open>
  Shared vocabulary of the development: machine integers, results and state-passing programs,
  Rust's checked arithmetic, little-endian byte strings, and the loop combinators every
  component is written with.

  \<^item> An unsigned Rust integer of width w is a \<open>w word\<close>; \<open>usize\<close> lengths of slices and vectors
    are natural numbers, and every \<open>try_from\<close> between the two is written out.
  \<^item> A pure or read-only Rust function returns \<open>'a res\<close>: \<open>Some (Inr a)\<close> is \<open>Ok a\<close>,
    \<open>Some (Inl e)\<close> is \<open>Err e\<close>, and \<open>None\<close> is a call that never returns (a spin loop that
    waits for another thread, or a traversal of a cyclic chain).
  \<^item> A mutating function is a \<open>prog\<close>: it also returns the new state, on the error path too,
    because Rust does not undo the writes made before an \<open>Err\<close>.
\<close>

type_synonym u8 = "8 word"
type_synonym u16 = "16 word"
type_synonym u32 = "32 word"
type_synonym u64 = "64 word"
type_synonym usize = nat
type_synonym bytes = "u8 list"

named_theorems res_simps \<open>evaluation of results and programs\<close>
named_theorems res_elims \<open>inversion of successful results and programs\<close>
named_theorems frame \<open>fields an operation leaves alone\<close>


subsection \<open>Errors (src/error.rs)\<close>

text \<open>\<open>std::io::Error\<close> belongs to the standard library: only the kinds the code tells apart
  (and one for all others) are kept.\<close>

datatype io_error = NotFound | AlreadyExists | UnexpectedEof | OtherIo string

datatype error =
    Io io_error
  | InvalidConfig string
  | InvalidKeyLength usize usize
  | OutOfMemory
  | CapacityExhausted string
  | Corrupt string
  | Busy string
  | Closed
  | Unsupported string

type_synonym 'a res = "(error + 'a) option"

abbreviation Ok :: "'a \<Rightarrow> 'a res" where
  "Ok a \<equiv> Some (Inr a)"

abbreviation Err :: "error \<Rightarrow> 'a res" where
  "Err e \<equiv> Some (Inl e)"


subsection \<open>Results\<close>

text \<open>The question mark operator: go on with the value, return the error.\<close>

definition rbind :: "'a res \<Rightarrow> ('a \<Rightarrow> 'b res) \<Rightarrow> 'b res" where
  "rbind r f = (case r of None \<Rightarrow> None | Some (Inl e) \<Rightarrow> Err e | Some (Inr a) \<Rightarrow> f a)"

definition ok_or :: "'a option \<Rightarrow> error \<Rightarrow> 'a res" where
  "ok_or x e = (case x of None \<Rightarrow> Err e | Some a \<Rightarrow> Ok a)"

definition is_ok :: "'a res \<Rightarrow> bool" where
  "is_ok r = (case r of Some (Inr _) \<Rightarrow> True | _ \<Rightarrow> False)"

lemma rbind_simps [simp, res_simps]:
  "rbind (Ok a) f = f a"
  "rbind (Err e) f = Err e"
  "rbind None f = None"
  by (simp_all add: rbind_def)

lemma ok_or_simps [simp, res_simps]:
  "ok_or (Some a) e = Ok a"
  "ok_or None e = Err e"
  by (simp_all add: ok_or_def)

lemma is_ok_simps [simp, res_simps]:
  "is_ok (Ok a)" "\<not> is_ok (Err e)" "\<not> is_ok None"
  by (simp_all add: is_ok_def)

lemma rbind_Ok_iff [res_elims]:
  "rbind r f = Ok b \<longleftrightarrow> (\<exists>a. r = Ok a \<and> f a = Ok b)"
  by (auto simp: rbind_def split: option.splits sum.splits)

lemma ok_or_Ok_iff [simp, res_elims]: "ok_or x e = Ok a \<longleftrightarrow> x = Some a"
  by (auto simp: ok_or_def split: option.splits)

lemma is_ok_iff: "is_ok r \<longleftrightarrow> (\<exists>a. r = Ok a)"
  by (auto simp: is_ok_def split: option.splits sum.splits)

lemma rbind_assoc: "rbind (rbind r f) g = rbind r (\<lambda>a. rbind (f a) g)"
  by (auto simp: rbind_def split: option.splits sum.splits)


subsection \<open>Programs: explicit state, errors and divergence\<close>

type_synonym ('s, 'a) prog = "'s \<Rightarrow> ((error + 'a) \<times> 's) option"

definition ok :: "'a \<Rightarrow> ('s, 'a) prog" where
  "ok a = (\<lambda>s. Some (Inr a, s))"

definition err :: "error \<Rightarrow> ('s, 'a) prog" where
  "err e = (\<lambda>s. Some (Inl e, s))"

definition bnd :: "('s, 'a) prog \<Rightarrow> ('a \<Rightarrow> ('s, 'b) prog) \<Rightarrow> ('s, 'b) prog" where
  "bnd m f = (\<lambda>s. case m s of None \<Rightarrow> None
     | Some (Inl e, t) \<Rightarrow> Some (Inl e, t) | Some (Inr a, t) \<Rightarrow> f a t)"

definition catch :: "('s, 'a) prog \<Rightarrow> (error \<Rightarrow> ('s, 'a) prog) \<Rightarrow> ('s, 'a) prog" where
  "catch m h = (\<lambda>s. case m s of None \<Rightarrow> None
     | Some (Inl e, t) \<Rightarrow> h e t | Some (Inr a, t) \<Rightarrow> Some (Inr a, t))"

text \<open>\<open>let _ignored = m;\<close>: run \<open>m\<close>, drop its result, keep its effects.\<close>

definition ignore :: "('s, 'a) prog \<Rightarrow> ('s, unit) prog" where
  "ignore m = (\<lambda>s. case m s of None \<Rightarrow> None | Some (_, t) \<Rightarrow> Some (Inr (), t))"

text \<open>\<open>let result = (|| \<dots>)();\<close>: keep the outcome as a value; and turn it back into control flow.\<close>

definition attempt :: "('s, 'a) prog \<Rightarrow> ('s, error + 'a) prog" where
  "attempt m = (\<lambda>s. case m s of None \<Rightarrow> None | Some (r, t) \<Rightarrow> Some (Inr r, t))"

definition outcome :: "error + 'a \<Rightarrow> ('s, 'a) prog" where
  "outcome r = (\<lambda>s. Some (r, s))"

text \<open>A call of a read-only method, and a plain read or write of the state.\<close>

definition reads :: "('s \<Rightarrow> 'a res) \<Rightarrow> ('s, 'a) prog" where
  "reads g = (\<lambda>s. map_option (\<lambda>r. (r, s)) (g s))"

definition lift :: "'a res \<Rightarrow> ('s, 'a) prog" where
  "lift r = (\<lambda>s. map_option (\<lambda>q. (q, s)) r)"

definition gets :: "('s \<Rightarrow> 'a) \<Rightarrow> ('s, 'a) prog" where
  "gets g = (\<lambda>s. Some (Inr (g s), s))"

definition modify :: "('s \<Rightarrow> 's) \<Rightarrow> ('s, unit) prog" where
  "modify g = (\<lambda>s. Some (Inr (), g s))"

text \<open>The result of a constructor: the state it built, or its error.\<close>

definition exec :: "('s, 'a) prog \<Rightarrow> 's \<Rightarrow> 's res" where
  "exec m s = (case m s of None \<Rightarrow> None | Some (Inl e, _) \<Rightarrow> Err e | Some (Inr _, t) \<Rightarrow> Ok t)"

text \<open>Run a program on one component of the state.\<close>

definition zoom :: "('s \<Rightarrow> 't) \<Rightarrow> ('t \<Rightarrow> 's \<Rightarrow> 's) \<Rightarrow> ('t, 'a) prog \<Rightarrow> ('s, 'a) prog" where
  "zoom get put m = (\<lambda>s. case m (get s) of None \<Rightarrow> None | Some (r, t) \<Rightarrow> Some (r, put t s))"

lemma prog_simps [simp, res_simps]:
  "ok a s = Some (Inr a, s)"
  "err e s = Some (Inl e, s)"
  "gets g s = Some (Inr (g s), s)"
  "modify h s = Some (Inr (), h s)"
  by (simp_all add: ok_def err_def gets_def modify_def)

lemma bnd_eval [res_simps]:
  "m s = Some (Inr a, t) \<Longrightarrow> bnd m f s = f a t"
  "m s = Some (Inl e, t) \<Longrightarrow> bnd m f s = Some (Inl e, t)"
  "m s = None \<Longrightarrow> bnd m f s = None"
  by (simp_all add: bnd_def)

lemma bnd_simps [simp, res_simps]:
  "bnd (ok a) f = f a"
  "bnd (err e) f = err e"
  "bnd (gets g) f s = f (g s) s"
  "bnd (modify h) f' s = f' () (h s)"
  by (simp_all add: bnd_def fun_eq_iff)

lemma bnd_reads [simp, res_simps]:
  "bnd (reads g) f s = (case g s of None \<Rightarrow> None | Some (Inl e) \<Rightarrow> Some (Inl e, s) | Some (Inr a) \<Rightarrow> f a s)"
  by (simp add: bnd_def reads_def split: option.splits sum.splits)

lemma lift_simps [simp, res_simps]:
  "lift (Ok a) = ok a" "lift (Err e) = err e" "lift None s = None"
  by (simp_all add: lift_def fun_eq_iff)

lemma lift_Some_iff [res_elims]: "lift r s = Some (q, t) \<longleftrightarrow> r = Some q \<and> t = s"
  by (auto simp: lift_def)

lemma exec_Ok_iff [res_elims]: "exec m s = Ok t \<longleftrightarrow> (\<exists>a. m s = Some (Inr a, t))"
  by (auto simp: exec_def split: option.splits sum.splits)

lemma reads_eval [simp, res_simps]:
  "reads g s = map_option (\<lambda>r. (r, s)) (g s)"
  by (simp add: reads_def)

lemma bnd_Ok_iff [res_elims]:
  "bnd m f s = Some (Inr b, u) \<longleftrightarrow>
     (\<exists>a t. m s = Some (Inr a, t) \<and> f a t = Some (Inr b, u))"
  by (auto simp: bnd_def split: option.splits sum.splits)

lemma catch_simps [simp, res_simps]:
  "catch (ok a) h = ok a"
  "catch (err e) h = h e"
  by (simp_all add: catch_def fun_eq_iff)

lemma catch_eval [res_simps]:
  "m s = Some (Inr a, t) \<Longrightarrow> catch m h s = Some (Inr a, t)"
  "m s = Some (Inl e, t) \<Longrightarrow> catch m h s = h e t"
  by (simp_all add: catch_def)

lemma ignore_eval [res_simps]: "m s = Some (r, t) \<Longrightarrow> ignore m s = Some (Inr (), t)"
  by (simp add: ignore_def)

lemma attempt_eval [res_simps]: "m s = Some (r, t) \<Longrightarrow> attempt m s = Some (Inr r, t)"
  by (simp add: attempt_def)

lemma outcome_simps [simp, res_simps]:
  "outcome r s = Some (r, s)"
  by (simp add: outcome_def)

lemma zoom_eval [res_simps]:
  "m (g s) = Some (r, t) \<Longrightarrow> zoom g p m s = Some (r, p t s)"
  by (simp add: zoom_def)

lemma zoom_Some_iff [res_elims]:
  "zoom g p m s = Some (r, u) \<longleftrightarrow> (\<exists>t. m (g s) = Some (r, t) \<and> u = p t s)"
  by (auto simp: zoom_def split: option.splits prod.splits)


subsection \<open>Loops\<close>

text \<open>
  A Rust \<open>loop\<close> is a body over the loop variables that ends an iteration with \<open>Continue\<close>
  (the next values of the variables) or \<open>Return\<close>. A loop that never returns is \<open>None\<close>.
\<close>

datatype ('v, 'a) flow = Continue 'v | Return 'a

partial_function (option) loop ::
  "('v \<Rightarrow> 's \<Rightarrow> ((error + ('v, 'a) flow) \<times> 's) option) \<Rightarrow> 'v \<Rightarrow> 's \<Rightarrow> ((error + 'a) \<times> 's) option"
where
  "loop body v s =
     Option.bind (body v s) (\<lambda>rt. case rt of
        (Inl e, t) \<Rightarrow> Some (Inl e, t)
      | (Inr c, t) \<Rightarrow> (case c of Return a \<Rightarrow> Some (Inr a, t) | Continue w \<Rightarrow> loop body w t))"

partial_function (option) rloop ::
  "('v \<Rightarrow> (error + ('v, 'a) flow) option) \<Rightarrow> 'v \<Rightarrow> (error + 'a) option"
where
  "rloop body v =
     Option.bind (body v) (\<lambda>r. case r of
        Inl e \<Rightarrow> Some (Inl e)
      | Inr c \<Rightarrow> (case c of Return a \<Rightarrow> Some (Inr a) | Continue w \<Rightarrow> rloop body w))"

lemma loop_step [res_simps]:
  "body v s = Some (Inl e, t) \<Longrightarrow> loop body v s = Some (Inl e, t)"
  "body v s = Some (Inr (Return a), t) \<Longrightarrow> loop body v s = Some (Inr a, t)"
  "body v s = Some (Inr (Continue w), t) \<Longrightarrow> loop body v s = loop body w t"
  "body v s = None \<Longrightarrow> loop body v s = None"
  by (simp_all add: loop.simps)

lemma rloop_step [res_simps]:
  "body v = Err e \<Longrightarrow> rloop body v = Err e"
  "body v = Ok (Return a) \<Longrightarrow> rloop body v = Ok a"
  "body v = Ok (Continue w) \<Longrightarrow> rloop body v = rloop body w"
  "body v = None \<Longrightarrow> rloop body v = None"
  by (simp_all add: rloop.simps)


text \<open>A spin loop whose condition never changes does not return.\<close>

lemma rloop_spin:
  assumes "\<And>v. body v = Ok (Continue v)"
  shows "rloop body v = None"
proof (rule ccontr)
  assume "rloop body v \<noteq> None"
  then obtain r where r: "rloop body v = Some r" by blast
  have "(\<forall>v. body v = Ok (Continue v)) \<longrightarrow> False"
  proof (rule rloop.raw_induct [where P = "\<lambda>body v r. (\<forall>v. body v = Ok (Continue v)) \<longrightarrow> False", OF _ r])
    fix f body v y
    assume IH: "\<And>body v y. f body v = Some y \<Longrightarrow> (\<forall>v. body v = Ok (Continue v)) \<longrightarrow> False"
      and eq: "Option.bind (body v) (\<lambda>r. case r of Inl e \<Rightarrow> Some (Inl e)
        | Inr c \<Rightarrow> (case c of Return a \<Rightarrow> Some (Inr a) | Continue w \<Rightarrow> f body w)) = Some y"
    show "(\<forall>v. body v = Ok (Continue v)) \<longrightarrow> False"
    proof
      assume all: "\<forall>v. body v = Ok (Continue v)"
      with eq have "f body v = Some y" by simp
      then show False using IH all by blast
    qed
  qed
  with assms show False by blast
qed


text \<open>\<open>for x in xs\<close> with an accumulator and with an early error return.\<close>

primrec rfold :: "('x \<Rightarrow> 'a \<Rightarrow> 'a res) \<Rightarrow> 'x list \<Rightarrow> 'a \<Rightarrow> 'a res" where
  "rfold f [] a = Ok a"
| "rfold f (x # xs) a = rbind (f x a) (rfold f xs)"

primrec forM :: "'x list \<Rightarrow> ('x \<Rightarrow> ('s, unit) prog) \<Rightarrow> ('s, unit) prog" where
  "forM [] f = ok ()"
| "forM (x # xs) f = bnd (f x) (\<lambda>_. forM xs f)"


subsection \<open>Checked integer arithmetic\<close>

definition checked_add :: "'a::len word \<Rightarrow> 'a word \<Rightarrow> 'a word option" where
  "checked_add a b = (if unat a + unat b < 2 ^ LENGTH('a) then Some (a + b) else None)"

definition checked_mul :: "'a::len word \<Rightarrow> 'a word \<Rightarrow> 'a word option" where
  "checked_mul a b = (if unat a * unat b < 2 ^ LENGTH('a) then Some (a * b) else None)"

definition checked_sub :: "'a::len word \<Rightarrow> 'a word \<Rightarrow> 'a word option" where
  "checked_sub a b = (if b \<le> a then Some (a - b) else None)"

definition saturating_sub :: "'a::len word \<Rightarrow> 'a word \<Rightarrow> 'a word" where
  "saturating_sub a b = (if b \<le> a then a - b else 0)"

definition saturating_add :: "'a::len word \<Rightarrow> 'a word \<Rightarrow> 'a word" where
  "saturating_add a b = (if unat a + unat b < 2 ^ LENGTH('a) then a + b else - 1)"

definition saturating_mul :: "'a::len word \<Rightarrow> 'a word \<Rightarrow> 'a word" where
  "saturating_mul a b = (if unat a * unat b < 2 ^ LENGTH('a) then a * b else - 1)"

definition is_power_of_two :: "'a::len word \<Rightarrow> bool" where
  "is_power_of_two a \<longleftrightarrow> a \<noteq> 0 \<and> a AND (a - 1) = 0"

definition usize_checked_mul :: "usize \<Rightarrow> usize \<Rightarrow> usize option" where
  "usize_checked_mul a b = (if a * b < 2 ^ 64 then Some (a * b) else None)"

definition usize_checked_add :: "usize \<Rightarrow> usize \<Rightarrow> usize option" where
  "usize_checked_add a b = (if a + b < 2 ^ 64 then Some (a + b) else None)"

text \<open>\<open>u64::try_from(usize)\<close> and \<open>u32::try_from(u64)\<close>.\<close>

definition u64_try_from :: "usize \<Rightarrow> u64 option" where
  "u64_try_from n = (if n < 2 ^ 64 then Some (of_nat n) else None)"

definition u32_try_from :: "u64 \<Rightarrow> u32 option" where
  "u32_try_from w = (if unat w < 2 ^ 32 then Some (ucast w) else None)"

definition u16_try_from :: "'a::len word \<Rightarrow> u16 option" where
  "u16_try_from w = (if unat w < 2 ^ 16 then Some (ucast w) else None)"

lemma checked_add_Some:
  "checked_add a b = Some c \<longleftrightarrow> unat (a::'a::len word) + unat b < 2 ^ LENGTH('a) \<and> c = a + b"
  by (auto simp: checked_add_def)

lemma unat_add_nowrap:
  "unat (a::'a::len word) + unat b < 2 ^ LENGTH('a) \<Longrightarrow> unat (a + b) = unat a + unat b"
  by (simp add: unat_word_ariths)

lemma unat_mul_nowrap:
  "unat (a::'a::len word) * unat b < 2 ^ LENGTH('a) \<Longrightarrow> unat (a * b) = unat a * unat b"
  by (simp add: unat_word_ariths)

lemma unat_sub_le: "(b::'a::len word) \<le> a \<Longrightarrow> unat (a - b) = unat a - unat b"
  by (simp add: unat_sub)

lemma checked_add_unat:
  "checked_add a b = Some c \<Longrightarrow> unat c = unat a + unat b"
  by (auto simp: checked_add_Some unat_add_nowrap)

lemma checked_mul_unat:
  "checked_mul a b = Some c \<Longrightarrow> unat c = unat a * unat b"
  by (auto simp: checked_mul_def unat_mul_nowrap split: if_splits)

lemma checked_sub_unat:
  "checked_sub a b = Some c \<Longrightarrow> unat c = unat a - unat b \<and> unat b \<le> unat a"
  by (auto simp: checked_sub_def unat_sub_le word_le_nat_alt split: if_splits)

lemma u64_try_from_Some [simp]: "n < 2 ^ 64 \<Longrightarrow> u64_try_from n = Some (of_nat n)"
  by (simp add: u64_try_from_def)

lemma unat_of_nat_u64: "n < 2 ^ 64 \<Longrightarrow> unat (of_nat n :: u64) = n"
  by (simp add: unat_of_nat)

lemma unat_u64_less [simp]: "unat (w::u64) < 18446744073709551616"
  using unsigned_less [of w, where 'a = nat] by simp


subsection \<open>Powers of two and masks\<close>

lemma nat_and_pred_zero:
  "0 < n \<Longrightarrow> n AND (n - 1) = 0 \<Longrightarrow> \<exists>k. n = 2 ^ k" for n :: nat
proof (induction n rule: less_induct)
  case (less n)
  show ?case
  proof (cases "even n")
    case True
    then obtain m where m: "n = 2 * m" by blast
    with less.prems have "0 < m" by simp
    then obtain p where p: "m = Suc p" by (cases m) auto
    have "n AND (n - 1) = 2 * (m AND (m - 1))"
      by (subst and_nat_rec) (simp add: m p)
    with less.prems have "m AND (m - 1) = 0" by simp
    with less.IH [of m] \<open>0 < m\<close> obtain k where "m = 2 ^ k" by (auto simp: m)
    then show ?thesis by (intro exI [of _ "Suc k"]) (simp add: m)
  next
    case False
    then obtain m where m: "n = Suc (2 * m)" by (metis oddE Suc_eq_plus1)
    have "n AND (n - 1) = 2 * m"
      by (subst and_nat_rec) (simp add: m)
    with less.prems have "m = 0" by simp
    then show ?thesis by (intro exI [of _ 0]) (simp add: m)
  qed
qed

lemma is_power_of_two_ex:
  assumes "is_power_of_two (a :: 'a::len word)"
  shows "\<exists>k < LENGTH('a). a = 2 ^ k \<and> unat a = 2 ^ k"
proof -
  from assms have nz: "a \<noteq> 0" and z: "a AND (a - 1) = 0" by (auto simp: is_power_of_two_def)
  then have "unat (a - 1) = unat a - 1" by (simp add: unat_minus_one)
  with z have "unat a AND (unat a - 1) = 0"
    by (metis unsigned_and_eq unsigned_0)
  moreover have "0 < unat a" using nz by (simp add: unat_gt_0)
  ultimately obtain k where k: "unat a = 2 ^ k" using nat_and_pred_zero by blast
  have "(2::nat) ^ k < 2 ^ LENGTH('a)" using unsigned_less [of a, where 'a = nat] k by simp
  then have lt: "k < LENGTH('a)" by simp
  have "a = of_nat (unat a)" by simp
  also have "\<dots> = 2 ^ k" by (simp only: k) simp
  finally show ?thesis using lt k by blast
qed

lemma unat_and_not_mask:
  "unat (w AND NOT (2 ^ k - 1) :: 'a::len word) = unat w - unat w mod 2 ^ k"
proof -
  have "w AND NOT (mask k) = w - take_bit k w"
    by (subst disjunctive_diff_eq_and_not) (auto simp: bit_eq_iff bit_simps)
  moreover have ut: "unat (take_bit k w) = unat w mod 2 ^ k"
    by (metis take_bit_eq_mod unsigned_take_bit_eq)
  moreover have "take_bit k w \<le> w"
    unfolding word_le_nat_alt ut by (rule mod_less_eq_dividend)
  ultimately show ?thesis
    by (simp only: mask_eq_exp_minus_1 unat_sub_le ut)
qed
lemma is_power_of_two_2p: "k < LENGTH('a) \<Longrightarrow> is_power_of_two (2 ^ k :: 'a::len word)"
  by (auto simp: is_power_of_two_def bit_simps simp flip: mask_eq_exp_minus_1 intro!: bit_word_eqI)


subsection \<open>Conversions between widths\<close>

lemma u32_try_from_Some [simp]: "unat w < 2 ^ 32 \<Longrightarrow> u32_try_from w = Some (ucast w)"
  by (simp add: u32_try_from_def)

lemma unat_ucast_u32: "unat (w::u64) < 2 ^ 32 \<Longrightarrow> unat (ucast w :: u32) = unat w"
  by (simp add: unsigned_ucast_eq unsigned_take_bit_eq take_bit_nat_eq_self)

lemma unat_ucast_up [simp]: "LENGTH('a) \<le> LENGTH('b) \<Longrightarrow> unat (ucast (w::'a::len word) :: 'b::len word) = unat w"
  by (simp add: unsigned_ucast_eq unsigned_take_bit_eq take_bit_nat_eq_self
      order_less_le_trans [OF unsigned_less [of w, where 'a = nat]])

lemma unat_ucast_down: "unat (w::'a::len word) < 2 ^ LENGTH('b) \<Longrightarrow> unat (ucast w :: 'b::len word) = unat w"
  by (simp add: unsigned_ucast_eq unsigned_take_bit_eq take_bit_nat_eq_self)

lemma unat_u16_less [simp]: "unat (w::u16) < 65536"
  using unsigned_less [of w, where 'a = nat] by simp

lemma unat_max_words [simp]:
  "unat (- 1 :: u64) = 18446744073709551615" "unat (- 1 :: u16) = 65535" "unat (- 1 :: u32) = 4294967295"
  by (simp_all add: unsigned_minus_1_eq_mask mask_eq_exp_minus_1)

lemma ucast_ucast_u32: "unat (w::u64) < 2 ^ 32 \<Longrightarrow> ucast (ucast w :: u32) = w"
  by (simp add: word_unat_eq_iff unat_ucast_u32)

lemma checked_add_small:
  fixes a b :: u64
  assumes "unat a + unat b < 2 ^ 32"
  shows "checked_add a b = Some (a + b)" "unat (a + b) = unat a + unat b"
  using assms by (simp_all add: checked_add_def unat_add_nowrap)

lemma pow2_pos: "is_power_of_two (a :: u64) \<Longrightarrow> 0 < unat a"
  by (auto simp: is_power_of_two_def unat_gt_0)

lemma pow2_dvd:
  assumes "is_power_of_two (a :: u64)" "is_power_of_two (b :: u64)" "unat a \<le> unat b"
  shows "unat a dvd unat b"
proof -
  obtain i j where "unat a = 2 ^ i" "unat b = 2 ^ j" using is_power_of_two_ex assms by metis
  with assms(3) show ?thesis by (simp add: le_imp_power_dvd)
qed

end
