(* ===== verification/Wp.thy ===== *)
theory Wp
  imports Prelude
begin

text \<open>
  Total-correctness reasoning for programs and results. \<open>wp m Q E s\<close> says that \<open>m\<close> started in
  \<open>s\<close> returns, with \<open>Q\<close> of the value and the final state on \<open>Ok\<close> and \<open>E\<close> of the error and the
  final state on \<open>Err\<close>; \<open>rwp\<close> is the same for read-only results. The collection \<open>wp_simps\<close>
  pushes both through every combinator, and \<open>wp_loop\<close> and \<open>rwp_rloop\<close> are the rules for loops,
  with a measure that makes them end.
\<close>

named_theorems wp_simps \<open>weakest preconditions of the combinators\<close>

definition wp :: "('s, 'a) prog \<Rightarrow> ('a \<Rightarrow> 's \<Rightarrow> bool) \<Rightarrow> (error \<Rightarrow> 's \<Rightarrow> bool) \<Rightarrow> 's \<Rightarrow> bool" where
  "wp m Q E s = (case m s of None \<Rightarrow> False | Some (Inl e, t) \<Rightarrow> E e t | Some (Inr a, t) \<Rightarrow> Q a t)"

definition rwp :: "'a res \<Rightarrow> ('a \<Rightarrow> bool) \<Rightarrow> (error \<Rightarrow> bool) \<Rightarrow> bool" where
  "rwp r Q E = (case r of None \<Rightarrow> False | Some (Inl e) \<Rightarrow> E e | Some (Inr a) \<Rightarrow> Q a)"

lemma wp_iff:
  "wp m Q E s \<longleftrightarrow> (\<exists>r t. m s = Some (r, t) \<and> (case r of Inl e \<Rightarrow> E e t | Inr a \<Rightarrow> Q a t))"
  by (auto simp: wp_def split: option.splits sum.splits)

lemma wp_disj:
  "wp m Q E s \<longleftrightarrow> (\<exists>a t. m s = Some (Inr a, t) \<and> Q a t) \<or> (\<exists>e t. m s = Some (Inl e, t) \<and> E e t)"
  by (auto simp: wp_def split: option.splits sum.splits)

lemma wp_returns:
  assumes "wp m (\<lambda>a t. C t \<and> Q a t) (\<lambda>e t. C t \<and> E e t) s"
  shows "\<exists>r t. m s = Some (r, t) \<and> C t \<and> (case r of Inr a \<Rightarrow> Q a t | Inl e \<Rightarrow> E e t)"
  using assms by (fastforce simp: wp_disj)

lemma rwp_disj:
  "rwp r Q E \<longleftrightarrow> (\<exists>a. r = Ok a \<and> Q a) \<or> (\<exists>e. r = Err e \<and> E e)"
  by (auto simp: rwp_def split: option.splits sum.splits)

lemma rwp_iff: "rwp r Q E \<longleftrightarrow> (\<exists>x. r = Some x \<and> (case x of Inl e \<Rightarrow> E e | Inr a \<Rightarrow> Q a))"
  by (auto simp: rwp_def split: option.splits sum.splits)

lemma wp_mono:
  "wp m Q E s \<Longrightarrow> (\<And>a t. Q a t \<Longrightarrow> Q' a t) \<Longrightarrow> (\<And>e t. E e t \<Longrightarrow> E' e t) \<Longrightarrow> wp m Q' E' s"
  by (auto simp: wp_def split: option.splits sum.splits)

lemma rwp_mono:
  "rwp r Q E \<Longrightarrow> (\<And>a. Q a \<Longrightarrow> Q' a) \<Longrightarrow> (\<And>e. E e \<Longrightarrow> E' e) \<Longrightarrow> rwp r Q' E'"
  by (auto simp: rwp_def split: option.splits sum.splits)

lemma wp_conj: "wp m Q E s \<Longrightarrow> wp m Q' E' s \<Longrightarrow> wp m (\<lambda>a t. Q a t \<and> Q' a t) (\<lambda>e t. E e t \<and> E' e t) s"
  by (auto simp: wp_def split: option.splits sum.splits)

lemma wp_prim [simp, wp_simps]:
  "wp (ok a) Q E s = Q a s"
  "wp (err e) Q E s = E e s"
  "wp (gets g) Q' E s = Q' (g s) s"
  "wp (modify h) Q'' E s = Q'' () (h s)"
  by (simp_all add: wp_def)

lemma wp_outcome [simp, wp_simps]:
  "wp (outcome r) Q E s = (case r of Inl e \<Rightarrow> E e s | Inr a \<Rightarrow> Q a s)"
  by (simp add: wp_def split: sum.splits)

lemma wp_bnd [wp_simps]: "wp (bnd m f) Q E s = wp m (\<lambda>a. wp (f a) Q E) E s"
  by (simp add: wp_def bnd_def split: option.splits sum.splits)

lemma wp_catch [wp_simps]: "wp (catch m h) Q E s = wp m Q (\<lambda>e. wp (h e) Q E) s"
  by (simp add: wp_def catch_def split: option.splits sum.splits)

lemma wp_attempt [wp_simps]: "wp (attempt m) Q E s = wp m (\<lambda>a. Q (Inr a)) (\<lambda>e. Q (Inl e)) s"
  by (simp add: wp_def attempt_def split: option.splits sum.splits)

lemma wp_ignore [wp_simps]: "wp (ignore m) Q E s = wp m (\<lambda>_. Q ()) (\<lambda>_. Q ()) s"
  by (simp add: wp_def ignore_def split: option.splits sum.splits)

lemma wp_reads [wp_simps]: "wp (reads g) Q E s = rwp (g s) (\<lambda>a. Q a s) (\<lambda>e. E e s)"
  by (simp add: wp_def rwp_def split: option.splits sum.splits)

lemma wp_lift [wp_simps]: "wp (lift r) Q E s = rwp r (\<lambda>a. Q a s) (\<lambda>e. E e s)"
  by (simp add: wp_def rwp_def lift_def split: option.splits sum.splits)

lemma wp_zoom [wp_simps]:
  "wp (zoom g p m) Q E s = wp m (\<lambda>a t. Q a (p t s)) (\<lambda>e t. E e (p t s)) (g s)"
  by (simp add: wp_def zoom_def split: option.splits sum.splits prod.splits)

text \<open>The evaluation rules of applied programs would unfold a program under \<open>wp\<close>.\<close>

lemmas applied = prog_simps bnd_simps(3,4) bnd_reads reads_eval outcome_simps lift_simps(3)

declare applied [simp del]

lemma wp_if [wp_simps]:
  "wp (if c then m else n) Q E s = ((c \<longrightarrow> wp m Q E s) \<and> (\<not> c \<longrightarrow> wp n Q E s))"
  by simp

lemma rwp_prim [simp, wp_simps]:
  "rwp (Ok a) Q E = Q a"
  "rwp (Err e) Q E = E e"
  "rwp None Q E = False"
  by (simp_all add: rwp_def)

lemma rwp_rbind [wp_simps]: "rwp (rbind r f) Q E = rwp r (\<lambda>a. rwp (f a) Q E) E"
  by (simp add: rwp_def rbind_def split: option.splits sum.splits)

lemma rwp_ok_or [wp_simps]: "rwp (ok_or x e) Q E = (case x of None \<Rightarrow> E e | Some a \<Rightarrow> Q a)"
  by (simp split: option.splits)

lemma rwp_if [wp_simps]:
  "rwp (if c then m else n) Q E = ((c \<longrightarrow> rwp m Q E) \<and> (\<not> c \<longrightarrow> rwp n Q E))"
  by simp

lemma wp_exec: "wp m (\<lambda>_. Q) (\<lambda>e _. E e) s \<Longrightarrow> rwp (exec m s) Q E"
  by (auto simp: wp_def rwp_def exec_def split: option.splits sum.splits)

lemma wp_loop:
  assumes "I v s"
    and step: "\<And>v s. I v s \<Longrightarrow>
      wp (body v) (\<lambda>c t. case c of Return a \<Rightarrow> Q a t | Continue w \<Rightarrow> I w t \<and> M w t < (M v s :: nat)) E s"
  shows "wp (loop body v) Q E s"
  using assms(1)
proof (induction "M v s" arbitrary: v s rule: less_induct)
  case less
  from step [OF less.prems] obtain r t where r: "body v s = Some (r, t)"
    and c: "case r of Inl e \<Rightarrow> E e t | Inr c \<Rightarrow>
        (case c of Return a \<Rightarrow> Q a t | Continue w \<Rightarrow> I w t \<and> M w t < M v s)"
    by (auto simp: wp_iff)
  show ?case
  proof (cases r)
    case (Inl e)
    with r c show ?thesis by (simp add: wp_def loop_step(1))
  next
    case (Inr fl)
    show ?thesis
    proof (cases fl)
      case (Continue w)
      with Inr c have "wp (loop body w) Q E t" using less.hyps by simp
      with r Inr Continue show ?thesis by (simp add: wp_def loop_step(3))
    next
      case (Return a)
      with r c Inr show ?thesis by (simp add: wp_def loop_step(2))
    qed
  qed
qed

lemma rwp_rloop:
  assumes "I v"
    and step: "\<And>v. I v \<Longrightarrow>
      rwp (body v) (\<lambda>c. case c of Return a \<Rightarrow> Q a | Continue w \<Rightarrow> I w \<and> M w < (M v :: nat)) E"
  shows "rwp (rloop body v) Q E"
  using assms(1)
proof (induction "M v" arbitrary: v rule: less_induct)
  case less
  from step [OF less.prems] obtain r where r: "body v = Some r"
    and c: "case r of Inl e \<Rightarrow> E e | Inr c \<Rightarrow>
        (case c of Return a \<Rightarrow> Q a | Continue w \<Rightarrow> I w \<and> M w < M v)"
    by (auto simp: rwp_iff)
  show ?case
  proof (cases r)
    case (Inl e)
    with r c show ?thesis by (simp add: rwp_def rloop_step(1))
  next
    case (Inr fl)
    with r c show ?thesis
      by (cases fl) (use less.hyps in \<open>auto simp: rwp_def rloop_step(2,3)\<close>)
  qed
qed

text \<open>One round of a loop.\<close>

lemma wp_loop_unfold:
  assumes "wp (body v) (\<lambda>c t. case c of Return a \<Rightarrow> Q a t | Continue w \<Rightarrow> wp (loop body w) Q E t) E s"
  shows "wp (loop body v) Q E s"
proof -
  from assms obtain r t where r: "body v s = Some (r, t)"
    and c: "case r of Inl e \<Rightarrow> E e t | Inr c \<Rightarrow> (case c of Return a \<Rightarrow> Q a t | Continue w \<Rightarrow> wp (loop body w) Q E t)"
    by (auto simp: wp_iff)
  show ?thesis
  proof (cases r)
    case (Inr fl)
    then show ?thesis using r c by (cases fl) (simp_all add: wp_def loop_step)
  qed (use r c in \<open>simp add: wp_def loop_step\<close>)
qed

text \<open>A loop body that returns at once.\<close>

lemma wp_loop_once:
  assumes "wp (body v) (\<lambda>c t. \<exists>a. c = Return a \<and> Q a t) E s"
  shows "wp (loop body v) Q E s"
  by (rule wp_loop [where I = "\<lambda>w t. w = v \<and> t = s" and M = "\<lambda>_ _. 0"]) (auto intro!: wp_mono [OF assms])

lemma rwp_rloop_once:
  assumes "rwp (body v) (\<lambda>c. \<exists>a. c = Return a \<and> Q a) E"
  shows "rwp (rloop body v) Q E"
  using assms by (auto simp: rwp_def rloop_step split: option.splits sum.splits)

lemma wp_forM:
  assumes "I xs s"
    and "\<And>x xs s. I (x # xs) s \<Longrightarrow> wp (f x) (\<lambda>_ t. I xs t) E s"
  shows "wp (forM xs f) (\<lambda>_ t. I [] t) E s"
  using assms(1)
proof (induction xs arbitrary: s)
  case Nil
  then show ?case by (simp only: forM.simps wp_prim)
next
  case (Cons x xs)
  from assms(2) [OF Cons.prems] show ?case
    by (simp add: wp_simps) (erule wp_mono, auto intro: Cons.IH)
qed

lemma rwp_rfold:
  assumes "I xs a"
    and "\<And>x xs a. I (x # xs) a \<Longrightarrow> rwp (f x a) (\<lambda>b. I xs b) E"
  shows "rwp (rfold f xs a) (\<lambda>b. I [] b) E"
  using assms(1)
proof (induction xs arbitrary: a)
  case Nil
  then show ?case by simp
next
  case (Cons x xs)
  from assms(2) [OF Cons.prems] show ?case
    by (simp add: wp_simps) (erule rwp_mono, auto intro: Cons.IH)
qed

lemma wp_exact: "wp m (\<lambda>c t. c = x \<and> t = u) (\<lambda>_ _. False) s \<longleftrightarrow> m s = Some (Inr x, u)"
proof (cases "m s")
  case (Some rt)
  then show ?thesis by (cases "fst rt") (auto simp: wp_def split: sum.splits prod.splits)
qed (simp add: wp_def)

end
