(* ===== verification/Bytes.thy ===== *)
theory Bytes
  imports Wp
begin

text \<open>
  Little-endian byte strings and slices: \<open>to_le_bytes\<close>, \<open>from_le_bytes\<close>, \<open>get(i..j)\<close> and
  \<open>copy_from_slice\<close> of the Rust standard library, with the round trips the node, blob, header
  and manifest formats rest on.
\<close>

primrec to_le :: "nat \<Rightarrow> 'a::len word \<Rightarrow> bytes" where
  "to_le 0 w = []"
| "to_le (Suc n) w = ucast w # to_le n (drop_bit 8 w)"

primrec from_le :: "bytes \<Rightarrow> 'a::len word" where
  "from_le [] = 0"
| "from_le (b # bs) = ucast b OR push_bit 8 (from_le bs)"

abbreviation u16_le :: "u16 \<Rightarrow> bytes" where "u16_le \<equiv> to_le 2"
abbreviation u32_le :: "u32 \<Rightarrow> bytes" where "u32_le \<equiv> to_le 4"
abbreviation u64_le :: "u64 \<Rightarrow> bytes" where "u64_le \<equiv> to_le 8"

text \<open>\<open>bytes.get(i..j)\<close> and the in-place \<open>bytes[i..i + n].copy_from_slice(src)\<close>.\<close>

definition slice :: "'a list \<Rightarrow> usize \<Rightarrow> usize \<Rightarrow> 'a list option" where
  "slice xs i j = (if i \<le> j \<and> j \<le> length xs then Some (take (j - i) (drop i xs)) else None)"

definition splice :: "'a list \<Rightarrow> usize \<Rightarrow> 'a list \<Rightarrow> 'a list" where
  "splice xs i ys = take i xs @ ys @ drop (i + length ys) xs"

lemma length_to_le [simp]: "length (to_le n w) = n"
  by (induction n arbitrary: w) simp_all

lemma bit_from_le:
  "bit (from_le bs :: 'a::len word) n \<longleftrightarrow>
     n < LENGTH('a) \<and> n < 8 * length bs \<and> bit (bs ! (n div 8)) (n mod 8)"
proof (induction bs arbitrary: n)
  case Nil
  then show ?case by simp
next
  case (Cons b bs)
  show ?case
  proof (cases "n < 8")
    case True
    then show ?thesis by (auto simp: bit_simps)
  next
    case False
    then obtain m where m: "n = m + 8" by (metis le_add_diff_inverse2 not_less)
    have "\<not> bit b (m + 8)" by (auto dest: bit_imp_le_length)
    moreover have "(m + 8) div 8 = Suc (m div 8)" by simp
    ultimately show ?thesis using Cons.IH [of m] by (auto simp: m bit_simps)
  qed
qed

lemma to_le_nth: "i < n \<Longrightarrow> to_le n w ! i = ucast (drop_bit (8 * i) w)"
proof (induction n arbitrary: w i)
  case 0
  then show ?case by simp
next
  case (Suc n)
  then show ?case by (cases i) (simp_all add: add.commute)
qed

lemma bit_to_le_nth:
  "i < n \<Longrightarrow> j < 8 \<Longrightarrow> bit (to_le n w ! i) j \<longleftrightarrow> bit w (8 * i + j)"
  by (simp add: to_le_nth bit_simps ac_simps)

lemma from_le_to_le:
  assumes "LENGTH('a) \<le> 8 * n"
  shows "from_le (to_le n (w :: 'a::len word)) = w"
proof (rule bit_word_eqI)
  fix i
  assume i: "i < LENGTH('a)"
  with assms have "i div 8 < n" by (simp add: less_mult_imp_div_less mult.commute)
  with i assms show "bit (from_le (to_le n w) :: 'a word) i = bit w i"
    by (simp add: bit_from_le bit_to_le_nth)
qed

lemma to_le_from_le:
  assumes "LENGTH('a) = 8 * n" and "length bs = n"
  shows "to_le n (from_le bs :: 'a::len word) = bs"
proof (rule nth_equalityI)
  show "length (to_le n (from_le bs :: 'a word)) = length bs" using assms by simp
next
  fix i
  assume "i < length (to_le n (from_le bs :: 'a word))"
  then have i: "i < n" by simp
  show "to_le n (from_le bs :: 'a word) ! i = bs ! i"
  proof (rule bit_word_eqI)
    fix j
    assume "j < LENGTH(8)"
    then have j: "j < 8" by simp
    then have d: "(8 * i + j) div 8 = i" "(8 * i + j) mod 8 = j" by simp_all
    show "bit (to_le n (from_le bs :: 'a word) ! i) j = bit (bs ! i) j"
      using i j assms d by (simp add: bit_to_le_nth bit_from_le)
  qed
qed

lemma u64_le_inverse [simp]: "from_le (u64_le w) = w"
  by (rule from_le_to_le) simp

lemma u32_le_inverse [simp]: "from_le (u32_le w) = w"
  by (rule from_le_to_le) simp

lemma u16_le_inverse [simp]: "from_le (u16_le w) = w"
  by (rule from_le_to_le) simp

lemma u64_le_of_bytes [simp]: "length bs = 8 \<Longrightarrow> u64_le (from_le bs) = bs"
  by (rule to_le_from_le) simp_all

lemma u32_le_of_bytes [simp]: "length bs = 4 \<Longrightarrow> u32_le (from_le bs) = bs"
  by (rule to_le_from_le) simp_all

lemma u16_le_of_bytes [simp]: "length bs = 2 \<Longrightarrow> u16_le (from_le bs) = bs"
  by (rule to_le_from_le) simp_all

lemma u64_le_inj [simp]: "u64_le a = u64_le b \<longleftrightarrow> a = b"
  by (metis u64_le_inverse)

lemma length_splice [simp]:
  "i + length ys \<le> length xs \<Longrightarrow> length (splice xs i ys) = length xs"
  by (simp add: splice_def)

lemma slice_Some [simp]:
  "i \<le> j \<Longrightarrow> j \<le> length xs \<Longrightarrow> slice xs i j = Some (take (j - i) (drop i xs))"
  by (simp add: slice_def)

lemma slice_splice_same:
  "i + length ys \<le> length xs \<Longrightarrow> slice (splice xs i ys) i (i + length ys) = Some ys"
  by (simp add: slice_def splice_def)

lemma nth_splice:
  assumes "i + length ys \<le> length xs" and "k < length xs"
  shows "splice xs i ys ! k = (if i \<le> k \<and> k < i + length ys then ys ! (k - i) else xs ! k)"
  using assms by (auto simp: splice_def nth_append)

lemma slice_splice_disjoint:
  assumes "i + length ys \<le> length xs" and "b \<le> i \<or> i + length ys \<le> a" and "b \<le> length xs"
  shows "slice (splice xs i ys) a b = slice xs a b"
proof (cases "a \<le> b")
  case True
  have "take (b - a) (drop a (splice xs i ys)) = take (b - a) (drop a xs)"
    using assms True by (intro nth_equalityI) (auto simp: nth_splice)
  then show ?thesis using True assms by (simp add: slice_def)
next
  case False
  then show ?thesis by (simp add: slice_def)
qed

end
