(* ===== verification/Layout.thy ===== *)
theory Layout
  imports Bytes
begin

text \<open>
  src/layout.rs: the constants of the persistent format and \<open>align_up\<close>; src/config.rs: the
  database configuration and its validation.
\<close>

definition FORMAT_PAGE_SIZE :: u64 where "FORMAT_PAGE_SIZE = 65536"
definition DATA_START :: u64 where "DATA_START = FORMAT_PAGE_SIZE"
definition HEADS_START :: u64 where "HEADS_START = FORMAT_PAGE_SIZE"

definition NODE_SIZE :: usize where "NODE_SIZE = 32"
definition NODE_SIZE_U64 :: u64 where "NODE_SIZE_U64 = 32"
definition NODE_ALIGNMENT :: u64 where "NODE_ALIGNMENT = 32"
definition NODE_KEY_OFFSET :: usize where "NODE_KEY_OFFSET = 0"
definition NODE_VALUE_OFFSET :: usize where "NODE_VALUE_OFFSET = 16"
definition NODE_POINTER_OFFSET :: usize where "NODE_POINTER_OFFSET = 24"
definition NODE_CHECKSUM_SHIFT :: nat where "NODE_CHECKSUM_SHIFT = 48"
definition NODE_POINTER_MASK :: u64 where "NODE_POINTER_MASK = push_bit NODE_CHECKSUM_SHIFT 1 - 1"
definition NODE_CHECKSUM_SEED :: u64 where "NODE_CHECKSUM_SEED = 0x4341534e4f444532"

definition VALUE_BLOB_TAG :: u64 where "VALUE_BLOB_TAG = push_bit 63 1"
definition VALUE_OFFSET_MASK :: u64 where "VALUE_OFFSET_MASK = NOT VALUE_BLOB_TAG"
definition BLOB_HEADER_SIZE :: usize where "BLOB_HEADER_SIZE = 8"
definition BLOB_CHECKSUM_SEED :: u64 where "BLOB_CHECKSUM_SEED = 0x434153424c4f4232"

lemmas layout_defs =
  FORMAT_PAGE_SIZE_def DATA_START_def HEADS_START_def NODE_SIZE_def NODE_SIZE_U64_def
  NODE_ALIGNMENT_def NODE_KEY_OFFSET_def NODE_VALUE_OFFSET_def NODE_POINTER_OFFSET_def
  NODE_CHECKSUM_SHIFT_def NODE_POINTER_MASK_def NODE_CHECKSUM_SEED_def VALUE_BLOB_TAG_def
  VALUE_OFFSET_MASK_def BLOB_HEADER_SIZE_def BLOB_CHECKSUM_SEED_def

definition align_up :: "u64 \<Rightarrow> u64 \<Rightarrow> u64 option" where
  "align_up value alignment =
     (if alignment = 0 \<or> \<not> is_power_of_two alignment then None
      else let mask = alignment - 1 in
        case checked_add value mask of Some s \<Rightarrow> Some (s AND NOT mask) | None \<Rightarrow> None)"

lemma align_up_eq:
  assumes "is_power_of_two a" and "unat v + (unat a - 1) < 2 ^ 64"
  obtains r where "align_up v a = Some r" "unat r = (unat v + (unat a - 1)) div unat a * unat a"
proof -
  from assms(1) obtain k where k: "k < 64" "a = 2 ^ k" and ak: "unat a = 2 ^ k"
    using is_power_of_two_ex [of a] by auto
  have a0: "a \<noteq> 0" using assms(1) by (simp add: is_power_of_two_def)
  then have a1: "unat (a - 1) = unat a - 1" by (simp add: unat_minus_one)
  let ?s = "v + (a - 1)"
  have s: "unat ?s = unat v + (unat a - 1)"
    using assms(2) a1 by (simp add: unat_add_nowrap)
  have "unat (?s AND NOT (a - 1)) = unat ?s - unat ?s mod 2 ^ k"
    unfolding k(2) by (rule unat_and_not_mask)
  also have "\<dots> = unat ?s div unat a * unat a"
    unfolding ak by (simp add: minus_mod_eq_div_mult)
  finally show thesis
    using that [of "?s AND NOT (a - 1)"] assms a0 a1 s
    by (simp add: align_up_def Let_def checked_add_def)
qed

lemma align_up_None_iff:
  "align_up v a = None \<longleftrightarrow> \<not> is_power_of_two a \<or> 2 ^ 64 \<le> unat v + (unat a - 1)"
proof (cases "is_power_of_two a")
  case True
  then have a0: "a \<noteq> 0" by (simp add: is_power_of_two_def)
  then have "unat (a - 1) = unat a - 1" by (simp add: unat_minus_one)
  with True a0 show ?thesis by (auto simp: align_up_def Let_def checked_add_def)
next
  case False
  then show ?thesis by (simp add: align_up_def)
qed

lemma least_multiple:
  fixes n d :: nat
  assumes "0 < d"
  defines "r \<equiv> (n + (d - 1)) div d * d"
  shows "n \<le> r" "r < n + d" "d dvd m \<Longrightarrow> n \<le> m \<Longrightarrow> r \<le> m"
proof -
  have dm: "r + (n + (d - 1)) mod d = n + (d - 1)" by (simp add: r_def div_mult_mod_eq)
  moreover have "(n + (d - 1)) mod d < d" using assms by simp
  ultimately show n: "n \<le> r" and r: "r < n + d" using assms by linarith+
  assume "d dvd m" "n \<le> m"
  then obtain q where q: "m = d * q" by blast
  have "(n + (d - 1)) div d \<le> (d * q + (d - 1)) div d"
    using \<open>n \<le> m\<close> q by (intro div_le_mono) simp
  also have "\<dots> = q" using assms(1) div_mult_self2 [of d "d - 1" q] by (simp add: add.commute)
  finally have "(n + (d - 1)) div d * d \<le> q * d" by (rule mult_le_mono1)
  then show "r \<le> m" unfolding r_def q by (subst (2) mult.commute)
qed


subsection \<open>Configuration (src/config.rs)\<close>

definition DEFAULT_HASH_SEED :: u64 where "DEFAULT_HASH_SEED = 0"
definition KEY_SIZE :: usize where "KEY_SIZE = 16"
definition MAX_INLINE_VALUE_SIZE :: usize where "MAX_INLINE_VALUE_SIZE = 8"

datatype mode = Set | Map

text \<open>The discriminants of \<open>repr(u8)\<close>, as \<open>config.mode as u64\<close> reads them.\<close>

fun mode_u64 :: "mode \<Rightarrow> u64" where
  "mode_u64 Set = 1"
| "mode_u64 Map = 2"

record config =
  mode :: mode
  bucket_count :: u64
  body_capacity :: u64
  blob_capacity :: u64
  block_size :: u64
  hash_seed :: u64

definition config_new :: "mode \<Rightarrow> u64 \<Rightarrow> config" where
  "config_new m buckets =
     \<lparr>mode = m, bucket_count = buckets, body_capacity = push_bit 30 1,
      blob_capacity = (if m = Map then push_bit 30 1 else 0),
      block_size = push_bit 20 1, hash_seed = DEFAULT_HASH_SEED\<rparr>"

definition validate :: "config \<Rightarrow> unit res" where
  "validate c =
    (if bucket_count c = 0 then Err (InvalidConfig ''bucket count must be nonzero'')
     else if body_capacity c = 0 then Err (InvalidConfig ''body capacity must be nonzero'')
     else if body_capacity c > saturating_sub NODE_POINTER_MASK DATA_START
       then Err (InvalidConfig ''body capacity exceeds the packed node-pointer range'')
     else if mode c = Map \<and> blob_capacity c = 0
       then Err (InvalidConfig ''map mode requires nonzero fallback blob capacity'')
     else if mode c = Set \<and> blob_capacity c \<noteq> 0
       then Err (InvalidConfig ''set mode cannot have blob capacity'')
     else if block_size c < FORMAT_PAGE_SIZE \<or> \<not> is_power_of_two (block_size c)
       then Err (InvalidConfig ''block size must be a power of two no smaller than 65536'')
     else if block_size c > 0xffffffff
       then Err (InvalidConfig ''block size must fit in 32 bits'')
     else if body_capacity c mod block_size c \<noteq> 0
       then Err (InvalidConfig ''body capacity must be block aligned'')
     else if blob_capacity c mod block_size c \<noteq> 0
       then Err (InvalidConfig ''blob capacity must be block aligned'')
     else if NODE_SIZE_U64 > block_size c
       then Err (InvalidConfig ''body page cannot hold one node'')
     else Ok ())"

end
