(* ===== verification/Mapped_File.thy ===== *)
theory Mapped_File
  imports Layout
begin

text \<open>
  src/mapped_file.rs and the Linux and Windows backends of src/platform/. A mapped file is the
  bytes of the backing file, its published length word (whose top bit marks growth in progress)
  and the size of the stable mapping.

  The operating system is not code of the repository. Its part is the list \<open>os_results\<close>: the
  outcomes of the coming system calls on this file, in call order (\<open>None\<close>: the call succeeds;
  once the list is used up, calls succeed). \<open>reserve_limit\<close> is the largest vector reservation
  the process allocator grants, so that every \<open>try_reserve\<close> keeps its error branch.
\<close>

datatype backend = Linux | Windows

definition UNSUPPORTED :: string where
  "UNSUPPORTED = ''Windows cannot preserve stable file mappings with block-by-block file growth''"

record os_env =
  backend :: backend
  os_results :: "io_error option list"
  reserve_limit :: usize

record disk_file = os_env +
  os_length :: u64
  mem :: "nat \<Rightarrow> u8"

record mapped_file = disk_file +
  mapping_length :: usize
  file_length_word :: u64

definition GROWING_BIT :: u64 where "GROWING_BIT = push_bit 63 1"

definition try_reserve :: "usize \<Rightarrow> usize \<Rightarrow> unit res" where
  "try_reserve limit n = (if n \<le> limit then Ok () else Err OutOfMemory)"

subsection \<open>System calls\<close>

definition os_call :: "('a disk_file_scheme, unit) prog" where
  "os_call f = (case os_results f of
       [] \<Rightarrow> Some (Inr (), f)
     | None # rest \<Rightarrow> Some (Inr (), f\<lparr>os_results := rest\<rparr>)
     | Some e # rest \<Rightarrow> Some (Inl (Io e), f\<lparr>os_results := rest\<rparr>))"

text \<open>\<open>File::set_len\<close> cuts the file or extends it with zero bytes.\<close>

definition set_len :: "u64 \<Rightarrow> ('a disk_file_scheme, unit) prog" where
  "set_len n = bnd os_call (\<lambda>_. modify (\<lambda>f.
     f\<lparr>os_length := n,
       mem := (\<lambda>a. if a < unat n \<and> a < unat (os_length f) then mem f a else 0)\<rparr>))"

definition to_i64 :: "u64 \<Rightarrow> unit res" where
  "to_i64 value = (if unat value < 2 ^ 63 then Ok () else Err (InvalidConfig ''file offset exceeds Linux off_t''))"

definition ensure_supported :: "backend \<Rightarrow> unit res" where
  "ensure_supported b = (case b of Linux \<Rightarrow> Ok () | Windows \<Rightarrow> Err (Unsupported UNSUPPORTED))"

definition platform_reserve :: "u64 \<Rightarrow> u64 \<Rightarrow> ('a disk_file_scheme, unit) prog" where
  "platform_reserve offset len =
     bnd (gets backend) (\<lambda>b. case b of
        Windows \<Rightarrow> err (Unsupported UNSUPPORTED)
      | Linux \<Rightarrow> bnd (reads (\<lambda>_. to_i64 offset)) (\<lambda>_. bnd (reads (\<lambda>_. to_i64 len)) (\<lambda>_. os_call)))"

definition mapping_new :: "('a disk_file_scheme, unit) prog" where
  "mapping_new = bnd (gets backend) (\<lambda>b. case b of
     Windows \<Rightarrow> err (Unsupported UNSUPPORTED) | Linux \<Rightarrow> os_call)"

definition mapping_grow :: "(mapped_file, unit) prog" where
  "mapping_grow = bnd (gets backend) (\<lambda>b. case b of
     Windows \<Rightarrow> err (Unsupported UNSUPPORTED) | Linux \<Rightarrow> ok ())"

definition mapping_sync :: "usize \<Rightarrow> (mapped_file, unit) prog" where
  "mapping_sync len = bnd (gets backend) (\<lambda>b. case b of
     Windows \<Rightarrow> err (Unsupported UNSUPPORTED)
   | Linux \<Rightarrow> bnd (gets mapping_length) (\<lambda>m.
       if len > m then err (Corrupt ''sync range exceeds Linux mapping'') else os_call))"

definition mf_advise_heads :: "(mapped_file, unit) prog" where
  "mf_advise_heads = bnd (gets backend) (\<lambda>b. case b of
     Windows \<Rightarrow> err (Unsupported UNSUPPORTED) | Linux \<Rightarrow> os_call)"

subsection \<open>Creating and opening\<close>

definition validate_mapping_length :: "backend \<Rightarrow> u64 \<Rightarrow> unit res" where
  "validate_mapping_length b len =
     (if len = 0 \<or> len mod FORMAT_PAGE_SIZE \<noteq> 0 \<or> len AND GROWING_BIT \<noteq> 0
      then Err (InvalidConfig ''mapping length must be format-page aligned, representable, and nonzero'')
      else ensure_supported b)"

definition mf_map :: "disk_file \<Rightarrow> u64 \<Rightarrow> u64 \<Rightarrow> mapped_file res" where
  "mf_map file len file_len =
     (case mapping_new file of
        None \<Rightarrow> None
      | Some (Inl e, _) \<Rightarrow> Err e
      | Some (Inr _, file') \<Rightarrow>
          Ok (disk_file.extend file' \<lparr>mapping_length = unat len, file_length_word = file_len\<rparr>))"

text \<open>\<open>exists\<close> says whether the path is taken, which \<open>create_new\<close> refuses. The file handle that
  \<open>File::open\<close> would yield is the pair of the environment and the bytes.\<close>

definition mf_create_with_lengths ::
  "os_env \<Rightarrow> bool \<Rightarrow> u64 \<Rightarrow> u64 \<Rightarrow> bool \<Rightarrow> bool \<Rightarrow> mapped_file res" where
  "mf_create_with_lengths env exists len file_len reserve_all reserve_initial =
     rbind (validate_mapping_length (backend env) len) (\<lambda>_.
     rbind (validate_mapping_length (backend env) file_len) (\<lambda>_.
     if file_len > len then Err (InvalidConfig ''initial file length exceeds its mapping'')
     else if exists then Err (Io AlreadyExists)
     else
       (case bnd os_call (\<lambda>_. bnd (set_len file_len) (\<lambda>_.
               if reserve_all \<or> reserve_initial then platform_reserve 0 file_len else ok ()))
             (os_env.extend env \<lparr>os_length = 0, mem = (\<lambda>_. 0)\<rparr>) of
          None \<Rightarrow> None
        | Some (Inl e, _) \<Rightarrow> Err e
        | Some (Inr _, file) \<Rightarrow> mf_map file len file_len)))"

definition mf_create :: "os_env \<Rightarrow> bool \<Rightarrow> u64 \<Rightarrow> bool \<Rightarrow> mapped_file res" where
  "mf_create env exists len reserve_all =
     mf_create_with_lengths env exists len len reserve_all False"

definition mf_create_growable :: "os_env \<Rightarrow> bool \<Rightarrow> u64 \<Rightarrow> u64 \<Rightarrow> mapped_file res" where
  "mf_create_growable env exists maximum_length initial_length =
     mf_create_with_lengths env exists maximum_length initial_length False True"

text \<open>Opening takes what is at the path: \<open>None\<close> when there is no file.\<close>

definition mf_open :: "backend \<Rightarrow> disk_file option \<Rightarrow> u64 \<Rightarrow> mapped_file res" where
  "mf_open b file expected_length =
     rbind (validate_mapping_length b expected_length) (\<lambda>_.
     rbind (ok_or file (Io NotFound)) (\<lambda>file.
     if os_length file \<noteq> expected_length then Err (Corrupt ''mapped file has an unexpected length'')
     else mf_map file expected_length expected_length))"

definition mf_open_growable :: "backend \<Rightarrow> disk_file option \<Rightarrow> u64 \<Rightarrow> mapped_file res" where
  "mf_open_growable b file maximum_length =
     rbind (validate_mapping_length b maximum_length) (\<lambda>_.
     rbind (ok_or file (Io NotFound)) (\<lambda>file.
     rbind (validate_mapping_length b (os_length file)) (\<lambda>_.
     if os_length file > maximum_length
       then Err (Corrupt ''growable file exceeds its configured mapping'')
     else mf_map file maximum_length (os_length file))))"

subsection \<open>Growth\<close>

definition cas_file_length :: "u64 \<Rightarrow> u64 \<Rightarrow> (mapped_file, bool) prog" where
  "cas_file_length expected new f =
     (if file_length_word f = expected then Some (Inr True, f\<lparr>file_length_word := new\<rparr>)
      else Some (Inr False, f))"

definition mf_grow_file :: "u64 \<Rightarrow> u64 \<Rightarrow> (mapped_file, unit) prog" where
  "mf_grow_file old new_length =
     bnd (set_len new_length) (\<lambda>_.
       catch mapping_grow (\<lambda>e. bnd (ignore (set_len old)) (\<lambda>_. err e)))"

definition mf_grow_step :: "u64 \<Rightarrow> (mapped_file, (unit, bool) flow) prog" where
  "mf_grow_step new_length =
     bnd (gets file_length_word) (\<lambda>old.
     if old AND GROWING_BIT \<noteq> 0 then ok (Continue ())
     else if old \<ge> new_length then ok (Return False)
     else let growing = old OR GROWING_BIT in
       bnd (cas_file_length old growing) (\<lambda>swapped.
       if \<not> swapped then ok (Continue ())
       else
         bnd (attempt (mf_grow_file old new_length)) (\<lambda>result.
         let published = (case result of Inr _ \<Rightarrow> new_length | Inl _ \<Rightarrow> old) in
         bnd (cas_file_length growing published) (\<lambda>swapped.
         if \<not> swapped then err (Corrupt ''mapped file growth state changed'')
         else bnd (outcome result) (\<lambda>_. ok (Return True))))))"

definition mf_grow :: "u64 \<Rightarrow> (mapped_file, bool) prog" where
  "mf_grow new_length =
     bnd (reads (\<lambda>f. validate_mapping_length (backend f) new_length)) (\<lambda>_.
     bnd (reads (\<lambda>f. ok_or (u64_try_from (mapping_length f)) (Corrupt ''mapping length cannot be represented''))) (\<lambda>maximum.
     if new_length > maximum then err (CapacityExhausted ''mapped file'')
     else loop (\<lambda>_. mf_grow_step new_length) ()))"

subsection \<open>Range-checked access\<close>

definition mf_file_length :: "mapped_file \<Rightarrow> u64 res" where
  "mf_file_length f =
     rloop (\<lambda>_. let length = file_length_word f in
       if length AND GROWING_BIT = 0 then Ok (Return length) else Ok (Continue ())) ()"

definition checked_range :: "mapped_file \<Rightarrow> u64 \<Rightarrow> u64 \<Rightarrow> unit res" where
  "checked_range f offset len =
     rbind (ok_or (checked_add offset len) (Corrupt ''mapped range overflow'')) (\<lambda>end.
     rbind (mf_file_length f) (\<lambda>n.
     if end > n then Err (Corrupt ''mapped range is beyond the file length'') else Ok ()))"

definition mf_reserve :: "u64 \<Rightarrow> u64 \<Rightarrow> (mapped_file, unit) prog" where
  "mf_reserve offset len =
     bnd (reads (\<lambda>f. checked_range f offset len)) (\<lambda>_. platform_reserve offset len)"

definition mf_sync_all :: "(mapped_file, unit) prog" where
  "mf_sync_all = bnd (reads mf_file_length) (\<lambda>len. bnd (mapping_sync (unat len)) (\<lambda>_. os_call))"

text \<open>Bytes at an address of the mapping.\<close>

definition mread :: "(nat \<Rightarrow> u8) \<Rightarrow> nat \<Rightarrow> nat \<Rightarrow> bytes" where
  "mread m a n = map (\<lambda>i. m (a + i)) [0..<n]"

definition mwrite :: "nat \<Rightarrow> bytes \<Rightarrow> (nat \<Rightarrow> u8) \<Rightarrow> nat \<Rightarrow> u8" where
  "mwrite a bs m = (\<lambda>x. if a \<le> x \<and> x < a + length bs then bs ! (x - a) else m x)"

definition copy_out_into :: "mapped_file \<Rightarrow> u64 \<Rightarrow> usize \<Rightarrow> bytes res" where
  "copy_out_into f offset n =
     rbind (ok_or (u64_try_from n) (Corrupt ''read length overflow'')) (\<lambda>len.
     rbind (checked_range f offset len) (\<lambda>_. Ok (mread (mem f) (unat offset) n)))"

definition copy_out :: "mapped_file \<Rightarrow> u64 \<Rightarrow> usize \<Rightarrow> bytes res" where
  "copy_out f offset n =
     rbind (try_reserve (reserve_limit f) n) (\<lambda>_. copy_out_into f offset n)"

definition copy_in :: "u64 \<Rightarrow> bytes \<Rightarrow> (mapped_file, unit) prog" where
  "copy_in offset input =
     bnd (reads (\<lambda>_. ok_or (u64_try_from (length input)) (Corrupt ''write length overflow''))) (\<lambda>len.
     bnd (reads (\<lambda>f. checked_range f offset len)) (\<lambda>_.
     modify (\<lambda>f. f\<lparr>mem := mwrite (unat offset) input (mem f)\<rparr>)))"

text \<open>A reference to a mapped atomic is its address; the mapping's base is page aligned, so the
  pointer's alignment is the offset's. Loads, stores and compare-exchange act at the address.\<close>

definition mf_atomic_u64 :: "mapped_file \<Rightarrow> u64 \<Rightarrow> nat res" where
  "mf_atomic_u64 f offset =
     rbind (checked_range f offset 8) (\<lambda>_.
     if unat offset mod 8 \<noteq> 0 then Err (Corrupt ''atomic offset is not aligned'') else Ok (unat offset))"

definition mf_atomic_u16 :: "mapped_file \<Rightarrow> u64 \<Rightarrow> nat res" where
  "mf_atomic_u16 f offset =
     rbind (checked_range f offset 2) (\<lambda>_.
     if unat offset mod 2 \<noteq> 0 then Err (Corrupt ''atomic offset is not aligned'') else Ok (unat offset))"

definition load64 :: "mapped_file \<Rightarrow> nat \<Rightarrow> u64" where
  "load64 f a = from_le (mread (mem f) a 8)"

definition load16 :: "mapped_file \<Rightarrow> nat \<Rightarrow> u16" where
  "load16 f a = from_le (mread (mem f) a 2)"

definition store64 :: "nat \<Rightarrow> u64 \<Rightarrow> (mapped_file, unit) prog" where
  "store64 a w = modify (\<lambda>f. f\<lparr>mem := mwrite a (u64_le w) (mem f)\<rparr>)"

definition store16 :: "nat \<Rightarrow> u16 \<Rightarrow> (mapped_file, unit) prog" where
  "store16 a w = modify (\<lambda>f. f\<lparr>mem := mwrite a (u16_le w) (mem f)\<rparr>)"

definition cas64 :: "nat \<Rightarrow> u64 \<Rightarrow> u64 \<Rightarrow> (mapped_file, bool) prog" where
  "cas64 a expected new f =
     (if load64 f a = expected then bnd (store64 a new) (\<lambda>_. ok True) f else ok False f)"

definition cas16 :: "nat \<Rightarrow> u16 \<Rightarrow> u16 \<Rightarrow> (mapped_file, bool) prog" where
  "cas16 a expected new f =
     (if load16 f a = expected then bnd (store16 a new) (\<lambda>_. ok True) f else ok False f)"

subsection \<open>Memory lemmas\<close>

lemma length_mread [simp]: "length (mread m a n) = n"
  by (simp add: mread_def)

lemma nth_mread [simp]: "i < n \<Longrightarrow> mread m a n ! i = m (a + i)"
  by (simp add: mread_def)

lemma mread_cong: "(\<And>x. a \<le> x \<Longrightarrow> x < a + n \<Longrightarrow> m x = m' x) \<Longrightarrow> mread m a n = mread m' a n"
  by (simp add: mread_def)

lemma mread_mwrite_same [simp]: "n = length bs \<Longrightarrow> mread (mwrite a bs m) a n = bs"
  by (intro nth_equalityI) (simp_all add: mwrite_def)

lemma mread_mwrite_disjoint:
  "a + n \<le> b \<or> b + length bs \<le> a \<Longrightarrow> mread (mwrite b bs m) a n = mread m a n"
  by (rule mread_cong) (auto simp: mwrite_def)

lemma mread_sub:
  "i + k \<le> n \<Longrightarrow> take k (drop i (mread m a n)) = mread m (a + i) k"
  by (intro nth_equalityI) (simp_all add: add.assoc)

lemma mread_append: "mread m a (n + k) = mread m a n @ mread m (a + n) k"
  by (intro nth_equalityI) (auto simp: nth_append)

lemma mread_zero: "(\<And>x. a \<le> x \<Longrightarrow> x < a + n \<Longrightarrow> m x = 0) \<Longrightarrow> mread m a n = replicate n 0"
  by (intro nth_equalityI) simp_all

lemma from_le_zero: "from_le (replicate n 0) = 0"
  by (induction n) simp_all

lemma mread_2: "mread m a 2 = [m a, m (a + 1)]"
  by (simp add: mread_def upt_rec)

lemma and_single_bit: "w AND push_bit k 1 = 0 \<longleftrightarrow> \<not> bit w k" for w :: "'a::len word"
  by (simp add: and_exp_eq_0_iff_not_bit)

lemma bit_63_iff: "bit w 63 \<longleftrightarrow> 2 ^ 63 \<le> unat w" for w :: u64
proof -
  have lt: "unat w < 2 * 2 ^ 63" using unat_u64_less [of w] by simp
  have "bit w 63 \<longleftrightarrow> bit (unat w) 63" by (simp add: bit_unsigned_iff)
  also have "\<dots> \<longleftrightarrow> odd (unat w div 2 ^ 63)" by (rule bit_iff_odd)
  also have "\<dots> \<longleftrightarrow> 2 ^ 63 \<le> unat w"
  proof (cases "2 ^ 63 \<le> unat w")
    case True
    with lt have "unat w div 2 ^ 63 = 1" by (intro div_nat_eqI) simp_all
    with True show ?thesis by simp
  next
    case False
    then show ?thesis by simp
  qed
  finally show ?thesis .
qed

lemma growing_clear_iff: "w AND GROWING_BIT = 0 \<longleftrightarrow> unat w < 2 ^ 63"
  unfolding GROWING_BIT_def and_single_bit bit_63_iff by (rule not_le)

subsection \<open>The invariant of an idle file\<close>

text \<open>Between calls no growth is in progress, the published length is the file's, it is a page
  multiple inside the mapping, and the bytes past the end read as zero once the file grows.\<close>

definition mf_inv :: "mapped_file \<Rightarrow> bool" where
  "mf_inv f \<longleftrightarrow> backend f = Linux \<and> os_length f = file_length_word f
     \<and> 0 < unat (file_length_word f) \<and> file_length_word f mod FORMAT_PAGE_SIZE = 0
     \<and> unat (file_length_word f) \<le> mapping_length f \<and> mapping_length f < 2 ^ 63
     \<and> (\<forall>a \<ge> unat (file_length_word f). mem f a = 0)"

lemma mf_inv_idle: "mf_inv f \<Longrightarrow> unat (file_length_word f) < 2 ^ 63"
  by (simp add: mf_inv_def)

lemma mf_file_length_idle:
  "unat (file_length_word f) < 2 ^ 63 \<Longrightarrow> mf_file_length f = Ok (file_length_word f)"
  by (simp add: mf_file_length_def rloop_step(2) growing_clear_iff [THEN iffD2])

lemma mf_file_length_growing:
  "\<not> unat (file_length_word f) < 2 ^ 63 \<Longrightarrow> mf_file_length f = None"
  unfolding mf_file_length_def Let_def growing_clear_iff by (rule rloop_spin) simp

lemma checked_range_idle:
  assumes "unat (file_length_word f) < 2 ^ 63"
  shows "checked_range f offset len = Ok () \<longleftrightarrow> unat offset + unat len \<le> unat (file_length_word f)"
  using assms
  by (auto simp: checked_range_def checked_add_def mf_file_length_idle word_less_nat_alt
      unat_add_nowrap word_le_nat_alt not_less)

lemma checked_range_total:
  assumes "unat (file_length_word f) < 2 ^ 63"
  shows "checked_range f offset len = Ok () \<or> (\<exists>msg. checked_range f offset len = Err (Corrupt msg))"
  using assms by (auto simp: checked_range_def checked_add_def mf_file_length_idle)

lemma copy_out_into_idle:
  assumes "mf_inv f"
  shows "copy_out_into f offset n = Ok bs \<longleftrightarrow>
     unat offset + n \<le> unat (file_length_word f) \<and> bs = mread (mem f) (unat offset) n"
proof (cases "n < 2 ^ 64")
  case True
  then show ?thesis using checked_range_idle [OF mf_inv_idle [OF assms], of offset "of_nat n"]
    by (auto simp: copy_out_into_def rbind_Ok_iff unat_of_nat_u64)
next
  case False
  then show ?thesis using mf_inv_idle [OF assms] by (simp add: copy_out_into_def u64_try_from_def)
qed

lemma copy_out_idle:
  assumes "mf_inv f" and "n \<le> reserve_limit f"
  shows "copy_out f offset n = Ok bs \<longleftrightarrow>
     unat offset + n \<le> unat (file_length_word f) \<and> bs = mread (mem f) (unat offset) n"
  using assms by (simp add: copy_out_def try_reserve_def copy_out_into_idle)

declare applied [simp]

lemma copy_in_idle:
  assumes "mf_inv f" and "unat offset + length bs \<le> unat (file_length_word f)"
  shows "copy_in offset bs f = Some (Inr (), f\<lparr>mem := mwrite (unat offset) bs (mem f)\<rparr>)"
proof -
  have "length bs < 2 ^ 64" using assms mf_inv_idle [OF assms(1)] by simp
  moreover have "checked_range f offset (of_nat (length bs)) = Ok ()"
    using assms mf_inv_idle [OF assms(1)]
    by (simp add: checked_range_idle unat_of_nat_u64 [OF \<open>length bs < 2 ^ 64\<close>])
  ultimately show ?thesis by (simp add: copy_in_def)
qed

lemma mf_inv_mwrite:
  assumes "mf_inv f" and "a + length bs \<le> unat (file_length_word f)"
  shows "mf_inv (f\<lparr>mem := mwrite a bs (mem f)\<rparr>)"
  using assms by (auto simp: mf_inv_def mwrite_def)

lemma mf_atomic_idle:
  assumes "mf_inv f"
  shows "mf_atomic_u64 f offset = Ok a \<longleftrightarrow>
      unat offset + 8 \<le> unat (file_length_word f) \<and> unat offset mod 8 = 0 \<and> a = unat offset"
    and "mf_atomic_u16 f offset = Ok a \<longleftrightarrow>
      unat offset + 2 \<le> unat (file_length_word f) \<and> unat offset mod 2 = 0 \<and> a = unat offset"
  using checked_range_idle [OF mf_inv_idle [OF assms], of offset]
  by (auto simp: mf_atomic_u64_def mf_atomic_u16_def rbind_Ok_iff)

lemma load_store [simp]:
  "load64 (f\<lparr>mem := mwrite a (u64_le w) m\<rparr>) a = w"
  "load16 (f\<lparr>mem := mwrite a (u16_le v) m\<rparr>) a = v"
  by (simp_all add: load64_def load16_def)

subsection \<open>Growth\<close>

lemma os_call_cases:
  obtains (ok) rest where "os_call f = Some (Inr (), f\<lparr>os_results := rest\<rparr>)" "rest = tl (os_results f)"
  | (failed) rest io where "os_call f = Some (Inl (Io io), f\<lparr>os_results := rest\<rparr>)" "os_results f \<noteq> []"
proof (cases "os_results f")
  case Nil
  then show thesis using ok [of "[]"] by (simp add: os_call_def)
next
  case (Cons a rest)
  then show thesis using ok failed by (cases a) (simp_all add: os_call_def)
qed

lemma mf_grow_step_eval:
  assumes "mf_inv f" and "old = file_length_word f" and "old < n"
  shows "os_call f = Some (Inr (), f\<lparr>os_results := rest\<rparr>) \<Longrightarrow>
      mf_grow_step n f = Some (Inr (Return True), f\<lparr>os_results := rest, os_length := n,
        mem := (\<lambda>a. if a < unat n \<and> a < unat (os_length f) then mem f a else 0), file_length_word := n\<rparr>)"
    and "os_call f = Some (Inl e, f\<lparr>os_results := rest\<rparr>) \<Longrightarrow>
      mf_grow_step n f = Some (Inl e, f\<lparr>os_results := rest\<rparr>)"
proof -
  have idle: "old AND GROWING_BIT = 0" and lin: "backend f = Linux"
    using assms mf_inv_idle [OF assms(1)] by (simp_all add: growing_clear_iff mf_inv_def)
  have oc: "os_call (f\<lparr>file_length_word := w\<rparr>) = map_option (\<lambda>(r, g). (r, g\<lparr>file_length_word := w\<rparr>)) (os_call f)" for w
    by (simp add: os_call_def split: list.splits option.splits)
  show "os_call f = Some (Inr (), f\<lparr>os_results := rest\<rparr>) \<Longrightarrow>
      mf_grow_step n f = Some (Inr (Return True), f\<lparr>os_results := rest, os_length := n,
        mem := (\<lambda>a. if a < unat n \<and> a < unat (os_length f) then mem f a else 0), file_length_word := n\<rparr>)"
    using assms idle lin
    by (simp add: mf_grow_step_def Let_def bnd_def cas_file_length_def attempt_def mf_grow_file_def
        set_len_def catch_def mapping_grow_def oc not_le cong: if_cong)
  show "os_call f = Some (Inl e, f\<lparr>os_results := rest\<rparr>) \<Longrightarrow>
      mf_grow_step n f = Some (Inl e, f\<lparr>os_results := rest\<rparr>)"
    using assms idle lin
    by (simp add: mf_grow_step_def Let_def bnd_def cas_file_length_def attempt_def mf_grow_file_def
        set_len_def catch_def oc not_le)
qed

lemma mf_grow_cases:
  assumes inv: "mf_inv f"
  obtains (invalid) e where "mf_grow n f = Some (Inl e, f)"
      "\<not> (validate_mapping_length Linux n = Ok () \<and> unat n \<le> mapping_length f)"
  | (enough) "mf_grow n f = Some (Inr False, f)" "n \<le> file_length_word f"
  | (grown) rest where "file_length_word f < n" "unat n \<le> mapping_length f" "n mod FORMAT_PAGE_SIZE = 0"
      "mf_grow n f = Some (Inr True, f\<lparr>os_results := rest, os_length := n, file_length_word := n\<rparr>)"
      "rest = tl (os_results f)"
  | (failed) rest io where "mf_grow n f = Some (Inl (Io io), f\<lparr>os_results := rest\<rparr>)"
      "os_results f \<noteq> []" "file_length_word f < n"
proof (cases "validate_mapping_length Linux n = Ok () \<and> unat n \<le> mapping_length f")
  case False
  have lin: "backend f = Linux" using inv by (simp add: mf_inv_def)
  have ml: "mapping_length f < 2 ^ 64" using inv by (simp add: mf_inv_def)
  have "\<exists>e. mf_grow n f = Some (Inl e, f)"
    using False lin ml
    by (auto simp: mf_grow_def validate_mapping_length_def ensure_supported_def word_less_nat_alt
        unat_of_nat_u64 split: if_splits)
  then show thesis using invalid False by blast
next
  case True
  have lin: "backend f = Linux" using inv by (simp add: mf_inv_def)
  have ml: "mapping_length f < 2 ^ 64" using inv by (simp add: mf_inv_def)
  have pg: "n mod FORMAT_PAGE_SIZE = 0" using True by (auto simp: validate_mapping_length_def split: if_splits)
  have g: "mf_grow n f = loop (\<lambda>_. mf_grow_step n) () f"
    using True lin ml
    by (simp add: mf_grow_def word_less_nat_alt unat_of_nat_u64 not_less)
  show thesis
  proof (cases "file_length_word f < n")
    case False
    have "file_length_word f AND GROWING_BIT = 0"
      using mf_inv_idle [OF inv] by (simp add: growing_clear_iff)
    with False have "mf_grow_step n f = Some (Inr (Return False), f)"
      by (simp add: mf_grow_step_def Let_def not_less)
    then show thesis using enough False by (simp add: g loop_step(2) not_less)
  next
    case lt: True
    have z: "(\<lambda>a. if a < unat n \<and> a < unat (os_length f) then mem f a else 0) = mem f"
      using inv lt by (auto simp: mf_inv_def word_less_nat_alt fun_eq_iff)
    show thesis
    proof (cases rule: os_call_cases [of f])
      case (ok rest)
      from mf_grow_step_eval(1) [OF inv refl lt ok(1)] show thesis
        using grown [of rest] lt True pg ok(2) by (simp add: g loop_step(2) z)
    next
      case os: (failed rest io)
      from mf_grow_step_eval(2) [OF inv refl lt os(1)] show thesis
        using failed [of io rest] os(2) lt by (simp add: g loop_step(1))
    qed
  qed
qed

subsection \<open>Creation\<close>

lemma os_call_frame:
  assumes "os_call f = Some (r, g)"
  shows "\<exists>rest. g = f\<lparr>os_results := rest\<rparr>"
  using assms by (cases rule: os_call_cases [of f]) auto

lemma platform_reserve_frame:
  assumes "platform_reserve offset len f = Some (r, g)"
  shows "\<exists>rest. g = f\<lparr>os_results := rest\<rparr>"
proof -
  have f: "\<exists>rest. f = f\<lparr>os_results := rest\<rparr>" by (rule exI [of _ "os_results f"]) simp
  from assms f show ?thesis
    by (cases "backend f") (auto simp: platform_reserve_def to_i64_def split: if_splits dest: os_call_frame)
qed

lemma validate_mapping_length_Ok:
  "validate_mapping_length b n = Ok () \<longleftrightarrow>
     b = Linux \<and> n \<noteq> 0 \<and> n mod FORMAT_PAGE_SIZE = 0 \<and> unat n < 2 ^ 63"
  by (cases b) (auto simp: validate_mapping_length_def ensure_supported_def growing_clear_iff)

lemma mf_create_with_lengths_Ok:
  assumes "mf_create_with_lengths env ex len file_len ra ri = Ok f"
  shows "mf_inv f \<and> file_length_word f = file_len \<and> mapping_length f = unat len
     \<and> mem f = (\<lambda>_. 0) \<and> reserve_limit f = reserve_limit env"
proof -
  let ?f0 = "os_env.extend env \<lparr>os_length = 0, mem = (\<lambda>_. 0)\<rparr> :: disk_file"
  from assms have v: "validate_mapping_length (backend env) len = Ok ()"
      "validate_mapping_length (backend env) file_len = Ok ()" and le: "\<not> file_len > len"
    by (auto simp: mf_create_with_lengths_def rbind_Ok_iff split: if_splits)
  from assms obtain g where g: "bnd os_call (\<lambda>_. bnd (set_len file_len) (\<lambda>_.
        if ra \<or> ri then platform_reserve 0 file_len else ok ())) ?f0 = Some (Inr (), g)"
      and m: "mf_map g len file_len = Ok f"
    by (auto simp: mf_create_with_lengths_def rbind_Ok_iff split: if_splits option.splits sum.splits)
  have lin: "backend env = Linux" using v by (simp add: validate_mapping_length_Ok)
  from g obtain rest where g': "g = ?f0\<lparr>os_results := rest, os_length := file_len\<rparr>"
    using lin
    by (auto simp: bnd_Ok_iff set_len_def os_env.defs disk_file.defs
        split: if_splits dest!: os_call_frame platform_reserve_frame)
  from m obtain rest' where "f = disk_file.extend (g\<lparr>os_results := rest'\<rparr>)
      \<lparr>mapping_length = unat len, file_length_word = file_len\<rparr>"
    by (cases "backend g") (auto simp: mf_map_def mapping_new_def split: option.splits sum.splits
        dest!: os_call_frame)
  then show ?thesis using v le lin
    by (auto simp: g' mf_inv_def validate_mapping_length_Ok os_env.defs disk_file.defs
        unat_eq_0 word_le_nat_alt not_less intro: gr0I)
qed

lemma mf_create_with_lengths_succeeds:
  assumes "validate_mapping_length (backend env) len = Ok ()"
    and "validate_mapping_length (backend env) file_len = Ok ()"
    and "file_len \<le> len" and "os_results env = []"
  shows "\<exists>f. mf_create_with_lengths env False len file_len ra ri = Ok f \<and> os_results f = []"
proof -
  have lin: "backend env = Linux" and n: "unat file_len < 2 ^ 63"
    using assms by (simp_all add: validate_mapping_length_Ok)
  then show ?thesis using assms
    by (auto simp: mf_create_with_lengths_def bnd_def os_call_def set_len_def platform_reserve_def to_i64_def
        mf_map_def mapping_new_def os_env.defs disk_file.defs not_less)
qed

text \<open>C18. Growing an idle file always returns, whatever the system calls answer, and keeps the
  file's invariant and all its bytes: on success the published length is the new one, a request
  within the current length changes nothing, and an error leaves both lengths as they were.\<close>

theorem mf_grow_correct:
  assumes "mf_inv f"
  shows "\<exists>r f'. mf_grow n f = Some (r, f') \<and> mf_inv f'
     \<and> mapping_length f' = mapping_length f \<and> mem f' = mem f
     \<and> (case r of Inr True \<Rightarrow> file_length_word f < n \<and> file_length_word f' = n
          | Inr False \<Rightarrow> n \<le> file_length_word f \<and> f' = f
          | Inl e \<Rightarrow> file_length_word f' = file_length_word f \<and> os_length f' = os_length f)"
  using assms
proof (cases rule: mf_grow_cases [of f n])
  case (grown rest)
  then have "mf_inv (f\<lparr>os_results := rest, os_length := n, file_length_word := n\<rparr>)"
    using assms by (auto simp: mf_inv_def word_less_nat_alt)
  with grown show ?thesis by simp
qed (use assms in \<open>auto simp: mf_inv_def\<close>)

theorem mf_grow_correct_witness:
  "\<exists>r f'. mf_grow 131072 \<lparr>backend = Linux, os_results = [Some (OtherIo ''ENOSPC'')], reserve_limit = 0,
        os_length = 65536, mem = (\<lambda>_. 0), mapping_length = 196608, file_length_word = 65536\<rparr> = Some (r, f')
     \<and> mf_inv f' \<and> file_length_word f' \<in> {65536, 131072}"
proof -
  let ?f = "\<lparr>backend = Linux, os_results = [Some (OtherIo ''ENOSPC'')], reserve_limit = 0,
        os_length = 65536, mem = (\<lambda>_. 0), mapping_length = 196608, file_length_word = 65536\<rparr>"
  have "mf_inv ?f" by (simp add: mf_inv_def layout_defs)
  from mf_grow_correct [OF this, of 131072] obtain r f' where r: "mf_grow 131072 ?f = Some (r, f')"
    and i: "mf_inv f'" and c: "case r of Inr True \<Rightarrow> file_length_word ?f < 131072 \<and> file_length_word f' = 131072
          | Inr False \<Rightarrow> 131072 \<le> file_length_word ?f \<and> f' = ?f
          | Inl e \<Rightarrow> file_length_word f' = file_length_word ?f \<and> os_length f' = os_length ?f"
    by blast
  from c have "file_length_word f' \<in> {65536, 131072}"
    by (simp split: sum.splits bool.splits)
  with r i show ?thesis by blast
qed

declare applied [simp del]

end
