(* ===== verification/Allocator.thy ===== *)
theory Allocator
  imports Mapped_File
begin

text \<open>
  src/allocator.rs: the page allocator over a data file and a count file. The state is the
  \<open>BlockAllocator\<close> of the source; the poison flag of its \<open>RwLock\<close> is kept, its blocking is not
  (a single thread never waits for itself). Every \<open>loop\<close> with a compare-exchange keeps its retry
  branch, and a spin loop whose condition holds never returns.
\<close>

definition HIGH_WATER_OFFSET :: u64 where "HIGH_WATER_OFFSET = 0"
definition COUNTS_START :: u64 where "COUNTS_START = FORMAT_PAGE_SIZE"
definition CURRENT_INSTALLING :: u64 where "CURRENT_INSTALLING = - 1"
definition USED_MASK :: u64 where "USED_MASK = 0xffffffff"
definition LIVE_SHIFT :: nat where "LIVE_SHIFT = 32"
definition LIVE_MASK :: u64 where "LIVE_MASK = push_bit LIVE_SHIFT 0xffff"
definition STATE_SHIFT :: nat where "STATE_SHIFT = 56"
definition U16_MAX :: u16 where "U16_MAX = - 1"
definition MAX_LIVE :: u16 where "MAX_LIVE = U16_MAX - 1"

lemmas alloc_consts =
  HIGH_WATER_OFFSET_def COUNTS_START_def CURRENT_INSTALLING_def USED_MASK_def LIVE_SHIFT_def
  LIVE_MASK_def STATE_SHIFT_def U16_MAX_def MAX_LIVE_def

datatype current_state_kind = Empty | Open | Sealing

fun state_u64 :: "current_state_kind \<Rightarrow> u64" where
  "state_u64 Empty = 0"
| "state_u64 Open = 1"
| "state_u64 Sealing = 2"

record allocation =
  alloc_offset :: u64
  alloc_length :: u32
  alloc_block :: u64

record allocation_batch =
  batch_offset :: u64
  batch_length :: u32
  batch_stride :: u32
  batch_count :: u32
  batch_block :: u64

definition batch_len :: "allocation_batch \<Rightarrow> usize" where
  "batch_len b = unat (batch_count b)"

definition allocations :: "allocation_batch \<Rightarrow> allocation list" where
  "allocations b = map (\<lambda>index.
     \<lparr>alloc_offset = batch_offset b + of_nat index * ucast (batch_stride b),
      alloc_length = batch_length b, alloc_block = batch_block b\<rparr>) [0..<unat (batch_count b)]"

record block_allocator =
  al_data :: mapped_file
  al_counts :: mapped_file
  al_capacity :: u64
  al_block_size :: u64
  al_block_count :: u64
  current_block :: u64
  current_word :: u64
  current_guard_poisoned :: bool

definition on_data :: "(mapped_file, 'a) prog \<Rightarrow> (block_allocator, 'a) prog" where
  "on_data = zoom al_data (\<lambda>d al. al\<lparr>al_data := d\<rparr>)"

definition on_counts :: "(mapped_file, 'a) prog \<Rightarrow> (block_allocator, 'a) prog" where
  "on_counts = zoom al_counts (\<lambda>c al. al\<lparr>al_counts := c\<rparr>)"

definition current_guard :: "block_allocator \<Rightarrow> unit res" where
  "current_guard al = (if current_guard_poisoned al
     then Err (Corrupt ''allocator current-page lock is poisoned'') else Ok ())"

definition cas_current_block :: "u64 \<Rightarrow> u64 \<Rightarrow> (block_allocator, bool) prog" where
  "cas_current_block expected new al =
     (if current_block al = expected then Some (Inr True, al\<lparr>current_block := new\<rparr>)
      else Some (Inr False, al))"

definition cas_current_word :: "u64 \<Rightarrow> u64 \<Rightarrow> (block_allocator, bool) prog" where
  "cas_current_word expected new al =
     (if current_word al = expected then Some (Inr True, al\<lparr>current_word := new\<rparr>)
      else Some (Inr False, al))"

definition store_current_block :: "u64 \<Rightarrow> (block_allocator, unit) prog" where
  "store_current_block w = modify (\<lambda>al. al\<lparr>current_block := w\<rparr>)"

definition store_current_word :: "u64 \<Rightarrow> (block_allocator, unit) prog" where
  "store_current_word w = modify (\<lambda>al. al\<lparr>current_word := w\<rparr>)"

subsection \<open>The packed word of the unfinished page\<close>

definition pack_current :: "current_state_kind \<Rightarrow> u64 \<Rightarrow> u16 \<Rightarrow> u64 res" where
  "pack_current state used live =
     rbind (ok_or (u32_try_from used) (CapacityExhausted ''page offset'')) (\<lambda>used.
     Ok (push_bit STATE_SHIFT (state_u64 state) OR push_bit LIVE_SHIFT (ucast live) OR ucast used))"

definition current_used :: "u64 \<Rightarrow> u64" where
  "current_used word = word AND USED_MASK"

definition current_live :: "u64 \<Rightarrow> u16" where
  "current_live word = ucast (drop_bit LIVE_SHIFT (word AND LIVE_MASK))"

definition current_state :: "u64 \<Rightarrow> current_state_kind res" where
  "current_state word =
     (let s = (ucast (drop_bit STATE_SHIFT word) :: u8) in
      if s = 0 then Ok Empty else if s = 1 then Ok Open else if s = 2 then Ok Sealing
      else Err (Corrupt ''unknown unfinished-page state''))"

definition encode_block :: "u64 \<Rightarrow> u64 res" where
  "encode_block block = ok_or (checked_add block 1) (CapacityExhausted ''page index'')"

definition decode_block :: "u64 \<Rightarrow> u64 res" where
  "decode_block encoded = ok_or (checked_sub encoded 1) (Corrupt ''encoded page index is null'')"

subsection \<open>File sizes\<close>

definition validate_layout :: "u64 \<Rightarrow> u64 \<Rightarrow> unit res" where
  "validate_layout capacity bs =
     (if capacity = 0 \<or> bs < FORMAT_PAGE_SIZE \<or> \<not> is_power_of_two bs
        then Err (InvalidConfig ''invalid page allocator layout'')
      else if capacity mod bs \<noteq> 0 \<or> bs > 0xffffffff
        then Err (InvalidConfig ''allocator capacity or page size is not representable'')
      else let block_count = capacity div bs in
        if block_count = 0 \<or> block_count > 0xffffffff
        then Err (InvalidConfig ''allocator page count is not representable'')
      else Ok ())"

definition count_file_length :: "u64 \<Rightarrow> u64 res" where
  "count_file_length blocks =
     ok_or (Option.bind (checked_mul blocks 2) (\<lambda>bytes.
            Option.bind (checked_add bytes COUNTS_START) (\<lambda>bytes. align_up bytes FORMAT_PAGE_SIZE)))
       (InvalidConfig ''page-count file size overflow'')"

definition data_file_length :: "u64 \<Rightarrow> u64 \<Rightarrow> u64 res" where
  "data_file_length blocks bs =
     ok_or (Option.bind (checked_mul blocks bs) (\<lambda>bytes. checked_add bytes DATA_START))
       (InvalidConfig ''data file size overflow'')"

definition file_lengths :: "u64 \<Rightarrow> u64 \<Rightarrow> (u64 \<times> u64 \<times> u64) res" where
  "file_lengths capacity bs =
     (let block_count = capacity div bs in
      rbind (data_file_length block_count bs) (\<lambda>d.
      rbind (count_file_length block_count) (\<lambda>c. Ok (d, c, block_count))))"

subsection \<open>Reading the count file\<close>

definition high_water :: "block_allocator \<Rightarrow> nat res" where
  "high_water al = mf_atomic_u64 (al_counts al) HIGH_WATER_OFFSET"

definition next_block_value :: "block_allocator \<Rightarrow> u64 res" where
  "next_block_value al =
     rbind (high_water al) (\<lambda>a. rloop (\<lambda>_.
       let value = load64 (al_counts al) a in
       if value AND GROWING_BIT = 0 then Ok (Return value) else Ok (Continue ())) ())"

definition closed_block_value :: "block_allocator \<Rightarrow> u64 res" where
  "closed_block_value al =
     rbind (high_water al) (\<lambda>a.
       let value = load64 (al_counts al) a in
       if value AND GROWING_BIT \<noteq> 0 then Err (Corrupt ''allocator was closed while growing'') else Ok value)"

definition count_offset :: "u64 \<Rightarrow> u64 option" where
  "count_offset block = Option.bind (checked_mul block 2) (\<lambda>value. checked_add value COUNTS_START)"

definition count_word :: "block_allocator \<Rightarrow> u64 \<Rightarrow> nat res" where
  "count_word al block =
     (if block \<ge> al_block_count al then Err (Corrupt ''page index is out of range'')
      else rbind (ok_or (count_offset block) (Corrupt ''page-count offset overflow''))
             (mf_atomic_u16 (al_counts al)))"

definition read_count :: "block_allocator \<Rightarrow> u64 \<Rightarrow> u16 res" where
  "read_count al block =
     (if block \<ge> al_block_count al then Err (Corrupt ''page index is out of range'')
      else rbind (ok_or (count_offset block) (Corrupt ''page-count offset overflow'')) (\<lambda>offset.
           rbind (copy_out (al_counts al) offset 2) (\<lambda>bytes. Ok (from_le bytes))))"

definition data_offset :: "block_allocator \<Rightarrow> u64 \<Rightarrow> u64 res" where
  "data_offset al block =
     ok_or (Option.bind (checked_mul block (al_block_size al)) (checked_add DATA_START))
       (CapacityExhausted ''page offset'')"

definition count_snapshot :: "block_allocator \<Rightarrow> u64 \<Rightarrow> bytes res" where
  "count_snapshot al hw =
     rbind (ok_or (checked_mul hw 2) (Corrupt ''count snapshot length overflow'')) (\<lambda>bytes.
     copy_out (al_counts al) COUNTS_START (unat bytes))"

definition snapshot_count :: "bytes \<Rightarrow> usize \<Rightarrow> u16 res" where
  "snapshot_count snapshot index =
     rbind (ok_or (usize_checked_mul index 2) (Corrupt ''count snapshot offset overflow'')) (\<lambda>offset.
     rbind (ok_or (slice snapshot offset (offset + 2)) (Corrupt ''count snapshot is truncated'')) (\<lambda>bytes.
     Ok (from_le bytes)))"

text \<open>\<open>chunks_exact(2)\<close>: whole pairs, a trailing odd byte is dropped.\<close>

fun chunks2 :: "bytes \<Rightarrow> bytes list" where
  "chunks2 (a # b # rest) = [a, b] # chunks2 rest"
| "chunks2 _ = []"

definition is_candidate :: "u16 \<Rightarrow> bytes \<Rightarrow> bool" where
  "is_candidate maximum_live bytes =
     (let count = from_le bytes :: u16 in count \<noteq> 0 \<and> count \<noteq> U16_MAX \<and> count \<le> maximum_live)"

definition blocks_below_load :: "block_allocator \<Rightarrow> u16 \<Rightarrow> u64 list res" where
  "blocks_below_load al maximum_live =
     rbind (current_guard al) (\<lambda>_.
     rbind (next_block_value al) (\<lambda>hw.
     rbind (count_snapshot al hw) (\<lambda>snapshot.
     let candidate_count = length (filter (is_candidate maximum_live) (chunks2 snapshot)) in
     rbind (try_reserve (reserve_limit (al_counts al)) candidate_count) (\<lambda>_.
     Ok (map (of_nat \<circ> fst) (filter (\<lambda>(_, bytes). is_candidate maximum_live bytes)
           (enumerate 0 (chunks2 snapshot))))))))"

subsection \<open>Finding a run of free pages\<close>

datatype simd = Scalar | Avx2 | Neon

definition zero_mask_scalar :: "bytes \<Rightarrow> u32" where
  "zero_mask_scalar bytes =
     fold (\<lambda>(lane, value) mask. if value = [0, 0] then mask OR push_bit lane 1 else mask)
       (enumerate 0 (chunks2 bytes)) 0"

text \<open>The AVX2 routine compares the 16 lanes with zero (all ones or all zeros per lane), takes
  the top bit of each of the 32 bytes, and folds bit pairs back into lanes.\<close>

definition cmpeq_zero_epi16 :: "bytes \<Rightarrow> u16 list" where
  "cmpeq_zero_epi16 bytes = map (\<lambda>v. if (from_le v :: u16) = 0 then - 1 else 0) (chunks2 bytes)"

definition movemask_epi8 :: "bytes \<Rightarrow> u32" where
  "movemask_epi8 bytes = fold (\<lambda>(i, b) mask. if bit b 7 then mask OR push_bit i 1 else mask)
     (enumerate 0 bytes) 0"

definition zero_mask_16_avx2 :: "bytes \<Rightarrow> u32" where
  "zero_mask_16_avx2 bytes =
     (let byte_mask = movemask_epi8 (concat (map u16_le (cmpeq_zero_epi16 bytes))) in
      fold (\<lambda>lane lane_mask.
          if byte_mask AND push_bit (lane * 2) 3 = push_bit (lane * 2) 3
          then lane_mask OR push_bit lane 1 else lane_mask) [0..<16] 0)"

definition zero_mask_16_neon :: "bytes \<Rightarrow> u32" where
  "zero_mask_16_neon bytes =
     fold (\<lambda>half mask.
       fold (\<lambda>(lane, value) mask. if value = U16_MAX then mask OR push_bit (half * 8 + lane) 1 else mask)
         (enumerate 0 (cmpeq_zero_epi16 (take 16 (drop (half * 16) bytes)))) mask) [0..<2] 0"

definition zero_mask_16 :: "simd \<Rightarrow> bytes \<Rightarrow> u32" where
  "zero_mask_16 simd bytes = (case simd of Avx2 \<Rightarrow> zero_mask_16_avx2 bytes
     | Neon \<Rightarrow> zero_mask_16_neon bytes | Scalar \<Rightarrow> zero_mask_scalar bytes)"

record zero_run =
  best_start :: usize
  best_length :: usize
  run_start :: usize
  run_length :: usize
  run_claimable :: bool

text \<open>One entry of the scan, the body both loops share.\<close>

definition run_step :: "bytes \<Rightarrow> usize \<Rightarrow> bool \<Rightarrow> zero_run \<Rightarrow> zero_run res" where
  "run_step snapshot index is_zero st =
     (if is_zero then
        rbind (if run_length st = 0 then
                 rbind (if index = 0 then Ok True
                        else rbind (snapshot_count snapshot (index - 1)) (\<lambda>c. Ok (c \<noteq> U16_MAX))) (\<lambda>claimable.
                 Ok (st\<lparr>run_start := index, run_claimable := claimable\<rparr>))
               else Ok st) (\<lambda>st.
        let st = st\<lparr>run_length := run_length st + 1\<rparr> in
        Ok (if run_claimable st \<and> run_length st > best_length st
            then st\<lparr>best_start := run_start st, best_length := run_length st\<rparr> else st))
      else Ok (st\<lparr>run_length := 0\<rparr>))"

function scan16 :: "simd \<Rightarrow> bytes \<Rightarrow> usize \<Rightarrow> usize \<Rightarrow> zero_run \<Rightarrow> (usize \<times> zero_run) res" where
  "scan16 simd snapshot entries index st =
     (if index + 16 \<le> entries then
        rbind (ok_or (usize_checked_mul index 2) (Corrupt ''count snapshot offset overflow'')) (\<lambda>offset.
        rbind (ok_or (slice snapshot offset (offset + 32)) (Corrupt ''count snapshot is truncated'')) (\<lambda>values.
        let zeroes = zero_mask_16 simd values in
        rbind (rfold (\<lambda>lane. run_step snapshot (index + lane) (zeroes AND push_bit lane 1 \<noteq> 0)) [0..<16] st)
          (scan16 simd snapshot entries (index + 16))))
      else Ok (index, st))"
  by pat_completeness auto
termination
  by (relation "measure (\<lambda>(_, _, entries, index, _). entries - index)") auto

function scan1 :: "bytes \<Rightarrow> usize \<Rightarrow> usize \<Rightarrow> zero_run \<Rightarrow> zero_run res" where
  "scan1 snapshot entries index st =
     (if index < entries then
        rbind (ok_or (usize_checked_mul index 2) (Corrupt ''count snapshot offset overflow'')) (\<lambda>offset.
        rbind (ok_or (slice snapshot offset (offset + 2)) (Corrupt ''count snapshot is truncated'')) (\<lambda>bytes.
        rbind (run_step snapshot index (bytes = [0, 0]) st) (scan1 snapshot entries (index + 1))))
      else Ok st)"
  by pat_completeness auto
termination
  by (relation "measure (\<lambda>(_, entries, index, _). entries - index)") auto

declare scan16.simps [simp del] scan1.simps [simp del]

definition longest_zero_run :: "simd \<Rightarrow> block_allocator \<Rightarrow> u64 \<Rightarrow> u64 option res" where
  "longest_zero_run simd al hw =
     (if hw = 0 then Ok None
      else rbind (count_snapshot al hw) (\<lambda>snapshot.
           let entries = unat hw in
           rbind (scan16 simd snapshot entries 0
             \<lparr>best_start = 0, best_length = 0, run_start = 0, run_length = 0, run_claimable = True\<rparr>) (\<lambda>(index, st).
           rbind (scan1 snapshot entries index st) (\<lambda>st.
           if best_length st = 0 then Ok None
           else rbind (ok_or (u64_try_from (best_start st)) (Corrupt ''free-page index overflow'')) (\<lambda>b.
                Ok (Some b))))))"

subsection \<open>Growth\<close>

text \<open>The closure that resizes both files.\<close>

definition grow_files :: "u64 \<Rightarrow> u64 \<Rightarrow> u64 \<Rightarrow> (block_allocator, unit) prog" where
  "grow_files old new pages =
     bnd (gets al_block_size) (\<lambda>bs.
     bnd (lift (count_file_length new)) (\<lambda>c.
     bnd (on_counts (mf_grow c)) (\<lambda>_.
     bnd (lift (data_file_length new bs)) (\<lambda>d.
     bnd (on_data (mf_grow d)) (\<lambda>_.
     bnd (reads (\<lambda>al. data_offset al old)) (\<lambda>off.
     on_data (mf_reserve off (pages * bs))))))))"

definition grow_step :: "u64 \<Rightarrow> nat \<Rightarrow> (block_allocator, (unit, unit) flow) prog" where
  "grow_step requested_bytes hw =
     bnd (gets (\<lambda>al. load64 (al_counts al) hw)) (\<lambda>old.
     bnd (gets id) (\<lambda>al.
     if old AND GROWING_BIT \<noteq> 0 then ok (Continue ())
     else if old \<ge> al_block_count al then err (CapacityExhausted ''mapped file'')
     else
       bnd (lift (ok_or (checked_add requested_bytes (al_block_size al - 1)) (CapacityExhausted ''allocation growth''))) (\<lambda>r.
       let requested_pages = r div al_block_size al;
           pages = min (max requested_pages 1) (al_block_count al - old) in
       bnd (lift (ok_or (checked_add old pages) (CapacityExhausted ''page count''))) (\<lambda>new.
       bnd (on_counts (cas64 hw old (old OR GROWING_BIT))) (\<lambda>swapped.
       if \<not> swapped then ok (Continue ())
       else
         bnd (attempt (grow_files old new pages)) (\<lambda>result.
         let published = (case result of Inr _ \<Rightarrow> new | Inl _ \<Rightarrow> old) in
         bnd (on_counts (cas64 hw (old OR GROWING_BIT) published)) (\<lambda>swapped.
         if \<not> swapped then err (Corrupt ''allocator growth state changed'')
         else bnd (outcome result) (\<lambda>_. ok (Return ())))))))))"

definition al_grow :: "u64 \<Rightarrow> (block_allocator, unit) prog" where
  "al_grow requested_bytes = bnd (reads high_water) (\<lambda>hw. loop (\<lambda>_. grow_step requested_bytes hw) ())"

subsection \<open>The current page\<close>

definition claim_step :: "simd \<Rightarrow> u64 \<Rightarrow> (block_allocator, (unit, u64) flow) prog" where
  "claim_step simd requested_bytes =
     bnd (reads next_block_value) (\<lambda>hw.
     bnd (reads (\<lambda>al. longest_zero_run simd al hw)) (\<lambda>run.
     case run of
       Some block \<Rightarrow>
         bnd (reads (\<lambda>al. count_word al block)) (\<lambda>a.
         bnd (on_counts (cas16 a 0 U16_MAX)) (\<lambda>swapped.
         if swapped then ok (Return block) else ok (Continue ())))
     | None \<Rightarrow> bnd (al_grow requested_bytes) (\<lambda>_. ok (Continue ()))))"

definition claim_page :: "simd \<Rightarrow> u64 \<Rightarrow> (block_allocator, u64) prog" where
  "claim_page simd requested_bytes = loop (\<lambda>_. claim_step simd requested_bytes) ()"

definition install_current :: "simd \<Rightarrow> u64 \<Rightarrow> (block_allocator, unit) prog" where
  "install_current simd requested_bytes =
     bnd (reads current_guard) (\<lambda>_.
     bnd (cas_current_block 0 CURRENT_INSTALLING) (\<lambda>swapped.
     if \<not> swapped then ok ()
     else bnd (attempt (claim_page simd requested_bytes)) (\<lambda>result.
       case result of
         Inr block \<Rightarrow>
           bnd (lift (pack_current Open 0 0)) (\<lambda>w.
           bnd (store_current_word w) (\<lambda>_.
           bnd (lift (encode_block block)) (\<lambda>b. store_current_block b)))
       | Inl error \<Rightarrow> bnd (store_current_block 0) (\<lambda>_. err error))))"

definition seal_step :: "u64 \<Rightarrow> u64 \<Rightarrow> u64 option \<Rightarrow> (block_allocator, (unit, unit) flow) prog" where
  "seal_step encoded block nxt =
     bnd (gets current_word) (\<lambda>old.
     bnd (lift (current_state old)) (\<lambda>st.
     if st \<noteq> Open then
       bnd (store_current_block encoded) (\<lambda>_. err (Corrupt ''unfinished page state is not open''))
     else
       bnd (lift (pack_current Sealing (current_used old) (current_live old))) (\<lambda>sealing.
       bnd (cas_current_word old sealing) (\<lambda>swapped.
       if \<not> swapped then ok (Continue ())
       else
         bnd (reads (\<lambda>al. count_word al block)) (\<lambda>a.
         bnd (on_counts (cas16 a U16_MAX (current_live old))) (\<lambda>swapped.
         if \<not> swapped then
           bnd (store_current_block encoded) (\<lambda>_. err (Corrupt ''unfinished page count marker changed''))
         else case nxt of
           Some next \<Rightarrow>
             bnd (reads (\<lambda>al. count_word al next)) (\<lambda>a'.
             bnd (on_counts (store16 a' U16_MAX)) (\<lambda>_.
             bnd (lift (pack_current Open 0 0)) (\<lambda>w.
             bnd (store_current_word w) (\<lambda>_.
             bnd (lift (encode_block next)) (\<lambda>b.
             bnd (store_current_block b) (\<lambda>_. ok (Return ())))))))
         | None \<Rightarrow>
             bnd (store_current_word 0) (\<lambda>_.
             bnd (store_current_block 0) (\<lambda>_. ok (Return ())))))))))"

definition seal_next :: "u64 \<Rightarrow> bool \<Rightarrow> block_allocator \<Rightarrow> u64 option res" where
  "seal_next block continue_run al =
     (if continue_run then
        rbind (ok_or (checked_add block 1) (CapacityExhausted ''page index'')) (\<lambda>next.
        rbind (next_block_value al) (\<lambda>hw.
        if next < hw then rbind (read_count al next) (\<lambda>c. Ok (if c = 0 then Some next else None))
        else Ok None))
      else Ok None)"

definition seal_current_block :: "u64 \<Rightarrow> bool \<Rightarrow> (block_allocator, unit) prog" where
  "seal_current_block encoded continue_run =
     bnd (reads current_guard) (\<lambda>_.
     bnd (lift (decode_block encoded)) (\<lambda>block.
     bnd (reads (seal_next block continue_run)) (\<lambda>nxt.
     bnd (cas_current_block encoded CURRENT_INSTALLING) (\<lambda>swapped.
     if \<not> swapped then ok () else loop (\<lambda>_. seal_step encoded block nxt) ()))))"

definition seal_current :: "(block_allocator, unit) prog" where
  "seal_current = loop (\<lambda>_.
     bnd (gets current_block) (\<lambda>encoded.
     if encoded = CURRENT_INSTALLING then ok (Continue ())
     else if encoded = 0 then ok (Return ())
     else bnd (seal_current_block encoded False) (\<lambda>_. ok (Return ())))) ()"

subsection \<open>Allocation\<close>

definition allocate_step ::
  "simd \<Rightarrow> u64 \<Rightarrow> u64 \<Rightarrow> u64 \<Rightarrow> u32 \<Rightarrow> u64 \<Rightarrow> (block_allocator, (unit, allocation_batch) flow) prog" where
  "allocate_step simd len alignment stride requested growth_bytes =
     bnd (reads current_guard) (\<lambda>_.
     bnd (gets current_block) (\<lambda>encoded.
     if encoded = CURRENT_INSTALLING then ok (Continue ())
     else if encoded = 0 then bnd (install_current simd growth_bytes) (\<lambda>_. ok (Continue ()))
     else
       bnd (lift (decode_block encoded)) (\<lambda>block.
       bnd (gets current_word) (\<lambda>old.
       bnd (lift (current_state old)) (\<lambda>st.
       if st \<noteq> Open then ok (Continue ())
       else
         bnd (lift (ok_or (align_up (current_used old) alignment) (CapacityExhausted ''page offset''))) (\<lambda>start.
         let old_live = current_live old in
         bnd (lift (ok_or (checked_add start len) (CapacityExhausted ''page offset''))) (\<lambda>first_end.
         bnd (gets al_block_size) (\<lambda>bs.
         if first_end > bs \<or> old_live = MAX_LIVE then
           bnd (seal_current_block encoded True) (\<lambda>_. ok (Continue ()))
         else
           bnd (lift (ok_or (checked_add 1 ((bs - first_end) div stride)) (CapacityExhausted ''batch allocation count''))) (\<lambda>fitting.
           let fitting = (case u32_try_from fitting of Some n \<Rightarrow> n | None \<Rightarrow> - 1);
               reserved = min (min requested fitting) (ucast (MAX_LIVE - old_live)) in
           bnd (lift (ok_or (Option.bind (checked_add start (saturating_mul (ucast (reserved - 1)) stride))
                               (\<lambda>offset. checked_add offset len)) (CapacityExhausted ''page offset''))) (\<lambda>end.
           bnd (lift (ok_or (u16_try_from reserved) (CapacityExhausted ''page live-allocation count''))) (\<lambda>n.
           bnd (lift (ok_or (checked_add old_live n) (CapacityExhausted ''page live-allocation count''))) (\<lambda>live.
           bnd (lift (pack_current Open end live)) (\<lambda>new.
           bnd (cas_current_word old new) (\<lambda>swapped.
           if \<not> swapped then ok (Continue ())
           else
             bnd (reads (\<lambda>al. data_offset al block)) (\<lambda>base.
             bnd (lift (ok_or (checked_add base start) (CapacityExhausted ''allocation offset''))) (\<lambda>offset.
             bnd (lift (ok_or (u32_try_from len) (CapacityExhausted ''allocation length''))) (\<lambda>len32.
             bnd (lift (ok_or (u32_try_from stride) (CapacityExhausted ''allocation stride''))) (\<lambda>stride32.
             ok (Return \<lparr>batch_offset = offset, batch_length = len32, batch_stride = stride32,
                         batch_count = reserved, batch_block = block\<rparr>)))))))))))))))))))"

definition allocate_batch :: "simd \<Rightarrow> usize \<Rightarrow> u64 \<Rightarrow> usize \<Rightarrow> (block_allocator, allocation_batch) prog" where
  "allocate_batch simd size_in alignment maximum_count =
     bnd (lift (ok_or (u64_try_from size_in) (CapacityExhausted ''allocation''))) (\<lambda>len.
     bnd (gets al_block_size) (\<lambda>bs.
     if len = 0 \<or> len > bs \<or> maximum_count = 0 then err (CapacityExhausted ''single-page allocation'')
     else if alignment = 0 \<or> \<not> is_power_of_two alignment \<or> alignment > bs
       then err (InvalidConfig ''allocation alignment is invalid'')
     else
       bnd (lift (ok_or (align_up len alignment) (CapacityExhausted ''allocation stride''))) (\<lambda>stride.
       let requested = min (if maximum_count < 2 ^ 32 then of_nat maximum_count else - 1) (ucast MAX_LIVE) :: u32 in
       bnd (lift (ok_or (checked_mul stride (ucast requested)) (CapacityExhausted ''batch allocation size''))) (\<lambda>growth_bytes.
       loop (\<lambda>_. allocate_step simd len alignment stride requested growth_bytes) ()))))"

definition allocate :: "simd \<Rightarrow> usize \<Rightarrow> u64 \<Rightarrow> (block_allocator, allocation) prog" where
  "allocate simd size_in alignment =
     bnd (allocate_batch simd size_in alignment 1) (\<lambda>b.
     case allocations b of a # _ \<Rightarrow> ok a | [] \<Rightarrow> err (Corrupt ''single allocation batch is empty''))"

subsection \<open>Ranges and release\<close>

definition validate_data_range :: "block_allocator \<Rightarrow> u64 \<Rightarrow> usize \<Rightarrow> unit res" where
  "validate_data_range al offset size_in =
     rbind (ok_or (u64_try_from size_in) (Corrupt ''data length overflow'')) (\<lambda>len.
     rbind (ok_or (checked_sub offset DATA_START) (Corrupt ''data offset points into the file header'')) (\<lambda>relative.
     rbind (ok_or (checked_add relative len) (Corrupt ''data range overflow'')) (\<lambda>end.
     if end > al_capacity al then Err (Corrupt ''data range is out of bounds'') else Ok ())))"

definition allocation_for :: "block_allocator \<Rightarrow> u64 \<Rightarrow> u32 \<Rightarrow> allocation res" where
  "allocation_for al offset len =
     rbind (validate_data_range al offset (unat len)) (\<lambda>_.
     rbind (ok_or (checked_sub offset DATA_START) (Corrupt ''allocation points into the file header'')) (\<lambda>relative.
     let block = relative div al_block_size al in
     rbind (ok_or (checked_add relative (ucast len)) (Corrupt ''allocation range overflow'')) (\<lambda>end_relative.
     if saturating_sub end_relative 1 div al_block_size al \<noteq> block
     then Err (Corrupt ''allocation crosses a page boundary'')
     else Ok \<lparr>alloc_offset = offset, alloc_length = len, alloc_block = block\<rparr>)))"

definition validate_allocation :: "block_allocator \<Rightarrow> allocation \<Rightarrow> unit res" where
  "validate_allocation al a =
     rbind (allocation_for al (alloc_offset a) (alloc_length a)) (\<lambda>expected.
     if alloc_block expected \<noteq> alloc_block a then Err (Corrupt ''allocation page does not match its offset'')
     else Ok ())"

definition validate_release :: "block_allocator \<Rightarrow> allocation \<Rightarrow> unit res" where
  "validate_release al a =
     rbind (validate_allocation al a) (\<lambda>_.
     rloop (\<lambda>_.
       rbind (current_guard al) (\<lambda>_.
       let current = current_block al in
       if current = CURRENT_INSTALLING then Ok (Continue ())
       else
         rbind (if current \<noteq> 0 then rbind (decode_block current) (\<lambda>b. Ok (b = alloc_block a)) else Ok False) (\<lambda>here.
         if here then
           let word = current_word al in
           rbind (current_state word) (\<lambda>st.
           if st = Open \<and> current_live word \<noteq> 0 then Ok (Return ()) else Ok (Continue ()))
         else
           rbind (read_count al (alloc_block a)) (\<lambda>count.
           if count = 0 \<or> count = U16_MAX then Err (Corrupt ''released allocation belongs to an inactive page'')
           else Ok (Return ()))))) ())"

definition release_sealed_step :: "nat \<Rightarrow> u16 \<Rightarrow> (block_allocator, (u16, unit) flow) prog" where
  "release_sealed_step a old =
     (if old = 0 \<or> old = U16_MAX then err (Corrupt ''released allocation belongs to an inactive page'')
      else bnd (on_counts (cas16 a old (old - 1))) (\<lambda>swapped.
           if swapped then ok (Return ())
           else bnd (gets (\<lambda>al. load16 (al_counts al) a)) (\<lambda>actual. ok (Continue actual))))"

definition release_step :: "allocation \<Rightarrow> (block_allocator, (unit, unit) flow) prog" where
  "release_step a =
     bnd (reads current_guard) (\<lambda>_.
     bnd (gets current_block) (\<lambda>current.
     if current = CURRENT_INSTALLING then ok (Continue ())
     else
       bnd (lift (if current \<noteq> 0 then rbind (decode_block current) (\<lambda>b. Ok (b = alloc_block a)) else Ok False)) (\<lambda>here.
       if here then
         bnd (gets current_word) (\<lambda>old.
         bnd (lift (current_state old)) (\<lambda>st.
         if st \<noteq> Open then ok (Continue ())
         else
           bnd (lift (ok_or (checked_sub (current_live old) 1) (Corrupt ''page allocation count underflow''))) (\<lambda>live.
           bnd (lift (pack_current Open (current_used old) live)) (\<lambda>new.
           bnd (cas_current_word old new) (\<lambda>swapped.
           if swapped then ok (Return ()) else ok (Continue ()))))))
       else
         bnd (reads (\<lambda>al. count_word al (alloc_block a))) (\<lambda>addr.
         bnd (reads (\<lambda>al. read_count al (alloc_block a))) (\<lambda>old.
         bnd (loop (release_sealed_step addr) old) (\<lambda>_. ok (Return ())))))))"

definition release_count :: "allocation \<Rightarrow> (block_allocator, unit) prog" where
  "release_count a =
     bnd (reads (\<lambda>al. validate_allocation al a)) (\<lambda>_. loop (\<lambda>_. release_step a) ())"

definition release :: "allocation \<Rightarrow> (block_allocator, unit) prog" where
  "release a = release_count a"

definition block_offset :: "block_allocator \<Rightarrow> u64 \<Rightarrow> u64 res" where
  "block_offset al block = data_offset al block"

definition block_live_count :: "block_allocator \<Rightarrow> u64 \<Rightarrow> u16 res" where
  "block_live_count al block = read_count al block"

subsection \<open>Data access\<close>

definition al_write_at :: "allocation \<Rightarrow> usize \<Rightarrow> bytes \<Rightarrow> (block_allocator, unit) prog" where
  "al_write_at a relative_offset input =
     bnd (lift (ok_or (usize_checked_add relative_offset (length input)) (Corrupt ''write range overflow''))) (\<lambda>end.
     if end > unat (alloc_length a) then err (Corrupt ''write exceeds allocation'')
     else
       bnd (lift (ok_or (u64_try_from relative_offset) (Corrupt ''write offset overflow''))) (\<lambda>r.
       bnd (lift (ok_or (checked_add (alloc_offset a) r) (Corrupt ''write offset overflow''))) (\<lambda>offset.
       on_data (copy_in offset input))))"

definition al_write :: "allocation \<Rightarrow> bytes \<Rightarrow> (block_allocator, unit) prog" where
  "al_write a input = al_write_at a 0 input"

definition al_read :: "block_allocator \<Rightarrow> u64 \<Rightarrow> usize \<Rightarrow> bytes res" where
  "al_read al offset n = rbind (validate_data_range al offset n) (\<lambda>_. copy_out (al_data al) offset n)"

definition al_read_into :: "block_allocator \<Rightarrow> u64 \<Rightarrow> usize \<Rightarrow> bytes res" where
  "al_read_into al offset n = rbind (validate_data_range al offset n) (\<lambda>_. copy_out_into (al_data al) offset n)"

definition al_atomic_u64 :: "block_allocator \<Rightarrow> u64 \<Rightarrow> nat res" where
  "al_atomic_u64 al offset = rbind (validate_data_range al offset 8) (\<lambda>_. mf_atomic_u64 (al_data al) offset)"

definition al_sync_all :: "(block_allocator, unit) prog" where
  "al_sync_all = bnd seal_current (\<lambda>_. bnd (on_data mf_sync_all) (\<lambda>_. on_counts mf_sync_all))"

subsection \<open>Creating and opening\<close>

definition al_create :: "os_env \<Rightarrow> os_env \<Rightarrow> bool \<Rightarrow> bool \<Rightarrow> u64 \<Rightarrow> u64 \<Rightarrow> block_allocator res" where
  "al_create env_data env_counts data_exists counts_exists capacity bs =
     rbind (validate_layout capacity bs) (\<lambda>_.
     rbind (file_lengths capacity bs) (\<lambda>(data_length, count_bytes, block_count).
     rbind (mf_create_growable env_data data_exists data_length DATA_START) (\<lambda>data.
     rbind (mf_create_growable env_counts counts_exists count_bytes COUNTS_START) (\<lambda>counts.
     rbind (exec mf_advise_heads counts) (\<lambda>counts.
     Ok \<lparr>al_data = data, al_counts = counts, al_capacity = capacity, al_block_size = bs,
         al_block_count = block_count, current_block = 0, current_word = 0,
         current_guard_poisoned = False\<rparr>)))))"

definition validate_header :: "block_allocator \<Rightarrow> unit res" where
  "validate_header al =
     rbind (closed_block_value al) (\<lambda>hw.
     if hw > al_block_count al then Err (Corrupt ''allocator high-water mark is out of range'')
     else
       rbind (mf_file_length (al_counts al)) (\<lambda>counts_length.
       rbind (count_file_length hw) (\<lambda>c.
       if counts_length < c then Err (Corrupt ''page-count file is shorter than its high-water mark'')
       else
         rbind (mf_file_length (al_data al)) (\<lambda>data_length.
         rbind (data_file_length hw (al_block_size al)) (\<lambda>d.
         if data_length < d then Err (Corrupt ''data file is shorter than its high-water mark'')
         else
           rbind (count_snapshot al hw) (\<lambda>snapshot.
           if \<exists>bytes \<in> set (chunks2 snapshot). bytes = u16_le U16_MAX
           then Err (Corrupt ''allocator was closed with an unfinished page'') else Ok ()))))))"

definition al_open ::
  "backend \<Rightarrow> disk_file option \<Rightarrow> disk_file option \<Rightarrow> u64 \<Rightarrow> u64 \<Rightarrow> block_allocator res" where
  "al_open b data_file counts_file capacity bs =
     rbind (validate_layout capacity bs) (\<lambda>_.
     rbind (file_lengths capacity bs) (\<lambda>(data_length, count_bytes, block_count).
     rbind (mf_open_growable b data_file data_length) (\<lambda>data.
     rbind (mf_open_growable b counts_file count_bytes) (\<lambda>counts.
     rbind (exec mf_advise_heads counts) (\<lambda>counts.
     let al = \<lparr>al_data = data, al_counts = counts, al_capacity = capacity, al_block_size = bs,
         al_block_count = block_count, current_block = 0, current_word = 0,
         current_guard_poisoned = False\<rparr> in
     rbind (validate_header al) (\<lambda>_. Ok al))))))"

text \<open>\<open>read_high_water\<close> opens the count file by path; a file shorter than eight bytes ends early.\<close>

definition read_high_water :: "disk_file option \<Rightarrow> u64 res" where
  "read_high_water counts_file =
     rbind (ok_or counts_file (Io NotFound)) (\<lambda>f.
     if unat (os_length f) < 8 then Err (Io UnexpectedEof)
     else let hw = from_le (mread (mem f) 0 8) in
       if hw AND GROWING_BIT \<noteq> 0 then Err (Corrupt ''allocator was closed while growing'') else Ok hw)"

end
