(* ===== verification/Hash.thy ===== *)
theory Hash
  imports Bytes
begin

text \<open>
  src/hash.rs: scalar XXH64 and the four-lane AVX2 batch. The intrinsics of \<open>std::arch\<close> act on
  a 256-bit register, modelled as its four 64-bit lanes; each of the source's macros is a
  definition of the same name. The lemmas show that the vector routine computes, lane by lane,
  the scalar digest.
\<close>

definition PRIME_1 :: u64 where "PRIME_1 = 11400714785074694791"
definition PRIME_2 :: u64 where "PRIME_2 = 14029467366897019727"
definition PRIME_3 :: u64 where "PRIME_3 = 1609587929392839161"
definition PRIME_4 :: u64 where "PRIME_4 = 9650029242287828579"
definition PRIME_5 :: u64 where "PRIME_5 = 2870177450012600261"

lemmas prime_defs = PRIME_1_def PRIME_2_def PRIME_3_def PRIME_4_def PRIME_5_def

text \<open>\<open>u64::rotate_left\<close> for a shift below the width.\<close>

definition rotate_left :: "u64 \<Rightarrow> nat \<Rightarrow> u64" where
  "rotate_left w n = push_bit n w OR drop_bit (64 - n) w"

definition round :: "u64 \<Rightarrow> u64 \<Rightarrow> u64" where
  "round accumulator lane = rotate_left (accumulator + lane * PRIME_2) 31 * PRIME_1"

definition merge_round :: "u64 \<Rightarrow> u64 \<Rightarrow> u64" where
  "merge_round accumulator lane = (accumulator XOR round 0 lane) * PRIME_1 + PRIME_4"

definition avalanche :: "u64 \<Rightarrow> u64" where
  "avalanche hash =
     (let hash = hash XOR drop_bit 33 hash;
          hash = hash * PRIME_2;
          hash = hash XOR drop_bit 29 hash;
          hash = hash * PRIME_3
      in hash XOR drop_bit 32 hash)"

definition take_prefix :: "nat \<Rightarrow> bytes \<Rightarrow> (bytes \<times> bytes) option" where
  "take_prefix n input = (if length input < n then None else Some (take n input, drop n input))"

definition hash_read_u64 :: "bytes \<Rightarrow> u64" where
  "hash_read_u64 bs = (if length bs = 8 then from_le bs else 0)"

definition hash_read_u32 :: "bytes \<Rightarrow> u32" where
  "hash_read_u32 bs = (if length bs = 4 then from_le bs else 0)"

text \<open>The three loops of \<open>xxh64\<close>: 32-byte stripes, 8-byte words, single bytes.\<close>

type_synonym lanes4 = "u64 \<times> u64 \<times> u64 \<times> u64"

function stripes :: "lanes4 \<Rightarrow> bytes \<Rightarrow> lanes4 \<times> bytes" where
  "stripes (lane_1, lane_2, lane_3, lane_4) remaining =
     (case take_prefix 32 remaining of
        None \<Rightarrow> ((lane_1, lane_2, lane_3, lane_4), remaining)
      | Some (stripe, tail) \<Rightarrow>
          stripes (round lane_1 (hash_read_u64 (take 8 stripe)),
                   round lane_2 (hash_read_u64 (take 8 (drop 8 stripe))),
                   round lane_3 (hash_read_u64 (take 8 (drop 16 stripe))),
                   round lane_4 (hash_read_u64 (take 8 (drop 24 stripe)))) tail)"
  by pat_completeness auto
termination
  by (relation "measure (\<lambda>(_, r). length r)") (auto simp: take_prefix_def split: if_splits)

function words :: "u64 \<Rightarrow> bytes \<Rightarrow> u64 \<times> bytes" where
  "words hash remaining =
     (case take_prefix 8 remaining of
        None \<Rightarrow> (hash, remaining)
      | Some (word, tail) \<Rightarrow>
          words (rotate_left (hash XOR round 0 (hash_read_u64 word)) 27 * PRIME_1 + PRIME_4) tail)"
  by pat_completeness auto
termination
  by (relation "measure (\<lambda>(_, r). length r)") (auto simp: take_prefix_def split: if_splits)

fun tail_bytes :: "u64 \<Rightarrow> bytes \<Rightarrow> u64" where
  "tail_bytes hash [] = hash"
| "tail_bytes hash (byte # remaining) =
     tail_bytes (rotate_left (hash XOR ucast byte * PRIME_5) 11 * PRIME_1) remaining"

declare stripes.simps [simp del] words.simps [simp del]

definition xxh64 :: "bytes \<Rightarrow> u64 \<Rightarrow> u64" where
  "xxh64 input seed =
    (let (hash, remaining) =
       (if length input \<ge> 32 then
          let ((lane_1, lane_2, lane_3, lane_4), remaining) =
                stripes (seed + PRIME_1 + PRIME_2, seed + PRIME_2, seed, seed - PRIME_1) input;
              combined = rotate_left lane_1 1 + rotate_left lane_2 7
                           + rotate_left lane_3 12 + rotate_left lane_4 18
          in (merge_round (merge_round (merge_round (merge_round combined lane_1) lane_2) lane_3) lane_4,
              remaining)
        else (seed + PRIME_5, input));
       hash = hash + of_nat (length input);
       (hash, remaining) = words hash remaining;
       (hash, remaining) =
         (case take_prefix 4 remaining of
            None \<Rightarrow> (hash, remaining)
          | Some (word, tail) \<Rightarrow>
              (rotate_left (hash XOR ucast (hash_read_u32 word) * PRIME_1) 23 * PRIME_2 + PRIME_3, tail));
       hash = tail_bytes hash remaining
     in avalanche hash)"


subsection \<open>The AVX2 batch\<close>

datatype m256 = M256 u64 u64 u64 u64

fun lane_map :: "(u64 \<Rightarrow> u64) \<Rightarrow> m256 \<Rightarrow> m256" where
  "lane_map f (M256 a b c d) = M256 (f a) (f b) (f c) (f d)"

fun lane_map2 :: "(u64 \<Rightarrow> u64 \<Rightarrow> u64) \<Rightarrow> m256 \<Rightarrow> m256 \<Rightarrow> m256" where
  "lane_map2 f (M256 a b c d) (M256 a' b' c' d') = M256 (f a a') (f b b') (f c c') (f d d')"

definition mm256_add_epi64 :: "m256 \<Rightarrow> m256 \<Rightarrow> m256" where
  "mm256_add_epi64 = lane_map2 (+)"

text \<open>The product of the low 32 bits of each lane, as a 64-bit value.\<close>

definition mm256_mul_epu32 :: "m256 \<Rightarrow> m256 \<Rightarrow> m256" where
  "mm256_mul_epu32 = lane_map2 (\<lambda>a b. take_bit 32 a * take_bit 32 b)"

definition mm256_xor_si256 :: "m256 \<Rightarrow> m256 \<Rightarrow> m256" where
  "mm256_xor_si256 = lane_map2 (XOR)"

definition mm256_or_si256 :: "m256 \<Rightarrow> m256 \<Rightarrow> m256" where
  "mm256_or_si256 = lane_map2 (OR)"

definition mm256_slli_epi64 :: "nat \<Rightarrow> m256 \<Rightarrow> m256" where
  "mm256_slli_epi64 n = lane_map (push_bit n)"

definition mm256_srli_epi64 :: "nat \<Rightarrow> m256 \<Rightarrow> m256" where
  "mm256_srli_epi64 n = lane_map (drop_bit n)"

definition mm256_set1_epi64x :: "u64 \<Rightarrow> m256" where
  "mm256_set1_epi64x a = M256 a a a a"

text \<open>The intrinsic takes its lanes from the highest to the lowest.\<close>

definition mm256_set_epi64x :: "u64 \<Rightarrow> u64 \<Rightarrow> u64 \<Rightarrow> u64 \<Rightarrow> m256" where
  "mm256_set_epi64x e3 e2 e1 e0 = M256 e0 e1 e2 e3"

definition mm_multiply :: "m256 \<Rightarrow> m256 \<Rightarrow> m256" where
  "mm_multiply left right =
     (let low = mm256_mul_epu32 left right;
          left_high = mm256_srli_epi64 32 left;
          right_high = mm256_srli_epi64 32 right;
          cross = mm256_add_epi64 (mm256_mul_epu32 left_high right) (mm256_mul_epu32 left right_high)
      in mm256_add_epi64 low (mm256_slli_epi64 32 cross))"

definition mm_rotate_left :: "m256 \<Rightarrow> nat \<Rightarrow> m256" where
  "mm_rotate_left value shift =
     mm256_or_si256 (mm256_slli_epi64 shift value) (mm256_srli_epi64 (64 - shift) value)"

definition mm_round_lanes :: "m256 \<Rightarrow> m256 \<Rightarrow> m256 \<Rightarrow> m256 \<Rightarrow> m256" where
  "mm_round_lanes accumulator lane prime_1 prime_2 =
     (let mixed = mm_multiply lane prime_2
      in mm_multiply (mm_rotate_left (mm256_add_epi64 accumulator mixed) 31) prime_1)"

definition mm_merge_lanes :: "m256 \<Rightarrow> m256 \<Rightarrow> m256 \<Rightarrow> m256 \<Rightarrow> m256 \<Rightarrow> m256 \<Rightarrow> m256" where
  "mm_merge_lanes accumulator lane zero prime_1 prime_2 prime_4 =
     (let merged = mm256_xor_si256 accumulator (mm_round_lanes zero lane prime_1 prime_2)
      in mm256_add_epi64 (mm_multiply merged prime_1) prime_4)"

type_synonym inputs4 = "bytes \<times> bytes \<times> bytes \<times> bytes"

definition sub :: "bytes \<Rightarrow> nat \<Rightarrow> nat \<Rightarrow> bytes" where
  "sub bs offset n = take n (drop offset bs)"

fun load_u64x4 :: "inputs4 \<Rightarrow> nat \<Rightarrow> m256" where
  "load_u64x4 (i0, i1, i2, i3) offset =
     mm256_set_epi64x (hash_read_u64 (sub i3 offset 8)) (hash_read_u64 (sub i2 offset 8))
       (hash_read_u64 (sub i1 offset 8)) (hash_read_u64 (sub i0 offset 8))"

fun load_u32x4 :: "inputs4 \<Rightarrow> nat \<Rightarrow> m256" where
  "load_u32x4 (i0, i1, i2, i3) offset =
     mm256_set_epi64x (ucast (hash_read_u32 (sub i3 offset 4))) (ucast (hash_read_u32 (sub i2 offset 4)))
       (ucast (hash_read_u32 (sub i1 offset 4))) (ucast (hash_read_u32 (sub i0 offset 4)))"

fun load_u8x4 :: "inputs4 \<Rightarrow> nat \<Rightarrow> m256" where
  "load_u8x4 (i0, i1, i2, i3) offset =
     mm256_set_epi64x (ucast (i3 ! offset)) (ucast (i2 ! offset)) (ucast (i1 ! offset)) (ucast (i0 ! offset))"

abbreviation mm_prime_1 :: m256 where "mm_prime_1 \<equiv> mm256_set1_epi64x PRIME_1"
abbreviation mm_prime_2 :: m256 where "mm_prime_2 \<equiv> mm256_set1_epi64x PRIME_2"
abbreviation mm_prime_3 :: m256 where "mm_prime_3 \<equiv> mm256_set1_epi64x PRIME_3"
abbreviation mm_prime_4 :: m256 where "mm_prime_4 \<equiv> mm256_set1_epi64x PRIME_4"
abbreviation mm_prime_5 :: m256 where "mm_prime_5 \<equiv> mm256_set1_epi64x PRIME_5"
abbreviation mm_zero :: m256 where "mm_zero \<equiv> mm256_set1_epi64x 0"

function mm_stripes ::
  "inputs4 \<Rightarrow> nat \<Rightarrow> m256 \<times> m256 \<times> m256 \<times> m256 \<Rightarrow> nat \<Rightarrow> (m256 \<times> m256 \<times> m256 \<times> m256) \<times> nat" where
  "mm_stripes inputs len (lane_1, lane_2, lane_3, lane_4) offset =
     (if offset + 32 \<le> len then
        mm_stripes inputs len
          (mm_round_lanes lane_1 (load_u64x4 inputs offset) mm_prime_1 mm_prime_2,
           mm_round_lanes lane_2 (load_u64x4 inputs (offset + 8)) mm_prime_1 mm_prime_2,
           mm_round_lanes lane_3 (load_u64x4 inputs (offset + 16)) mm_prime_1 mm_prime_2,
           mm_round_lanes lane_4 (load_u64x4 inputs (offset + 24)) mm_prime_1 mm_prime_2)
          (offset + 32)
      else ((lane_1, lane_2, lane_3, lane_4), offset))"
  by pat_completeness auto
termination
  by (relation "measure (\<lambda>(_, len, _, offset). len - offset)") auto

function mm_words :: "inputs4 \<Rightarrow> nat \<Rightarrow> m256 \<Rightarrow> nat \<Rightarrow> m256 \<times> nat" where
  "mm_words inputs len hash offset =
     (if offset + 8 \<le> len then
        let mixed = mm_round_lanes mm_zero (load_u64x4 inputs offset) mm_prime_1 mm_prime_2;
            hash = mm256_xor_si256 hash mixed;
            hash = mm256_add_epi64 (mm_multiply (mm_rotate_left hash 27) mm_prime_1) mm_prime_4
        in mm_words inputs len hash (offset + 8)
      else (hash, offset))"
  by pat_completeness auto
termination
  by (relation "measure (\<lambda>(_, len, _, offset). len - offset)") auto

function mm_tail :: "inputs4 \<Rightarrow> nat \<Rightarrow> m256 \<Rightarrow> nat \<Rightarrow> m256" where
  "mm_tail inputs len hash offset =
     (if offset < len then
        let hash = mm256_xor_si256 hash (mm_multiply (load_u8x4 inputs offset) mm_prime_5);
            hash = mm_multiply (mm_rotate_left hash 11) mm_prime_1
        in mm_tail inputs len hash (offset + 1)
      else hash)"
  by pat_completeness auto
termination
  by (relation "measure (\<lambda>(_, len, _, offset). len - offset)") auto

declare mm_stripes.simps [simp del] mm_words.simps [simp del] mm_tail.simps [simp del]

text \<open>\<open>i64::try_from(length).unwrap_or(i64::MAX)\<close>, read back as the lane's bits.\<close>

definition length_lane :: "usize \<Rightarrow> u64" where
  "length_lane n = (if n < 2 ^ 63 then of_nat n else 2 ^ 63 - 1)"

definition xxh64_batch4_avx2 :: "inputs4 \<Rightarrow> u64 \<Rightarrow> m256" where
  "xxh64_batch4_avx2 inputs seed =
    (let seed_lanes = mm256_set1_epi64x seed;
         len = length (fst inputs);
         (hash, offset) =
          (if len \<ge> 32 then
             let ((lane_1, lane_2, lane_3, lane_4), offset) =
                   mm_stripes inputs len
                     (mm256_add_epi64 (mm256_add_epi64 seed_lanes mm_prime_1) mm_prime_2,
                      mm256_add_epi64 seed_lanes mm_prime_2,
                      seed_lanes,
                      mm256_add_epi64 seed_lanes (mm256_set1_epi64x (0 - PRIME_1))) 0;
                 combined = mm256_add_epi64
                   (mm256_add_epi64 (mm_rotate_left lane_1 1) (mm_rotate_left lane_2 7))
                   (mm256_add_epi64 (mm_rotate_left lane_3 12) (mm_rotate_left lane_4 18));
                 combined = mm_merge_lanes combined lane_1 mm_zero mm_prime_1 mm_prime_2 mm_prime_4;
                 combined = mm_merge_lanes combined lane_2 mm_zero mm_prime_1 mm_prime_2 mm_prime_4;
                 combined = mm_merge_lanes combined lane_3 mm_zero mm_prime_1 mm_prime_2 mm_prime_4
             in (mm_merge_lanes combined lane_4 mm_zero mm_prime_1 mm_prime_2 mm_prime_4, offset)
           else (mm256_add_epi64 seed_lanes mm_prime_5, 0));
         hash = mm256_add_epi64 hash (mm256_set1_epi64x (length_lane len));
         (hash, offset) = mm_words inputs len hash offset;
         (hash, offset) =
          (if offset + 4 \<le> len then
             let words = load_u32x4 inputs offset;
                 hash = mm256_xor_si256 hash (mm_multiply words mm_prime_1);
                 hash = mm256_add_epi64 (mm_multiply (mm_rotate_left hash 23) mm_prime_2) mm_prime_3
             in (hash, offset + 4)
           else (hash, offset));
         hash = mm_tail inputs len hash offset;
         hash = mm256_xor_si256 hash (mm256_srli_epi64 33 hash);
         hash = mm_multiply hash mm_prime_2;
         hash = mm256_xor_si256 hash (mm256_srli_epi64 29 hash);
         hash = mm_multiply hash mm_prime_3
     in mm256_xor_si256 hash (mm256_srli_epi64 32 hash))"

text \<open>The store of the register into \<open>[u64; 4]\<close>, and the dispatcher; \<open>avx2\<close> is what runtime
  feature detection reports.\<close>

fun mm256_storeu :: "m256 \<Rightarrow> u64 list" where
  "mm256_storeu (M256 a b c d) = [a, b, c, d]"

fun xxh64_batch4 :: "bool \<Rightarrow> inputs4 \<Rightarrow> u64 \<Rightarrow> u64 list" where
  "xxh64_batch4 avx2 (i0, i1, i2, i3) seed =
     (if \<exists>input \<in> set [i1, i2, i3]. length input \<noteq> length i0
        then map (\<lambda>input. xxh64 input seed) [i0, i1, i2, i3]
      else if avx2 then mm256_storeu (xxh64_batch4_avx2 (i0, i1, i2, i3) seed)
      else map (\<lambda>input. xxh64 input seed) [i0, i1, i2, i3])"

subsection \<open>Lane-by-lane correctness of the batch\<close>

fun lane :: "nat \<Rightarrow> m256 \<Rightarrow> u64" where
  "lane i (M256 a b c d) = (if i = 0 then a else if i = 1 then b else if i = 2 then c else d)"

fun input_of :: "nat \<Rightarrow> inputs4 \<Rightarrow> bytes" where
  "input_of i (i0, i1, i2, i3) = (if i = 0 then i0 else if i = 1 then i1 else if i = 2 then i2 else i3)"

named_theorems lanes \<open>each vector operation, seen on one lane\<close>

lemma lane_maps [lanes]:
  "lane i (lane_map f a) = f (lane i a)"
  "lane i (lane_map2 g a b) = g (lane i a) (lane i b)"
  by (cases a; cases b; simp)+

lemma lane_intrinsics [lanes]:
  "lane i (mm256_add_epi64 a b) = lane i a + lane i b"
  "lane i (mm256_xor_si256 a b) = lane i a XOR lane i b"
  "lane i (mm256_or_si256 a b) = lane i a OR lane i b"
  "lane i (mm256_slli_epi64 n a) = push_bit n (lane i a)"
  "lane i (mm256_srli_epi64 n a) = drop_bit n (lane i a)"
  "lane i (mm256_set1_epi64x w) = w"
  by (simp_all add: mm256_add_epi64_def mm256_xor_si256_def mm256_or_si256_def mm256_slli_epi64_def
      mm256_srli_epi64_def mm256_set1_epi64x_def lane_maps)

lemma split_halves: "a = take_bit 32 a + push_bit 32 (drop_bit 32 a)" for a :: u64
  by (metis add.commute bits_ident push_bit_eq_mult)

lemma wide_multiply:
  fixes a b :: u64
  shows "take_bit 32 a * take_bit 32 b
      + push_bit 32 (take_bit 32 (drop_bit 32 a) * take_bit 32 b
                       + take_bit 32 a * take_bit 32 (drop_bit 32 b)) = a * b"
proof -
  have h: "take_bit 32 (drop_bit 32 w) = drop_bit 32 w" for w :: u64
    by (rule bit_word_eqI) (auto simp: bit_simps dest: bit_imp_le_length)
  define la ha lb hb where d: "la = take_bit 32 a" "ha = drop_bit 32 a"
    "lb = take_bit 32 b" "hb = drop_bit 32 b"
  have a: "a = la + ha * 2 ^ 32" and b: "b = lb + hb * 2 ^ 32"
    using split_halves [of a] split_halves [of b] by (simp_all add: d push_bit_eq_mult)
  have z: "(2::u64) ^ 32 * 2 ^ 32 = 0" by simp
  have "a * b = la * lb + (ha * lb + la * hb) * 2 ^ 32 + ha * hb * (2 ^ 32 * 2 ^ 32)"
    unfolding a b by (simp only: algebra_simps)
  also have "\<dots> = la * lb + push_bit 32 (ha * lb + la * hb)"
    by (simp only: z push_bit_eq_mult mult_zero_right add_0_right)
  finally show ?thesis by (simp add: h d)
qed

lemma lane_multiply [lanes]: "lane i (mm_multiply a b) = lane i a * lane i b"
  by (simp only: mm_multiply_def Let_def lane_intrinsics mm256_mul_epu32_def lane_maps wide_multiply)

lemma lane_rotate [lanes]: "lane i (mm_rotate_left a n) = rotate_left (lane i a) n"
  by (simp add: mm_rotate_left_def rotate_left_def lanes)

lemma lane_round [lanes]:
  "lane i (mm_round_lanes a l mm_prime_1 mm_prime_2) = round (lane i a) (lane i l)"
  by (simp add: mm_round_lanes_def round_def lanes Let_def)

lemma lane_merge [lanes]:
  "lane i (mm_merge_lanes a l mm_zero mm_prime_1 mm_prime_2 mm_prime_4) = merge_round (lane i a) (lane i l)"
  by (simp add: mm_merge_lanes_def merge_round_def lanes Let_def)

lemma lane_loads [lanes]:
  "lane i (load_u64x4 inputs offset) = hash_read_u64 (sub (input_of i inputs) offset 8)"
  "lane i (load_u32x4 inputs offset) = ucast (hash_read_u32 (sub (input_of i inputs) offset 4))"
  "lane i (load_u8x4 inputs offset) = ucast (input_of i inputs ! offset)"
  by (cases inputs; simp add: mm256_set_epi64x_def)+

lemma mm_stripes_lane:
  assumes "length (input_of i inputs) = len" and "offset \<le> len"
  shows "case mm_stripes inputs len (a, b, c, d) offset of ((a', b', c', d'), offset') \<Rightarrow>
     offset' \<le> len \<and>
     stripes (lane i a, lane i b, lane i c, lane i d) (drop offset (input_of i inputs))
       = ((lane i a', lane i b', lane i c', lane i d'), drop offset' (input_of i inputs))"
  using assms
proof (induction inputs len "(a, b, c, d)" offset arbitrary: a b c d rule: mm_stripes.induct)
  case (1 inputs len a b c d offset)
  show ?case
  proof (cases "offset + 32 \<le> len")
    case True
    have s: "sub (input_of i inputs) (offset + k) 8 = take 8 (drop k (take 32 (drop offset (input_of i inputs))))"
      if "k + 8 \<le> 32" for k
      using that by (simp add: sub_def drop_take min_def add.commute)
    have s0: "sub (input_of i inputs) offset 8 = take 8 (take 32 (drop offset (input_of i inputs)))"
      using s [of 0] by simp
    note IH = "1.hyps" [OF True "1.prems"(1)]
    show ?thesis
      apply (subst mm_stripes.simps, subst stripes.simps)
      using IH True "1.prems"
      by (auto simp: lanes s s0 take_prefix_def add.commute [of 32] split: prod.splits)
  next
    case False
    with "1.prems" have "len - offset < 32" by linarith
    with False show ?thesis using "1.prems"
      by (simp add: mm_stripes.simps stripes.simps take_prefix_def)
  qed
qed

lemma mm_words_lane:
  assumes "length (input_of i inputs) = len" and "offset \<le> len"
  shows "case mm_words inputs len h offset of (h', offset') \<Rightarrow>
     offset' \<le> len \<and>
     words (lane i h) (drop offset (input_of i inputs)) = (lane i h', drop offset' (input_of i inputs))"
  using assms
proof (induction inputs len h offset rule: mm_words.induct)
  case (1 inputs len h offset)
  show ?case
  proof (cases "offset + 8 \<le> len")
    case True
    note IH = "1.IH" [OF True refl refl refl "1.prems"(1)]
    show ?thesis
      apply (subst mm_words.simps, subst words.simps)
      using IH True "1.prems"
      by (auto simp: lanes sub_def Let_def take_prefix_def add.commute [of 8] split: prod.splits)
  next
    case False
    with "1.prems" have "len - offset < 8" by linarith
    with False show ?thesis using "1.prems"
      by (simp add: mm_words.simps words.simps take_prefix_def)
  qed
qed

lemma mm_tail_lane:
  assumes "length (input_of i inputs) = len" and "offset \<le> len"
  shows "lane i (mm_tail inputs len h offset) = tail_bytes (lane i h) (drop offset (input_of i inputs))"
  using assms
proof (induction inputs len h offset rule: mm_tail.induct)
  case (1 inputs len h offset)
  show ?case
  proof (cases "offset < len")
    case True
    then have "drop offset (input_of i inputs) = input_of i inputs ! offset # drop (offset + 1) (input_of i inputs)"
      using "1.prems" by (simp add: Cons_nth_drop_Suc)
    then show ?thesis using "1.IH" [OF True refl refl "1.prems"(1)] True
      by (subst mm_tail.simps) (simp add: lanes Let_def)
  next
    case False
    then show ?thesis using "1.prems" by (simp add: mm_tail.simps)
  qed
qed

text \<open>The part of both routines after the length has been added.\<close>

definition finish :: "u64 \<Rightarrow> bytes \<Rightarrow> u64" where
  "finish hash remaining =
    (let (hash, remaining) = words hash remaining;
         (hash, remaining) =
         (case take_prefix 4 remaining of
            None \<Rightarrow> (hash, remaining)
          | Some (word, tail) \<Rightarrow>
              (rotate_left (hash XOR ucast (hash_read_u32 word) * PRIME_1) 23 * PRIME_2 + PRIME_3, tail))
     in avalanche (tail_bytes hash remaining))"

definition mm_finish :: "inputs4 \<Rightarrow> nat \<Rightarrow> m256 \<Rightarrow> nat \<Rightarrow> m256" where
  "mm_finish inputs len hash offset =
    (let (hash, offset) = mm_words inputs len hash offset;
         (hash, offset) =
          (if offset + 4 \<le> len then
             let words = load_u32x4 inputs offset;
                 hash = mm256_xor_si256 hash (mm_multiply words mm_prime_1);
                 hash = mm256_add_epi64 (mm_multiply (mm_rotate_left hash 23) mm_prime_2) mm_prime_3
             in (hash, offset + 4)
           else (hash, offset));
         hash = mm_tail inputs len hash offset;
         hash = mm256_xor_si256 hash (mm256_srli_epi64 33 hash);
         hash = mm_multiply hash mm_prime_2;
         hash = mm256_xor_si256 hash (mm256_srli_epi64 29 hash);
         hash = mm_multiply hash mm_prime_3
     in mm256_xor_si256 hash (mm256_srli_epi64 32 hash))"

lemma mm_finish_lane:
  assumes len: "length (input_of i inputs) = len" and off: "offset \<le> len"
  shows "lane i (mm_finish inputs len h offset) = finish (lane i h) (drop offset (input_of i inputs))"
proof -
  obtain h' offset' where w: "mm_words inputs len h offset = (h', offset')" by fastforce
  with mm_words_lane [OF len off, of h] have o: "offset' \<le> len"
    and ws: "words (lane i h) (drop offset (input_of i inputs)) = (lane i h', drop offset' (input_of i inputs))"
    by auto
  show ?thesis
  proof (cases "offset' + 4 \<le> len")
    case True
    then have "\<not> len - offset' < 4" by linarith
    then show ?thesis using True len
      by (simp add: mm_finish_def finish_def w ws take_prefix_def sub_def lanes avalanche_def Let_def
          mm_tail_lane [OF len] add.commute [of 4])
  next
    case False
    then have "len - offset' < 4" using o by linarith
    then show ?thesis using False len o
      by (simp add: mm_finish_def finish_def w ws take_prefix_def lanes avalanche_def Let_def
          mm_tail_lane [OF len])
  qed
qed

lemma xxh64_short: "length input < 32 \<Longrightarrow>
    xxh64 input seed = finish (seed + PRIME_5 + of_nat (length input)) input"
  by (simp add: xxh64_def finish_def Let_def split: prod.splits)

lemma xxh64_long:
  assumes "32 \<le> length input"
    and "stripes (seed + PRIME_1 + PRIME_2, seed + PRIME_2, seed, seed - PRIME_1) input
      = ((a, b, c, d), remaining)"
  shows "xxh64 input seed =
     finish (merge_round (merge_round (merge_round (merge_round
       (rotate_left a 1 + rotate_left b 7 + rotate_left c 12 + rotate_left d 18) a) b) c) d
       + of_nat (length input)) remaining"
  using assms by (simp add: xxh64_def finish_def Let_def split: prod.splits)

lemma avx2_lane:
  assumes len: "length (input_of i inputs) = length (fst inputs)"
    and lt: "length (fst inputs) < 2 ^ 63"
  shows "lane i (xxh64_batch4_avx2 inputs seed) = xxh64 (input_of i inputs) seed"
proof (cases "32 \<le> length (fst inputs)")
  case False
  then have "xxh64_batch4_avx2 inputs seed = mm_finish inputs (length (fst inputs))
      (mm256_add_epi64 (mm256_add_epi64 (mm256_set1_epi64x seed) mm_prime_5)
        (mm256_set1_epi64x (length_lane (length (fst inputs))))) 0"
    by (simp add: xxh64_batch4_avx2_def mm_finish_def Let_def)
  with False lt show ?thesis
    by (simp add: mm_finish_lane [OF len] lanes xxh64_short len length_lane_def)
next
  case True
  let ?s = "mm256_set1_epi64x seed"
  let ?A = "mm256_add_epi64 (mm256_add_epi64 ?s mm_prime_1) mm_prime_2"
  let ?B = "mm256_add_epi64 ?s mm_prime_2"
  let ?D = "mm256_add_epi64 ?s (mm256_set1_epi64x (0 - PRIME_1))"
  obtain a b c d off where s: "mm_stripes inputs (length (fst inputs)) (?A, ?B, ?s, ?D) 0 = ((a, b, c, d), off)"
    by (metis prod.exhaust)
  note st0 = mm_stripes_lane [OF len le0, where a = ?A and b = ?B and c = ?s and d = ?D, unfolded s]
  from st0 have o: "off \<le> length (fst inputs)" by simp
  from st0 have st: "stripes (seed + PRIME_1 + PRIME_2, seed + PRIME_2, seed, seed - PRIME_1) (input_of i inputs)
      = ((lane i a, lane i b, lane i c, lane i d), drop off (input_of i inputs))"
    by (simp add: lanes)
  let ?m = "\<lambda>x y. mm_merge_lanes x y mm_zero mm_prime_1 mm_prime_2 mm_prime_4"
  let ?combined = "mm256_add_epi64 (mm256_add_epi64 (mm_rotate_left a 1) (mm_rotate_left b 7))
                   (mm256_add_epi64 (mm_rotate_left c 12) (mm_rotate_left d 18))"
  have "xxh64_batch4_avx2 inputs seed = mm_finish inputs (length (fst inputs))
      (mm256_add_epi64 (?m (?m (?m (?m ?combined a) b) c) d)
        (mm256_set1_epi64x (length_lane (length (fst inputs))))) off"
    using True by (simp add: xxh64_batch4_avx2_def s [unfolded diff_0] mm_finish_def Let_def)
  with True lt len show ?thesis
    by (simp add: mm_finish_lane [OF len o] xxh64_long [OF _ st] lanes length_lane_def add.assoc)
qed

lemma storeu_lanes: "mm256_storeu v = [lane 0 v, lane 1 v, lane 2 v, lane 3 v]"
  by (cases v) simp

lemma batch4_eq:
  assumes "length i0 < 2 ^ 63"
  shows "xxh64_batch4 avx2 (i0, i1, i2, i3) seed = map (\<lambda>input. xxh64 input seed) [i0, i1, i2, i3]"
proof (cases "length i1 = length i0 \<and> length i2 = length i0 \<and> length i3 = length i0")
  case True
  then have "lane k (xxh64_batch4_avx2 (i0, i1, i2, i3) seed) = xxh64 (input_of k (i0, i1, i2, i3)) seed" for k
    using assms by (intro avx2_lane) auto
  then show ?thesis using True by (simp add: storeu_lanes)
next
  case False
  then show ?thesis by auto
qed

text \<open>C26. For inputs that fit Rust's slice limit, the batch hash (AVX2 or not, equal lengths or
  not) returns, in order, the scalar XXH64 digests of its four inputs.\<close>

theorem xxh64_batch4_scalar:
  assumes "length i0 < 2 ^ 63"
  shows "xxh64_batch4 avx2 (i0, i1, i2, i3) seed = map (\<lambda>input. xxh64 input seed) [i0, i1, i2, i3]"
  using assms by (rule batch4_eq)

theorem xxh64_batch4_scalar_witness:
  "xxh64_batch4 True ([0x61], [0x62], [0x63], [0x61]) 0
     = map (\<lambda>input. xxh64 input 0) [[0x61], [0x62], [0x63], [0x61]]"
  by (rule xxh64_batch4_scalar) simp

text \<open>The scalar digest of the empty string, of \<open>a\<close> and of \<open>abc\<close> with seed 0 are the
  published XXH64 vectors.\<close>

lemma xxh64_vectors:
  "xxh64 [] 0 = 0xef46db3751d8e999 \<and> xxh64 [0x61] 0 = 0xd24ec4f1a98c6e5b
     \<and> xxh64 [0x61, 0x62, 0x63] 0 = 0x44bc2cf5ad770999"
  by (simp add: xxh64_def prime_defs words.simps take_prefix_def avalanche_def rotate_left_def)

end
