(* ===== verification/Node.thy ===== *)
theory Node
  imports Allocator Hash
begin

text \<open>
  src/node.rs: the 32-byte chain node (16-byte key, tagged value, packed pointer whose top
  16 bits are a checksum of key and value and whose low 48 bits are the next offset) and the
  blob header. \<open>node + 24\<close> is the unchecked addition of the source, which wraps.
\<close>

record node =
  node_offset :: u64
  node_next :: u64
  node_value :: u64
  node_key :: bytes

definition node_checksum :: "bytes \<Rightarrow> u64 \<Rightarrow> u16" where
  "node_checksum key value =
     (let checksum = xxh64 key NODE_CHECKSUM_SEED XOR rotate_left value 29;
          folded = checksum XOR drop_bit 16 checksum XOR drop_bit 32 checksum XOR drop_bit 48 checksum;
          bytes = u64_le folded
      in max (from_le (take 2 bytes)) 1)"

definition read_u64 :: "bytes \<Rightarrow> usize \<Rightarrow> u64 res" where
  "read_u64 bytes offset =
     rbind (ok_or (usize_checked_add offset 8) (Corrupt ''node field overflow'')) (\<lambda>end.
     rbind (ok_or (slice bytes offset end) (Corrupt ''node field is out of bounds'')) (\<lambda>source.
     if length source \<noteq> 8 then Err (Corrupt ''invalid u64 field'') else Ok (from_le source)))"

definition serialize_node :: "bytes \<Rightarrow> u64 \<Rightarrow> bytes res" where
  "serialize_node key value =
     (if length key \<noteq> KEY_SIZE then Err (InvalidKeyLength KEY_SIZE (length key))
      else
        let bytes = replicate NODE_SIZE 0;
            bytes = splice bytes NODE_KEY_OFFSET key;
            bytes = splice bytes NODE_VALUE_OFFSET (u64_le value);
            pointer = push_bit NODE_CHECKSUM_SHIFT (ucast (node_checksum key value)) :: u64
        in Ok (splice bytes NODE_POINTER_OFFSET (u64_le pointer)))"

definition allocate_node :: "simd \<Rightarrow> bytes \<Rightarrow> u64 \<Rightarrow> (block_allocator, allocation) prog" where
  "allocate_node simd key value =
     bnd (lift (serialize_node key value)) (\<lambda>bytes.
     bnd (allocate simd NODE_SIZE NODE_ALIGNMENT) (\<lambda>a.
     bnd (catch (al_write a bytes) (\<lambda>e. bnd (ignore (release a)) (\<lambda>_. err e))) (\<lambda>_.
     ok a)))"

definition write_node :: "allocation \<Rightarrow> bytes \<Rightarrow> u64 \<Rightarrow> (block_allocator, unit) prog" where
  "write_node a key value = bnd (lift (serialize_node key value)) (al_write a)"

definition read_node :: "block_allocator \<Rightarrow> u64 \<Rightarrow> node res" where
  "read_node body offset =
     (if offset = 0 then Err (Corrupt ''body node offset is null'')
      else if offset mod NODE_ALIGNMENT \<noteq> 0 then Err (Corrupt ''body node offset is not cache-line aligned'')
      else
        rbind (al_read_into body offset NODE_SIZE) (\<lambda>bytes.
        rbind (ok_or (slice bytes NODE_KEY_OFFSET NODE_VALUE_OFFSET) (Corrupt ''body node key is truncated'')) (\<lambda>key.
        rbind (read_u64 bytes NODE_VALUE_OFFSET) (\<lambda>value.
        rbind (read_u64 bytes NODE_POINTER_OFFSET) (\<lambda>pointer.
        rbind (ok_or (u16_try_from (drop_bit NODE_CHECKSUM_SHIFT pointer)) (Corrupt ''body node checksum overflow'')) (\<lambda>checksum.
        if checksum \<noteq> node_checksum key value then Err (Corrupt ''body node checksum does not match'')
        else Ok \<lparr>node_offset = offset, node_next = pointer AND NODE_POINTER_MASK,
                 node_value = value, node_key = key\<rparr>))))))"

definition read_pointer_word :: "block_allocator \<Rightarrow> u64 \<Rightarrow> u64 res" where
  "read_pointer_word body offset =
     rbind (ok_or (checked_add offset (of_nat NODE_POINTER_OFFSET)) (Corrupt ''body node pointer offset overflow'')) (\<lambda>pointer_offset.
     rbind (al_read_into body pointer_offset 8) (\<lambda>bytes. Ok (from_le bytes)))"

definition read_node_if_present :: "block_allocator \<Rightarrow> u64 \<Rightarrow> node option res" where
  "read_node_if_present body offset =
     rbind (read_pointer_word body offset) (\<lambda>w.
     if drop_bit NODE_CHECKSUM_SHIFT w = 0 then Ok None
     else case read_node body offset of
            None \<Rightarrow> None
          | Some (Inr n) \<Rightarrow> Ok (Some n)
          | Some (Inl e) \<Rightarrow>
              if e = Corrupt ''body node checksum does not match'' then
                rbind (read_pointer_word body offset) (\<lambda>w.
                if drop_bit NODE_CHECKSUM_SHIFT w = 0 then Ok None else Err e)
              else Err e)"

definition read_next :: "block_allocator \<Rightarrow> u64 \<Rightarrow> u64 res" where
  "read_next body offset =
     rbind (ok_or (checked_add offset (of_nat NODE_POINTER_OFFSET)) (Corrupt ''body node pointer offset overflow'')) (\<lambda>pointer_offset.
     rbind (al_read_into body pointer_offset 8) (\<lambda>bytes.
     Ok (from_le bytes AND NODE_POINTER_MASK)))"

definition tombstone_node :: "u64 \<Rightarrow> (block_allocator, unit) prog" where
  "tombstone_node offset =
     bnd (reads (\<lambda>body. al_atomic_u64 body (offset + of_nat NODE_POINTER_OFFSET))) (\<lambda>a.
     on_data (store64 a 0))"

definition set_private_next :: "u64 \<Rightarrow> u64 \<Rightarrow> u64 \<Rightarrow> (block_allocator, unit) prog" where
  "set_private_next node old new =
     (if old > NODE_POINTER_MASK \<or> new > NODE_POINTER_MASK
        then err (CapacityExhausted ''packed node pointer'')
      else
        bnd (reads (\<lambda>body. al_atomic_u64 body (node + of_nat NODE_POINTER_OFFSET))) (\<lambda>pointer.
        bnd (reads (\<lambda>body. read_pointer_word body node)) (\<lambda>observed.
        if observed AND NODE_POINTER_MASK \<noteq> old
          then err (Corrupt ''private body node next pointer changed'')
        else
          let replacement = (observed AND NOT NODE_POINTER_MASK) OR new in
          bnd (on_data (cas64 pointer observed replacement)) (\<lambda>swapped.
          if swapped then ok () else err (Corrupt ''private body node next pointer changed'')))))"

definition compare_exchange_next :: "u64 \<Rightarrow> u64 \<Rightarrow> u64 \<Rightarrow> (block_allocator, bool) prog" where
  "compare_exchange_next node expected replacement =
     (if expected > NODE_POINTER_MASK \<or> replacement > NODE_POINTER_MASK
        then err (CapacityExhausted ''packed node pointer'')
      else
        bnd (reads (\<lambda>body. al_atomic_u64 body (node + of_nat NODE_POINTER_OFFSET))) (\<lambda>pointer.
        bnd (reads (\<lambda>body. read_pointer_word body node)) (\<lambda>observed.
        if observed AND NODE_POINTER_MASK \<noteq> expected then ok False
        else
          let replacement = (observed AND NOT NODE_POINTER_MASK) OR replacement in
          on_data (cas64 pointer observed replacement))))"

subsection \<open>Blobs\<close>

definition blob_checksum :: "bytes \<Rightarrow> u32" where
  "blob_checksum value = from_le (take 4 (u64_le (xxh64 value BLOB_CHECKSUM_SEED)))"

definition blob_header :: "bytes \<Rightarrow> bytes res" where
  "blob_header value =
     (if length value < 2 ^ 32 then
        let len = of_nat (length value) :: u32;
            header = replicate BLOB_HEADER_SIZE 0;
            header = splice header 0 (u32_le len)
        in Ok (splice header 4 (u32_le (blob_checksum value)))
      else Err (CapacityExhausted ''blob length''))"

definition decode_blob_header :: "bytes \<Rightarrow> u32 \<times> u32" where
  "decode_blob_header bytes = (from_le (take 4 bytes), from_le (take 4 (drop 4 bytes)))"

end
