(* ===== verification/Table.thy ===== *)
theory Table
  imports Node "HOL-Library.Product_Lexorder"
begin

text \<open>
  src/table.rs: the hash table. The state is the \<open>Database\<close> of the source: configuration, the
  mapped heads file, the in-memory bucket heads and delete locks, the body and blob allocators
  and the checkpoint and compaction words. A reference to an in-memory atomic is its index.

  Iterators of keys and entries are lists (their size hint is exact). A local vector that
  survives an inner error (\<open>detached\<close>, \<open>private\<close>, \<open>retired\<close>) is a second component of the
  state while it is in scope. A guard is released when its block ends, on the error path too.
  A slice index out of range, which panics, does not return.
\<close>

subsection \<open>Data\<close>

datatype put_result = PR_Inserted | PR_Replaced

datatype put_outcome = Inserted | Existing | Replaced

record compaction_stats =
  candidate_pages :: u64
  moved_nodes :: u64
  reclaimed_pages :: u64
  remaining_candidate_pages :: u64

record prepared_key =
  pk_key :: bytes
  pk_hash :: u64
  pk_bucket :: u64
  pk_order :: usize

record prepared_insert =
  pi_key :: bytes
  pi_value :: "bytes option"
  pi_hash :: u64
  pi_bucket :: u64
  pi_order :: usize

record private_insert =
  pv_node :: allocation
  pv_blob :: "allocation option"
  pv_bucket :: u64

record detached_node =
  dn_body :: allocation
  dn_blob :: "allocation option"

record private_group =
  pg_head :: usize
  pg_tail_node :: u64
  pg_root :: u64

datatype link = Head u64 | Link_Node u64

record found =
  fd_node :: "node option"
  fd_root :: u64
  fd_link :: link

record database =
  db_config :: config
  db_heads :: mapped_file
  runtime_heads :: "u64 list"
  delete_locks :: "u64 list"
  db_body :: block_allocator
  db_blobs :: "block_allocator option"
  checkpoint_state :: u64
  checkpoint_generation :: u64
  quiescence_poisoned :: bool
  compaction_state :: u64

definition HEADER_MAGIC :: bytes where
  "HEADER_MAGIC = [67, 65, 83, 68, 66, 48, 48, 49]"

definition FORMAT_VERSION :: u64 where "FORMAT_VERSION = 7"
definition HEADER_CHECKSUM_OFFSET :: usize where "HEADER_CHECKSUM_OFFSET = 96"
definition HEADER_CHECKSUM_SEED :: u64 where "HEADER_CHECKSUM_SEED = 0x4341534442484452"
definition HEAD_BATCH :: usize where "HEAD_BATCH = 2 ^ 17"

subsection \<open>Working on parts of the state\<close>

definition on_body :: "(block_allocator, 'a) prog \<Rightarrow> (database, 'a) prog" where
  "on_body = zoom db_body (\<lambda>b db. db\<lparr>db_body := b\<rparr>)"

definition on_heads :: "(mapped_file, 'a) prog \<Rightarrow> (database, 'a) prog" where
  "on_heads = zoom db_heads (\<lambda>h db. db\<lparr>db_heads := h\<rparr>)"

text \<open>\<open>self.blobs.as_ref().ok_or(...)?\<close> and then a call on the blob allocator.\<close>

definition on_blobs :: "(block_allocator, 'a) prog \<Rightarrow> (database, 'a) prog" where
  "on_blobs m db = (case db_blobs db of
       None \<Rightarrow> err (Corrupt ''map has no blob allocator'') db
     | Some b \<Rightarrow> zoom (\<lambda>_. b) (\<lambda>b db. db\<lparr>db_blobs := Some b\<rparr>) m db)"

text \<open>\<open>if let (Some(blobs), Some(blob)) = (&self.blobs, blob)\<close>.\<close>

definition if_blob :: "allocation option \<Rightarrow> (allocation \<Rightarrow> (block_allocator, unit) prog) \<Rightarrow> (database, unit) prog" where
  "if_blob blob f db = (case (db_blobs db, blob) of
       (Some _, Some a) \<Rightarrow> on_blobs (f a) db
     | _ \<Rightarrow> ok () db)"

definition on_fst :: "('s, 'a) prog \<Rightarrow> ('s \<times> 'x, 'a) prog" where
  "on_fst = zoom fst (\<lambda>s p. (s, snd p))"

text \<open>Open a scope with a local \<open>x\<close>; the scope's result and the local's last value are kept.\<close>

definition scoped :: "'x \<Rightarrow> ('s \<times> 'x, 'a) prog \<Rightarrow> ('s, (error + 'a) \<times> 'x) prog" where
  "scoped x m s = (case m (s, x) of None \<Rightarrow> None | Some (r, (t, y)) \<Rightarrow> Some (Inr (r, y), t))"

text \<open>A guard: acquire, run, release whatever the outcome.\<close>

definition bracket :: "('s, 'g) prog \<Rightarrow> ('g \<Rightarrow> ('s, unit) prog) \<Rightarrow> ('s, 'a) prog \<Rightarrow> ('s, 'a) prog" where
  "bracket acquire drp m =
     bnd acquire (\<lambda>g. bnd (attempt m) (\<lambda>r. bnd (drp g) (\<lambda>_. outcome r)))"

definition diverge :: "('s, 'a) prog" where
  "diverge = (\<lambda>_. None)"

primrec rmap :: "('x \<Rightarrow> 'a res) \<Rightarrow> 'x list \<Rightarrow> 'a list res" where
  "rmap f [] = Ok []"
| "rmap f (x # xs) = rbind (f x) (\<lambda>a. rbind (rmap f xs) (\<lambda>as. Ok (a # as)))"

text \<open>The loop over runs of entries with equal bucket: \<open>start\<close> to \<open>end\<close> of the source.\<close>

function bucket_slices :: "('e \<Rightarrow> u64) \<Rightarrow> 'e list \<Rightarrow> (u64 \<times> 'e list) list" where
  "bucket_slices bucket [] = []"
| "bucket_slices bucket (e # es) =
     (bucket e, e # takeWhile (\<lambda>x. bucket x = bucket e) es)
       # bucket_slices bucket (dropWhile (\<lambda>x. bucket x = bucket e) es)"
  by pat_completeness auto
termination
  by (relation "measure (\<lambda>(_, es). length es)") (auto simp: le_imp_less_Suc length_dropWhile_le)

definition db_try_reserve :: "database \<Rightarrow> usize \<Rightarrow> unit res" where
  "db_try_reserve db n = try_reserve (reserve_limit (db_heads db)) n"

definition operation_guard :: "database \<Rightarrow> unit res" where
  "operation_guard db = (if quiescence_poisoned db
     then Err (Corrupt ''database quiescence lock is poisoned'') else Ok ())"

subsection \<open>Heads, links and locks\<close>

definition head :: "database \<Rightarrow> u64 \<Rightarrow> usize res" where
  "head db bucket = (if unat bucket < length (runtime_heads db) then Ok (unat bucket)
     else Err (Corrupt ''bucket index is out of range''))"

definition read_head :: "database \<Rightarrow> u64 \<Rightarrow> u64 res" where
  "read_head db bucket = rbind (head db bucket) (\<lambda>i. Ok (runtime_heads db ! i))"

definition cas_head :: "usize \<Rightarrow> u64 \<Rightarrow> u64 \<Rightarrow> (database, bool) prog" where
  "cas_head i expected new db =
     (if runtime_heads db ! i = expected
      then Some (Inr True, db\<lparr>runtime_heads := (runtime_heads db)[i := new]\<rparr>)
      else Some (Inr False, db))"

definition link_value :: "database \<Rightarrow> link \<Rightarrow> u64 res" where
  "link_value db l = (case l of
       Head bucket \<Rightarrow> read_head db bucket
     | Link_Node offset \<Rightarrow> read_next (db_body db) offset)"

definition compare_exchange_link :: "link \<Rightarrow> u64 \<Rightarrow> u64 \<Rightarrow> (database, bool) prog" where
  "compare_exchange_link l expected replacement = (case l of
       Head bucket \<Rightarrow> bnd (reads (\<lambda>db. head db bucket)) (\<lambda>i. cas_head i expected replacement)
     | Link_Node offset \<Rightarrow> on_body (compare_exchange_next offset expected replacement))"

definition cas_delete_lock :: "usize \<Rightarrow> u64 \<Rightarrow> u64 \<Rightarrow> (database, bool) prog" where
  "cas_delete_lock i expected new db =
     (if delete_locks db ! i = expected
      then Some (Inr True, db\<lparr>delete_locks := (delete_locks db)[i := new]\<rparr>)
      else Some (Inr False, db))"

definition lock_delete_bucket :: "u64 \<Rightarrow> (database, usize) prog" where
  "lock_delete_bucket bucket =
     bnd (gets (\<lambda>db. length (delete_locks db))) (\<lambda>n.
     if \<not> unat bucket < n then err (Corrupt ''delete-lock bucket is out of range'')
     else loop (\<lambda>_.
       bnd (cas_delete_lock (unat bucket) 0 1) (\<lambda>swapped.
       if swapped then ok (Return (unat bucket)) else ok (Continue ()))) ())"

definition drop_delete_guard :: "usize \<Rightarrow> (database, unit) prog" where
  "drop_delete_guard i =
     bnd (gets (\<lambda>db. delete_locks db ! i)) (\<lambda>observed.
     loop (\<lambda>observed.
       if observed = 0 then ok (Return ())
       else bnd (cas_delete_lock i observed 0) (\<lambda>swapped.
            if swapped then ok (Return ())
            else bnd (gets (\<lambda>db. delete_locks db ! i)) (\<lambda>actual. ok (Continue actual)))) observed)"

definition with_delete_guard :: "u64 \<Rightarrow> (database, 'a) prog \<Rightarrow> (database, 'a) prog" where
  "with_delete_guard bucket = bracket (lock_delete_bucket bucket) drop_delete_guard"

definition with_delete_guard_local :: "u64 \<Rightarrow> (database \<times> 'x, 'a) prog \<Rightarrow> (database \<times> 'x, 'a) prog" where
  "with_delete_guard_local bucket =
     bracket (on_fst (lock_delete_bucket bucket)) (\<lambda>i. on_fst (drop_delete_guard i))"

subsection \<open>Keys and values\<close>

definition validate_key :: "bytes \<Rightarrow> unit res" where
  "validate_key key = (if length key \<noteq> KEY_SIZE then Err (InvalidKeyLength KEY_SIZE (length key)) else Ok ())"

definition validate_value :: "database \<Rightarrow> bytes option \<Rightarrow> unit res" where
  "validate_value db value =
     (if mode (db_config db) = Set then
        (if value \<noteq> None then Err (Unsupported ''sets cannot store values'') else Ok ())
      else rbind (ok_or value (Corrupt ''map value is missing'')) (\<lambda>_. Ok ()))"

definition inline_value_word :: "bytes \<Rightarrow> u64 option" where
  "inline_value_word value =
     (if length value \<noteq> 8 then None
      else let word = from_le value in if word AND VALUE_BLOB_TAG = 0 then Some word else None)"

definition inline_value_bytes :: "u64 \<Rightarrow> bytes" where
  "inline_value_bytes word = u64_le word"

definition key_hash :: "database \<Rightarrow> bytes \<Rightarrow> u64" where
  "key_hash db key = xxh64 key (hash_seed (db_config db))"

definition hash_bucket :: "database \<Rightarrow> u64 \<Rightarrow> u64" where
  "hash_bucket db hash = hash mod bucket_count (db_config db)"

definition read_blob :: "database \<Rightarrow> u64 \<Rightarrow> bytes res" where
  "read_blob db offset =
     rbind (ok_or (db_blobs db) (Corrupt ''map has no blob allocator'')) (\<lambda>blobs.
     rbind (al_read_into blobs offset BLOB_HEADER_SIZE) (\<lambda>header.
     let (len, expected_checksum) = decode_blob_header header in
     rbind (ok_or (checked_add offset (of_nat BLOB_HEADER_SIZE)) (Corrupt ''blob value offset overflow'')) (\<lambda>value_offset.
     rbind (al_read blobs value_offset (unat len)) (\<lambda>value.
     if blob_checksum value \<noteq> expected_checksum then Err (Corrupt ''map value checksum does not match'')
     else Ok value))))"

definition read_value :: "database \<Rightarrow> u64 \<Rightarrow> bytes res" where
  "read_value db encoded =
     (if encoded AND VALUE_BLOB_TAG = 0 then Ok (inline_value_bytes encoded)
      else read_blob db (encoded AND VALUE_OFFSET_MASK))"

definition read_node_value :: "database \<Rightarrow> node \<Rightarrow> bytes res" where
  "read_node_value db n = read_value db (node_value n)"

text \<open>Entries with equal offsets read the same blob, so the unstable sort is a stable one.\<close>

definition materialize_values :: "database \<Rightarrow> u64 option list \<Rightarrow> bytes option list res" where
  "materialize_values db encoded =
     rbind (db_try_reserve db (length encoded)) (\<lambda>_.
     rbind (db_try_reserve db (length encoded)) (\<lambda>_.
     rbind (rfold (\<lambda>(order, value) (results, blobs).
         case value of
           None \<Rightarrow> Ok (results, blobs)
         | Some v \<Rightarrow>
             if v AND VALUE_BLOB_TAG = 0 then
               rbind (read_value db v) (\<lambda>bytes. Ok (results[order := Some bytes], blobs))
             else Ok (results, blobs @ [(v AND VALUE_OFFSET_MASK, order)]))
       (enumerate 0 encoded) (replicate (length encoded) None, [])) (\<lambda>(results, blobs).
     rfold (\<lambda>(offset, order) results.
         rbind (read_blob db offset) (\<lambda>bytes. Ok (results[order := Some bytes])))
       (sort_key fst blobs) results)))"

subsection \<open>Finding a key\<close>

text \<open>One pass over a chain; \<open>None\<close> asks for a restart.\<close>

definition find_step ::
  "database \<Rightarrow> u64 \<Rightarrow> u64 \<Rightarrow> bytes \<Rightarrow> u64 \<Rightarrow> link \<times> u64 \<Rightarrow> (link \<times> u64, found option) flow res" where
  "find_step db bucket hash key root = (\<lambda>(l, current).
     if current = 0 then
       rbind (read_head db bucket) (\<lambda>h.
       if h \<noteq> root then Ok (Return None)
       else Ok (Return (Some \<lparr>fd_node = None, fd_root = root, fd_link = l\<rparr>)))
     else
       rbind (read_node (db_body db) current) (\<lambda>n.
       let observed_next = node_next n in
       rbind (link_value db l) (\<lambda>lv.
       rbind (if lv \<noteq> current then Ok True
              else rbind (read_next (db_body db) current) (\<lambda>nx. Ok (nx \<noteq> observed_next))) (\<lambda>changed.
       if changed then Ok (Return None)
       else if key_hash db (node_key n) = hash \<and> node_key n = key
         then Ok (Return (Some \<lparr>fd_node = Some n, fd_root = root, fd_link = l\<rparr>))
       else Ok (Continue (Link_Node current, observed_next))))))"

definition db_find :: "database \<Rightarrow> u64 \<Rightarrow> u64 \<Rightarrow> bytes \<Rightarrow> found res" where
  "db_find db bucket hash key =
     rloop (\<lambda>_.
       rbind (link_value db (Head bucket)) (\<lambda>root.
       rbind (rloop (find_step db bucket hash key root) (Head bucket, root)) (\<lambda>r.
       case r of None \<Rightarrow> Ok (Continue ()) | Some f \<Rightarrow> Ok (Return f)))) ()"

definition find_offset_step ::
  "database \<Rightarrow> u64 \<Rightarrow> u64 \<Rightarrow> u64 \<Rightarrow> link \<times> u64 \<Rightarrow> (link \<times> u64, (node \<times> link) option option) flow res" where
  "find_offset_step db bucket target root = (\<lambda>(l, current).
     if current = 0 then
       rbind (read_head db bucket) (\<lambda>h.
       if h = root then Ok (Return (Some None)) else Ok (Return None))
     else
       rbind (read_node (db_body db) current) (\<lambda>n.
       let observed_next = node_next n in
       rbind (link_value db l) (\<lambda>lv.
       rbind (if lv \<noteq> current then Ok True
              else rbind (read_next (db_body db) current) (\<lambda>nx. Ok (nx \<noteq> observed_next))) (\<lambda>changed.
       if changed then Ok (Return None)
       else if current = target then Ok (Return (Some (Some (n, l))))
       else Ok (Continue (Link_Node current, observed_next))))))"

definition find_offset :: "database \<Rightarrow> u64 \<Rightarrow> u64 \<Rightarrow> (node \<times> link) option res" where
  "find_offset db bucket target =
     rloop (\<lambda>_.
       rbind (link_value db (Head bucket)) (\<lambda>root.
       rbind (rloop (find_offset_step db bucket target root) (Head bucket, root)) (\<lambda>r.
       case r of None \<Rightarrow> Ok (Continue ()) | Some f \<Rightarrow> Ok (Return f)))) ()"

definition db_get :: "database \<Rightarrow> bytes \<Rightarrow> bytes option res" where
  "db_get db key =
     rbind (operation_guard db) (\<lambda>_.
     if mode (db_config db) \<noteq> Map then Err (Unsupported ''get is available only for maps'')
     else
       rbind (validate_key key) (\<lambda>_.
       let hash = key_hash db key; bucket = hash_bucket db hash in
       rbind (db_find db bucket hash key) (\<lambda>found.
       case fd_node found of
         None \<Rightarrow> Ok None
       | Some n \<Rightarrow> rbind (read_node_value db n) (\<lambda>v. Ok (Some v)))))"

definition db_contains :: "database \<Rightarrow> bytes \<Rightarrow> bool res" where
  "db_contains db key =
     rbind (operation_guard db) (\<lambda>_.
     rbind (validate_key key) (\<lambda>_.
     let hash = key_hash db key; bucket = hash_bucket db hash in
     rbind (db_find db bucket hash key) (\<lambda>found. Ok (fd_node found \<noteq> None))))"

end
