(* ===== verification/Table_Ops.thy ===== *)
theory Table_Ops
  imports Table
begin

text \<open>
  src/table.rs, the operations that change the table: single and batch insertion, replacement,
  deletion, pop, synchronisation, compaction and creation. Each is the whole method, in the
  order of its calls, with every error return.
\<close>

subsection \<open>Blobs and private nodes\<close>

definition allocate_blob :: "simd \<Rightarrow> bytes option \<Rightarrow> (database, allocation option) prog" where
  "allocate_blob simd value =
     bnd (gets db_config) (\<lambda>c.
     if mode c = Set then ok None
     else
       bnd (lift (ok_or value (Corrupt ''map value is missing''))) (\<lambda>value.
       if inline_value_word value \<noteq> None then ok None
       else
         bnd (lift (ok_or (usize_checked_add BLOB_HEADER_SIZE (length value)) (Corrupt ''blob length overflow''))) (\<lambda>len.
         bnd (on_blobs (allocate simd len 8)) (\<lambda>a.
         bnd (lift (blob_header value)) (\<lambda>header.
         bnd (on_blobs (catch
               (bnd (al_write_at a 0 header) (\<lambda>_. al_write_at a BLOB_HEADER_SIZE value))
               (\<lambda>e. bnd (ignore (release a)) (\<lambda>_. err e)))) (\<lambda>_.
         ok (Some a)))))))"

definition encoded_value :: "database \<Rightarrow> bytes option \<Rightarrow> allocation option \<Rightarrow> u64 res" where
  "encoded_value db value blob =
     (if mode (db_config db) = Set then Ok 0
      else
        rbind (ok_or value (Corrupt ''map value is missing'')) (\<lambda>value.
        case inline_value_word value of
          Some inline \<Rightarrow> Ok inline
        | None \<Rightarrow>
            rbind (ok_or blob (Corrupt ''blob map value has no allocation'')) (\<lambda>b.
            let offset = alloc_offset b in
            if offset AND NOT VALUE_OFFSET_MASK \<noteq> 0 then Err (CapacityExhausted ''tagged blob offset'')
            else Ok (VALUE_BLOB_TAG OR offset))))"

definition release_blob :: "allocation \<Rightarrow> (database, unit) prog" where
  "release_blob a = on_blobs (release_count a)"

definition release_private :: "allocation \<Rightarrow> allocation option \<Rightarrow> (database, unit) prog" where
  "release_private node blob =
     bnd (reads (\<lambda>db. validate_release (db_body db) node)) (\<lambda>_.
     bnd (if_blob blob (\<lambda>b. bnd (reads (\<lambda>al. validate_release al b)) (\<lambda>_. release_count b))) (\<lambda>_.
     bnd (on_body (tombstone_node (alloc_offset node))) (\<lambda>_.
     on_body (release_count node))))"

definition allocate_node_or_release :: "simd \<Rightarrow> bytes \<Rightarrow> u64 \<Rightarrow> allocation option \<Rightarrow> (database, allocation) prog" where
  "allocate_node_or_release simd key encoded blob =
     catch (on_body (allocate_node simd key encoded)) (\<lambda>e.
       bnd (case blob of Some b \<Rightarrow> ignore (release_blob b) | None \<Rightarrow> ok ()) (\<lambda>_. err e))"

definition allocate_private_insert :: "simd \<Rightarrow> bytes \<Rightarrow> bytes option \<Rightarrow> u64 \<Rightarrow> (database, private_insert) prog" where
  "allocate_private_insert simd key value bucket =
     bnd (allocate_blob simd value) (\<lambda>blob.
     bnd (reads (\<lambda>db. encoded_value db value blob)) (\<lambda>encoded.
     bnd (allocate_node_or_release simd key encoded blob) (\<lambda>node.
     ok \<lparr>pv_node = node, pv_blob = blob, pv_bucket = bucket\<rparr>)))"

definition initialize_reserved_insert :: "simd \<Rightarrow> prepared_insert \<Rightarrow> allocation \<Rightarrow> (database, private_insert) prog" where
  "initialize_reserved_insert simd entry node =
     bnd (allocate_blob simd (pi_value entry)) (\<lambda>blob.
     bnd (reads (\<lambda>db. encoded_value db (pi_value entry) blob)) (\<lambda>encoded.
     bnd (catch (on_body (write_node node (pi_key entry) encoded)) (\<lambda>e.
            bnd (case blob of Some b \<Rightarrow> release_blob b | None \<Rightarrow> ok ()) (\<lambda>_. err e))) (\<lambda>_.
     ok \<lparr>pv_node = node, pv_blob = blob, pv_bucket = pi_bucket entry\<rparr>)))"

text \<open>Continue after an error, remembering the first one.\<close>

primrec each_first_error :: "'x list \<Rightarrow> ('x \<Rightarrow> ('s, unit) prog) \<Rightarrow> error option \<Rightarrow> ('s, unit) prog" where
  "each_first_error [] f first = (case first of Some e \<Rightarrow> err e | None \<Rightarrow> ok ())"
| "each_first_error (x # xs) f first =
     bnd (attempt (f x)) (\<lambda>r.
     each_first_error xs f (case r of Inl e \<Rightarrow> (if first = None then Some e else first) | Inr _ \<Rightarrow> first))"

definition release_private_batch :: "private_insert list \<Rightarrow> (database, unit) prog" where
  "release_private_batch private =
     each_first_error (rev private) (\<lambda>i. release_private (pv_node i) (pv_blob i)) None"

subsection \<open>Unlinking\<close>

definition blob_allocation :: "database \<Rightarrow> u64 \<Rightarrow> allocation option res" where
  "blob_allocation db encoded =
     (if encoded AND VALUE_BLOB_TAG = 0 then
        (if mode (db_config db) = Set \<and> encoded \<noteq> 0 then Err (Corrupt ''set node stores a value'') else Ok None)
      else if mode (db_config db) \<noteq> Map then Err (Corrupt ''set node has a blob tag'')
      else
        let offset = encoded AND VALUE_OFFSET_MASK in
        rbind (ok_or (db_blobs db) (Corrupt ''map has no blob allocator'')) (\<lambda>blobs.
        rbind (al_read_into blobs offset BLOB_HEADER_SIZE) (\<lambda>header.
        let (len, _) = decode_blob_header header in
        rbind (ok_or (checked_add (of_nat BLOB_HEADER_SIZE) len) (Corrupt ''blob allocation length overflow'')) (\<lambda>total.
        rbind (allocation_for blobs offset total) (\<lambda>a. Ok (Some a))))))"

definition node_allocations :: "database \<Rightarrow> u64 \<Rightarrow> u64 \<Rightarrow> (allocation \<times> allocation option) res" where
  "node_allocations db offset encoded =
     rbind (blob_allocation db encoded) (\<lambda>blob.
     rbind (allocation_for (db_body db) offset (of_nat NODE_SIZE)) (\<lambda>body.
     rbind (validate_release (db_body db) body) (\<lambda>_.
     rbind (case (db_blobs db, blob) of (Some blobs, Some a) \<Rightarrow> validate_release blobs a | _ \<Rightarrow> Ok ()) (\<lambda>_.
     Ok (body, blob)))))"

definition detach_link :: "link \<Rightarrow> node \<Rightarrow> (database, detached_node) prog" where
  "detach_link l target =
     bnd (reads (\<lambda>db. node_allocations db (node_offset target) (node_value target))) (\<lambda>(body, blob).
     bnd (compare_exchange_link l (node_offset target) (node_next target)) (\<lambda>swapped.
     if \<not> swapped then err (Busy ''unique deletion link changed before unlink'')
     else ok \<lparr>dn_body = body, dn_blob = blob\<rparr>))"

definition unlink_link :: "link \<Rightarrow> node \<Rightarrow> (database, unit) prog" where
  "unlink_link l target =
     bnd (reads (\<lambda>db. node_allocations db (node_offset target) (node_value target))) (\<lambda>(body, blob).
     bnd (compare_exchange_link l (node_offset target) (node_next target)) (\<lambda>swapped.
     if \<not> swapped then err (Busy ''unique deletion link changed before unlink'')
     else
       bnd (on_body (tombstone_node (node_offset target))) (\<lambda>_.
       bnd (if_blob blob release_count) (\<lambda>_.
       on_body (release_count body)))))"

definition release_detached :: "detached_node \<Rightarrow> (database, unit) prog" where
  "release_detached n =
     bnd (on_body (tombstone_node (alloc_offset (dn_body n)))) (\<lambda>_.
     bnd (if_blob (dn_blob n) release_count) (\<lambda>_.
     on_body (release_count (dn_body n))))"

definition release_detached_batch :: "detached_node list \<Rightarrow> (database, unit) prog" where
  "release_detached_batch detached = each_first_error (rev detached) release_detached None"

definition is_busy :: "error \<Rightarrow> bool" where
  "is_busy e = (case e of Busy _ \<Rightarrow> True | _ \<Rightarrow> False)"

definition delete_step :: "u64 \<Rightarrow> u64 \<Rightarrow> bytes \<Rightarrow> (database, (unit, bool) flow) prog" where
  "delete_step bucket hash key =
     bnd (reads (\<lambda>db. db_find db bucket hash key)) (\<lambda>found.
     case fd_node found of
       None \<Rightarrow> ok (Return False)
     | Some target \<Rightarrow>
         bnd (attempt (unlink_link (fd_link found) target)) (\<lambda>r.
         case r of Inr _ \<Rightarrow> ok (Return True)
         | Inl e \<Rightarrow> if is_busy e then ok (Continue ()) else err e))"

definition db_delete :: "bytes \<Rightarrow> (database, bool) prog" where
  "db_delete key =
     bnd (reads operation_guard) (\<lambda>_.
     bnd (lift (validate_key key)) (\<lambda>_.
     bnd (gets (\<lambda>db. key_hash db key)) (\<lambda>hash.
     bnd (gets (\<lambda>db. hash_bucket db hash)) (\<lambda>bucket.
     with_delete_guard bucket (loop (\<lambda>_. delete_step bucket hash key) ())))))"

subsection \<open>Insertion\<close>

definition release_private_then :: "allocation \<Rightarrow> allocation option \<Rightarrow> error \<Rightarrow> (database, 'a) prog" where
  "release_private_then node blob e = bnd (release_private node blob) (\<lambda>_. err e)"

definition put_step ::
  "bytes \<Rightarrow> u64 \<Rightarrow> u64 \<Rightarrow> bool \<Rightarrow> allocation \<Rightarrow> allocation option \<Rightarrow> u64 \<Rightarrow> (database, (u64, put_outcome) flow) prog" where
  "put_step key hash bucket replace_existing node blob private_next =
     bnd (catch (reads (\<lambda>db. db_find db bucket hash key)) (release_private_then node blob)) (\<lambda>found.
     let existing = fd_node found in
     if existing \<noteq> None \<and> \<not> replace_existing then
       bnd (release_private node blob) (\<lambda>_. ok (Return Existing))
     else
       let result = (if existing \<noteq> None then Replaced else Inserted) in
       bnd (catch (on_body (set_private_next (alloc_offset node) private_next (fd_root found)))
             (release_private_then node blob)) (\<lambda>_.
       let private_next = fd_root found in
       bnd (catch (reads (\<lambda>db. head db bucket)) (release_private_then node blob)) (\<lambda>incoming.
       bnd (cas_head incoming (fd_root found) (alloc_offset node)) (\<lambda>swapped.
       if swapped then
         bnd (case existing of
                None \<Rightarrow> ok ()
              | Some n \<Rightarrow>
                  unlink_link (case fd_link found of
                     Head _ \<Rightarrow> Link_Node (alloc_offset node)
                   | Link_Node offset \<Rightarrow> Link_Node offset) n) (\<lambda>_.
         ok (Return result))
       else ok (Continue private_next)))))"

definition put_inner :: "simd \<Rightarrow> bytes \<Rightarrow> bytes option \<Rightarrow> bool \<Rightarrow> (database, put_outcome) prog" where
  "put_inner simd key value replace_existing =
     bnd (reads operation_guard) (\<lambda>_.
     bnd (lift (validate_key key)) (\<lambda>_.
     bnd (reads (\<lambda>db. validate_value db value)) (\<lambda>_.
     bnd (allocate_blob simd value) (\<lambda>blob.
     bnd (reads (\<lambda>db. encoded_value db value blob)) (\<lambda>encoded.
     bnd (gets (\<lambda>db. key_hash db key)) (\<lambda>hash.
     bnd (allocate_node_or_release simd key encoded blob) (\<lambda>node.
     bnd (gets (\<lambda>db. hash_bucket db hash)) (\<lambda>bucket.
     loop (put_step key hash bucket replace_existing node blob) 0))))))))"

definition db_put :: "simd \<Rightarrow> bytes \<Rightarrow> bytes \<Rightarrow> (database, put_result) prog" where
  "db_put simd key value =
     bnd (gets db_config) (\<lambda>c.
     if mode c \<noteq> Map then err (Unsupported ''put is available only for maps'')
     else bnd (put_inner simd key (Some value) True) (\<lambda>o'.
       case o' of Inserted \<Rightarrow> ok PR_Inserted | Replaced \<Rightarrow> ok PR_Replaced
       | Existing \<Rightarrow> err (Corrupt ''upsert reported an existing key'')))"

definition db_put_new :: "simd \<Rightarrow> bytes \<Rightarrow> bytes \<Rightarrow> (database, bool) prog" where
  "db_put_new simd key value =
     bnd (gets db_config) (\<lambda>c.
     if mode c \<noteq> Map then err (Unsupported ''put_new is available only for maps'')
     else bnd (put_inner simd key (Some value) False) (\<lambda>o'.
       case o' of Inserted \<Rightarrow> ok True | Existing \<Rightarrow> ok False
       | Replaced \<Rightarrow> err (Corrupt ''insert-only put replaced a key'')))"

definition commit_step :: "private_group \<Rightarrow> (database, (unit, unit) flow) prog" where
  "commit_step grp =
     bnd (gets (\<lambda>db. runtime_heads db ! pg_head grp)) (\<lambda>observed.
     bnd (reads (\<lambda>db. read_next (db_body db) (pg_tail_node grp))) (\<lambda>previous_next.
     bnd (on_body (compare_exchange_next (pg_tail_node grp) previous_next observed)) (\<lambda>swapped.
     if \<not> swapped then ok (Continue ())
     else
       bnd (cas_head (pg_head grp) observed (pg_root grp)) (\<lambda>swapped.
       if swapped then ok (Return ()) else ok (Continue ())))))"

definition commit_private_group :: "private_group \<Rightarrow> (database, unit) prog" where
  "commit_private_group grp = loop (\<lambda>_. commit_step grp) ()"

definition insert_one_inner :: "simd \<Rightarrow> bytes \<Rightarrow> bytes option \<Rightarrow> (database, unit) prog" where
  "insert_one_inner simd key value =
     bnd (reads operation_guard) (\<lambda>_.
     bnd (lift (validate_key key)) (\<lambda>_.
     bnd (reads (\<lambda>db. validate_value db value)) (\<lambda>_.
     bnd (gets (\<lambda>db. key_hash db key)) (\<lambda>hash.
     bnd (gets (\<lambda>db. hash_bucket db hash)) (\<lambda>bucket.
     bnd (allocate_private_insert simd key value bucket) (\<lambda>private.
     bnd (catch (reads (\<lambda>db. head db (pv_bucket private)))
           (release_private_then (pv_node private) (pv_blob private))) (\<lambda>h.
     commit_private_group \<lparr>pg_head = h, pg_tail_node = alloc_offset (pv_node private),
                           pg_root = alloc_offset (pv_node private)\<rparr>)))))))"

definition db_add :: "simd \<Rightarrow> bytes \<Rightarrow> (database, put_result) prog" where
  "db_add simd key =
     bnd (gets db_config) (\<lambda>c.
     if mode c \<noteq> Set then err (Unsupported ''add is available only for sets'')
     else bnd (insert_one_inner simd key None) (\<lambda>_. ok PR_Inserted))"

end
