(* ===== verification/Table_Batch.thy ===== *)
theory Table_Batch
  imports Table_Ops
begin

text \<open>
  src/table.rs, the batch operations (prepare, hash four keys at a time, sort by bucket, visit
  each bucket once), synchronisation, compaction and creation.
\<close>

subsection \<open>Preparing a batch\<close>

definition set_pk_hash :: "u64 \<Rightarrow> prepared_key \<Rightarrow> u64 \<Rightarrow> prepared_key" where
  "set_pk_hash buckets e hash = e\<lparr>pk_hash := hash, pk_bucket := hash mod buckets\<rparr>"

fun hash_prepared_keys :: "bool \<Rightarrow> config \<Rightarrow> prepared_key list \<Rightarrow> prepared_key list" where
  "hash_prepared_keys avx2 c (e1 # e2 # e3 # e4 # rest) =
     map2 (set_pk_hash (bucket_count c)) [e1, e2, e3, e4]
       (xxh64_batch4 avx2 (pk_key e1, pk_key e2, pk_key e3, pk_key e4) (hash_seed c))
     @ hash_prepared_keys avx2 c rest"
| "hash_prepared_keys avx2 c chunk =
     map (\<lambda>e. set_pk_hash (bucket_count c) e (xxh64 (pk_key e) (hash_seed c))) chunk"

definition set_pi_hash :: "u64 \<Rightarrow> prepared_insert \<Rightarrow> u64 \<Rightarrow> prepared_insert" where
  "set_pi_hash buckets e hash = e\<lparr>pi_hash := hash, pi_bucket := hash mod buckets\<rparr>"

fun hash_prepared_inserts :: "bool \<Rightarrow> config \<Rightarrow> prepared_insert list \<Rightarrow> prepared_insert list" where
  "hash_prepared_inserts avx2 c (e1 # e2 # e3 # e4 # rest) =
     map2 (set_pi_hash (bucket_count c)) [e1, e2, e3, e4]
       (xxh64_batch4 avx2 (pi_key e1, pi_key e2, pi_key e3, pi_key e4) (hash_seed c))
     @ hash_prepared_inserts avx2 c rest"
| "hash_prepared_inserts avx2 c chunk =
     map (\<lambda>e. set_pi_hash (bucket_count c) e (xxh64 (pi_key e) (hash_seed c))) chunk"

text \<open>The orders of the entries are distinct, so sorting by the full key is the unstable sort.\<close>

definition prepare_keys :: "simd \<Rightarrow> database \<Rightarrow> bytes list \<Rightarrow> prepared_key list res" where
  "prepare_keys simd db keys =
     rbind (db_try_reserve db (length keys)) (\<lambda>_.
     rbind (rfold (\<lambda>(order, key) prepared.
         rbind (validate_key key) (\<lambda>_.
         rbind (db_try_reserve db (length prepared + 1)) (\<lambda>_.
         Ok (prepared @ [\<lparr>pk_key = key, pk_hash = 0, pk_bucket = 0, pk_order = order\<rparr>]))))
       (enumerate 0 keys) []) (\<lambda>prepared.
     Ok (sort_key (\<lambda>e. (pk_bucket e, pk_hash e, pk_order e))
           (hash_prepared_keys (simd = Avx2) (db_config db) prepared))))"

definition prepare_batch :: "simd \<Rightarrow> database \<Rightarrow> (bytes \<times> bytes option) list \<Rightarrow> prepared_insert list res" where
  "prepare_batch simd db entries =
     rbind (db_try_reserve db (length entries)) (\<lambda>_.
     rbind (rfold (\<lambda>(order, key, value) prepared.
         rbind (validate_key key) (\<lambda>_.
         rbind (validate_value db value) (\<lambda>_.
         rbind (db_try_reserve db (length prepared + 1)) (\<lambda>_.
         Ok (prepared @ [\<lparr>pi_key = key, pi_value = value, pi_hash = 0, pi_bucket = 0, pi_order = order\<rparr>])))))
       (enumerate 0 entries) []) (\<lambda>prepared.
     Ok (sort_key (\<lambda>e. (pi_bucket e, pi_order e))
           (hash_prepared_inserts (simd = Avx2) (db_config db) prepared))))"

text \<open>Runs of equal bucket and hash; inside a run every later entry is compared.\<close>

primrec has_duplicate_key :: "prepared_key list \<Rightarrow> bool" where
  "has_duplicate_key [] = False"
| "has_duplicate_key (e # es) = ((\<exists>x \<in> set es. pk_key e = pk_key x) \<or> has_duplicate_key es)"

function validate_unique_batch_keys :: "prepared_key list \<Rightarrow> unit res" where
  "validate_unique_batch_keys [] = Ok ()"
| "validate_unique_batch_keys (e # es) =
     (let same = (\<lambda>x. pk_bucket x = pk_bucket e \<and> pk_hash x = pk_hash e) in
      if has_duplicate_key (e # takeWhile same es)
      then Err (InvalidConfig ''destructive batch keys must be globally unique'')
      else validate_unique_batch_keys (dropWhile same es))"
  by pat_completeness auto
termination
  by (relation "measure length") (auto simp: le_imp_less_Suc length_dropWhile_le)

subsection \<open>Batch fetch\<close>

definition set_at :: "'a list \<Rightarrow> usize \<Rightarrow> 'a \<Rightarrow> string \<Rightarrow> 'a list res" where
  "set_at xs i x msg = (if i < length xs then Ok (xs[i := x]) else Err (Corrupt msg))"

definition fetch_match ::
  "node \<Rightarrow> prepared_key \<Rightarrow> u64 option list \<times> usize \<Rightarrow> (u64 option list \<times> usize) res" where
  "fetch_match n entry = (\<lambda>(results, remaining).
     if \<not> pk_order entry < length results then Err (Corrupt ''batch-fetch result index is out of range'')
     else if results ! pk_order entry = None \<and> pk_key entry = node_key n then
       if remaining = 0 then Err (Corrupt ''batch-fetch match count underflow'')
       else Ok (results[pk_order entry := Some (node_value n)], remaining - 1)
     else Ok (results, remaining))"

definition fetch_step ::
  "database \<Rightarrow> u64 \<Rightarrow> prepared_key list \<Rightarrow> u64 \<Rightarrow> link \<times> u64 \<times> usize \<times> u64 option list
    \<Rightarrow> (link \<times> u64 \<times> usize \<times> u64 option list, bool \<times> u64 option list) flow res" where
  "fetch_step db bucket prepared root = (\<lambda>(l, current, remaining, results).
     if current = 0 then
       rbind (read_head db bucket) (\<lambda>h. Ok (Return (h = root, results)))
     else
       rbind (read_node (db_body db) current) (\<lambda>n.
       let observed_next = node_next n in
       rbind (link_value db l) (\<lambda>lv.
       rbind (if lv \<noteq> current then Ok True
              else rbind (read_next (db_body db) current) (\<lambda>nx. Ok (nx \<noteq> observed_next))) (\<lambda>changed.
       if changed then Ok (Return (False, results))
       else
         let node_hash = key_hash db (node_key n) in
         rbind (rfold (fetch_match n)
             (takeWhile (\<lambda>e. pk_hash e = node_hash) (dropWhile (\<lambda>e. pk_hash e < node_hash) prepared))
             (results, remaining)) (\<lambda>(results, remaining).
         if remaining = 0 then
           rbind (read_head db bucket) (\<lambda>h. Ok (Return (h = root, results)))
         else Ok (Continue (Link_Node current, observed_next, remaining, results)))))))"

definition fetch_bucket_batch ::
  "database \<Rightarrow> u64 \<Rightarrow> prepared_key list \<Rightarrow> u64 option list \<Rightarrow> u64 option list res" where
  "fetch_bucket_batch db bucket prepared results =
     rloop (\<lambda>results.
       rbind (rfold (\<lambda>e results. set_at results (pk_order e) None ''batch-fetch result index is out of range'')
               prepared results) (\<lambda>results.
       rbind (link_value db (Head bucket)) (\<lambda>root.
       rbind (rloop (fetch_step db bucket prepared root) (Head bucket, root, length prepared, results)) (\<lambda>(done, results).
       Ok (if done then Return results else Continue results))))) results"

definition db_batch_fetch :: "simd \<Rightarrow> database \<Rightarrow> bytes list \<Rightarrow> bytes option list res" where
  "db_batch_fetch simd db keys =
     rbind (operation_guard db) (\<lambda>_.
     if mode (db_config db) \<noteq> Map then Err (Unsupported ''batch_fetch is available only for maps'')
     else
       rbind (prepare_keys simd db keys) (\<lambda>prepared.
       rbind (db_try_reserve db (length prepared)) (\<lambda>_.
       rbind (rfold (\<lambda>(bucket, slice). fetch_bucket_batch db bucket slice)
           (bucket_slices pk_bucket prepared) (replicate (length prepared) None)) (\<lambda>encoded.
       materialize_values db encoded))))"

subsection \<open>Batch delete\<close>

definition get_or :: "'a list \<Rightarrow> usize \<Rightarrow> 'a \<Rightarrow> 'a" where
  "get_or xs i d = (if i < length xs then xs ! i else d)"

definition lift_set :: "usize \<Rightarrow> 'a \<Rightarrow> string \<Rightarrow> ('s \<times> 'a list, unit) prog" where
  "lift_set i x msg = (\<lambda>(s, xs). if i < length xs then Some (Inr (), (s, xs[i := x]))
     else Some (Inl (Corrupt msg), (s, xs)))"

text \<open>The variables of the chain loop: link, current node, expected head, remaining matches. The
  loop ends with whether the bucket is done or must be traversed again.\<close>

definition delete_batch_step ::
  "u64 \<Rightarrow> prepared_key list \<Rightarrow> usize \<Rightarrow> link \<times> u64 \<times> u64 \<times> usize
    \<Rightarrow> (database \<times> bool list, (link \<times> u64 \<times> u64 \<times> usize, bool) flow) prog" where
  "delete_batch_step bucket prepared h = (\<lambda>(l, current, expected_head, remaining).
     if current = 0 then
       bnd (gets (\<lambda>(db, _). runtime_heads db ! h)) (\<lambda>v. ok (Return (v = expected_head)))
     else
       bnd (reads (\<lambda>(db, _). read_node (db_body db) current)) (\<lambda>n.
       let observed_next = node_next n in
       bnd (reads (\<lambda>(db, _). link_value db l)) (\<lambda>lv.
       bnd (reads (\<lambda>(db, _). if lv \<noteq> current then Ok True
              else rbind (read_next (db_body db) current) (\<lambda>nx. Ok (nx \<noteq> observed_next)))) (\<lambda>changed.
       if changed then ok (Return False)
       else
         bnd (gets (\<lambda>(db, deleted).
           let node_hash = key_hash db (node_key n) in
           find (\<lambda>e. pk_hash e = node_hash \<and> \<not> get_or deleted (pk_order e) False \<and> pk_key e = node_key n)
             (dropWhile (\<lambda>e. pk_hash e < node_hash) prepared))) (\<lambda>matching.
         case matching of
           None \<Rightarrow> ok (Continue (Link_Node current, observed_next, expected_head, remaining))
         | Some entry \<Rightarrow>
             bnd (attempt (on_fst (unlink_link l n))) (\<lambda>r.
             case r of
               Inr _ \<Rightarrow>
                 bnd (lift_set (pk_order entry) True ''batch-delete result index is out of range'') (\<lambda>_.
                 if remaining = 0 then err (Corrupt ''batch-delete match count underflow'')
                 else if remaining - 1 = 0 then ok (Return True)
                 else ok (Continue (l, observed_next,
                        (case l of Head _ \<Rightarrow> observed_next | Link_Node _ \<Rightarrow> expected_head), remaining - 1)))
             | Inl e \<Rightarrow> if is_busy e then ok (Return False) else err e))))))"

definition delete_bucket_batch :: "u64 \<Rightarrow> prepared_key list \<Rightarrow> (database \<times> bool list, unit) prog" where
  "delete_bucket_batch bucket prepared =
     loop (\<lambda>_.
       bnd (gets (\<lambda>(_, deleted). length (filter (\<lambda>e. \<not> get_or deleted (pk_order e) False) prepared))) (\<lambda>remaining.
       if remaining = 0 then ok (Return ())
       else
         bnd (reads (\<lambda>(db, _). head db bucket)) (\<lambda>h.
         bnd (gets (\<lambda>(db, _). runtime_heads db ! h)) (\<lambda>expected_head.
         bnd (loop (delete_batch_step bucket prepared h) (Head bucket, expected_head, expected_head, remaining)) (\<lambda>done.
         ok (if done then Return () else Continue ())))))) ()"

definition db_batch_delete :: "simd \<Rightarrow> bytes list \<Rightarrow> (database, bool list) prog" where
  "db_batch_delete simd keys =
     bnd (reads operation_guard) (\<lambda>_.
     bnd (reads (\<lambda>db. prepare_keys simd db keys)) (\<lambda>prepared.
     bnd (lift (validate_unique_batch_keys prepared)) (\<lambda>_.
     bnd (reads (\<lambda>db. db_try_reserve db (length prepared))) (\<lambda>_.
     bnd (scoped (replicate (length prepared) False)
       (forM (bucket_slices pk_bucket prepared) (\<lambda>(bucket, slice).
          with_delete_guard_local bucket (delete_bucket_batch bucket slice)))) (\<lambda>(r, deleted).
     bnd (outcome r) (\<lambda>_. ok deleted))))))"

subsection \<open>Batch pop\<close>

type_synonym pop_locals = "u64 option list \<times> detached_node list"

definition pop_batch_step ::
  "u64 \<Rightarrow> prepared_key list \<Rightarrow> usize \<Rightarrow> link \<times> u64 \<times> u64 \<times> usize
    \<Rightarrow> (database \<times> pop_locals, (link \<times> u64 \<times> u64 \<times> usize, bool) flow) prog" where
  "pop_batch_step bucket prepared h = (\<lambda>(l, current, expected_head, remaining).
     if current = 0 then
       bnd (gets (\<lambda>(db, _). runtime_heads db ! h)) (\<lambda>v. ok (Return (v = expected_head)))
     else
       bnd (reads (\<lambda>(db, _). read_node (db_body db) current)) (\<lambda>n.
       let observed_next = node_next n in
       bnd (reads (\<lambda>(db, _). link_value db l)) (\<lambda>lv.
       bnd (reads (\<lambda>(db, _). if lv \<noteq> current then Ok True
              else rbind (read_next (db_body db) current) (\<lambda>nx. Ok (nx \<noteq> observed_next)))) (\<lambda>changed.
       if changed then ok (Return False)
       else
         bnd (gets (\<lambda>(db, encoded, _).
           let node_hash = key_hash db (node_key n) in
           find (\<lambda>e. pk_hash e = node_hash \<and> get_or encoded (pk_order e) None = None \<and> pk_key e = node_key n)
             (dropWhile (\<lambda>e. pk_hash e < node_hash) prepared))) (\<lambda>matching.
         case matching of
           None \<Rightarrow> ok (Continue (Link_Node current, observed_next, expected_head, remaining))
         | Some entry \<Rightarrow>
             bnd (attempt (on_fst (detach_link l n))) (\<lambda>r.
             case r of
               Inr d \<Rightarrow>
                 bnd (gets (\<lambda>(_, encoded, _). length encoded)) (\<lambda>len.
                 if \<not> pk_order entry < len then err (Corrupt ''batch-pop result index is out of range'')
                 else
                   bnd (modify (\<lambda>(db, encoded, detached).
                          (db, encoded[pk_order entry := Some (node_value n)], detached @ [d]))) (\<lambda>_.
                   if remaining = 0 then err (Corrupt ''batch-pop match count underflow'')
                   else if remaining - 1 = 0 then ok (Return True)
                   else ok (Continue (l, observed_next,
                          (case l of Head _ \<Rightarrow> observed_next | Link_Node _ \<Rightarrow> expected_head), remaining - 1))))
             | Inl e \<Rightarrow> if is_busy e then ok (Return False) else err e))))))"

definition pop_bucket_batch :: "u64 \<Rightarrow> prepared_key list \<Rightarrow> (database \<times> pop_locals, unit) prog" where
  "pop_bucket_batch bucket prepared =
     loop (\<lambda>_.
       bnd (gets (\<lambda>(_, encoded, _). length (filter (\<lambda>e. get_or encoded (pk_order e) None = None) prepared))) (\<lambda>remaining.
       if remaining = 0 then ok (Return ())
       else
         bnd (reads (\<lambda>(db, _). head db bucket)) (\<lambda>h.
         bnd (gets (\<lambda>(db, _). runtime_heads db ! h)) (\<lambda>expected_head.
         bnd (loop (pop_batch_step bucket prepared h) (Head bucket, expected_head, expected_head, remaining)) (\<lambda>done.
         ok (if done then Return () else Continue ())))))) ()"

definition db_batch_pop :: "simd \<Rightarrow> bytes list \<Rightarrow> (database, bytes option list) prog" where
  "db_batch_pop simd keys =
     bnd (reads operation_guard) (\<lambda>_.
     bnd (gets db_config) (\<lambda>c.
     if mode c \<noteq> Map then err (Unsupported ''batch_pop is available only for maps'')
     else
       bnd (reads (\<lambda>db. prepare_keys simd db keys)) (\<lambda>prepared.
       bnd (lift (validate_unique_batch_keys prepared)) (\<lambda>_.
       bnd (reads (\<lambda>db. db_try_reserve db (length prepared))) (\<lambda>_.
       bnd (reads (\<lambda>db. db_try_reserve db (length prepared))) (\<lambda>_.
       bnd (scoped (replicate (length prepared) None, [])
         (bnd (forM (bucket_slices pk_bucket prepared) (\<lambda>(bucket, slice).
            with_delete_guard_local bucket (pop_bucket_batch bucket slice))) (\<lambda>_.
          reads (\<lambda>(db, encoded, _). materialize_values db encoded)))) (\<lambda>(operation, _, detached).
       bnd (attempt (release_detached_batch detached)) (\<lambda>rel.
       case (operation, rel) of
         (Inr values, Inr _) \<Rightarrow> ok values
       | (Inl e, _) \<Rightarrow> err e
       | (Inr _, Inl e) \<Rightarrow> err e))))))))"

subsection \<open>Batch insertion\<close>

text \<open>The entries of one reservation, with the allocations that are left when one fails.\<close>

fun initialize_reserved ::
  "simd \<Rightarrow> prepared_insert list \<Rightarrow> allocation list \<Rightarrow> (database \<times> private_insert list, unit) prog" where
  "initialize_reserved simd [] as = ok ()"
| "initialize_reserved simd (e # es) [] = err (Corrupt ''batch allocation ended early'')"
| "initialize_reserved simd (e # es) (a # as) =
     bnd (attempt (on_fst (initialize_reserved_insert simd e a))) (\<lambda>r.
     case r of
       Inr i \<Rightarrow> bnd (modify (\<lambda>(db, private). (db, private @ [i]))) (\<lambda>_. initialize_reserved simd es as)
     | Inl e \<Rightarrow>
         bnd (on_fst (on_body (release a))) (\<lambda>_.
         bnd (forM as (\<lambda>u. on_fst (on_body (release u)))) (\<lambda>_. err e)))"

definition private_inserts_step ::
  "simd \<Rightarrow> prepared_insert list \<Rightarrow> (database \<times> private_insert list, (prepared_insert list, unit) flow) prog" where
  "private_inserts_step simd rest =
     (if rest = [] then ok (Return ())
      else
        bnd (on_fst (on_body (allocate_batch simd NODE_SIZE NODE_ALIGNMENT (length rest)))) (\<lambda>reserved.
        let reserved_count = batch_len reserved in
        if reserved_count > length rest then diverge
        else
          bnd (initialize_reserved simd (take reserved_count rest) (allocations reserved)) (\<lambda>_.
          ok (Continue (drop reserved_count rest)))))"

definition allocate_private_inserts ::
  "simd \<Rightarrow> prepared_insert list \<Rightarrow> (database \<times> private_insert list, unit) prog" where
  "allocate_private_inserts simd prepared = loop (private_inserts_step simd) prepared"

fun link_private_batch :: "private_insert list \<Rightarrow> (database, unit) prog" where
  "link_private_batch (previous # current # rest) =
     bnd (if pv_bucket previous = pv_bucket current then
            on_body (set_private_next (alloc_offset (pv_node current)) 0 (alloc_offset (pv_node previous)))
          else ok ()) (\<lambda>_.
     link_private_batch (current # rest))"
| "link_private_batch _ = ok ()"

definition collect_private_groups :: "database \<Rightarrow> private_insert list \<Rightarrow> private_group list res" where
  "collect_private_groups db private =
     rmap (\<lambda>(bucket, slice).
       rbind (head db bucket) (\<lambda>h.
       Ok \<lparr>pg_head = h, pg_tail_node = alloc_offset (pv_node (hd slice)),
           pg_root = alloc_offset (pv_node (last slice))\<rparr>))
       (bucket_slices pv_bucket private)"

definition insert_batch_inner :: "simd \<Rightarrow> (bytes \<times> bytes option) list \<Rightarrow> (database, usize) prog" where
  "insert_batch_inner simd entries =
     bnd (reads operation_guard) (\<lambda>_.
     bnd (reads (\<lambda>db. prepare_batch simd db entries)) (\<lambda>prepared.
     let count = length prepared in
     if count = 0 then ok 0
     else
       bnd (reads (\<lambda>db. db_try_reserve db count)) (\<lambda>_.
       bnd (reads (\<lambda>db. db_try_reserve db count)) (\<lambda>_.
       bnd (scoped [] (allocate_private_inserts simd prepared)) (\<lambda>(r, private).
       bnd (case r of Inr _ \<Rightarrow> ok () | Inl e \<Rightarrow> bnd (release_private_batch private) (\<lambda>_. err e)) (\<lambda>_.
       bnd (catch (link_private_batch private) (\<lambda>e. bnd (release_private_batch private) (\<lambda>_. err e))) (\<lambda>_.
       bnd (catch (reads (\<lambda>db. collect_private_groups db private))
             (\<lambda>e. bnd (release_private_batch private) (\<lambda>_. err e))) (\<lambda>groups.
       bnd (forM groups commit_private_group) (\<lambda>_. ok count)))))))))"

definition db_add_batch :: "simd \<Rightarrow> bytes list \<Rightarrow> (database, usize) prog" where
  "db_add_batch simd keys =
     bnd (gets db_config) (\<lambda>c.
     if mode c \<noteq> Set then err (Unsupported ''add_batch is available only for sets'')
     else insert_batch_inner simd (map (\<lambda>key. (key, None)) keys))"

definition write_only :: "database \<Rightarrow> unit res" where
  "write_only db = (if mode (db_config db) \<noteq> Map then Err (Unsupported ''write_only is available only for maps'') else Ok ())"

definition writer_put_batch :: "simd \<Rightarrow> (bytes \<times> bytes) list \<Rightarrow> (database, usize) prog" where
  "writer_put_batch simd entries = insert_batch_inner simd (map (\<lambda>(key, value). (key, Some value)) entries)"

end
