(* ===== verification/Table_Admin.thy ===== *)
theory Table_Admin
  imports Table_Batch
begin

text \<open>
  src/table.rs, the life cycle of a database: the persistent header and the layout of the heads
  file, creation, synchronisation and close, and online compaction.
\<close>

subsection \<open>The heads file\<close>

definition bank_size :: "u64 \<Rightarrow> u64 res" where
  "bank_size buckets =
     ok_or (Option.bind (checked_mul buckets 8) (\<lambda>bytes. align_up bytes FORMAT_PAGE_SIZE))
       (InvalidConfig ''checkpoint bank size overflow'')"

definition snapshot_bank_start :: "u64 \<Rightarrow> u64 \<Rightarrow> u64 res" where
  "snapshot_bank_start buckets bank =
     (if bank > 1 then Err (Corrupt ''checkpoint bank index is out of range'')
      else rbind (bank_size buckets) (\<lambda>size.
        ok_or (Option.bind (checked_add HEADS_START size) (\<lambda>start.
               Option.bind (checked_mul bank size) (checked_add start)))
          (InvalidConfig ''checkpoint bank offset overflow'')))"

definition heads_length :: "u64 \<Rightarrow> u64 res" where
  "heads_length buckets =
     rbind (bank_size buckets) (\<lambda>size.
     rbind (ok_or (checked_mul size 3) (InvalidConfig ''heads file size overflow'')) (\<lambda>bytes.
     ok_or (checked_add HEADS_START bytes) (InvalidConfig ''heads file size overflow'')))"

definition write_header_u64 :: "bytes \<Rightarrow> usize \<Rightarrow> u64 \<Rightarrow> bytes res" where
  "write_header_u64 header offset value =
     rbind (ok_or (usize_checked_add offset 8) (Corrupt ''header field overflow'')) (\<lambda>end.
     if end \<le> length header then Ok (splice header offset (u64_le value))
     else Err (Corrupt ''header field is out of bounds''))"

definition header_checksum :: "bytes \<Rightarrow> u64 res" where
  "header_checksum header =
     rbind (ok_or (slice header 0 HEADER_CHECKSUM_OFFSET) (Corrupt ''heads header is too small for its checksum'')) (\<lambda>bytes.
     Ok (xxh64 bytes HEADER_CHECKSUM_SEED))"

text \<open>The header page before its checksum: the fields in the order they are written.\<close>

definition header_fields :: "config \<Rightarrow> (usize \<times> u64) list" where
  "header_fields c =
     [(8, FORMAT_VERSION), (16, mode_u64 (mode c)), (24, bucket_count c),
      (32, of_nat KEY_SIZE), (40, body_capacity c), (48, blob_capacity c),
      (56, block_size c), (72, hash_seed c), (80, NODE_SIZE_U64), (88, 0)]"

definition header_page :: "config \<Rightarrow> bytes res" where
  "header_page c =
     rbind (rfold (\<lambda>(offset, value) header. write_header_u64 header offset value)
       (header_fields c) (splice (replicate (unat FORMAT_PAGE_SIZE) 0) 0 HEADER_MAGIC)) (\<lambda>header.
     rbind (header_checksum header) (\<lambda>checksum.
     write_header_u64 header HEADER_CHECKSUM_OFFSET checksum))"

definition initialize_header :: "config \<Rightarrow> (mapped_file, unit) prog" where
  "initialize_header c =
     bnd (reads (\<lambda>heads. try_reserve (reserve_limit heads) (unat FORMAT_PAGE_SIZE))) (\<lambda>_.
     bnd (lift (header_page c)) (copy_in 0))"

definition create_runtime_heads :: "u64 \<Rightarrow> mapped_file \<Rightarrow> bool \<Rightarrow> u64 list res" where
  "create_runtime_heads buckets heads load_persisted =
     rbind (try_reserve (reserve_limit heads) (unat buckets)) (\<lambda>_.
     rmap (\<lambda>bucket.
       if load_persisted then
         rbind (ok_or (checked_mul (of_nat bucket) 8) (Corrupt ''head offset overflow'')) (\<lambda>bytes.
         rbind (ok_or (checked_add HEADS_START bytes) (Corrupt ''head offset overflow'')) (\<lambda>offset.
         rbind (copy_out heads offset 8) (\<lambda>bytes. Ok (from_le bytes))))
       else Ok 0) [0..<unat buckets])"

definition create_delete_locks :: "u64 \<Rightarrow> usize \<Rightarrow> u64 list res" where
  "create_delete_locks buckets limit =
     rbind (try_reserve limit (unat buckets)) (\<lambda>_. Ok (replicate (unat buckets) 0))"

subsection \<open>Creation\<close>

text \<open>What the file system answers while a database is created: the outcome of \<open>create_dir\<close> and
  the environments of the files; a new directory holds none of them.\<close>

record create_env =
  env_dir :: "io_error option"
  env_heads :: os_env
  env_body :: os_env
  env_body_counts :: os_env
  env_blobs :: os_env
  env_blobs_counts :: os_env

definition db_create :: "create_env \<Rightarrow> config \<Rightarrow> database res" where
  "db_create env c =
     rbind (validate c) (\<lambda>_.
     rbind (case env_dir env of Some e \<Rightarrow> Err (Io e) | None \<Rightarrow> Ok ()) (\<lambda>_.
     rbind (heads_length (bucket_count c)) (\<lambda>len.
     rbind (mf_create (env_heads env) False len False) (\<lambda>heads.
     rbind (exec (initialize_header c) heads) (\<lambda>heads.
     rbind (exec mf_advise_heads heads) (\<lambda>heads.
     rbind (create_runtime_heads (bucket_count c) heads False) (\<lambda>runtime.
     rbind (create_delete_locks (bucket_count c) (reserve_limit heads)) (\<lambda>locks.
     rbind (al_create (env_body env) (env_body_counts env) False False (body_capacity c) (block_size c)) (\<lambda>body.
     rbind (if mode c = Map then
              rbind (al_create (env_blobs env) (env_blobs_counts env) False False (blob_capacity c) (block_size c)) (\<lambda>b. Ok (Some b))
            else Ok None) (\<lambda>blobs.
     Ok \<lparr>db_config = c, db_heads = heads, runtime_heads = runtime, delete_locks = locks,
         db_body = body, db_blobs = blobs, checkpoint_state = 0, checkpoint_generation = 0,
         quiescence_poisoned = False, compaction_state = 0\<rparr>))))))))))"

subsection \<open>Synchronisation\<close>

function chunks :: "usize \<Rightarrow> 'a list \<Rightarrow> 'a list list" where
  "chunks n xs = (if xs = [] \<or> n = 0 then [] else take n xs # chunks n (drop n xs))"
  by pat_completeness auto
termination
  by (relation "measure (\<lambda>(_, xs). length xs)") auto

declare chunks.simps [simp del]

definition persist_chunk :: "usize \<times> u64 list \<Rightarrow> (database, unit) prog" where
  "persist_chunk = (\<lambda>(batch, heads).
     bnd (lift (ok_or (usize_checked_mul batch HEAD_BATCH) (Corrupt ''head batch offset overflow''))) (\<lambda>first.
     bnd (lift (ok_or (u64_try_from first) (Corrupt ''head batch offset overflow''))) (\<lambda>first.
     bnd (lift (ok_or (checked_mul first 8) (Corrupt ''head batch offset overflow''))) (\<lambda>bytes.
     bnd (lift (ok_or (checked_add HEADS_START bytes) (Corrupt ''head batch offset overflow''))) (\<lambda>offset.
     on_heads (copy_in offset (concat (map u64_le heads))))))))"

definition persist_runtime_heads :: "(database, unit) prog" where
  "persist_runtime_heads =
     bnd (reads (\<lambda>db. db_try_reserve db (HEAD_BATCH * 8))) (\<lambda>_.
     bnd (gets runtime_heads) (\<lambda>heads.
     forM (enumerate 0 (chunks HEAD_BATCH heads)) persist_chunk))"

definition db_sync :: "(database, unit) prog" where
  "db_sync =
     bnd (reads operation_guard) (\<lambda>_.
     bnd (on_body al_sync_all) (\<lambda>_.
     bnd (gets db_blobs) (\<lambda>blobs.
     bnd (if blobs \<noteq> None then on_blobs al_sync_all else ok ()) (\<lambda>_.
     bnd persist_runtime_heads (\<lambda>_.
     on_heads mf_sync_all)))))"

definition db_close :: "(database, unit) prog" where
  "db_close = db_sync"

subsection \<open>Compaction\<close>

definition CHECKPOINT_IDLE :: u64 where "CHECKPOINT_IDLE = 0"

definition checkpoint_active :: "database \<Rightarrow> bool" where
  "checkpoint_active db \<longleftrightarrow> checkpoint_state db \<noteq> CHECKPOINT_IDLE"

definition cas_compaction_state :: "u64 \<Rightarrow> u64 \<Rightarrow> (database, bool) prog" where
  "cas_compaction_state expected new db =
     (if compaction_state db = expected then Some (Inr True, db\<lparr>compaction_state := new\<rparr>)
      else Some (Inr False, db))"

definition reclaim_compaction_nodes :: "allocation list \<Rightarrow> (database, unit) prog" where
  "reclaim_compaction_nodes retired =
     bnd (reads operation_guard) (\<lambda>_.
     each_first_error retired
       (\<lambda>a. on_body (bnd (tombstone_node (alloc_offset a)) (\<lambda>_. release a))) None)"

type_synonym compact_locals = "allocation list \<times> u64"

text \<open>One attempt to move the node at \<open>offset\<close>: the \<open>while let\<close> loop of the source.\<close>

definition relocate_step :: "simd \<Rightarrow> u64 \<Rightarrow> u64 \<Rightarrow> (database \<times> compact_locals, (unit, unit) flow) prog" where
  "relocate_step simd bucket offset =
     bnd (reads (\<lambda>(db, _). find_offset db bucket offset)) (\<lambda>r.
     case r of
       None \<Rightarrow> ok (Return ())
     | Some (n, l) \<Rightarrow>
         bnd (on_fst (on_body (allocate_node simd (node_key n) (node_value n)))) (\<lambda>replacement.
         bnd (on_fst (on_body (catch (set_private_next (alloc_offset replacement) 0 (node_next n)) (\<lambda>e.
                bnd (tombstone_node (alloc_offset replacement)) (\<lambda>_.
                bnd (release replacement) (\<lambda>_. err e)))))) (\<lambda>_.
         bnd (on_fst (compare_exchange_link l (node_offset n) (alloc_offset replacement))) (\<lambda>swapped.
         if swapped then
           bnd (reads (\<lambda>(db, _). allocation_for (db_body db) (node_offset n) (of_nat NODE_SIZE))) (\<lambda>old.
           bnd (modify (\<lambda>(db, retired, moved). (db, retired @ [old], saturating_add moved 1))) (\<lambda>_.
           ok (Return ())))
         else
           bnd (on_fst (on_body (tombstone_node (alloc_offset replacement)))) (\<lambda>_.
           bnd (on_fst (on_body (release replacement))) (\<lambda>_.
           ok (Continue ())))))))"

definition compact_slot :: "simd \<Rightarrow> u64 \<Rightarrow> u64 \<Rightarrow> (database \<times> compact_locals, unit) prog" where
  "compact_slot simd base slot =
     bnd (lift (ok_or (checked_mul slot NODE_SIZE_U64) (CapacityExhausted ''compaction node offset''))) (\<lambda>relative.
     bnd (lift (ok_or (checked_add base relative) (CapacityExhausted ''compaction node offset''))) (\<lambda>offset.
     bnd (reads (\<lambda>(db, _). read_node_if_present (db_body db) offset)) (\<lambda>scanned.
     case scanned of
       None \<Rightarrow> ok ()
     | Some n \<Rightarrow>
         bnd (gets (\<lambda>(db, _). hash_bucket db (key_hash db (node_key n)))) (\<lambda>bucket.
         with_delete_guard_local bucket (loop (\<lambda>_. relocate_step simd bucket offset) ())))))"

definition compact_block :: "simd \<Rightarrow> u64 \<Rightarrow> u64 \<Rightarrow> (database \<times> compact_locals, unit) prog" where
  "compact_block simd slots block =
     bnd (reads (\<lambda>(db, _). block_offset (db_body db) block)) (\<lambda>base.
     forM [0..<unat slots] (\<lambda>slot. compact_slot simd base (of_nat slot)))"

definition count_reclaimed :: "database \<Rightarrow> u64 list \<Rightarrow> u64 res" where
  "count_reclaimed db candidates =
     rfold (\<lambda>block n. rbind (block_live_count (db_body db) block) (\<lambda>c. Ok (if c = 0 then n + 1 else n)))
       candidates 0"

definition compact_inner :: "simd \<Rightarrow> u16 \<Rightarrow> (database, compaction_stats) prog" where
  "compact_inner simd minimum_page_load =
     bnd (gets checkpoint_active) (\<lambda>active.
     if active then err (Busy ''checkpoint is active'')
     else
       bnd (reads operation_guard) (\<lambda>_.
       bnd (reads (\<lambda>db. blocks_below_load (db_body db) (saturating_sub minimum_page_load 1))) (\<lambda>candidates.
       bnd (lift (ok_or (u64_try_from (length candidates)) (CapacityExhausted ''compaction statistics''))) (\<lambda>pages.
       bnd (lift (ok_or (usize_checked_mul (length candidates) (unat minimum_page_load)) OutOfMemory)) (\<lambda>reserve.
       bnd (reads (\<lambda>db. db_try_reserve db reserve)) (\<lambda>_.
       bnd (gets (\<lambda>db. al_block_size (db_body db) div NODE_SIZE_U64)) (\<lambda>slots.
       bnd (scoped ([], 0) (forM candidates (compact_block simd slots))) (\<lambda>(relocation, retired, moved).
       bnd (attempt (reclaim_compaction_nodes retired)) (\<lambda>reclamation.
       bnd (case (relocation, reclamation) of
              (Inr _, Inr _) \<Rightarrow> ok () | (Inl e, _) \<Rightarrow> err e | (Inr _, Inl e) \<Rightarrow> err e) (\<lambda>_.
       bnd (reads (\<lambda>db. count_reclaimed db candidates)) (\<lambda>reclaimed.
       ok \<lparr>candidate_pages = pages, moved_nodes = moved, reclaimed_pages = reclaimed,
           remaining_candidate_pages = saturating_sub pages reclaimed\<rparr>)))))))))))"

definition db_compact :: "simd \<Rightarrow> u16 \<Rightarrow> (database, compaction_stats) prog" where
  "db_compact simd minimum_page_load =
     bnd (gets (\<lambda>db. al_block_size (db_body db) div NODE_SIZE_U64)) (\<lambda>page_capacity.
     if minimum_page_load = 0 \<or> ucast minimum_page_load > page_capacity
       then err (InvalidConfig ''compaction page load must be within the body-page capacity'')
     else
       bracket
         (bnd (cas_compaction_state 0 1) (\<lambda>swapped.
            if swapped then ok () else err (Busy ''another compaction is active'')))
         (\<lambda>_. modify (\<lambda>db. db\<lparr>compaction_state := 0\<rparr>))
         (compact_inner simd minimum_page_load))"

end
