(* ===== verification/Zero_Run.thy ===== *)
theory Zero_Run
  imports Allocator
begin

text \<open>
  The scan of the count file for free pages (\<open>longest_zero_run\<close> of src/allocator.rs): the AVX2 and
  NEON masks agree with the scalar loop, the vector and scalar loops together are one pass over
  the counts, and that pass finds the longest claimable run of free pages.
\<close>

subsection \<open>Zero masks\<close>

lemma length_chunks2 [simp]: "length (chunks2 bs) = length bs div 2"
  by (induction bs rule: chunks2.induct) simp_all

lemma nth_chunks2: "i < length bs div 2 \<Longrightarrow> chunks2 bs ! i = [bs ! (2 * i), bs ! (2 * i + 1)]"
proof (induction bs arbitrary: i rule: chunks2.induct)
  case (1 a b rest)
  then show ?case by (cases i) auto
qed auto

text \<open>A loop that sets the bit of every entry that passes a test.\<close>

definition collect_bits :: "('x \<Rightarrow> bool) \<Rightarrow> nat \<Rightarrow> 'x list \<Rightarrow> u32 \<Rightarrow> u32" where
  "collect_bits P k xs = fold (\<lambda>(i, x) m. if P x then m OR push_bit i 1 else m) (enumerate k xs)"

lemma bit_collect_bits:
  assumes "j < 32"
  shows "bit (collect_bits P k xs m) j \<longleftrightarrow> bit m j \<or> (k \<le> j \<and> j < k + length xs \<and> P (xs ! (j - k)))"
  using assms
proof (induction xs arbitrary: k m)
  case Nil
  then show ?case by (auto simp: collect_bits_def)
next
  case (Cons x xs)
  have "collect_bits P k (x # xs) m = collect_bits P (Suc k) xs (if P x then m OR push_bit k 1 else m)"
    by (simp add: collect_bits_def)
  with Cons show ?case
    by (cases "j = k") (auto simp: bit_simps nth_Cons' not_le le_Suc_eq)
qed

lemma zero_mask_scalar_eq: "zero_mask_scalar bs = collect_bits (\<lambda>v. v = [0, 0]) 0 (chunks2 bs) 0"
  by (simp add: zero_mask_scalar_def collect_bits_def)

lemma movemask_eq: "movemask_epi8 bs = collect_bits (\<lambda>b. bit b 7) 0 bs 0"
  by (simp add: movemask_epi8_def collect_bits_def)

lemma zero_mask_scalar_bit:
  "length bs = 32 \<Longrightarrow> lane < 16 \<Longrightarrow> bit (zero_mask_scalar bs) lane \<longleftrightarrow> [bs ! (2 * lane), bs ! (2 * lane + 1)] = [0, 0]"
  by (simp add: zero_mask_scalar_eq bit_collect_bits nth_chunks2)

lemma from_le_2_zero: "(from_le [a, b] :: u16) = 0 \<longleftrightarrow> a = 0 \<and> b = 0"
proof
  assume "(from_le [a, b] :: u16) = 0"
  then have "u16_le (from_le [a, b]) = u16_le 0" by simp
  then have "[a, b] = u16_le 0" by (subst (asm) u16_le_of_bytes) simp_all
  then show "a = 0 \<and> b = 0" by (simp add: numeral_2_eq_2)
qed simp

lemma nth_cmpeq:
  "i < length bs div 2 \<Longrightarrow> cmpeq_zero_epi16 bs ! i =
     (if [bs ! (2 * i), bs ! (2 * i + 1)] = [0, 0] then - 1 else 0)"
  by (simp add: cmpeq_zero_epi16_def nth_chunks2 from_le_2_zero del: from_le.simps)

lemma nth_concat_u16:
  "i < 2 * length ws \<Longrightarrow> concat (map u16_le ws) ! i = u16_le (ws ! (i div 2)) ! (i mod 2)"
proof (induction ws arbitrary: i)
  case Nil
  then show ?case by simp
next
  case (Cons w ws)
  show ?case
  proof (cases "i < 2")
    case True
    then show ?thesis by (simp add: nth_append)
  next
    case False
    then obtain k where "i = k + 2" by (metis le_add_diff_inverse2 not_less)
    with Cons show ?thesis by (simp add: nth_append)
  qed
qed

lemma length_concat_u16 [simp]: "length (concat (map u16_le ws)) = 2 * length ws"
  by (induction ws) simp_all

lemma avx2_byte_mask:
  assumes "length bs = 32" "j < 32"
  shows "bit (movemask_epi8 (concat (map u16_le (cmpeq_zero_epi16 bs)))) j \<longleftrightarrow>
     [bs ! (2 * (j div 2)), bs ! (2 * (j div 2) + 1)] = [0, 0]"
proof -
  have l: "length (cmpeq_zero_epi16 bs) = 16" using assms by (simp add: cmpeq_zero_epi16_def)
  have "u16_le (- 1) ! k = (- 1 :: u8)" "u16_le 0 ! k = (0 :: u8)" if "k < 2" for k
    using that by (auto simp: to_le_nth intro!: bit_word_eqI simp: bit_simps)
  moreover have "j mod 2 < 2" "j div 2 < 16" using assms by auto
  ultimately show ?thesis
    using assms l by (simp add: movemask_eq bit_collect_bits nth_concat_u16 nth_cmpeq)
qed

lemma two_bits: "w AND push_bit k 3 = push_bit k 3 \<longleftrightarrow> bit w k \<and> bit w (Suc k)" if "Suc k < 32" for w :: u32
proof -
  have b: "bit (push_bit k 3 :: u32) n \<longleftrightarrow> n = k \<or> n = Suc k" if "n < 32" for n
  proof -
    have e: "(3 :: u32) = mask 2" by (simp add: mask_eq_exp_minus_1)
    have "bit (push_bit k (mask 2) :: u32) n \<longleftrightarrow> n = k \<or> n = Suc k"
      using that \<open>Suc k < 32\<close> by (auto simp: bit_simps)
    then show ?thesis unfolding e .
  qed
  show ?thesis
  proof
    assume eq: "w AND push_bit k 3 = push_bit k 3"
    have "bit (w AND push_bit k 3) k" "bit (w AND push_bit k 3) (Suc k)" unfolding eq using b that by auto
    then show "bit w k \<and> bit w (Suc k)" by (simp add: bit_simps)
  next
    assume "bit w k \<and> bit w (Suc k)"
    then show "w AND push_bit k 3 = push_bit k 3"
      by (intro bit_word_eqI) (auto simp: bit_and_iff b)
  qed
qed

lemma fold_lanes:
  assumes "j < 32" "n \<le> 32"
  shows "bit (fold (\<lambda>lane m. if P lane then m OR push_bit lane 1 else m) [0..<n] (m0 :: u32)) j \<longleftrightarrow> bit m0 j \<or> (j < n \<and> P j)"
  using assms
proof (induction n)
  case (Suc n)
  then show ?case by (cases "j = n") (auto simp: bit_simps)
qed simp

lemma zero_mask_avx2_bit:
  assumes "length bs = 32" "lane < 16"
  shows "bit (zero_mask_16_avx2 bs) lane \<longleftrightarrow> [bs ! (2 * lane), bs ! (2 * lane + 1)] = [0, 0]"
  using assms
  by (simp add: zero_mask_16_avx2_def Let_def fold_lanes two_bits avx2_byte_mask mult.commute [of lane])

lemma zero_mask_neon_bit:
  assumes "length bs = 32" "lane < 16"
  shows "bit (zero_mask_16_neon bs) lane \<longleftrightarrow> [bs ! (2 * lane), bs ! (2 * lane + 1)] = [0, 0]"
proof -
  have inner: "fold (\<lambda>(l, value) mask. if value = U16_MAX then mask OR push_bit (h * 8 + l) 1 else mask) (enumerate k xs) m
      = collect_bits (\<lambda>v. v = U16_MAX) (h * 8 + k) xs m" for h k xs and m :: u32
    by (induction xs arbitrary: k m) (simp_all add: collect_bits_def)
  have l: "length (cmpeq_zero_epi16 (take 16 (drop (h * 16) bs))) = 8" if "h < 2" for h
    using that assms by (simp add: cmpeq_zero_epi16_def)
  have n: "cmpeq_zero_epi16 (take 16 (drop (h * 16) bs)) ! i = U16_MAX \<longleftrightarrow>
      [bs ! (h * 16 + 2 * i), bs ! (h * 16 + 2 * i + 1)] = [0, 0]" if "h < 2" "i < 8" for h i
    using that assms by (simp add: nth_cmpeq U16_MAX_def add.assoc)
  have u: "[0..<2] = [0, 1::nat]" by (simp add: upt_rec)
  show ?thesis
    using assms l [of 0] l [of 1] n [of 0 lane] n [of 1 "lane - 8"]
    by (cases "lane < 8")
      (auto simp: zero_mask_16_neon_def inner [where k = 0, simplified] u bit_collect_bits algebra_simps)
qed

lemma zero_mask_16_bit:
  "length bs = 32 \<Longrightarrow> lane < 16 \<Longrightarrow>
     bit (zero_mask_16 simd bs) lane \<longleftrightarrow> [bs ! (2 * lane), bs ! (2 * lane + 1)] = [0, 0]"
  by (cases simd) (simp_all only: zero_mask_16_def simd.case zero_mask_avx2_bit zero_mask_neon_bit zero_mask_scalar_bit)

lemma collect_bits_high:
  "k + length xs \<le> i \<Longrightarrow> \<not> bit m i \<Longrightarrow> \<not> bit (collect_bits P k xs m) i"
  by (cases "i < 32") (auto simp: bit_collect_bits dest: bit_imp_le_length)

lemma zero_mask_16_high:
  assumes "length bs = 32" "16 \<le> i"
  shows "\<not> bit (zero_mask_16 simd bs) i"
proof (cases "i < 32")
  case True
  have inner: "fold (\<lambda>(l, value) mask. if value = U16_MAX then mask OR push_bit (h * 8 + l) 1 else mask) (enumerate k xs) m
      = collect_bits (\<lambda>v. v = U16_MAX) (h * 8 + k) xs m" for h k xs and m :: u32
    by (induction xs arbitrary: k m) (simp_all add: collect_bits_def)
  have u: "[0..<2] = [0, 1::nat]" by (simp add: upt_rec)
  show ?thesis
    using assms True
    by (cases simd)
      (simp_all add: zero_mask_16_def zero_mask_scalar_eq bit_collect_bits zero_mask_16_avx2_def Let_def fold_lanes
        zero_mask_16_neon_def inner [where k = 0, simplified] u cmpeq_zero_epi16_def)
qed (auto dest: bit_imp_le_length)

subsection \<open>The scan as one pass over the counts\<close>

definition run_pure :: "(nat \<Rightarrow> u16) \<Rightarrow> usize \<Rightarrow> zero_run \<Rightarrow> zero_run" where
  "run_pure c i st =
     (if c i = 0 then
        let st = (if run_length st = 0
              then st\<lparr>run_start := i, run_claimable := (i = 0 \<or> c (i - 1) \<noteq> U16_MAX)\<rparr> else st);
            st = st\<lparr>run_length := run_length st + 1\<rparr>
        in if run_claimable st \<and> run_length st > best_length st
           then st\<lparr>best_start := run_start st, best_length := run_length st\<rparr> else st
      else st\<lparr>run_length := 0\<rparr>)"

definition snap_of :: "bytes \<Rightarrow> (nat \<Rightarrow> u16) \<Rightarrow> nat \<Rightarrow> bool" where
  "snap_of snapshot c n \<longleftrightarrow> length snapshot = 2 * n \<and> n < 2 ^ 32
     \<and> (\<forall>i < n. from_le [snapshot ! (2 * i), snapshot ! (2 * i + 1)] = c i)"

lemma snap_zero:
  "snap_of snapshot c n \<Longrightarrow> i < n \<Longrightarrow> [snapshot ! (2 * i), snapshot ! (2 * i + 1)] = [0, 0] \<longleftrightarrow> c i = 0"
  using from_le_2_zero [of "snapshot ! (2 * i)" "snapshot ! (2 * i + 1)"]
  by (auto simp: snap_of_def simp del: from_le.simps)

lemma slice2:
  assumes "2 * i + 2 \<le> length bs"
  shows "slice bs (i * 2) (i * 2 + 2) = Some [bs ! (2 * i), bs ! (2 * i + 1)]"
  using assms by (simp add: slice_def mult.commute take_Suc_conv_app_nth numeral_2_eq_2)

lemma snapshot_count_eq:
  assumes "snap_of snapshot c n" "i < n"
  shows "snapshot_count snapshot i = Ok (c i)"
proof -
  have "2 * i + 2 \<le> length snapshot" "i * 2 < 2 ^ 64" using assms by (auto simp: snap_of_def)
  then show ?thesis using assms slice2 [of i snapshot]
    by (simp add: snapshot_count_def usize_checked_mul_def snap_of_def del: from_le.simps)
qed

lemma run_step_eq:
  assumes "snap_of snapshot c n" "i < n" "z \<longleftrightarrow> c i = 0"
  shows "run_step snapshot i z st = Ok (run_pure c i st)"
  using assms snapshot_count_eq [OF assms(1), of "i - 1"]
  by (auto simp: run_step_def run_pure_def Let_def)

lemma rfold_pure:
  "(\<And>x a. x \<in> set xs \<Longrightarrow> f x a = Ok (g x a)) \<Longrightarrow> rfold f xs a = Ok (fold g xs a)"
  by (induction xs arbitrary: a) simp_all

lemma scan1_eq:
  assumes "snap_of snapshot c n" "index \<le> n"
  shows "scan1 snapshot n index st = Ok (fold (run_pure c) [index..<n] st)"
  using assms(2)
proof (induction "n - index" arbitrary: index st)
  case 0
  then show ?case by (simp add: scan1.simps)
next
  case (Suc k)
  then have lt: "index < n" by simp
  have b: "2 * index + 2 \<le> length snapshot" "index * 2 < 2 ^ 64" using assms(1) lt by (auto simp: snap_of_def)
  have "[index..<n] = index # [Suc index..<n]" using lt by (rule upt_conv_Cons)
  moreover have "scan1 snapshot n (index + 1) (run_pure c index st) = Ok (fold (run_pure c) [Suc index..<n] (run_pure c index st))"
    using Suc by simp
  ultimately show ?case
    using lt b slice2 [OF b(1)] run_step_eq [OF assms(1) lt snap_zero [OF assms(1) lt]]
    by (subst scan1.simps) (simp add: usize_checked_mul_def)
qed

lemma lanes_eq:
  assumes sn: "snap_of snapshot c n" and le: "index + 16 \<le> n"
  shows "rfold (\<lambda>lane. run_step snapshot (index + lane)
        (zero_mask_16 simd (take 32 (drop (index * 2) snapshot)) AND push_bit lane 1 \<noteq> 0)) [0..<16] st
     = Ok (fold (run_pure c) [index..<index + 16] st)"
proof -
  let ?v = "take 32 (drop (index * 2) snapshot)"
  have l: "length ?v = 32" using sn le by (simp add: snap_of_def)
  have "run_step snapshot (index + lane) (zero_mask_16 simd ?v AND push_bit lane 1 \<noteq> 0) st
      = Ok (run_pure c (index + lane) st)" if lane: "lane < 16" for lane st
  proof (rule run_step_eq [OF sn])
    show "index + lane < n" using lane le by simp
    have "bit (zero_mask_16 simd ?v) lane \<longleftrightarrow> [?v ! (2 * lane), ?v ! (2 * lane + 1)] = [0, 0]"
      by (rule zero_mask_16_bit [OF l lane])
    also have "[?v ! (2 * lane), ?v ! (2 * lane + 1)] = [snapshot ! (2 * (index + lane)), snapshot ! (2 * (index + lane) + 1)]"
      using lane l sn le by (simp add: snap_of_def algebra_simps)
    also have "\<dots> = [0, 0] \<longleftrightarrow> c (index + lane) = 0" by (rule snap_zero [OF sn]) (use lane le in simp)
    finally show "zero_mask_16 simd ?v AND push_bit lane 1 \<noteq> 0 \<longleftrightarrow> c (index + lane) = 0"
      by (simp only: and_single_bit not_not)
  qed
  then have "rfold (\<lambda>lane. run_step snapshot (index + lane) (zero_mask_16 simd ?v AND push_bit lane 1 \<noteq> 0)) [0..<16] st
      = Ok (fold (\<lambda>lane. run_pure c (index + lane)) [0..<16] st)"
    by (intro rfold_pure) simp
  also have "fold (\<lambda>lane. run_pure c (index + lane)) [0..<16] st = fold (run_pure c) (map ((+) index) [0..<16]) st"
    by (simp add: fold_map comp_def)
  also have "map ((+) index) [0..<16] = [index..<index + 16]"
    by (rule nth_equalityI) simp_all
  finally show ?thesis .
qed

lemma scan16_eq:
  assumes "snap_of snapshot c n" "index \<le> n"
  shows "\<exists>k. index \<le> k \<and> k \<le> n \<and> scan16 simd snapshot n index st = Ok (k, fold (run_pure c) [index..<k] st)"
  using assms(2)
proof (induction "n - index" arbitrary: index st rule: less_induct)
  case less
  show ?case
  proof (cases "index + 16 \<le> n")
    case False
    then show ?thesis using less.prems by (intro exI [of _ index]) (subst scan16.simps, simp)
  next
    case True
    let ?s = "fold (run_pure c) [index..<index + 16] st"
    have "n - (index + 16) < n - index" using True by linarith
    from less.hyps [OF this, of ?s] True obtain k where k: "index + 16 \<le> k" "k \<le> n"
      "scan16 simd snapshot n (index + 16) ?s = Ok (k, fold (run_pure c) [index + 16..<k] ?s)" by auto
    have b: "index * 2 + 32 \<le> length snapshot" "index * 2 < 2 ^ 64"
      using assms(1) True by (auto simp: snap_of_def)
    have "[index..<k] = [index..<index + 16] @ [index + 16..<k]"
      using k(1) by (metis le_add1 le_add_diff_inverse upt_add_eq_append)
    then have "scan16 simd snapshot n index st = Ok (k, fold (run_pure c) [index..<k] st)"
      using True b k(3) lanes_eq [OF assms(1) True, of simd st]
      by (subst scan16.simps) (simp add: usize_checked_mul_def slice_def)
    then show ?thesis using k by (intro exI [of _ k]) simp
  qed
qed

abbreviation run_init :: zero_run where
  "run_init \<equiv> \<lparr>best_start = 0, best_length = 0, run_start = 0, run_length = 0, run_claimable = True\<rparr>"

lemma scan_eq:
  assumes "snap_of snapshot c n"
  shows "rbind (scan16 simd snapshot n 0 run_init) (\<lambda>(index, st). scan1 snapshot n index st)
     = Ok (fold (run_pure c) [0..<n] run_init)"
proof -
  from scan16_eq [OF assms, of 0 simd run_init] obtain k where k: "k \<le> n"
    "scan16 simd snapshot n 0 run_init = Ok (k, fold (run_pure c) [0..<k] run_init)" by auto
  moreover have "[0..<n] = [0..<k] @ [k..<n]" using k(1) by (metis le_add_diff_inverse upt_add_eq_append zero_le)
  ultimately show ?thesis using scan1_eq [OF assms k(1)] by simp
qed

subsection \<open>The pass finds the longest claimable run\<close>

text \<open>A run of free pages that starts after a page that is neither free nor marked.\<close>

definition claimable_run :: "(nat \<Rightarrow> u16) \<Rightarrow> nat \<Rightarrow> nat \<Rightarrow> nat \<Rightarrow> bool" where
  "claimable_run c n r k \<longleftrightarrow> 0 < k \<and> r + k \<le> n \<and> (\<forall>j. r \<le> j \<and> j < r + k \<longrightarrow> c j = 0)
     \<and> (r = 0 \<or> (c (r - 1) \<noteq> 0 \<and> c (r - 1) \<noteq> U16_MAX))"

definition run_inv :: "(nat \<Rightarrow> u16) \<Rightarrow> nat \<Rightarrow> zero_run \<Rightarrow> bool" where
  "run_inv c i st \<longleftrightarrow>
     run_length st \<le> i \<and> (\<forall>j. i - run_length st \<le> j \<and> j < i \<longrightarrow> c j = 0)
     \<and> (run_length st < i \<longrightarrow> c (i - run_length st - 1) \<noteq> 0)
     \<and> (0 < run_length st \<longrightarrow> run_start st = i - run_length st
          \<and> run_claimable st = (run_start st = 0 \<or> c (run_start st - 1) \<noteq> U16_MAX))
     \<and> (0 < best_length st \<longrightarrow> claimable_run c i (best_start st) (best_length st))
     \<and> (\<forall>r k. claimable_run c i r k \<longrightarrow> k \<le> best_length st)"

lemma claimable_run_Suc:
  assumes "claimable_run c (Suc i) r k" "\<not> claimable_run c i r k"
  shows "r + k = Suc i" "c i = 0"
  using assms unfolding claimable_run_def by (auto simp: le_Suc_eq)

lemma claimable_run_start:
  assumes run: "claimable_run c (Suc i) r k" "r + k = Suc i" and inv: "run_inv c i st"
  shows "r = i - run_length st"
proof (rule ccontr)
  let ?l = "run_length st"
  assume ne: "r \<noteq> i - ?l"
  have z: "\<And>j. r \<le> j \<Longrightarrow> j < Suc i \<Longrightarrow> c j = 0" and pred: "r = 0 \<or> c (r - 1) \<noteq> 0" and ri: "r \<le> i"
    using run by (auto simp: claimable_run_def)
  show False
  proof (cases "r < i - ?l")
    case True
    then have "c (i - ?l - 1) = 0" using z [of "i - ?l - 1"] by simp
    with True inv show False by (auto simp: run_inv_def)
  next
    case False
    with ne ri have "i - ?l \<le> r - 1" "r - 1 < i" "r \<noteq> 0" by auto
    then have "c (r - 1) = 0" using inv by (simp add: run_inv_def)
    with pred \<open>r \<noteq> 0\<close> show False by simp
  qed
qed

lemma claimable_run_mono: "claimable_run c i r k \<Longrightarrow> i \<le> n \<Longrightarrow> claimable_run c n r k"
  by (auto simp: claimable_run_def)

lemma run_inv_step:
  assumes inv: "run_inv c i st"
  shows "run_inv c (Suc i) (run_pure c i st)"
proof (cases "c i = 0")
  case False
  have "claimable_run c (Suc i) r k \<longleftrightarrow> claimable_run c i r k" for r k
    using claimable_run_Suc(2) False claimable_run_mono by (metis le_SucI order_refl)
  with False inv show ?thesis by (auto simp: run_inv_def run_pure_def)
next
  case True
  define l where "l = run_length st"
  define r where "r = i - l"
  have l: "l \<le> i" "\<And>j. r \<le> j \<Longrightarrow> j < Suc i \<Longrightarrow> c j = 0" "l < i \<Longrightarrow> c (r - 1) \<noteq> 0"
    using inv True by (auto simp: run_inv_def l_def r_def less_Suc_eq)
  define cl where "cl \<longleftrightarrow> r = 0 \<or> c (r - 1) \<noteq> U16_MAX"
  have st: "run_pure c i st = (let s = st\<lparr>run_start := r, run_claimable := cl, run_length := l + 1\<rparr> in
      if cl \<and> l + 1 > best_length st then s\<lparr>best_start := r, best_length := l + 1\<rparr> else s)"
  proof (cases "l = 0")
    case True
    then show ?thesis using \<open>c i = 0\<close> by (simp add: run_pure_def Let_def l_def r_def cl_def)
  next
    case False
    then have e: "run_start st = r" "run_claimable st = cl" using inv by (auto simp: run_inv_def l_def r_def cl_def)
    then have "st\<lparr>run_start := r, run_claimable := cl, run_length := l + 1\<rparr> = st\<lparr>run_length := l + 1\<rparr>"
      by (cases st) simp
    then show ?thesis using \<open>c i = 0\<close> False e by (simp add: run_pure_def Let_def l_def)
  qed
  have claim: "cl \<longleftrightarrow> claimable_run c (Suc i) r (l + 1)"
    using l unfolding cl_def claimable_run_def r_def by (auto simp: U16_MAX_def)
  have best: "k \<le> (if cl \<and> l + 1 > best_length st then l + 1 else best_length st)"
    if run: "claimable_run c (Suc i) q k" for q k
  proof (cases "claimable_run c i q k")
    case True
    then have "k \<le> best_length st" using inv by (auto simp: run_inv_def)
    then show ?thesis by auto
  next
    case False
    note s = claimable_run_Suc(1) [OF run False]
    have "q = r" using claimable_run_start [OF run s inv] by (simp add: r_def l_def)
    moreover have "k = l + 1" using s calculation l(1) by (simp add: r_def)
    ultimately have "cl" using run claim by simp
    then show ?thesis using \<open>k = l + 1\<close> by auto
  qed
  have old: "0 < best_length st \<longrightarrow> claimable_run c (Suc i) (best_start st) (best_length st)"
    using inv claimable_run_mono [of c i _ _ "Suc i"] by (simp add: run_inv_def)
  have sr: "Suc i - Suc l = r" "Suc l < Suc i \<longrightarrow> c (r - 1) \<noteq> 0" using l by (auto simp: r_def)
  show ?thesis
    using best claim old l sr
    by (auto simp: st run_inv_def Let_def cl_def)
qed

lemma run_inv_fold: "run_inv c n (fold (run_pure c) [0..<n] run_init)"
proof (induction n)
  case 0
  then show ?case by (auto simp: run_inv_def claimable_run_def)
next
  case (Suc n)
  then show ?case using run_inv_step by simp
qed

end
