(* ===== verification/Allocator_Inv.thy ===== *)
theory Allocator_Inv
  imports Zero_Run
begin

text \<open>
  The invariant of the page allocator with the set of its live allocations, and the effect on it
  of growth, of claiming a page, and of installing and sealing the current page.
\<close>

subsection \<open>The packed word\<close>

lemma masks: "USED_MASK = mask 32" "LIVE_MASK = push_bit 32 (mask 16)"
  by (simp_all add: alloc_consts mask_eq_exp_minus_1)

lemma unpack_packed:
  fixes s :: u64 and live :: u16 and used :: u32
  assumes "s = take_bit 8 s"
  defines "w \<equiv> push_bit 56 s OR push_bit 32 (ucast live) OR ucast used"
  shows "w AND mask 32 = (ucast used :: u64)"
    and "drop_bit 32 (w AND push_bit 32 (mask 16)) = (ucast live :: u64)"
    and "drop_bit 56 w = s"
proof -
  note b = bit_imp_le_length [of live] bit_imp_le_length [of used]
  show "w AND mask 32 = (ucast used :: u64)"
    by (rule bit_word_eqI) (use b in \<open>auto simp: w_def bit_simps\<close>)
  show "drop_bit 32 (w AND push_bit 32 (mask 16)) = (ucast live :: u64)"
    by (rule bit_word_eqI) (use b in \<open>fastforce simp: w_def bit_simps\<close>)
  show "drop_bit 56 w = s"
  proof (rule bit_word_eqI)
    fix n assume "n < LENGTH(64)"
    have "\<not> bit live (n + 24)"  "\<not> bit used (n + 56)"
      using b(1) [of "n + 24"] b(2) [of "n + 56"] by auto
    moreover have "bit s n \<Longrightarrow> n < 8" using assms(1) by (metis bit_take_bit_iff)
    ultimately show "bit (drop_bit 56 w) n = bit s n"
      by (auto simp: w_def bit_simps add.commute)
  qed
qed

lemma pack_current_Ok:
  assumes "unat used < 2 ^ 32"
  obtains w where "pack_current st used live = Ok w"
    "current_used w = used" "current_live w = live" "current_state w = Ok st"
proof -
  let ?w = "push_bit 56 (state_u64 st) OR push_bit 32 (ucast live) OR ucast (ucast used :: u32) :: u64"
  have s: "state_u64 st = take_bit 8 (state_u64 st)" by (cases st) simp_all
  note u = unpack_packed [OF s, of live "ucast used"]
  have "pack_current st used live = Ok ?w"
    using assms by (simp add: pack_current_def STATE_SHIFT_def LIVE_SHIFT_def)
  moreover have "current_used ?w = used"
    unfolding current_used_def masks u(1) using assms by (rule ucast_ucast_u32)
  moreover have "current_live ?w = live"
    unfolding current_live_def masks LIVE_SHIFT_def u(2) by (simp add: word_unat_eq_iff unat_ucast_down)
  moreover have "current_state ?w = Ok st"
    unfolding current_state_def STATE_SHIFT_def u(3) by (cases st) simp_all
  ultimately show thesis by (rule that)
qed

lemma current_used_lt: "unat (current_used w) < 2 ^ 32"
proof -
  have "current_used w = take_bit 32 w" by (simp add: current_used_def masks take_bit_eq_mask)
  then have "unat (current_used w) = take_bit 32 (unat w)" by (simp add: unsigned_take_bit_eq)
  then show ?thesis by (metis take_bit_nat_less_exp)
qed

subsection \<open>The counters of the count file\<close>

text \<open>The high-water mark and the count of a page, as numbers and words.\<close>

definition hw :: "block_allocator \<Rightarrow> nat" where
  "hw al = unat (load64 (al_counts al) 0)"

definition cnt :: "block_allocator \<Rightarrow> nat \<Rightarrow> u16" where
  "cnt al p = load16 (al_counts al) (65536 + 2 * p)"

abbreviation bsz :: "block_allocator \<Rightarrow> nat" where "bsz al \<equiv> unat (al_block_size al)"
abbreviation nbl :: "block_allocator \<Rightarrow> nat" where "nbl al \<equiv> unat (al_block_count al)"

definition set_counts :: "(nat \<Rightarrow> u8) \<Rightarrow> block_allocator \<Rightarrow> block_allocator" where
  "set_counts m al = al\<lparr>al_counts := (al_counts al)\<lparr>mem := m\<rparr>\<rparr>"

abbreviation cmem :: "block_allocator \<Rightarrow> nat \<Rightarrow> u8" where "cmem al \<equiv> mem (al_counts al)"

definition put_hw :: "u64 \<Rightarrow> block_allocator \<Rightarrow> block_allocator" where
  "put_hw w al = set_counts (mwrite 0 (u64_le w) (cmem al)) al"

definition put_cnt :: "nat \<Rightarrow> u16 \<Rightarrow> block_allocator \<Rightarrow> block_allocator" where
  "put_cnt p c al = set_counts (mwrite (65536 + 2 * p) (u16_le c) (cmem al)) al"

lemma hw_cnt_put [simp]:
  "hw (put_hw w al) = unat w"
  "cnt (put_hw w al) p = cnt al p"
  "hw (put_cnt q c al) = hw al"
  "cnt (put_cnt q c al) p = (if p = q then c else cnt al p)"
proof -
  show "hw (put_hw w al) = unat w" by (simp add: hw_def put_hw_def set_counts_def)
  show "cnt (put_hw w al) p = cnt al p" "hw (put_cnt q c al) = hw al"
    by (simp_all add: hw_def cnt_def put_hw_def put_cnt_def set_counts_def load64_def load16_def
        mread_mwrite_disjoint)
  show "cnt (put_cnt q c al) p = (if p = q then c else cnt al p)"
  proof (cases "p = q")
    case False
    then have "65536 + 2 * p + 2 \<le> 65536 + 2 * q \<or> 65536 + 2 * q + 2 \<le> 65536 + 2 * p" by linarith
    then have "mread (mwrite (65536 + 2 * q) (u16_le c) (cmem al)) (65536 + 2 * p) 2 = mread (cmem al) (65536 + 2 * p) 2"
      by (intro mread_mwrite_disjoint) simp
    with False show ?thesis by (simp add: cnt_def put_cnt_def set_counts_def load16_def)
  qed (simp add: cnt_def put_cnt_def set_counts_def)
qed

lemma put_frame [simp]:
  "al_data (set_counts m al) = al_data al" "al_capacity (set_counts m al) = al_capacity al"
  "al_block_size (set_counts m al) = al_block_size al" "al_block_count (set_counts m al) = al_block_count al"
  "current_block (set_counts m al) = current_block al" "current_word (set_counts m al) = current_word al"
  "current_guard_poisoned (set_counts m al) = current_guard_poisoned al"
  "al_counts (set_counts m al) = (al_counts al)\<lparr>mem := m\<rparr>"
  by (simp_all add: set_counts_def)

lemma put_sel [simp]:
  "al_data (put_hw w al) = al_data al"
  "al_capacity (put_hw w al) = al_capacity al"
  "al_block_size (put_hw w al) = al_block_size al"
  "al_block_count (put_hw w al) = al_block_count al"
  "current_block (put_hw w al) = current_block al"
  "current_word (put_hw w al) = current_word al"
  "current_guard_poisoned (put_hw w al) = current_guard_poisoned al"
  "file_length_word (al_counts (put_hw w al)) = file_length_word (al_counts al)"
  "mapping_length (al_counts (put_hw w al)) = mapping_length (al_counts al)"
  "os_length (al_counts (put_hw w al)) = os_length (al_counts al)"
  "backend (al_counts (put_hw w al)) = backend (al_counts al)"
  "reserve_limit (al_counts (put_hw w al)) = reserve_limit (al_counts al)"
  "os_results (al_counts (put_hw w al)) = os_results (al_counts al)"
  "al_data (put_cnt p c al) = al_data al"
  "al_capacity (put_cnt p c al) = al_capacity al"
  "al_block_size (put_cnt p c al) = al_block_size al"
  "al_block_count (put_cnt p c al) = al_block_count al"
  "current_block (put_cnt p c al) = current_block al"
  "current_word (put_cnt p c al) = current_word al"
  "current_guard_poisoned (put_cnt p c al) = current_guard_poisoned al"
  "file_length_word (al_counts (put_cnt p c al)) = file_length_word (al_counts al)"
  "mapping_length (al_counts (put_cnt p c al)) = mapping_length (al_counts al)"
  "os_length (al_counts (put_cnt p c al)) = os_length (al_counts al)"
  "backend (al_counts (put_cnt p c al)) = backend (al_counts al)"
  "reserve_limit (al_counts (put_cnt p c al)) = reserve_limit (al_counts al)"
  "os_results (al_counts (put_cnt p c al)) = os_results (al_counts al)"
  by (simp_all add: put_hw_def put_cnt_def)

lemma put_eqs: "put_hw w al = set_counts (mwrite 0 (u64_le w) (cmem al)) al"
  "put_cnt p c al = set_counts (mwrite (65536 + 2 * p) (u16_le c) (cmem al)) al"
  by (simp_all add: put_hw_def put_cnt_def)

lemma wp_on_counts:
  "wp (on_counts m) Q E al = wp m (\<lambda>a c. Q a (al\<lparr>al_counts := c\<rparr>)) (\<lambda>e c. E e (al\<lparr>al_counts := c\<rparr>)) (al_counts al)"
  by (simp add: on_counts_def wp_simps)

lemma wp_on_data:
  "wp (on_data m) Q E al = wp m (\<lambda>a d. Q a (al\<lparr>al_data := d\<rparr>)) (\<lambda>e d. E e (al\<lparr>al_data := d\<rparr>)) (al_data al)"
  by (simp add: on_data_def wp_simps)

lemma wp_cas_counts [wp_simps]:
  "wp (on_counts (cas16 (65536 + 2 * p) x y)) Q E al =
     (if cnt al p = x then Q True (put_cnt p y al) else Q False al)"
  "wp (on_counts (cas64 0 v w)) Q E al =
     (if load64 (al_counts al) 0 = v then Q True (put_hw w al) else Q False al)"
  "wp (on_counts (store16 (65536 + 2 * p) y)) Q' E al = Q' () (put_cnt p y al)"
  by (simp_all add: applied wp_def on_counts_def zoom_def cas16_def cas64_def store16_def store64_def cnt_def put_eqs set_counts_def)

lemma wp_cas_current [wp_simps]:
  "wp (cas_current_block x y) Q E al =
     (if current_block al = x then Q True (al\<lparr>current_block := y\<rparr>) else Q False al)"
  "wp (cas_current_word v w) Q E al =
     (if current_word al = v then Q True (al\<lparr>current_word := w\<rparr>) else Q False al)"
  "wp (store_current_block y) Q' E al = Q' () (al\<lparr>current_block := y\<rparr>)"
  "wp (store_current_word w) Q' E al = Q' () (al\<lparr>current_word := w\<rparr>)"
  by (simp_all add: applied wp_def cas_current_block_def cas_current_word_def store_current_block_def store_current_word_def)

subsection \<open>The invariant\<close>

abbreviation flen :: "mapped_file \<Rightarrow> nat" where "flen f \<equiv> unat (file_length_word f)"

definition round_page :: "nat \<Rightarrow> nat" where
  "round_page n = (n + 65535) div 65536 * 65536"

definition al_geom :: "block_allocator \<Rightarrow> bool" where
  "al_geom al \<longleftrightarrow> mf_inv (al_data al) \<and> mf_inv (al_counts al) \<and> \<not> current_guard_poisoned al
     \<and> is_power_of_two (al_block_size al) \<and> 65536 \<le> bsz al \<and> bsz al < 2 ^ 32
     \<and> 0 < nbl al \<and> nbl al < 2 ^ 32 \<and> unat (al_capacity al) = nbl al * bsz al
     \<and> mapping_length (al_data al) = 65536 + nbl al * bsz al
     \<and> mapping_length (al_counts al) = round_page (65536 + 2 * nbl al)"

definition al_pages :: "block_allocator \<Rightarrow> bool" where
  "al_pages al \<longleftrightarrow> hw al \<le> nbl al \<and> 65536 + hw al * bsz al \<le> flen (al_data al)
     \<and> 65536 + 2 * hw al \<le> flen (al_counts al) \<and> (\<forall>a \<ge> 65536 + 2 * hw al. cmem al a = 0)"

lemma al_geom_parts:
  assumes "al_geom al"
  shows "mf_inv (al_data al)" "mf_inv (al_counts al)" "current_guard al = Ok ()"
    "is_power_of_two (al_block_size al)" "65536 \<le> bsz al" "bsz al < 2 ^ 32"
    "0 < nbl al" "nbl al < 2 ^ 32" "unat (al_capacity al) = nbl al * bsz al"
    "nbl al * bsz al + 65536 < 2 ^ 63"
    "mapping_length (al_data al) = 65536 + nbl al * bsz al"
    "mapping_length (al_counts al) = round_page (65536 + 2 * nbl al)"
  using assms by (auto simp: al_geom_def current_guard_def mf_inv_def)

lemma cnt_above: "al_pages al \<Longrightarrow> hw al \<le> p \<Longrightarrow> cnt al p = 0"
  by (simp add: cnt_def load16_def al_pages_def mread_zero from_le_zero)

lemma high_water_Ok:
  assumes "al_geom al" "al_pages al"
  shows "high_water al = Ok 0"
  using assms by (simp add: high_water_def HIGH_WATER_OFFSET_def mf_atomic_idle(1) [OF al_geom_parts(2)] al_pages_def)

lemma hw_lt: "al_geom al \<Longrightarrow> al_pages al \<Longrightarrow> hw al < 2 ^ 32"
  using al_geom_parts(8) [of al] by (simp add: al_pages_def)

lemma next_block_value_Ok:
  assumes "al_geom al" "al_pages al"
  shows "next_block_value al = Ok (load64 (al_counts al) 0)"
  using hw_lt [OF assms]
  by (simp add: next_block_value_def high_water_Ok [OF assms] rloop_step(2) growing_clear_iff hw_def Let_def)

lemma count_offset_Some:
  "unat b < 2 ^ 32 \<Longrightarrow> \<exists>w. count_offset b = Some w \<and> unat w = 65536 + 2 * unat b"
  by (auto simp: count_offset_def checked_mul_def checked_add_def alloc_consts layout_defs
      unat_mul_nowrap unat_add_nowrap)

lemma count_word_Ok:
  assumes "al_geom al" "al_pages al" "unat b < hw al"
  shows "count_word al b = Ok (65536 + 2 * unat b)"
proof -
  have lt: "unat b < 2 ^ 32" using assms hw_lt [OF assms(1,2)] by simp
  then obtain w where w: "count_offset b = Some w" "unat w = 65536 + 2 * unat b"
    using count_offset_Some by blast
  have "\<not> al_block_count al \<le> b" using assms by (simp add: al_pages_def word_le_nat_alt)
  moreover have "mf_atomic_u16 (al_counts al) w = Ok (65536 + 2 * unat b)"
    using assms by (simp add: mf_atomic_idle(2) [OF al_geom_parts(2)] w al_pages_def)
  ultimately show ?thesis by (simp add: count_word_def w)
qed

lemma read_count_eq:
  assumes "al_geom al" "al_pages al" "unat b < hw al"
  shows "read_count al b = (if 2 \<le> reserve_limit (al_counts al) then Ok (cnt al (unat b)) else Err OutOfMemory)"
proof -
  have lt: "unat b < 2 ^ 32" using assms hw_lt [OF assms(1,2)] by simp
  then obtain w where w: "count_offset b = Some w" "unat w = 65536 + 2 * unat b"
    using count_offset_Some by blast
  have nb: "\<not> al_block_count al \<le> b" using assms by (simp add: al_pages_def word_le_nat_alt)
  have "2 \<le> reserve_limit (al_counts al) \<Longrightarrow> copy_out (al_counts al) w 2 = Ok (mread (cmem al) (65536 + 2 * unat b) 2)"
    using assms by (simp add: copy_out_idle [OF al_geom_parts(2)] w al_pages_def)
  then show ?thesis using nb by (auto simp: read_count_def w cnt_def load16_def copy_out_def try_reserve_def)
qed

lemma data_offset_Ok:
  assumes "al_geom al" "unat b < nbl al"
  obtains w where "data_offset al b = Ok w" "unat w = 65536 + unat b * bsz al"
proof -
  have "(unat b + 1) * bsz al \<le> nbl al * bsz al" using assms by (intro mult_le_mono1) simp
  then have le: "unat b * bsz al + bsz al \<le> nbl al * bsz al" by simp
  note g = al_geom_parts [OF assms(1)]
  have lt: "65536 + unat b * bsz al < 2 ^ 64" using le g(10) by simp
  show thesis
    by (rule that [of "65536 + b * al_block_size al"])
      (use lt in \<open>simp_all add: data_offset_def checked_mul_def checked_add_def layout_defs
        unat_mul_nowrap unat_add_nowrap\<close>)
qed

lemma count_snapshot_eq:
  assumes "al_geom al" "al_pages al"
  shows "count_snapshot al (load64 (al_counts al) 0) =
     (if 2 * hw al \<le> reserve_limit (al_counts al) then Ok (mread (cmem al) 65536 (2 * hw al)) else Err OutOfMemory)"
proof -
  have lt: "hw al < 2 ^ 32" by (rule hw_lt [OF assms])
  have "2 * hw al \<le> reserve_limit (al_counts al) \<Longrightarrow>
      copy_out (al_counts al) COUNTS_START (2 * hw al) = Ok (mread (cmem al) 65536 (2 * hw al))"
    using assms by (simp add: copy_out_idle [OF al_geom_parts(2)] al_pages_def alloc_consts layout_defs)
  moreover have "checked_mul (load64 (al_counts al) 0) 2 = Some (load64 (al_counts al) 0 * 2)"
    "unat (load64 (al_counts al) 0 * 2) = 2 * hw al"
    using lt by (auto simp: checked_mul_def hw_def unat_mul_nowrap)
  ultimately show ?thesis
    by (auto simp: count_snapshot_def copy_out_def try_reserve_def)
qed

subsection \<open>Live allocations\<close>

definition a_lo :: "allocation \<Rightarrow> nat" where "a_lo a = unat (alloc_offset a)"
definition a_hi :: "allocation \<Rightarrow> nat" where "a_hi a = unat (alloc_offset a) + unat (alloc_length a)"
definition page_of :: "allocation \<Rightarrow> nat" where "page_of a = unat (alloc_block a)"
definition on_page :: "allocation set \<Rightarrow> nat \<Rightarrow> allocation set" where "on_page L p = {a \<in> L. page_of a = p}"

definition alloc_in :: "block_allocator \<Rightarrow> allocation \<Rightarrow> bool" where
  "alloc_in al a \<longleftrightarrow> a_lo a < a_hi a \<and> page_of a < hw al
     \<and> 65536 + page_of a * bsz al \<le> a_lo a \<and> a_hi a \<le> 65536 + page_of a * bsz al + bsz al"

definition live_set :: "block_allocator \<Rightarrow> allocation set \<Rightarrow> bool" where
  "live_set al L \<longleftrightarrow> finite L \<and> (\<forall>a \<in> L. alloc_in al a)
     \<and> (\<forall>a \<in> L. \<forall>b \<in> L. a \<noteq> b \<longrightarrow> a_hi a \<le> a_lo b \<or> a_hi b \<le> a_lo a)"

text \<open>\<open>mk\<close> is the page whose count carries the unfinished marker.\<close>

definition counts_ok :: "block_allocator \<Rightarrow> allocation set \<Rightarrow> nat option \<Rightarrow> bool" where
  "counts_ok al L mk \<longleftrightarrow> (\<forall>p. mk = Some p \<longrightarrow> p < hw al) \<and> (\<forall>p < hw al.
     if mk = Some p then cnt al p = U16_MAX
     else cnt al p \<noteq> U16_MAX \<and> unat (cnt al p) = card (on_page L p))"

definition al_core :: "block_allocator \<Rightarrow> allocation set \<Rightarrow> nat option \<Rightarrow> bool" where
  "al_core al L mk \<longleftrightarrow> al_geom al \<and> al_pages al \<and> live_set al L \<and> counts_ok al L mk"

definition current_ok :: "block_allocator \<Rightarrow> allocation set \<Rightarrow> nat option \<Rightarrow> bool" where
  "current_ok al L mk \<longleftrightarrow> (case mk of
       None \<Rightarrow> current_block al = 0
     | Some p \<Rightarrow> unat (current_block al) = p + 1 \<and> current_state (current_word al) = Ok Open
         \<and> unat (current_used (current_word al)) \<le> bsz al
         \<and> unat (current_live (current_word al)) = card (on_page L p)
         \<and> card (on_page L p) \<le> 65534
         \<and> (\<forall>a \<in> on_page L p. a_hi a \<le> 65536 + p * bsz al + unat (current_used (current_word al))))"

text \<open>The invariant of an allocator between calls, with its live allocations.\<close>

definition al_inv :: "block_allocator \<Rightarrow> allocation set \<Rightarrow> bool" where
  "al_inv al L \<longleftrightarrow> (\<exists>mk. al_core al L mk \<and> current_ok al L mk)"

text \<open>No system call is going to fail, and memory for a copy of the counts is available.\<close>

definition al_calm :: "block_allocator \<Rightarrow> bool" where
  "al_calm s \<longleftrightarrow> os_results (al_data s) = [] \<and> os_results (al_counts s) = []
     \<and> 2 * nbl s \<le> reserve_limit (al_counts s)"

text \<open>What every allocation, release and growth leaves alone.\<close>

definition al_ext :: "block_allocator \<Rightarrow> block_allocator \<Rightarrow> bool" where
  "al_ext s t \<longleftrightarrow> al_capacity t = al_capacity s \<and> al_block_size t = al_block_size s
     \<and> al_block_count t = al_block_count s \<and> mem (al_data t) = mem (al_data s)
     \<and> flen (al_data s) \<le> flen (al_data t) \<and> hw s \<le> hw t
     \<and> reserve_limit (al_data t) = reserve_limit (al_data s)
     \<and> reserve_limit (al_counts t) = reserve_limit (al_counts s)
     \<and> (al_calm s \<longrightarrow> al_calm t)"

lemma al_ext_refl [simp]: "al_ext s s" by (simp add: al_ext_def)

lemma al_ext_trans: "al_ext s t \<Longrightarrow> al_ext t u \<Longrightarrow> al_ext s u"
  by (auto simp: al_ext_def)

lemma al_core_parts:
  assumes "al_core al L mk"
  shows "al_geom al" "al_pages al" "live_set al L" "counts_ok al L mk"
  using assms by (auto simp: al_core_def)

subsection \<open>Growth\<close>

definition mf_same :: "mapped_file \<Rightarrow> mapped_file \<Rightarrow> bool" where
  "mf_same f t \<longleftrightarrow> mf_inv t \<and> mem t = mem f \<and> mapping_length t = mapping_length f
     \<and> reserve_limit t = reserve_limit f \<and> flen f \<le> flen t
     \<and> (os_results f = [] \<longrightarrow> os_results t = [])"

lemma mf_same_refl: "mf_inv f \<Longrightarrow> mf_same f f" by (simp add: mf_same_def)

lemma mf_same_trans: "mf_same f g \<Longrightarrow> mf_same g h \<Longrightarrow> mf_same f h" by (auto simp: mf_same_def)

lemma mf_grow_wp:
  assumes "mf_inv f"
  shows "wp (mf_grow n) (\<lambda>_ t. mf_same f t \<and> n \<le> file_length_word t)
     (\<lambda>_ t. mf_same f t \<and> (os_results f \<noteq> [] \<or> \<not> (validate_mapping_length Linux n = Ok () \<and> unat n \<le> mapping_length f))) f"
  using assms
proof (cases rule: mf_grow_cases [of f n])
  case (invalid e)
  then show ?thesis using assms by (auto simp: wp_def mf_same_refl)
next
  case enough
  then show ?thesis using assms by (simp add: wp_def mf_same_refl)
next
  case (grown rest)
  then show ?thesis using assms
    by (auto simp: wp_def mf_same_def mf_inv_def word_less_nat_alt)
next
  case (failed rest io)
  then show ?thesis using assms by (simp add: wp_def mf_same_def mf_inv_def)
qed

lemma os_call_wp:
  "mf_inv f \<Longrightarrow> wp os_call (\<lambda>_ t. mf_same f t) (\<lambda>_ t. mf_same f t \<and> os_results f \<noteq> []) f"
  by (cases rule: os_call_cases [of f]) (auto simp: wp_def mf_same_def mf_inv_def)

lemma mf_reserve_wp:
  assumes "mf_inv f"
  shows "wp (mf_reserve offset len) (\<lambda>_ t. mf_same f t)
     (\<lambda>_ t. mf_same f t \<and> (os_results f \<noteq> [] \<or> \<not> unat offset + unat len \<le> flen f)) f"
proof -
  have lin: "backend f = Linux" using assms by (simp add: mf_inv_def)
  have oc: "wp os_call (\<lambda>_ t. mf_same f t)
      (\<lambda>_ t. mf_same f t \<and> (os_results f \<noteq> [] \<or> \<not> unat offset + unat len \<le> flen f)) f"
    by (rule wp_mono [OF os_call_wp [OF assms]]) auto
  note iff = checked_range_idle [OF mf_inv_idle [OF assms], of offset len]
  from checked_range_total [OF mf_inv_idle [OF assms], of offset len] show ?thesis
    using oc mf_same_refl [OF assms] lin iff mf_inv_idle [OF assms]
    by (auto simp: mf_reserve_def platform_reserve_def to_i64_def wp_simps)
qed

definition al_files :: "block_allocator \<Rightarrow> block_allocator \<Rightarrow> bool" where
  "al_files s t \<longleftrightarrow> t = s\<lparr>al_data := al_data t, al_counts := al_counts t\<rparr>
     \<and> mf_same (al_data s) (al_data t) \<and> mf_same (al_counts s) (al_counts t)"

lemma al_files_upd [simp]:
  "al_files s (s\<lparr>al_counts := c, al_data := d\<rparr>) \<longleftrightarrow> mf_same (al_data s) d \<and> mf_same (al_counts s) c"
  "al_files s (s\<lparr>al_counts := c\<rparr>) \<longleftrightarrow> mf_same (al_data s) (al_data s) \<and> mf_same (al_counts s) c"
  by (simp_all add: al_files_def)

lemma al_filesE:
  assumes "al_files s t"
  obtains d c where "t = s\<lparr>al_data := d, al_counts := c\<rparr>" "mf_same (al_data s) d" "mf_same (al_counts s) c"
  using assms unfolding al_files_def by metis

lemma al_files_eqs:
  assumes "al_files s t"
  shows "al_capacity t = al_capacity s" "al_block_size t = al_block_size s" "al_block_count t = al_block_count s"
    "current_block t = current_block s" "current_word t = current_word s"
    "current_guard_poisoned t = current_guard_poisoned s" "cmem t = cmem s" "mem (al_data t) = mem (al_data s)"
proof -
  from assms obtain d c where "t = s\<lparr>al_data := d, al_counts := c\<rparr>" "mf_same (al_data s) d" "mf_same (al_counts s) c"
    by (rule al_filesE)
  then show "al_capacity t = al_capacity s" "al_block_size t = al_block_size s" "al_block_count t = al_block_count s"
    "current_block t = current_block s" "current_word t = current_word s"
    "current_guard_poisoned t = current_guard_poisoned s" "cmem t = cmem s" "mem (al_data t) = mem (al_data s)"
    by (simp_all add: mf_same_def)
qed

lemma al_files_geom: "al_geom s \<Longrightarrow> al_files s t \<Longrightarrow> al_geom t"
  by (erule al_filesE) (simp add: al_geom_def mf_same_def)

lemma count_file_length_Ok:
  assumes "unat n < 2 ^ 32"
  obtains c where "count_file_length n = Ok c" "unat c = round_page (65536 + 2 * unat n)"
proof -
  let ?v = "n * 2 + 65536 :: u64"
  have v: "unat ?v = 65536 + 2 * unat n" using assms by (simp add: unat_add_nowrap unat_mul_nowrap)
  have "is_power_of_two (65536 :: u64)" using is_power_of_two_2p [of 16, where 'a = 64] by simp
  then obtain c where c: "align_up ?v 65536 = Some c" "unat c = (unat ?v + 65535) div 65536 * 65536"
    using align_up_eq [of 65536 ?v] assms v by auto
  then have "count_file_length n = Ok c"
    using assms by (simp add: count_file_length_def checked_mul_def checked_add_def alloc_consts layout_defs unat_mul_nowrap)
  with c v that show thesis by (simp add: round_page_def)
qed

lemma round_page_ge: "n \<le> round_page n"
  using least_multiple(1) [of 65536 n] by (simp add: round_page_def)

lemma round_page_mono: "m \<le> n \<Longrightarrow> round_page m \<le> round_page n"
  by (simp add: round_page_def div_le_mono)

lemma data_file_length_Ok:
  assumes "al_geom al" "unat n \<le> nbl al"
  obtains d where "data_file_length n (al_block_size al) = Ok d" "unat d = 65536 + unat n * bsz al"
proof -
  have "unat n * bsz al \<le> nbl al * bsz al" using assms by simp
  then have "unat n * bsz al + 65536 \<le> nbl al * bsz al + 65536" by simp
  also have "\<dots> < 2 ^ 64" using al_geom_parts(10) [OF assms(1)] by simp
  finally have lt: "unat n * bsz al + 65536 < 2 ^ 64" .
  show thesis
    by (rule that [of "n * al_block_size al + 65536"])
      (use lt in \<open>simp_all add: data_file_length_def checked_mul_def checked_add_def layout_defs
        unat_mul_nowrap unat_add_nowrap\<close>)
qed

lemma page_multiple: "is_power_of_two (b :: u64) \<Longrightarrow> 65536 \<le> unat b \<Longrightarrow> 65536 dvd unat b"
  using pow2_dvd [of "65536" b] is_power_of_two_2p [of 16, where 'a = 64] by simp

lemma grown_lengths_valid:
  assumes g: "al_geom s" and n: "unat new \<le> nbl s"
    and c: "unat c = round_page (65536 + 2 * unat new)" and d: "unat d = 65536 + unat new * bsz s"
  shows "validate_mapping_length Linux c = Ok () \<and> unat c \<le> mapping_length (al_counts s)"
    and "validate_mapping_length Linux d = Ok () \<and> unat d \<le> mapping_length (al_data s)"
proof -
  note g = al_geom_parts [OF g]
  have le: "unat c \<le> mapping_length (al_counts s)" unfolding c g(12) by (rule round_page_mono) (use n in simp)
  have ge: "65536 \<le> unat c" using round_page_ge [of "65536 + 2 * unat new"] c by simp
  have "mapping_length (al_counts s) < 2 ^ 63" using g(2) by (simp add: mf_inv_def)
  then show "validate_mapping_length Linux c = Ok () \<and> unat c \<le> mapping_length (al_counts s)"
    using le ge c by (auto simp: validate_mapping_length_Ok layout_defs word_unat_eq_iff unat_mod round_page_def)
  have "unat new * bsz s \<le> nbl s * bsz s" using n by simp
  then have led: "unat d \<le> mapping_length (al_data s)" using d g(11) by simp
  have "mapping_length (al_data s) < 2 ^ 63" using g(1) by (simp add: mf_inv_def)
  moreover have "65536 dvd unat d" using d page_multiple [OF g(4,5)] by simp
  ultimately show "validate_mapping_length Linux d = Ok () \<and> unat d \<le> mapping_length (al_data s)"
    using led d by (auto simp: validate_mapping_length_Ok layout_defs word_unat_eq_iff unat_mod mod_eq_0_iff_dvd)
qed

lemma grow_files_wp:
  assumes g: "al_geom s" and n: "unat new \<le> nbl s" "unat old < nbl s" and pg: "unat new = unat old + unat pages"
  shows "wp (grow_files old new pages)
     (\<lambda>_ t. al_files s t \<and> 65536 + 2 * unat new \<le> flen (al_counts t)
          \<and> 65536 + unat new * bsz s \<le> flen (al_data t))
     (\<lambda>_ t. al_files s t \<and> (os_results (al_data s) \<noteq> [] \<or> os_results (al_counts s) \<noteq> [])) s"
proof -
  let ?E = "os_results (al_data s) \<noteq> [] \<or> os_results (al_counts s) \<noteq> []"
  have "unat new < 2 ^ 32" using n al_geom_parts(8) [OF g] by simp
  then obtain c where c: "count_file_length new = Ok c" "unat c = round_page (65536 + 2 * unat new)"
    using count_file_length_Ok by blast
  obtain d where d: "data_file_length new (al_block_size s) = Ok d" "unat d = 65536 + unat new * bsz s"
    using data_file_length_Ok [OF g n(1)] by blast
  note vl = grown_lengths_valid [OF g n(1) c(2) d(2)]
  have step: "wp (mf_grow c) (\<lambda>_ t. mf_same (al_counts s) t \<and> unat c \<le> flen t) (\<lambda>_ t. mf_same (al_counts s) t \<and> ?E) (al_counts s)"
    using mf_grow_wp [OF al_geom_parts(2) [OF g], of c] by (rule wp_mono) (use vl in \<open>auto simp add: word_le_nat_alt\<close>)
  have fin: "wp (mf_grow d) (\<lambda>_ t. mf_same (al_data s) t \<and> unat d \<le> flen t) (\<lambda>_ t. mf_same (al_data s) t \<and> ?E) (al_data s)"
    using mf_grow_wp [OF al_geom_parts(1) [OF g], of d] by (rule wp_mono) (use vl in \<open>auto simp add: word_le_nat_alt\<close>)
  obtain off where off: "data_offset s old = Ok off" "unat off = 65536 + unat old * bsz s"
    using data_offset_Ok [OF g n(2)] by blast
  have off': "data_offset (s\<lparr>al_counts := cf, al_data := df\<rparr>) old = Ok off" for cf df
    using off(1) by (simp add: data_offset_def)
  have "unat pages * bsz s \<le> nbl s * bsz s" using n pg by (intro mult_le_mono1) simp
  also have "\<dots> < 2 ^ 63" using al_geom_parts(10) [OF g] by simp
  also have "(2::nat) ^ 63 < 2 ^ 64" by simp
  finally have "unat pages * bsz s < 2 ^ 64" .
  then have ps: "unat (pages * al_block_size s) = unat pages * bsz s" by (simp add: unat_mul_nowrap)
  have range: "unat off + unat (pages * al_block_size s) = unat d" using off(2) d(2) ps pg by (simp add: add_mult_distrib)
  have res: "wp (mf_reserve off (pages * al_block_size s)) (\<lambda>_ t. mf_same (al_data s) t \<and> unat d \<le> flen t)
      (\<lambda>_ t. mf_same (al_data s) t \<and> ?E) f" if "mf_same (al_data s) f \<and> unat d \<le> flen f" for f
    by (rule wp_mono [OF mf_reserve_wp [of f]]) (use that range in \<open>auto simp: mf_same_def\<close>)
  have ge: "65536 + 2 * unat new \<le> unat c" using round_page_ge c(2) by simp
  have dd: "mf_same (al_data s) (al_data s)" by (rule mf_same_refl [OF al_geom_parts(1) [OF g]])
  show ?thesis
    using c(1) d(1) ge
    apply (simp add: grow_files_def wp_simps wp_on_counts wp_on_data)
    apply (rule wp_mono [OF step])
     apply (rule wp_mono [OF fin])
      apply (simp add: off')
      apply (rule wp_mono [OF res])
    using dd d(2) by auto
qed

definition cur_same :: "block_allocator \<Rightarrow> block_allocator \<Rightarrow> bool" where
  "cur_same s t \<longleftrightarrow> current_block t = current_block s \<and> current_word t = current_word s"

lemma al_core_grown:
  assumes core: "al_core s L mk" and t: "al_geom t" "al_pages t"
    and bs: "al_block_size t = al_block_size s" and le: "hw s \<le> hw t"
    and c: "\<And>p. p < hw s \<Longrightarrow> cnt t p = cnt s p" "\<And>p. hw s \<le> p \<Longrightarrow> cnt t p = 0"
  shows "al_core t L mk"
proof -
  have live: "live_set s L" and cok: "counts_ok s L mk" using core by (auto simp: al_core_def)
  have "alloc_in t a" if "a \<in> L" for a
    using live that le by (auto simp: live_set_def alloc_in_def bs)
  then have "live_set t L" using live by (simp add: live_set_def)
  moreover have "on_page L p = {}" if "hw s \<le> p" for p
    using live that by (auto simp: live_set_def alloc_in_def on_page_def)
  then have "if mk = Some p then cnt t p = U16_MAX
      else cnt t p \<noteq> U16_MAX \<and> unat (cnt t p) = card (on_page L p)" if "p < hw t" for p
    using cok c [of p] by (cases "p < hw s") (auto simp: counts_ok_def U16_MAX_def)
  then have "counts_ok t L mk" using cok le by (fastforce simp: counts_ok_def)
  ultimately show ?thesis using t by (simp add: al_core_def)
qed

lemma put_hw_geom:
  assumes "al_geom s" "8 \<le> flen (al_counts s)"
  shows "al_geom (put_hw w s)"
  using assms mf_inv_mwrite [of "al_counts s" 0 "u64_le w"] by (simp add: al_geom_def put_eqs)

lemma cmem_put_hw: "65536 \<le> a \<Longrightarrow> cmem (put_hw w s) a = cmem s a"
  by (simp add: put_eqs mwrite_def)

lemma published_core:
  assumes core: "al_core s L mk" and f: "al_files (put_hw v s) t"
    and n: "hw s \<le> unat new" "unat new \<le> nbl s"
    and len: "65536 + 2 * unat new \<le> flen (al_counts t)" "65536 + unat new * bsz s \<le> flen (al_data t)"
  shows "al_core (put_hw new t) L mk" "al_ext s (put_hw new t)" "cur_same s (put_hw new t)"
    "hw (put_hw new t) = unat new"
proof -
  note c = al_core_parts [OF core]
  note e = al_files_eqs [OF f]
  have l8: "8 \<le> flen (al_counts s)" using c(2) by (simp add: al_pages_def)
  have gt: "al_geom t" using al_files_geom [OF put_hw_geom [OF c(1) l8] f] .
  have g: "al_geom (put_hw new t)" using put_hw_geom [OF gt] len by simp
  have m: "cmem (put_hw new t) a = cmem s a" if "65536 \<le> a" for a
    using that e(7) cmem_put_hw by metis
  have p: "al_pages (put_hw new t)"
    unfolding al_pages_def
  proof (intro conjI allI impI)
    fix a assume "65536 + 2 * hw (put_hw new t) \<le> a"
    then show "cmem (put_hw new t) a = 0" using m [of a] c(2) n by (simp add: al_pages_def)
  qed (use n len e in simp_all)
  have cn: "cnt (put_hw new t) q = cnt s q" for q
    unfolding cnt_def load16_def by (rule arg_cong [of _ _ from_le], rule mread_cong, rule m) simp
  show "al_core (put_hw new t) L mk"
    by (rule al_core_grown [OF core g p]) (use n cn cnt_above [OF c(2)] e in simp_all)
  from f show "al_ext s (put_hw new t)"
    by (rule al_filesE) (use n in \<open>simp add: al_ext_def mf_same_def al_calm_def\<close>)
  show "cur_same s (put_hw new t)" using e by (simp add: cur_same_def)
  show "hw (put_hw new t) = unat new" by simp
qed

lemma al_grow_wp:
  assumes core: "al_core s L mk"
  shows "wp (al_grow n)
     (\<lambda>_ t. al_core t L mk \<and> al_ext s t \<and> cur_same s t \<and> hw s < hw t)
     (\<lambda>_ t. al_core t L mk \<and> al_ext s t \<and> cur_same s t \<and> hw t = hw s
        \<and> \<not> (al_calm s \<and> hw s < nbl s \<and> unat n + bsz s < 2 ^ 64)) s"
proof -
  note c = al_core_parts [OF core]
  note g = al_geom_parts [OF c(1)]
  let ?old = "load64 (al_counts s) 0"
  have old: "unat ?old = hw s" by (simp add: hw_def)
  have idle: "?old AND GROWING_BIT = 0" using hw_lt [OF c(1,2)] by (simp add: growing_clear_iff old)
  have l8: "8 \<le> flen (al_counts s)" using c(2) by (simp add: al_pages_def)
  have same: "cur_same s s" by (simp add: cur_same_def)
  have grow: "wp (attempt (grow_files ?old new pages))
      (\<lambda>r t. al_files (put_hw v s) t \<and> (case r of Inr _ \<Rightarrow> 65536 + 2 * unat new \<le> flen (al_counts t)
          \<and> 65536 + unat new * bsz s \<le> flen (al_data t) | Inl _ \<Rightarrow> \<not> al_calm s)) (\<lambda>_ _. False) (put_hw v s)"
    if "unat new \<le> nbl s" "hw s < nbl s" "unat new = hw s + unat pages" for new pages v
  proof -
    have "al_geom (put_hw v s)" by (rule put_hw_geom [OF c(1) l8])
    from grow_files_wp [OF this, of new ?old pages] that show ?thesis
      by (auto simp: wp_simps old al_calm_def elim!: wp_mono)
  qed
  have ld: "load64 (al_counts t) 0 = v" if "al_files (put_hw v s) t" for v t
    using al_files_eqs(7) [OF that] by (simp add: load64_def put_eqs)
  have fin: "(case r of
        Inl e \<Rightarrow> al_core (put_hw ?old t) L mk \<and> al_ext s (put_hw ?old t) \<and> cur_same s (put_hw ?old t)
          \<and> hw (put_hw ?old t) = hw s \<and> \<not> al_calm s
      | Inr _ \<Rightarrow> al_core (put_hw new t) L mk \<and> al_ext s (put_hw new t) \<and> cur_same s (put_hw new t) \<and> hw s < hw (put_hw new t))"
    if f: "al_files (put_hw v s) t" and r: "case r of Inr _ \<Rightarrow> 65536 + 2 * unat new \<le> flen (al_counts t)
          \<and> 65536 + unat new * bsz s \<le> flen (al_data t) | Inl _ \<Rightarrow> \<not> al_calm s" and new: "hw s < unat new" "unat new \<le> nbl s" for r v t new
  proof (cases r)
    case (Inl e)
    have "flen (al_counts s) \<le> flen (al_counts t)" "flen (al_data s) \<le> flen (al_data t)"
      using f by (auto elim!: al_filesE simp: mf_same_def)
    then have "65536 + 2 * unat ?old \<le> flen (al_counts t)" "65536 + unat ?old * bsz s \<le> flen (al_data t)"
      using c(2) by (auto simp: al_pages_def old)
    then show ?thesis using published_core [OF core f, of ?old] c(2) Inl r by (simp add: old al_pages_def)
  next
    case (Inr u)
    then show ?thesis using published_core [OF core f, of new] r new by simp
  qed
  let ?E = "\<lambda>_ t. al_core t L mk \<and> al_ext s t \<and> cur_same s t \<and> hw t = hw s
      \<and> \<not> (al_calm s \<and> hw s < nbl s \<and> unat n + bsz s < 2 ^ 64)"
  have pub: "wp (attempt (grow_files ?old new pages)) (\<lambda>result. wp (bnd (on_counts (cas64 0 v
        (case result of Inl x \<Rightarrow> ?old | Inr x \<Rightarrow> new))) (\<lambda>swapped.
          if \<not> swapped then err (Corrupt ''allocator growth state changed'')
          else bnd (outcome result) (\<lambda>_. ok (Return ()))))
      (\<lambda>c t. c = Return () \<and> al_core t L mk \<and> al_ext s t \<and> cur_same s t \<and> hw s < hw t) ?E)
      ?E (put_hw v s)"
    if new: "hw s < unat new" "unat new \<le> nbl s" "unat new = hw s + unat pages" for new pages v
    apply (rule wp_mono [OF grow])
        apply (use new in \<open>simp_all\<close>)
    apply (elim conjE, frule ld)
    apply (drule (1) fin [OF _ _ new(1,2)])
    apply (auto simp: wp_simps split: sum.splits)
    done
  show ?thesis
  proof (cases "nbl s \<le> hw s \<or> checked_add n (al_block_size s - 1) = None")
    case True
    have "unat (al_block_size s - 1) = bsz s - 1" using g(5) by (simp add: unat_sub_le word_le_nat_alt)
    then have over: "checked_add n (al_block_size s - 1) = None \<Longrightarrow> \<not> unat n + bsz s < 2 ^ 64"
      using g(5) by (auto simp: checked_add_def split: if_splits)
    show ?thesis
      unfolding al_grow_def wp_bnd wp_reads high_water_Ok [OF c(1,2)] rwp_prim
      by (rule wp_loop_once)
        (use True idle core same over in \<open>auto simp add: grow_step_def wp_simps word_le_nat_alt old\<close>)
  next
    case False
    then obtain r where r: "checked_add n (al_block_size s - 1) = Some r" and lt: "hw s < nbl s" by auto
    define pages where "pages = min (max (r div al_block_size s) 1) (al_block_count s - ?old)"
    have rest: "unat (al_block_count s - ?old) = nbl s - hw s"
      using lt by (simp add: unat_sub_le word_le_nat_alt old)
    have "pages \<le> al_block_count s - ?old" by (simp add: pages_def)
    then have p1: "unat pages \<le> nbl s - hw s" by (simp only: word_le_nat_alt rest)
    have "1 \<le> al_block_count s - ?old" using lt rest by (simp add: word_le_nat_alt)
    then have "1 \<le> pages" by (simp add: pages_def)
    then have p2: "1 \<le> unat pages" by (simp only: word_le_nat_alt unat_1)
    have new: "checked_add ?old pages = Some (?old + pages)" "unat (?old + pages) = hw s + unat pages"
      using checked_add_small [of ?old pages] p1 g(8) lt old by auto
    have bounds: "hw s < unat (?old + pages)" "unat (?old + pages) \<le> nbl s"
      "unat (?old + pages) = hw s + unat pages" using new(2) p1 p2 lt by auto
    show ?thesis
      unfolding al_grow_def wp_bnd wp_reads high_water_Ok [OF c(1,2)] rwp_prim
      apply (rule wp_loop_once)
      using idle lt r new(1)
      apply (simp add: grow_step_def wp_bnd [where m = "gets _"] wp_bnd [where m = "lift _"]
          wp_bnd [where m = "on_counts _"] wp_bnd [where m = "attempt _"] wp_if wp_lift wp_cas_counts
          word_le_nat_alt old Let_def flip: pages_def)
      using pub [OF bounds, of "?old OR GROWING_BIT"] by (simp add: wp_bnd wp_if)
  qed
qed

lemma snap_of_counts:
  assumes "al_geom al" "al_pages al"
  shows "snap_of (mread (cmem al) 65536 (2 * hw al)) (cnt al) (hw al)"
  using hw_lt [OF assms]
  by (auto simp: snap_of_def cnt_def load16_def mread_2 add.assoc)

lemma longest_zero_run_wp:
  assumes "al_geom al" "al_pages al"
  shows "rwp (longest_zero_run simd al (load64 (al_counts al) 0))
     (\<lambda>r. case r of
        None \<Rightarrow> \<forall>q k. \<not> claimable_run (cnt al) (hw al) q k
      | Some b \<Rightarrow> \<exists>k. claimable_run (cnt al) (hw al) (unat b) k
                     \<and> (\<forall>q k'. claimable_run (cnt al) (hw al) q k' \<longrightarrow> k' \<le> k))
     (\<lambda>e. e = OutOfMemory \<and> reserve_limit (al_counts al) < 2 * hw al)"
proof -
  let ?w = "load64 (al_counts al) 0"
  define st where "st = fold (run_pure (cnt al)) [0..<hw al] run_init"
  have inv: "run_inv (cnt al) (hw al) st" unfolding st_def by (rule run_inv_fold)
  have none: "best_length st = 0 \<Longrightarrow> \<not> claimable_run (cnt al) (hw al) q k" for q k
    using inv by (auto simp: run_inv_def claimable_run_def)
  have some: "0 < best_length st \<Longrightarrow> claimable_run (cnt al) (hw al) (best_start st) (best_length st)
      \<and> (\<forall>q k'. claimable_run (cnt al) (hw al) q k' \<longrightarrow> k' \<le> best_length st)"
    using inv by (auto simp: run_inv_def)
  have bs: "best_start st < 2 ^ 64" if "0 < best_length st"
    using some [OF that] hw_lt [OF assms] by (auto simp: claimable_run_def)
  show ?thesis
  proof (cases "?w = 0")
    case True
    then have "hw al = 0" by (simp add: hw_def)
    with True show ?thesis by (auto simp: longest_zero_run_def claimable_run_def)
  next
    case False
    have sc: "rbind (scan16 simd (mread (cmem al) 65536 (2 * hw al)) (hw al) 0 run_init)
        (\<lambda>(index, st). scan1 (mread (cmem al) 65536 (2 * hw al)) (hw al) index st) = Ok st"
      unfolding st_def by (rule scan_eq [OF snap_of_counts [OF assms]])
    then obtain i st' where "scan16 simd (mread (cmem al) 65536 (2 * hw al)) (hw al) 0 run_init = Ok (i, st')"
      "scan1 (mread (cmem al) 65536 (2 * hw al)) (hw al) i st' = Ok st"
      by (auto simp: rbind_Ok_iff)
    with False show ?thesis
      using none some bs
      by (auto simp: longest_zero_run_def count_snapshot_eq [OF assms] hw_def [symmetric] unat_of_nat_u64 Let_def)
  qed
qed

lemma claimable_run_exists:
  assumes "p < n" "c p = 0" "\<And>q. q < n \<Longrightarrow> c q \<noteq> U16_MAX"
  shows "\<exists>q k. claimable_run c n q k"
proof -
  define P where "P q \<longleftrightarrow> q \<le> p \<and> (\<forall>j. q \<le> j \<and> j \<le> p \<longrightarrow> c j = 0)" for q
  define q where "q = (LEAST q. P q)"
  have "P p" using assms by (auto simp: P_def dest: le_antisym)
  then have q: "P q" unfolding q_def by (rule LeastI)
  have "c (q - 1) \<noteq> 0" if "q \<noteq> 0"
  proof
    assume "c (q - 1) = 0"
    then have "P (q - 1)" using q that
      unfolding P_def by (metis diff_le_self le_trans not_less_eq_eq Suc_pred' neq0_conv le_less_linear le_antisym)
    then have "q \<le> q - 1" unfolding q_def by (rule Least_le)
    with that show False by simp
  qed
  then have "claimable_run c n q (p + 1 - q)"
    using q assms unfolding claimable_run_def P_def by auto
  then show ?thesis by blast
qed

subsection \<open>Changing one count\<close>

lemma put_cnt_geom:
  assumes "al_geom al" "al_pages al" "p < hw al"
  shows "al_geom (put_cnt p c al)" "al_pages (put_cnt p c al)"
proof -
  have le: "65536 + 2 * p + length (u16_le c) \<le> flen (al_counts al)" using assms by (simp add: al_pages_def)
  then have "mf_inv (al_counts (put_cnt p c al))"
    using mf_inv_mwrite [OF al_geom_parts(2) [OF assms(1)] le] by (simp add: put_eqs)
  then show "al_geom (put_cnt p c al)" using assms(1) by (simp add: al_geom_def)
  have "cmem (put_cnt p c al) a = cmem al a" if "65536 + 2 * hw al \<le> a" for a
    using that assms(3) by (simp add: put_eqs mwrite_def)
  then show "al_pages (put_cnt p c al)" using assms(2) by (simp add: al_pages_def)
qed

lemma live_set_cong: "live_set al L \<Longrightarrow> hw t = hw al \<Longrightarrow> al_block_size t = al_block_size al \<Longrightarrow> live_set t L"
  by (simp add: live_set_def alloc_in_def)

lemma mark_core:
  assumes core: "al_core al L None" and p: "p < hw al"
  shows "al_core (put_cnt p U16_MAX al) L (Some p)"
  using al_core_parts [OF core] put_cnt_geom [OF al_core_parts(1,2) [OF core] p] p
  by (auto simp: al_core_def counts_ok_def intro: live_set_cong)

lemma unmark_core:
  assumes core: "al_core al L (Some p)" and c: "unat c = card (on_page L p)" "c \<noteq> U16_MAX"
  shows "al_core (put_cnt p c al) L None"
proof -
  note a = al_core_parts [OF core]
  have p: "p < hw al" using a(4) by (simp add: counts_ok_def)
  show ?thesis using a put_cnt_geom [OF a(1,2) p] c
    by (auto simp: al_core_def counts_ok_def intro: live_set_cong)
qed

lemma al_ext_put_cnt [simp]: "al_ext s (put_cnt p c t) = al_ext s t"
  by (simp add: al_ext_def al_calm_def)

lemma cur_same_put_cnt [simp]: "cur_same s (put_cnt p c t) = cur_same s t"
  by (simp add: cur_same_def)

lemma cur_same_trans: "cur_same s t \<Longrightarrow> cur_same t u \<Longrightarrow> cur_same s u"
  by (simp add: cur_same_def)

lemma claim_step_wp:
  assumes core: "al_core t L None"
  shows "wp (claim_step simd n)
     (\<lambda>c u. al_ext t u \<and> cur_same t u \<and> (case c of
         Return b \<Rightarrow> al_core u L (Some (unat b)) \<and> unat b < hw u \<and> on_page L (unat b) = {}
       | Continue _ \<Rightarrow> al_core u L None \<and> (\<exists>q k. claimable_run (cnt u) (hw u) q k)
           \<and> \<not> (\<exists>q k. claimable_run (cnt t) (hw t) q k)))
     (\<lambda>_ u. al_core u L None \<and> al_ext t u \<and> cur_same t u
        \<and> \<not> (al_calm t \<and> ((\<exists>q k. claimable_run (cnt t) (hw t) q k) \<or> hw t < nbl t) \<and> unat n + bsz t < 2 ^ 64)) t"
proof -
  note a = al_core_parts [OF core]
  have calm: "al_calm t \<Longrightarrow> 2 * hw t \<le> reserve_limit (al_counts t)" using a(2) by (auto simp: al_calm_def al_pages_def)
  have same: "cur_same t t" by (simp add: cur_same_def)
  have found: "unat b < hw t \<and> cnt t (unat b) = 0 \<and> on_page L (unat b) = {}"
    if "claimable_run (cnt t) (hw t) (unat b) k" for b :: u64 and k
  proof -
    have b: "unat b < hw t" "cnt t (unat b) = 0" using that by (auto simp: claimable_run_def)
    then have "card (on_page L (unat b)) = 0" using a(4) by (auto simp: counts_ok_def)
    moreover have "finite (on_page L (unat b))" using a(3) by (auto simp: live_set_def on_page_def)
    ultimately show ?thesis using b by simp
  qed
  have grown: "\<exists>q k. claimable_run (cnt u) (hw u) q k" if "al_core u L None" "hw t < hw u" for u
  proof (rule claimable_run_exists [of "hw t"])
    note ua = al_core_parts [OF that(1)]
    have "on_page L (hw t) = {}" using a(3) by (auto simp: live_set_def alloc_in_def on_page_def)
    then show "cnt u (hw t) = 0" using ua(4) that(2) by (auto simp: counts_ok_def unat_eq_0)
    show "q < hw u \<Longrightarrow> cnt u q \<noteq> U16_MAX" for q using ua(4) by (auto simp: counts_ok_def)
  qed (rule that(2))
  show ?thesis
    unfolding claim_step_def wp_bnd wp_reads next_block_value_Ok [OF a(1,2)] rwp_prim
    apply (rule rwp_mono [OF longest_zero_run_wp [OF a(1,2)]])
    subgoal for r
      apply (cases r)
       apply (simp add: wp_bnd)
       apply (rule wp_mono [OF al_grow_wp [OF core]])
        apply (auto dest: grown) [2]
      apply (clarsimp simp del: not_all not_ex)
      apply (drule found)
      apply (clarsimp simp: wp_bnd wp_reads count_word_Ok [OF a(1,2)] wp_cas_counts wp_if same)
      apply (rule mark_core [OF core], assumption)
      done
    using core same calm by auto
qed

lemma claim_page_wp:
  assumes core: "al_core s L None"
  shows "wp (claim_page simd n)
     (\<lambda>b t. al_core t L (Some (unat b)) \<and> unat b < hw t \<and> on_page L (unat b) = {} \<and> al_ext s t \<and> cur_same s t)
     (\<lambda>_ t. al_core t L None \<and> al_ext s t \<and> cur_same s t
        \<and> \<not> (al_calm s \<and> hw s < nbl s \<and> unat n + bsz s < 2 ^ 64)) s"
  unfolding claim_page_def
proof (rule wp_loop [where I = "\<lambda>_ t. al_core t L None \<and> al_ext s t \<and> cur_same s t
        \<and> (hw s < nbl s \<longrightarrow> (\<exists>q k. claimable_run (cnt t) (hw t) q k) \<or> hw t < nbl t)"
      and M = "\<lambda>_ t. if \<exists>q k. claimable_run (cnt t) (hw t) q k then 0 else 1"])
  show "al_core s L None \<and> al_ext s s \<and> cur_same s s
      \<and> (hw s < nbl s \<longrightarrow> (\<exists>q k. claimable_run (cnt s) (hw s) q k) \<or> hw s < nbl s)"
    using core by (simp add: cur_same_def)
next
  fix v :: unit and t
  assume t: "al_core t L None \<and> al_ext s t \<and> cur_same s t
      \<and> (hw s < nbl s \<longrightarrow> (\<exists>q k. claimable_run (cnt t) (hw t) q k) \<or> hw t < nbl t)"
  then have eq: "bsz t = bsz s" "al_calm s \<longrightarrow> al_calm t" by (auto simp: al_ext_def)
  show "wp (claim_step simd n)
      (\<lambda>c u. case c of
         Continue w \<Rightarrow> (al_core u L None \<and> al_ext s u \<and> cur_same s u
              \<and> (hw s < nbl s \<longrightarrow> (\<exists>q k. claimable_run (cnt u) (hw u) q k) \<or> hw u < nbl u)) \<and>
            (if \<exists>q k. claimable_run (cnt u) (hw u) q k then 0 else 1)
            < (if \<exists>q k. claimable_run (cnt t) (hw t) q k then 0 else (1::nat))
       | Return b \<Rightarrow> al_core u L (Some (unat b)) \<and> unat b < hw u \<and> on_page L (unat b) = {} \<and> al_ext s u \<and> cur_same s u)
      (\<lambda>_ u. al_core u L None \<and> al_ext s u \<and> cur_same s u
        \<and> \<not> (al_calm s \<and> hw s < nbl s \<and> unat n + bsz s < 2 ^ 64)) t"
    by (rule wp_mono [OF claim_step_wp [OF conjunct1 [OF t]]])
      (use t eq in \<open>auto intro: al_ext_trans cur_same_trans split: flow.splits\<close>)
qed

subsection \<open>The current page\<close>

lemma current_upd [simp]:
  "hw (al\<lparr>current_block := b\<rparr>) = hw al" "hw (al\<lparr>current_word := w\<rparr>) = hw al"
  "cnt (al\<lparr>current_block := b\<rparr>) p = cnt al p" "cnt (al\<lparr>current_word := w\<rparr>) p = cnt al p"
  by (simp_all add: hw_def cnt_def)

lemma current_upd_core [simp]:
  "al_geom (al\<lparr>current_block := b\<rparr>) = al_geom al" "al_geom (al\<lparr>current_word := w\<rparr>) = al_geom al"
  "al_pages (al\<lparr>current_block := b\<rparr>) = al_pages al" "al_pages (al\<lparr>current_word := w\<rparr>) = al_pages al"
  "live_set (al\<lparr>current_block := b\<rparr>) L = live_set al L" "live_set (al\<lparr>current_word := w\<rparr>) L = live_set al L"
  "counts_ok (al\<lparr>current_block := b\<rparr>) L mk = counts_ok al L mk" "counts_ok (al\<lparr>current_word := w\<rparr>) L mk = counts_ok al L mk"
  "al_core (al\<lparr>current_block := b\<rparr>) L mk = al_core al L mk" "al_core (al\<lparr>current_word := w\<rparr>) L mk = al_core al L mk"
proof -
  show g: "al_geom (al\<lparr>current_block := b\<rparr>) = al_geom al" "al_geom (al\<lparr>current_word := w\<rparr>) = al_geom al"
    by (simp_all add: al_geom_def)
  show p: "al_pages (al\<lparr>current_block := b\<rparr>) = al_pages al" "al_pages (al\<lparr>current_word := w\<rparr>) = al_pages al"
    by (simp_all add: al_pages_def)
  show l: "live_set (al\<lparr>current_block := b\<rparr>) L = live_set al L" "live_set (al\<lparr>current_word := w\<rparr>) L = live_set al L"
    by (simp_all add: live_set_def alloc_in_def)
  show c: "counts_ok (al\<lparr>current_block := b\<rparr>) L mk = counts_ok al L mk" "counts_ok (al\<lparr>current_word := w\<rparr>) L mk = counts_ok al L mk"
    by (simp_all only: counts_ok_def current_upd)
  show "al_core (al\<lparr>current_block := b\<rparr>) L mk = al_core al L mk" "al_core (al\<lparr>current_word := w\<rparr>) L mk = al_core al L mk"
    by (simp_all only: al_core_def g p l c)
qed

lemma current_upd_ext [simp]:
  "al_ext s (t\<lparr>current_block := b\<rparr>) = al_ext s t" "al_ext s (t\<lparr>current_word := w\<rparr>) = al_ext s t"
  "al_ext (s\<lparr>current_block := b\<rparr>) t = al_ext s t" "al_ext (s\<lparr>current_word := w\<rparr>) t = al_ext s t"
  "al_calm (s\<lparr>current_block := b\<rparr>) = al_calm s"
  by (simp_all add: al_ext_def al_calm_def)

text \<open>A page just claimed: nothing on it and nothing used.\<close>

definition fresh :: "block_allocator \<Rightarrow> allocation set \<Rightarrow> nat \<Rightarrow> bool" where
  "fresh al L p \<longleftrightarrow> al_core al L (Some p) \<and> on_page L p = {} \<and> unat (current_block al) = p + 1
     \<and> current_state (current_word al) = Ok Open \<and> current_used (current_word al) = 0
     \<and> current_live (current_word al) = 0"

lemma fresh_current_ok: "fresh al L p \<Longrightarrow> current_ok al L (Some p)"
  by (auto simp: fresh_def current_ok_def)

lemma page_index_lt: "al_core al L mk \<Longrightarrow> p < hw al \<Longrightarrow> p < 2 ^ 32"
  using hw_lt [of al] al_core_parts(1,2) [of al L mk] by fastforce

lemma encode_block_Ok: "unat b < 2 ^ 32 \<Longrightarrow> \<exists>w. encode_block b = Ok w \<and> unat w = unat b + 1"
  by (auto simp: encode_block_def checked_add_def unat_add_nowrap)

lemma decode_block_Ok: "unat w = p + 1 \<Longrightarrow> \<exists>b. decode_block w = Ok b \<and> unat b = p"
  by (auto simp: decode_block_def checked_sub_def word_le_nat_alt unat_sub_le)

lemma not_installing: "unat w = p + 1 \<Longrightarrow> p < 2 ^ 32 \<Longrightarrow> w \<noteq> CURRENT_INSTALLING \<and> w \<noteq> 0"
  by (auto simp: CURRENT_INSTALLING_def)

lemma open_empty: "\<exists>w. pack_current Open 0 0 = Ok w \<and> current_state w = Ok Open \<and> current_used w = 0 \<and> current_live w = 0"
  by (rule pack_current_Ok [of 0 Open 0]) auto

lemma install_current_wp:
  assumes core: "al_core s L None" and cb: "current_block s = 0"
  shows "wp (install_current simd n)
     (\<lambda>_ t. al_ext s t \<and> (\<exists>p. fresh t L p))
     (\<lambda>_ t. al_ext s t \<and> al_core t L None \<and> current_block t = 0
        \<and> \<not> (al_calm s \<and> hw s < nbl s \<and> unat n + bsz s < 2 ^ 64)) s"
proof -
  obtain w where w: "pack_current Open 0 0 = Ok w" "current_state w = Ok Open" "current_used w = 0" "current_live w = 0"
    using open_empty by blast
  let ?s = "s\<lparr>current_block := CURRENT_INSTALLING\<rparr>"
  have c: "al_core ?s L None" using core by simp
  have fr: "rwp (encode_block b) (\<lambda>a. al_ext s t \<and> (\<exists>p. fresh (t\<lparr>current_word := w, current_block := a\<rparr>) L p)) (\<lambda>_. False)"
    if "al_core t L (Some (unat b)) \<and> unat b < hw t \<and> on_page L (unat b) = {} \<and> al_ext s t" for b t
  proof -
    have "unat b < 2 ^ 32" using that page_index_lt by blast
    then obtain e where "encode_block b = Ok e" "unat e = unat b + 1" using encode_block_Ok by blast
    then show ?thesis using that w by (auto simp: fresh_def)
  qed
  have g: "current_guard s = Ok ()" using al_geom_parts(3) [OF al_core_parts(1) [OF core]] .
  show ?thesis
    using cb g
    apply (simp add: install_current_def wp_bnd wp_reads wp_cas_current wp_if wp_attempt)
    apply (rule wp_mono [OF claim_page_wp [OF c]])
    subgoal using w(1) by (simp add: wp_bnd wp_lift wp_cas_current) (rule rwp_mono [OF fr], auto)
    subgoal by (simp add: wp_bnd wp_cas_current)
    done
qed

lemma seal_next_wp:
  assumes core: "al_core s L (Some p)" and b: "unat b = p"
  shows "rwp (seal_next b cont s)
     (\<lambda>r. case r of None \<Rightarrow> True | Some q \<Rightarrow> cont \<and> unat q < hw s \<and> unat q \<noteq> p \<and> cnt s (unat q) = 0)
     (\<lambda>e. e = OutOfMemory \<and> \<not> al_calm s)"
proof -
  note a = al_core_parts [OF core]
  have calm: "al_calm s \<Longrightarrow> 2 \<le> reserve_limit (al_counts s)"
    using al_geom_parts(7) [OF a(1)] by (auto simp: al_calm_def)
  have p: "p < hw s" using a(4) by (simp add: counts_ok_def)
  have lt: "unat b + unat (1::u64) < 2 ^ 64" using p page_index_lt [OF core p] b by simp
  then have u: "unat (b + 1) = p + 1" using b by (simp add: unat_add_nowrap)
  have less: "(b + 1 < load64 (al_counts s) 0) = (p + 1 < hw s)" by (simp add: word_less_nat_alt u hw_def)
  have rc: "p + 1 < hw s \<Longrightarrow> read_count s (b + 1) =
      (if 2 \<le> reserve_limit (al_counts s) then Ok (cnt s (p + 1)) else Err OutOfMemory)"
    using read_count_eq [OF a(1,2), of "b + 1"] u by simp
  show ?thesis
    using lt rc u calm
    by (auto simp: seal_next_def wp_simps checked_add_def next_block_value_Ok [OF a(1,2)] less split: option.splits)
qed

lemma seal_current_block_wp:
  assumes core: "al_core s L (Some p)" and cur: "current_ok s L (Some p)" and enc: "encoded = current_block s"
  shows "wp (seal_current_block encoded cont)
     (\<lambda>_ t. al_ext s t \<and> hw t = hw s \<and> ((al_core t L None \<and> current_block t = 0) \<or> (cont \<and> (\<exists>q. fresh t L q))))
     (\<lambda>_ t. t = s \<and> \<not> al_calm s) s"
proof -
  note a = al_core_parts [OF core]
  have p: "p < hw s" using a(4) by (simp add: counts_ok_def)
  let ?w = "current_word s"
  have cb: "unat encoded = p + 1" and st: "current_state ?w = Ok Open"
    and live: "unat (current_live ?w) = card (on_page L p)" "card (on_page L p) \<le> 65534"
    using cur enc by (auto simp: current_ok_def)
  obtain b where b: "decode_block encoded = Ok b" "unat b = p" using decode_block_Ok [OF cb] by blast
  obtain sealing where sealing: "pack_current Sealing (current_used ?w) (current_live ?w) = Ok sealing"
    using pack_current_Ok [OF current_used_lt] by blast
  obtain w where w: "pack_current Open 0 0 = Ok w" "current_state w = Ok Open" "current_used w = 0" "current_live w = 0"
    using open_empty by blast
  have g: "current_guard s = Ok ()" using al_geom_parts(3) [OF a(1)] .
  have marked: "cnt s p = U16_MAX" using a(4) p by (auto simp: counts_ok_def)
  have nl: "current_live ?w \<noteq> U16_MAX" using live by (auto simp: U16_MAX_def)
  let ?s1 = "s\<lparr>current_block := CURRENT_INSTALLING, current_word := sealing\<rparr>"
  let ?s2 = "put_cnt p (current_live ?w) ?s1"
  have cw: "count_word ?s1 b = Ok (65536 + 2 * p)" using count_word_Ok [of ?s1 b] a p b by simp
  have c2: "al_core ?s2 L None" using unmark_core [of ?s1 L p "current_live ?w"] core live nl by simp
  have step: "wp (seal_step encoded b nxt)
      (\<lambda>c t. c = Return () \<and> al_ext s t \<and> hw t = hw s \<and> ((al_core t L None \<and> current_block t = 0) \<or> (cont \<and> (\<exists>q. fresh t L q))))
      (\<lambda>_ t. False) (s\<lparr>current_block := CURRENT_INSTALLING\<rparr>)"
    if nxt: "case nxt of None \<Rightarrow> True | Some q \<Rightarrow> cont \<and> unat q < hw s \<and> unat q \<noteq> p \<and> cnt s (unat q) = 0" for nxt
  proof (cases nxt)
    case None
    then show ?thesis
      using st sealing cw marked c2
      by (simp add: seal_step_def wp_bnd wp_lift wp_if wp_cas_current wp_reads wp_cas_counts)
  next
    case (Some q)
    with nxt have q: "unat q < hw s" "unat q \<noteq> p" "cnt s (unat q) = 0" and cont by auto
    have cq: "count_word ?s2 q = Ok (65536 + 2 * unat q)"
      using count_word_Ok [of ?s2 q] al_core_parts(1,2) [OF c2] q by simp
    have c3: "al_core (put_cnt (unat q) U16_MAX ?s2) L (Some (unat q))"
      using mark_core [OF c2, of "unat q"] q by simp
    have e: "on_page L (unat q) = {}"
    proof -
      have "card (on_page L (unat q)) = 0" using a(4) q by (auto simp: counts_ok_def)
      moreover have "finite (on_page L (unat q))" using a(3) by (auto simp: live_set_def on_page_def)
      ultimately show ?thesis by simp
    qed
    obtain eb where eb: "encode_block q = Ok eb" "unat eb = unat q + 1"
      using encode_block_Ok page_index_lt [OF core q(1)] by blast
    have "fresh ((put_cnt (unat q) U16_MAX ?s2)\<lparr>current_word := w, current_block := eb\<rparr>) L (unat q)"
      using c3 e eb w by (simp add: fresh_def)
    then show ?thesis
      using st sealing cw marked c2 Some cq \<open>cont\<close> w(1) eb(1)
      by (auto simp: seal_step_def wp_bnd wp_lift wp_if wp_cas_current wp_reads wp_cas_counts)
  qed
  show ?thesis
    using g b(1) enc
    apply (simp add: seal_current_block_def wp_bnd wp_reads wp_lift)
    apply (rule rwp_mono [OF seal_next_wp [OF core b(2)]])
    subgoal by (simp add: wp_bnd wp_cas_current wp_if) (rule wp_loop_once, rule wp_mono [OF step [unfolded enc]], auto)
    by simp
qed

lemma seal_current_wp:
  assumes "al_inv s L"
  shows "wp seal_current (\<lambda>_ t. al_inv t L \<and> al_ext s t \<and> current_block t = 0) (\<lambda>_ t. t = s \<and> \<not> al_calm s) s"
proof -
  from assms obtain mk where mk: "al_core s L mk" "current_ok s L mk" by (auto simp: al_inv_def)
  show ?thesis
  proof (cases mk)
    case None
    then have "current_block s = 0" using mk by (simp add: current_ok_def)
    with assms show ?thesis
      unfolding seal_current_def
      by (intro wp_loop_once) (simp add: wp_bnd wp_if CURRENT_INSTALLING_def)
  next
    case (Some p)
    then have cb: "unat (current_block s) = p + 1" using mk by (simp add: current_ok_def)
    have "p < 2 ^ 32" using al_core_parts(4) [OF mk(1)] page_index_lt [OF mk(1)] Some by (auto simp: counts_ok_def)
    with cb have n: "current_block s \<noteq> CURRENT_INSTALLING" "current_block s \<noteq> 0" using not_installing by blast+
    have i: "al_core t L None \<Longrightarrow> current_block t = 0 \<Longrightarrow> al_inv t L" for t
      unfolding al_inv_def by (rule exI [of _ None]) (simp add: current_ok_def)
    show ?thesis
      unfolding seal_current_def
      apply (rule wp_loop_once)
      using n
      apply (simp add: wp_bnd wp_if)
      apply (rule wp_mono [OF seal_current_block_wp [OF mk(1) [unfolded Some] mk(2) [unfolded Some] refl]])
      by (auto intro: i)
  qed
qed

end
