(* ===== verification/Allocator_Correct.thy ===== *)
theory Allocator_Correct
  imports Allocator_Inv
begin

text \<open>
  Allocation, release, data access and creation preserve the allocator's invariant: every
  allocation is a fresh range inside one page of the file, apart from all live ones.
\<close>

subsection \<open>Allocation\<close>

text \<open>The values \<open>allocate_batch\<close> computes before its loop.\<close>

definition alloc_args :: "nat \<Rightarrow> u64 \<Rightarrow> u64 \<Rightarrow> u64 \<Rightarrow> u32 \<Rightarrow> bool" where
  "alloc_args bs len alignment stride requested \<longleftrightarrow>
     0 < unat len \<and> unat len \<le> bs \<and> is_power_of_two alignment \<and> unat alignment \<le> bs
     \<and> unat len \<le> unat stride \<and> unat stride \<le> bs \<and> unat alignment dvd unat stride
     \<and> 1 \<le> unat requested \<and> unat requested \<le> 65534"

text \<open>Where the next object starts in a page that is used up to \<open>used\<close>.\<close>

definition start_at :: "nat \<Rightarrow> nat \<Rightarrow> nat" where
  "start_at used A = (used + (A - 1)) div A * A"

lemma start_at_bounds:
  assumes "0 < A"
  shows "used \<le> start_at used A" "start_at used A < used + A" "A dvd start_at used A"
  unfolding start_at_def using least_multiple(1,2) [OF assms, of used] by (blast, blast, simp)

lemma batch_fits:
  fixes f S R :: nat
  assumes "0 < S" "R \<le> 1 + f div S" "1 \<le> R"
  shows "(R - 1) * S \<le> f"
proof -
  have "(R - 1) * S \<le> (f div S) * S" using assms by (intro mult_le_mono1) simp
  also have "\<dots> \<le> f" by simp
  finally show ?thesis .
qed

text \<open>The batch an allocation step reserves.\<close>

definition reserved_batch :: "nat \<Rightarrow> nat \<Rightarrow> nat \<Rightarrow> nat \<Rightarrow> nat \<Rightarrow> nat \<Rightarrow> allocation_batch \<Rightarrow> bool" where
  "reserved_batch bs p st l S R b \<longleftrightarrow>
     unat (batch_offset b) = 65536 + p * bs + st \<and> unat (batch_length b) = l \<and> unat (batch_stride b) = S
     \<and> unat (batch_count b) = R \<and> unat (batch_block b) = p
     \<and> 1 \<le> R \<and> 0 < l \<and> l \<le> S \<and> st + (R - 1) * S + l \<le> bs"

lemma allocate_step_fit:
  assumes core: "al_core s L (Some p)" and cur: "current_ok s L (Some p)"
    and args: "alloc_args (bsz s) len alignment stride requested"
  defines "used \<equiv> unat (current_used (current_word s))"
  defines "st \<equiv> start_at used (unat alignment)"
  assumes fits: "st + unat len \<le> bsz s" "card (on_page L p) \<noteq> 65534"
  shows "\<exists>b new R. allocate_step simd len alignment stride requested growth s = Some (Inr (Return b), s\<lparr>current_word := new\<rparr>)
     \<and> reserved_batch (bsz s) p st (unat len) (unat stride) R b
     \<and> current_state new = Ok Open \<and> unat (current_used new) = st + (R - 1) * unat stride + unat len
     \<and> unat (current_live new) = card (on_page L p) + R \<and> card (on_page L p) + R \<le> 65534
     \<and> R \<le> unat requested"
proof -
  note a = al_core_parts [OF core]
  note g = al_geom_parts [OF a(1)]
  let ?w = "current_word s"
  let ?l = "unat len" and ?S = "unat stride" and ?A = "unat alignment"
  have p: "p < hw s" using a(4) by (simp add: counts_ok_def)
  have cb: "unat (current_block s) = p + 1" and opn: "current_state ?w = Ok Open"
    and live: "unat (current_live ?w) = card (on_page L p)" "card (on_page L p) \<le> 65534"
    using cur by (auto simp: current_ok_def)
  have A: "0 < ?A" "?A \<le> bsz s" using args pow2_pos by (auto simp: alloc_args_def)
  have ul: "used < 2 ^ 32" unfolding used_def by (rule current_used_lt)
  obtain b where b: "decode_block (current_block s) = Ok b" "unat b = p" using decode_block_Ok [OF cb] by blast
  have ni: "current_block s \<noteq> CURRENT_INSTALLING" "current_block s \<noteq> 0"
    using not_installing [OF cb] page_index_lt [OF core p] by auto
  have bs: "bsz s < 2 ^ 32" by (rule g(6))
  have pw: "is_power_of_two alignment" using args by (simp add: alloc_args_def)
  have pre: "unat (current_used ?w) + (?A - 1) < 2 ^ 64" using ul A bs by (simp add: used_def)
  obtain start where start: "align_up (current_used ?w) alignment = Some start" "unat start = st"
    by (rule align_up_eq [OF pw pre]) (simp add: st_def start_at_def used_def)
  have st: "st < 2 ^ 32" using fits bs by simp
  have fe: "checked_add start len = Some (start + len)" "unat (start + len) = st + ?l"
    using fits bs start(2) by (auto simp: checked_add_def unat_add_nowrap)
  have nfull: "\<not> (start + len > al_block_size s \<or> current_live ?w = MAX_LIVE)"
  proof -
    have "unat MAX_LIVE = 65534" by (simp add: MAX_LIVE_def U16_MAX_def unat_minus_one)
    then show ?thesis using fits live fe(2) by (auto simp: word_less_nat_alt)
  qed
  have free: "unat (al_block_size s - (start + len)) = bsz s - (st + ?l)"
    using fits fe(2) by (simp add: unat_sub_le word_le_nat_alt)
  have l1: "0 < ?l" "?l \<le> ?S" "?S \<le> bsz s" "1 \<le> unat requested" "unat requested \<le> 65534"
    using args by (auto simp: alloc_args_def)
  define F where "F = 1 + (bsz s - (st + ?l)) div ?S"
  have "(bsz s - (st + ?l)) div ?S \<le> bsz s - (st + ?l)" by simp
  then have F: "F < 2 ^ 32" using bs l1 fits unfolding F_def by linarith
  let ?f = "1 + (al_block_size s - (start + len)) div stride"
  have q: "unat ((al_block_size s - (start + len)) div stride) = (bsz s - (st + ?l)) div ?S"
    by (simp add: unat_div free)
  have fitting: "checked_add 1 ((al_block_size s - (start + len)) div stride) = Some ?f" "unat ?f = F"
    using F checked_add_small [of 1 "(al_block_size s - (start + len)) div stride"] q by (auto simp: F_def)
  define fit32 where "fit32 = (ucast ?f :: u32)"
  have f32: "u32_try_from ?f = Some fit32" "unat fit32 = F"
    using F fitting(2) by (auto simp: fit32_def unat_ucast_u32)
  define reserved where "reserved = min (min requested fit32) (ucast (MAX_LIVE - current_live ?w))"
  define R where "R = unat reserved"
  have ml: "unat (MAX_LIVE - current_live ?w) = 65534 - card (on_page L p)"
  proof -
    have "unat MAX_LIVE = 65534" by (simp add: MAX_LIVE_def U16_MAX_def unat_minus_one)
    then show ?thesis using live by (simp add: unat_sub_le word_le_nat_alt)
  qed
  have R: "R \<le> unat requested" "R \<le> F" "R \<le> 65534 - card (on_page L p)" "1 \<le> R"
  proof -
    have "reserved \<le> requested" "reserved \<le> fit32" "reserved \<le> ucast (MAX_LIVE - current_live ?w)"
      by (auto simp: reserved_def intro: min.coboundedI1)
    then show "R \<le> unat requested" "R \<le> F" "R \<le> 65534 - card (on_page L p)"
      using f32(2) ml by (auto simp: R_def word_le_nat_alt)
    have "1 \<le> requested" "1 \<le> fit32" "1 \<le> (ucast (MAX_LIVE - current_live ?w) :: u32)"
      using l1 f32(2) ml fits live(2) by (auto simp: word_le_nat_alt F_def)
    then have "1 \<le> reserved" by (simp add: reserved_def)
    then show "1 \<le> R" by (simp add: R_def word_le_nat_alt)
  qed
  have span: "(R - 1) * ?S \<le> bsz s - (st + ?l)"
    using batch_fits [of ?S R "bsz s - (st + ?l)"] R l1 by (simp add: F_def)
  have r1: "unat (ucast (reserved - 1) :: u64) = R - 1"
    using R(4) by (simp add: R_def unat_sub_le word_le_nat_alt)
  have mul: "saturating_mul (ucast (reserved - 1)) stride = ucast (reserved - 1) * stride"
    "unat ((ucast (reserved - 1) :: u64) * stride) = (R - 1) * ?S"
    using span bs r1 by (auto simp: saturating_mul_def unat_mul_nowrap)
  let ?e1 = "start + ucast (reserved - 1) * stride" and ?fin = "start + ucast (reserved - 1) * stride + len"
  have e1: "checked_add start (ucast (reserved - 1) * stride) = Some ?e1" "unat ?e1 = st + (R - 1) * ?S"
    using checked_add_small [of start "ucast (reserved - 1) * stride"] mul(2) start(2) span bs fits by auto
  have e2: "checked_add ?e1 len = Some ?fin" "unat ?fin = st + (R - 1) * ?S + ?l"
    using checked_add_small [of ?e1 len] e1(2) span bs fits by auto
  have e3: "st + (R - 1) * ?S + ?l \<le> bsz s" using span fits by simp
  have r16: "u16_try_from reserved = Some (ucast reserved)" "unat (ucast reserved :: u16) = R"
    using R l1 by (auto simp: u16_try_from_def R_def unat_ucast_down)
  have lv: "checked_add (current_live ?w) (ucast reserved) = Some (current_live ?w + ucast reserved)"
    "unat (current_live ?w + ucast reserved) = card (on_page L p) + R"
    using R r16 live by (auto simp: checked_add_def unat_add_nowrap)
  obtain new where new: "pack_current Open ?fin (current_live ?w + ucast reserved) = Ok new"
    "current_used new = ?fin" "current_live new = current_live ?w + ucast reserved" "current_state new = Ok Open"
    using pack_current_Ok [of ?fin Open "current_live ?w + ucast reserved"] e2(2) e3 bs by auto
  obtain base where base: "data_offset s b = Ok base" "unat base = 65536 + p * bsz s"
    using data_offset_Ok [OF a(1), of b] b p a(2) by (auto simp: al_pages_def)
  have base': "data_offset (s\<lparr>current_word := new\<rparr>) b = Ok base" using base(1) by (simp add: data_offset_def)
  have "(p + 1) * bsz s \<le> nbl s * bsz s" using p a(2) by (intro mult_le_mono1) (simp add: al_pages_def)
  then have off: "checked_add base start = Some (base + start)" "unat (base + start) = 65536 + p * bsz s + st"
    using base(2) start(2) g(10) fits by (auto simp: checked_add_def unat_add_nowrap)
  have l32: "u32_try_from len = Some (ucast len)" "unat (ucast len :: u32) = ?l"
    "u32_try_from stride = Some (ucast stride)" "unat (ucast stride :: u32) = ?S"
    using l1 bs by (auto simp: unat_ucast_u32)
  let ?b = "\<lparr>batch_offset = base + start, batch_length = ucast len, batch_stride = ucast stride,
        batch_count = reserved, batch_block = b\<rparr>"
  have "wp (allocate_step simd len alignment stride requested growth)
      (\<lambda>c t. c = Return ?b \<and> t = s\<lparr>current_word := new\<rparr>) (\<lambda>_ _. False) s"
    using ni b(1) opn start(1) fe(1) nfull fitting(1) f32(1) e1(1) e2(1) r16(1) lv(1) new(1) base' off(1) l32(1,3) g(3)
    by (simp add: allocate_step_def wp_bnd wp_lift wp_if wp_cas_current wp_reads mul(1) Let_def flip: reserved_def)
  then have "allocate_step simd len alignment stride requested growth s = Some (Inr (Return ?b), s\<lparr>current_word := new\<rparr>)"
    by (simp only: wp_exact)
  moreover have "reserved_batch (bsz s) p st ?l ?S R ?b"
    using off(2) l32 b(2) R e3 l1 by (simp add: reserved_batch_def R_def)
  ultimately show ?thesis using new(2-4) e2(2) lv(2) R live(2) by (intro exI conjI) auto
qed

lemma batch_allocs:
  assumes "reserved_batch bs p st l S R b" and "65536 + p * bs + bs < 2 ^ 63"
  shows "length (allocations b) = R"
    and "i < R \<Longrightarrow> a_lo (allocations b ! i) = 65536 + p * bs + st + i * S"
    and "i < R \<Longrightarrow> a_hi (allocations b ! i) = 65536 + p * bs + st + i * S + l"
    and "i < R \<Longrightarrow> page_of (allocations b ! i) = p"
proof -
  note r = assms(1) [unfolded reserved_batch_def]
  show len: "length (allocations b) = R" using r by (simp add: allocations_def)
  assume i: "i < R"
  have iS: "i * S \<le> (R - 1) * S" using i by (intro mult_le_mono1) simp
  have R32: "R < 2 ^ 32" using r unsigned_less [of "batch_count b", where 'a = nat] by simp
  have iB: "i * S \<le> bs" using iS r by linarith
  have iB': "st + i * S \<le> bs" using iS r by linarith
  from iB have iL: "i * S < 2 ^ 64" using assms(2) by simp
  have u: "unat (of_nat i * ucast (batch_stride b) :: u64) = i * S"
    using r i iL R32 by (subst unat_mul_nowrap) (simp_all add: unat_of_nat_u64)
  have "unat (batch_offset b + of_nat i * ucast (batch_stride b)) = 65536 + p * bs + st + i * S"
    using r u iB' assms(2) by (subst unat_add_nowrap) simp_all
  then show "a_lo (allocations b ! i) = 65536 + p * bs + st + i * S"
    "a_hi (allocations b ! i) = 65536 + p * bs + st + i * S + l"
    "page_of (allocations b ! i) = p"
    using r i by (simp_all add: allocations_def a_lo_def a_hi_def page_of_def)
qed

lemma page_end:
  assumes "al_core s L mk" "p < hw s"
  shows "65536 + p * bsz s + bsz s < 2 ^ 63"
proof -
  have "(p + 1) * bsz s \<le> nbl s * bsz s"
    using assms al_core_parts(2) [OF assms(1)] by (intro mult_le_mono1) (simp add: al_pages_def)
  then show ?thesis using al_geom_parts(10) [OF al_core_parts(1) [OF assms(1)]] by simp
qed

lemma on_page_Un: "on_page (L \<union> N) p = on_page L p \<union> on_page N p"
  by (auto simp: on_page_def)

lemma reserved_core:
  assumes core: "al_core s L (Some p)" and cur: "current_ok s L (Some p)"
    and rb: "reserved_batch (bsz s) p st l S R b"
    and st: "unat (current_used (current_word s)) \<le> st"
    and new: "current_state new = Ok Open" "unat (current_used new) = st + (R - 1) * S + l"
      "unat (current_live new) = card (on_page L p) + R" "card (on_page L p) + R \<le> 65534"
  defines "N \<equiv> set (allocations b)"
  shows "al_inv (s\<lparr>current_word := new\<rparr>) (L \<union> N)" and "L \<inter> N = {}" and "distinct (allocations b)"
proof -
  note a = al_core_parts [OF core]
  note r = rb [unfolded reserved_batch_def]
  have p: "p < hw s" using a(4) by (simp add: counts_ok_def)
  note ba = batch_allocs [OF rb page_end [OF core p]]
  let ?base = "65536 + p * bsz s"
  have fin: "finite L" "finite (on_page L p)" using a(3) by (auto simp: live_set_def on_page_def)
  have N: "x \<in> N \<Longrightarrow> \<exists>i < R. x = allocations b ! i" for x
    using ba(1) by (auto simp: N_def in_set_conv_nth)
  have iS: "i < R \<Longrightarrow> i * S \<le> (R - 1) * S" for i by (intro mult_le_mono1) simp
  have inb: "i < R \<Longrightarrow> i * S + l \<le> (R - 1) * S + l" for i using iS by simp
  have pN: "x \<in> N \<Longrightarrow> page_of x = p \<and> ?base + st \<le> a_lo x \<and> a_lo x < a_hi x \<and> a_hi x \<le> ?base + st + (R - 1) * S + l" for x
    using N [of x] ba(2-4) r iS by fastforce
  have old: "x \<in> L \<Longrightarrow> page_of x = p \<Longrightarrow> a_lo x < a_hi x \<and> a_hi x \<le> ?base + st" for x
    using a(3) cur st by (fastforce simp: live_set_def alloc_in_def current_ok_def on_page_def)
  show dis: "L \<inter> N = {}" using pN old by fastforce
  have apart: "a_hi x \<le> a_lo y \<or> a_hi y \<le> a_lo x" if "x \<in> L" "y \<in> N" for x y
  proof (cases "page_of x = p")
    case True
    then show ?thesis using old [OF that(1)] pN [OF that(2)] by simp
  next
    case False
    have ax: "65536 + page_of x * bsz s \<le> a_lo x" "a_hi x \<le> 65536 + page_of x * bsz s + bsz s"
      using a(3) that by (auto simp: live_set_def alloc_in_def)
    have "(page_of x + 1) * bsz s \<le> p * bsz s \<or> (p + 1) * bsz s \<le> page_of x * bsz s"
      using False by (metis Suc_eq_plus1 linorder_neqE_nat mult_le_mono1 Suc_leI)
    then show ?thesis using ax pN [OF that(2)] r by auto
  qed
  have within: "a_hi x \<le> a_lo y \<or> a_hi y \<le> a_lo x" if xy: "x \<in> N" "y \<in> N" "x \<noteq> y" for x y
  proof -
    obtain i j where ij: "i < R" "j < R" "x = allocations b ! i" "y = allocations b ! j" using N xy by meson
    with xy(3) have "i < j \<or> j < i" by (metis linorder_neqE_nat)
    then have "(i + 1) * S \<le> j * S \<or> (j + 1) * S \<le> i * S" by (metis Suc_eq_plus1 Suc_leI mult_le_mono1)
    then show ?thesis using ij ba(2,3) r by auto
  qed
  have inN: "alloc_in s x" if "x \<in> N" for x using pN [OF that] p r by (auto simp: alloc_in_def)
  have live: "live_set s (L \<union> N)"
    unfolding live_set_def
  proof (intro conjI ballI impI)
    fix x y assume "x \<in> L \<union> N" "y \<in> L \<union> N" "x \<noteq> y"
    then show "a_hi x \<le> a_lo y \<or> a_hi y \<le> a_lo x"
      using apart [of x y] apart [of y x] within [of x y] a(3) by (auto simp: live_set_def)
  qed (use a(3) inN in \<open>auto simp: live_set_def N_def\<close>)
  have inj: "inj_on ((!) (allocations b)) {..<R}"
  proof (rule inj_onI)
    fix i j assume i: "i \<in> {..<R}" "j \<in> {..<R}" and eq: "allocations b ! i = allocations b ! j"
    from i have "a_lo (allocations b ! i) = 65536 + p * bsz s + st + i * S"
      "a_lo (allocations b ! j) = 65536 + p * bsz s + st + j * S" using ba(2) by auto
    then have "i * S = j * S" unfolding eq by linarith
    then show "i = j" using r by auto
  qed
  then show "distinct (allocations b)" using ba(1) by (auto simp: distinct_conv_nth inj_on_def)
  have "N = (!) (allocations b) ` {..<R}" using ba(1) by (auto simp: N_def in_set_conv_nth)
  with inj have cardN: "card N = R" by (simp add: card_image)
  have oN: "on_page N q = (if q = p then N else {})" for q using pN by (auto simp: on_page_def)
  have card: "card (on_page (L \<union> N) p) = card (on_page L p) + R"
    unfolding on_page_Un oN using fin cardN dis by (subst card_Un_disjoint) (auto simp: on_page_def N_def)
  have cok: "counts_ok s (L \<union> N) (Some p)"
    using a(4) unfolding counts_ok_def on_page_Un oN by auto
  have "al_core s (L \<union> N) (Some p)" using a live cok by (simp add: al_core_def)
  moreover have "current_ok (s\<lparr>current_word := new\<rparr>) (L \<union> N) (Some p)"
    using cur new card r old pN unfolding current_ok_def
    by (fastforce simp: on_page_def)
  ultimately show "al_inv (s\<lparr>current_word := new\<rparr>) (L \<union> N)"
    unfolding al_inv_def by (intro exI [of _ "Some p"]) simp
qed

definition page_fits :: "u64 \<Rightarrow> u64 \<Rightarrow> block_allocator \<Rightarrow> bool" where
  "page_fits len alignment t \<longleftrightarrow>
     start_at (unat (current_used (current_word t))) (unat alignment) + unat len \<le> bsz t
     \<and> current_live (current_word t) \<noteq> MAX_LIVE"

definition steps_left :: "u64 \<Rightarrow> u64 \<Rightarrow> block_allocator \<Rightarrow> nat" where
  "steps_left len alignment t =
     (if current_block t = 0 then 1 else if page_fits len alignment t then 0 else 2)"

lemma unat_MAX_LIVE: "unat MAX_LIVE = 65534"
  by (simp add: MAX_LIVE_def U16_MAX_def unat_minus_one)

lemma fresh_steps:
  assumes "fresh t L p" "alloc_args (bsz t) len alignment stride requested"
  shows "steps_left len alignment t = 0"
proof -
  have cb: "current_block t \<noteq> 0" using assms(1) by (auto simp: fresh_def)
  have "start_at 0 (unat alignment) = 0"
    using assms(2) pow2_pos [of alignment] by (auto simp: start_at_def alloc_args_def)
  moreover have "(0 :: u16) \<noteq> MAX_LIVE" using unat_MAX_LIVE by fastforce
  ultimately have "page_fits len alignment t"
    using assms by (auto simp: fresh_def page_fits_def alloc_args_def)
  with cb show ?thesis by (simp add: steps_left_def)
qed

lemma fresh_al_inv: "fresh t L p \<Longrightarrow> al_inv t L"
  unfolding al_inv_def using fresh_current_ok by (intro exI [of _ "Some p"]) (simp add: fresh_def)

lemma idle_al_inv: "al_core t L None \<Longrightarrow> current_block t = 0 \<Longrightarrow> al_inv t L"
  unfolding al_inv_def by (rule exI [of _ None]) (simp add: current_ok_def)

text \<open>What an allocation promises.\<close>

definition granted :: "allocation set \<Rightarrow> nat \<Rightarrow> nat \<Rightarrow> nat \<Rightarrow> allocation_batch \<Rightarrow> block_allocator \<Rightarrow> bool" where
  "granted L n A k b t \<longleftrightarrow> al_inv t (L \<union> set (allocations b)) \<and> L \<inter> set (allocations b) = {}
     \<and> 1 \<le> batch_len b \<and> batch_len b \<le> k \<and> length (allocations b) = batch_len b \<and> distinct (allocations b)
     \<and> (\<forall>a \<in> set (allocations b). unat (alloc_length a) = n \<and> A dvd (a_lo a - 65536))"

lemma al_ext_size: "al_ext s t \<Longrightarrow> bsz t = bsz s" "al_ext s t \<Longrightarrow> nbl t = nbl s" "al_ext s t \<Longrightarrow> al_calm s \<Longrightarrow> al_calm t"
  by (auto simp: al_ext_def)

lemma allocate_step_wp:
  assumes inv: "al_inv s L" and args: "alloc_args (bsz s) len alignment stride requested"
  shows "wp (allocate_step simd len alignment stride requested growth)
     (\<lambda>c t. al_ext s t \<and> (case c of
         Return b \<Rightarrow> granted L (unat len) (unat alignment) (unat requested) b t
       | Continue _ \<Rightarrow> al_inv t L \<and> steps_left len alignment t < steps_left len alignment s
           \<and> (steps_left len alignment t = 0 \<or> hw t = hw s)))
     (\<lambda>_ t. al_ext s t \<and> al_inv t L
        \<and> \<not> (al_calm s \<and> (steps_left len alignment s = 0 \<or> hw s < nbl s) \<and> unat growth + bsz s < 2 ^ 64)) s"
proof -
  from inv obtain mk where core: "al_core s L mk" and cur: "current_ok s L mk" by (auto simp: al_inv_def)
  note a = al_core_parts [OF core]
  note g = al_geom_parts [OF a(1)]
  show ?thesis
  proof (cases mk)
    case None
    with cur have cb: "current_block s = 0" by (simp add: current_ok_def)
    have fs: "fresh t L p \<Longrightarrow> al_ext s t \<Longrightarrow> steps_left len alignment t = 0" for t p
      using fresh_steps [of t L p len alignment stride requested] args by (simp add: al_ext_def)
    have M: "steps_left len alignment s = 1" using cb by (simp add: steps_left_def)
    show ?thesis
      using cb g(3)
      apply (simp add: allocate_step_def wp_bnd wp_reads wp_if CURRENT_INSTALLING_def)
      apply (rule wp_mono [OF install_current_wp [OF core [unfolded None] cb]])
       apply (auto simp: fs fresh_al_inv M) [1]
      apply (auto simp: idle_al_inv M)
      done
  next
    case (Some p)
    note core = core [unfolded Some] and cur = cur [unfolded Some]
    have p: "p < hw s" using a(4) Some by (simp add: counts_ok_def)
    let ?w = "current_word s"
    have cb: "unat (current_block s) = p + 1" and opn: "current_state ?w = Ok Open"
      and live: "unat (current_live ?w) = card (on_page L p)" "unat (current_used ?w) \<le> bsz s"
      using cur by (auto simp: current_ok_def)
    have ni: "current_block s \<noteq> CURRENT_INSTALLING" "current_block s \<noteq> 0"
      using not_installing [OF cb] page_index_lt [OF core p] by auto
    have A: "0 < unat alignment" "unat alignment \<le> bsz s" using args pow2_pos by (auto simp: alloc_args_def)
    note sb = start_at_bounds [OF A(1), of "unat (current_used ?w)"]
    show ?thesis
    proof (cases "page_fits len alignment s")
      case True
      let ?st = "start_at (unat (current_used ?w)) (unat alignment)"
      have fit: "?st + unat len \<le> bsz s" "card (on_page L p) \<noteq> 65534"
        using True live(1) unat_MAX_LIVE by (auto simp: page_fits_def word_unat_eq_iff)
      from allocate_step_fit [OF core cur args fit] obtain b new R where
        st: "allocate_step simd len alignment stride requested growth s = Some (Inr (Return b), s\<lparr>current_word := new\<rparr>)"
        and rb: "reserved_batch (bsz s) p ?st (unat len) (unat stride) R b"
        and new: "current_state new = Ok Open" "unat (current_used new) = ?st + (R - 1) * unat stride + unat len"
          "unat (current_live new) = card (on_page L p) + R" "card (on_page L p) + R \<le> 65534"
        and R: "R \<le> unat requested" by blast
      note ba = batch_allocs [OF rb page_end [OF core p]]
      have "unat alignment dvd bsz s" using args g(4) pow2_dvd by (auto simp: alloc_args_def)
      then have "unat alignment dvd (p * bsz s + (?st + i * unat stride))" for i
        using sb(3) args by (simp add: alloc_args_def)
      then have al: "i < R \<Longrightarrow> unat alignment dvd (a_lo (allocations b ! i) - 65536)" for i
        using ba(2) [of i] by (simp add: add.assoc)
      have ln: "x \<in> set (allocations b) \<Longrightarrow> unat (alloc_length x) = unat len" for x
        using rb by (auto simp: allocations_def reserved_batch_def)
      have "granted L (unat len) (unat alignment) (unat requested) b (s\<lparr>current_word := new\<rparr>)"
        unfolding granted_def
        using reserved_core [OF core cur rb sb(1) new] ba(1) rb R al ln
        by (auto simp: reserved_batch_def batch_len_def in_set_conv_nth)
      then show ?thesis by (simp add: wp_def st)
    next
      case False
      have M: "steps_left len alignment s = 2" using False ni by (simp add: steps_left_def)
      obtain blk where blk: "decode_block (current_block s) = Ok blk" using decode_block_Ok [OF cb] by blast
      have pw: "is_power_of_two alignment" using args by (simp add: alloc_args_def)
      have pre: "unat (current_used ?w) + (unat alignment - 1) < 2 ^ 64"
        using live(2) A g(6) by simp
      obtain start where start: "align_up (current_used ?w) alignment = Some start"
        "unat start = start_at (unat (current_used ?w)) (unat alignment)"
        by (rule align_up_eq [OF pw pre]) (simp add: start_at_def)
      have fe: "checked_add start len = Some (start + len)" "unat (start + len) = unat start + unat len"
      proof -
        have "unat start + unat len < 2 ^ 64"
          using start(2) sb(2) live(2) A g(6) args by (simp add: alloc_args_def)
        then show "checked_add start len = Some (start + len)" "unat (start + len) = unat start + unat len"
          by (simp_all add: checked_add_def unat_add_nowrap)
      qed
      have full: "al_block_size s < start + len \<or> current_live ?w = MAX_LIVE"
        using False fe(2) start(2) by (auto simp: page_fits_def word_less_nat_alt)
      have fs: "fresh t L q \<Longrightarrow> al_ext s t \<Longrightarrow> steps_left len alignment t = 0" for t q
        using fresh_steps [of t L q len alignment stride requested] args by (simp add: al_ext_def)
      have inv': "al_inv s L" by (rule inv)
      have "wp (bnd (seal_current_block (current_block s) True) (\<lambda>_. ok (Continue ())))
          (\<lambda>c t. al_ext s t \<and> (case c of
              Return b \<Rightarrow> granted L (unat len) (unat alignment) (unat requested) b t
            | Continue _ \<Rightarrow> al_inv t L \<and> steps_left len alignment t < steps_left len alignment s
                \<and> (steps_left len alignment t = 0 \<or> hw t = hw s)))
          (\<lambda>_ t. al_ext s t \<and> al_inv t L \<and> \<not> al_calm s) s"
        unfolding wp_bnd
        apply (rule wp_mono [OF seal_current_block_wp [OF core cur refl]])
         apply (auto simp: M fs fresh_al_inv idle_al_inv) [1]
          apply (simp add: steps_left_def)
        apply (simp add: inv')
        done
      then have "wp (bnd (seal_current_block (current_block s) True) (\<lambda>_. ok (Continue ())))
          (\<lambda>c t. al_ext s t \<and> (case c of
              Return b \<Rightarrow> granted L (unat len) (unat alignment) (unat requested) b t
            | Continue _ \<Rightarrow> al_inv t L \<and> steps_left len alignment t < steps_left len alignment s
                \<and> (steps_left len alignment t = 0 \<or> hw t = hw s)))
          (\<lambda>_ t. al_ext s t \<and> al_inv t L
             \<and> \<not> (al_calm s \<and> (steps_left len alignment s = 0 \<or> hw s < nbl s) \<and> unat growth + bsz s < 2 ^ 64)) s"
        by (rule wp_mono) auto
      then show ?thesis
        using ni blk opn start(1) fe(1) full g(3)
        by (simp add: allocate_step_def wp_bnd [where m = "reads _"] wp_bnd [where m = "gets _"]
            wp_bnd [where m = "lift _"] wp_reads wp_lift Let_def)
    qed
  qed
qed

lemma alloc_args_ok:
  assumes g: "al_geom s" and n: "0 < n" "n \<le> bsz s" "0 < k"
    and al: "is_power_of_two alignment" "unat alignment \<le> bsz s"
  defines "len \<equiv> of_nat n :: u64"
  defines "requested \<equiv> min (if k < 2 ^ 32 then of_nat k else - 1) (ucast MAX_LIVE) :: u32"
  obtains stride growth where "align_up len alignment = Some stride"
    "checked_mul stride (ucast requested) = Some growth"
    "alloc_args (bsz s) len alignment stride requested" "unat requested \<le> k" "unat growth + bsz s < 2 ^ 64"
proof -
  note g = al_geom_parts [OF g]
  have bs: "bsz s < 2 ^ 32" by (rule g(6))
  have ln: "unat len = n" using n bs by (simp add: len_def unat_of_nat_u64)
  have A: "0 < unat alignment" by (rule pow2_pos [OF al(1)])
  have "unat len + (unat alignment - 1) < 2 ^ 64" using ln n al(2) bs by simp
  then obtain stride where s: "align_up len alignment = Some stride"
    "unat stride = (unat len + (unat alignment - 1)) div unat alignment * unat alignment"
    by (rule align_up_eq [OF al(1)])
  note lm = least_multiple(1) [OF A, of "unat len", folded s(2)]
  have S: "unat stride \<le> bsz s"
    unfolding s(2) by (rule least_multiple(3) [OF A pow2_dvd [OF al(1) g(4) al(2)]]) (use ln n in simp)
  have req: "unat requested \<le> 65534" "1 \<le> unat requested" "unat requested \<le> k"
  proof -
    let ?k = "if k < 2 ^ 32 then of_nat k else - 1 :: u32"
    have uk: "unat ?k \<le> k" "1 \<le> unat ?k" using n by (auto simp: unat_of_nat)
    have le: "requested \<le> ?k" "requested \<le> ucast MAX_LIVE" by (simp_all add: requested_def)
    then show "unat requested \<le> 65534" "unat requested \<le> k"
      using uk(1) unat_MAX_LIVE by (auto simp: word_le_nat_alt simp del: unat_of_nat)
    have "1 \<le> ?k" "1 \<le> (ucast MAX_LIVE :: u32)" using uk(2) unat_MAX_LIVE by (auto simp: word_le_nat_alt)
    then have "1 \<le> requested" by (simp add: requested_def)
    then show "1 \<le> unat requested" by (simp add: word_le_nat_alt)
  qed
  have "unat stride * unat requested \<le> bsz s * 65534" using S req by (intro mult_le_mono) auto
  then have lt: "unat stride * unat (ucast requested :: u64) + bsz s < 2 ^ 64" using bs by simp
  then obtain growth where gr: "checked_mul stride (ucast requested) = Some growth"
    "unat growth = unat stride * unat (ucast requested :: u64)" by (simp add: checked_mul_def unat_mul_nowrap)
  have "alloc_args (bsz s) len alignment stride requested"
    unfolding alloc_args_def using ln n al lm S s(2) req by simp
  then show thesis using that s(1) gr lt req(3) by simp
qed

definition valid_request :: "block_allocator \<Rightarrow> nat \<Rightarrow> u64 \<Rightarrow> nat \<Rightarrow> bool" where
  "valid_request s n alignment k \<longleftrightarrow>
     0 < n \<and> n \<le> bsz s \<and> 0 < k \<and> is_power_of_two alignment \<and> unat alignment \<le> bsz s"

lemma allocate_batch_wp:
  assumes inv: "al_inv s L"
  shows "wp (allocate_batch simd n alignment k)
     (\<lambda>b t. al_ext s t \<and> granted L n (unat alignment) k b t)
     (\<lambda>_ t. al_ext s t \<and> al_inv t L \<and> \<not> (al_calm s \<and> hw s < nbl s \<and> valid_request s n alignment k)) s"
proof -
  from inv obtain mk where core: "al_core s L mk" by (auto simp: al_inv_def)
  have g: "al_geom s" using al_core_parts [OF core] by simp
  show ?thesis
  proof (cases "valid_request s n alignment k")
    case False
    have "n < 2 ^ 64 \<Longrightarrow> (of_nat n = (0::u64)) = (n = 0) \<and> (al_block_size s < of_nat n) = (bsz s < n)"
      by (auto simp: word_less_nat_alt unat_of_nat_u64 word_unat_eq_iff)
    then show ?thesis using False inv
      by (auto simp: valid_request_def allocate_batch_def wp_bnd wp_lift wp_if rwp_ok_or u64_try_from_def word_less_nat_alt not_le not_less
          is_power_of_two_def)
  next
    case True
    then have V: "n < 2 ^ 64 \<and> 0 < n \<and> n \<le> bsz s \<and> 0 < k \<and> is_power_of_two alignment \<and> unat alignment \<le> bsz s"
      using al_geom_parts(6) [OF g] by (auto simp: valid_request_def)
    then obtain stride growth where x: "align_up (of_nat n) alignment = Some stride"
      "checked_mul stride (ucast (min (if k < 2 ^ 32 then of_nat k else - 1) (ucast MAX_LIVE) :: u32)) = Some growth"
      "alloc_args (bsz s) (of_nat n) alignment stride (min (if k < 2 ^ 32 then of_nat k else - 1) (ucast MAX_LIVE))"
      "unat (min (if k < 2 ^ 32 then of_nat k else - 1) (ucast MAX_LIVE) :: u32) \<le> k"
      "unat growth + bsz s < 2 ^ 64"
      using alloc_args_ok [OF g] by blast
    define requested where "requested = (min (if k < 2 ^ 32 then of_nat k else - 1) (ucast MAX_LIVE) :: u32)"
    have rk: "unat requested \<le> k" unfolding requested_def by (rule x(4))
    have un: "unat (of_nat n :: u64) = n" using V by (simp add: unat_of_nat_u64)
    have lp: "wp (loop (\<lambda>_. allocate_step simd (of_nat n) alignment stride requested growth) ())
        (\<lambda>b t. al_ext s t \<and> granted L n (unat alignment) k b t)
        (\<lambda>_ t. al_ext s t \<and> al_inv t L \<and> \<not> (al_calm s \<and> hw s < nbl s)) s"
    proof (rule wp_loop [where I = "\<lambda>_ t. al_inv t L \<and> al_ext s t \<and> (steps_left (of_nat n) alignment t = 0 \<or> hw t = hw s)" and M = "\<lambda>_. steps_left (of_nat n) alignment"])
      show "al_inv s L \<and> al_ext s s \<and> (steps_left (of_nat n) alignment s = 0 \<or> hw s = hw s)" using inv by simp
    next
      fix v :: unit and t
      assume t: "al_inv t L \<and> al_ext s t \<and> (steps_left (of_nat n) alignment t = 0 \<or> hw t = hw s)"
      then have args: "alloc_args (bsz t) (of_nat n) alignment stride requested"
        using x(3) by (simp add: al_ext_def requested_def)
      show "wp (allocate_step simd (of_nat n) alignment stride requested growth)
          (\<lambda>c u. case c of Continue w \<Rightarrow> (al_inv u L \<and> al_ext s u
                  \<and> (steps_left (of_nat n) alignment u = 0 \<or> hw u = hw s))
                \<and> steps_left (of_nat n) alignment u < steps_left (of_nat n) alignment t
              | Return b \<Rightarrow> al_ext s u \<and> granted L n (unat alignment) k b u)
          (\<lambda>_ u. al_ext s u \<and> al_inv u L \<and> \<not> (al_calm s \<and> hw s < nbl s)) t"
      proof (rule wp_mono [OF allocate_step_wp [OF conjunct1 [OF t] args]], goal_cases)
        case (1 c u)
        then have e: "al_ext s u" using t al_ext_trans by blast
        from 1 t e rk un show ?case by (cases c) (auto simp: granted_def)
      next
        case (2 e u)
        have "bsz t = bsz s" "nbl t = nbl s" "al_calm s \<longrightarrow> al_calm t" "al_ext s u"
          using t 2 al_ext_size al_ext_trans by blast+
        with 2 t x(5) show ?case by auto
      qed
    qed
    have c: "\<not> (of_nat n = (0::u64) \<or> al_block_size s < of_nat n \<or> k = 0)"
      "\<not> (alignment = 0 \<or> \<not> is_power_of_two alignment \<or> al_block_size s < alignment)"
      using V un by (auto simp: word_less_nat_alt word_unat_eq_iff is_power_of_two_def)
    show ?thesis
      using True V x(1) x(2) c lp
      by (simp add: allocate_batch_def wp_bnd wp_lift Let_def u64_try_from_def requested_def)
  qed
qed

subsection \<open>Release\<close>

lemma nat_div_page: "0 < (d::nat) \<Longrightarrow> p * d \<le> n \<Longrightarrow> n < p * d + d \<Longrightarrow> n div d = p"
  by (metis div_nat_eqI mult.commute add.commute mult_Suc)

lemma allocation_for_live:
  assumes core: "al_core s L mk" and a: "a \<in> L"
  shows "allocation_for s (alloc_offset a) (alloc_length a) = Ok a"
proof -
  note c = al_core_parts [OF core]
  note g = al_geom_parts [OF c(1)]
  define p where "p = page_of a"
  have ai: "a_lo a < a_hi a" "p < hw s" "65536 + p * bsz s \<le> a_lo a" "a_hi a \<le> 65536 + p * bsz s + bsz s"
    using c(3) a by (auto simp: live_set_def alloc_in_def p_def)
  have bs: "0 < bsz s" using g(5) by simp
  have "(p + 1) * bsz s \<le> nbl s * bsz s" using ai(2) c(2) by (intro mult_le_mono1) (simp add: al_pages_def)
  then have cap: "p * bsz s + bsz s \<le> unat (al_capacity s)" using g(9) by simp
  have cap63: "unat (al_capacity s) + 65536 < 2 ^ 63" using g(9,10) by simp
  let ?r = "alloc_offset a - 65536" and ?l = "ucast (alloc_length a) :: u64"
  have le: "(65536 :: u64) \<le> alloc_offset a" using ai by (simp add: word_le_nat_alt a_lo_def)
  have r: "unat ?r = a_lo a - 65536" using le by (simp add: unat_sub_le a_lo_def)
  have sum: "unat ?r + unat ?l = a_hi a - 65536" using ai r by (simp add: a_hi_def a_lo_def)
  have rl: "checked_add ?r ?l = Some (?r + ?l)" "unat (?r + ?l) = a_hi a - 65536"
    using sum ai cap cap63 by (auto simp: checked_add_def unat_add_nowrap)
  have vr: "validate_data_range s (alloc_offset a) (unat (alloc_length a)) = Ok ()"
  proof -
    have "of_nat (unat (alloc_length a)) = ?l" by (simp add: word_unat_eq_iff unat_of_nat_u64
        order_less_le_trans [OF unsigned_less [of "alloc_length a", where 'a = nat]])
    moreover have "unat (alloc_length a) < 2 ^ 64"
      using unsigned_less [of "alloc_length a", where 'a = nat] by (rule order_less_le_trans) simp
    moreover have "\<not> ?r + ?l > al_capacity s" using rl(2) ai cap by (simp add: word_less_nat_alt)
    ultimately show ?thesis using le rl(1)
      by (simp add: validate_data_range_def checked_sub_def layout_defs)
  qed
  have d1: "unat (?r div al_block_size s) = p"
    using nat_div_page [OF bs, of p "a_lo a - 65536"] ai by (simp add: unat_div r)
  have "1 \<le> ?r + ?l" using rl(2) ai by (simp add: word_le_nat_alt)
  then have e: "saturating_sub (?r + ?l) 1 = ?r + ?l - 1" "unat (?r + ?l - 1) = a_hi a - 65536 - 1"
    using rl(2) unat_sub_le [of 1 "?r + ?l"] by (simp_all only: saturating_sub_def if_True unat_1)
  have d2: "unat ((?r + ?l - 1) div al_block_size s) = p"
    unfolding unat_div e(2) by (rule nat_div_page [OF bs]) (use ai in auto)
  have blk: "?r div al_block_size s = alloc_block a" using d1 by (simp add: word_unat_eq_iff p_def page_of_def)
  have "(?r + ?l - 1) div al_block_size s = ?r div al_block_size s" using d1 d2 by (simp add: word_unat_eq_iff)
  then show ?thesis using vr le rl(1) e(1) blk
    by (simp add: allocation_for_def checked_sub_def layout_defs Let_def)
qed

lemma validate_allocation_live:
  "al_core s L mk \<Longrightarrow> a \<in> L \<Longrightarrow> validate_allocation s a = Ok ()"
  by (simp add: validate_allocation_def allocation_for_live)

lemma on_page_remove: "on_page (L - {a}) q = on_page L q - {a}"
  by (auto simp: on_page_def)

lemma remove_core:
  assumes core: "al_core s L (Some p)" and a: "a \<in> L" "page_of a = p"
  shows "al_core s (L - {a}) (Some p)"
proof -
  note c = al_core_parts [OF core]
  have "on_page (L - {a}) q = on_page L q" if "q \<noteq> p" for q using a that by (auto simp: on_page_def)
  then have "counts_ok s (L - {a}) (Some p)" using c(4) by (auto simp: counts_ok_def)
  moreover have "live_set s (L - {a})" using c(3) by (simp add: live_set_def)
  ultimately show ?thesis using c by (simp add: al_core_def)
qed

lemma release_sealed_core:
  assumes core: "al_core s L mk" and a: "a \<in> L" and p: "mk \<noteq> Some (page_of a)"
  shows "cnt s (page_of a) \<noteq> 0" "cnt s (page_of a) \<noteq> U16_MAX"
    "al_core (put_cnt (page_of a) (cnt s (page_of a) - 1) s) (L - {a}) mk"
proof -
  note c = al_core_parts [OF core]
  let ?p = "page_of a"
  have hp: "?p < hw s" using c(3) a by (auto simp: live_set_def alloc_in_def)
  have fin: "finite (on_page L ?p)" using c(3) by (auto simp: live_set_def on_page_def)
  have mem: "a \<in> on_page L ?p" using a by (simp add: on_page_def)
  have n: "cnt s ?p \<noteq> U16_MAX" "unat (cnt s ?p) = card (on_page L ?p)" using c(4) p hp by (auto simp: counts_ok_def)
  have pos: "0 < card (on_page L ?p)" using mem fin card_gt_0_iff by blast
  show nz: "cnt s ?p \<noteq> 0" using n(2) pos by auto
  show "cnt s ?p \<noteq> U16_MAX" by (rule n(1))
  have u: "unat (cnt s ?p - 1) = card (on_page L ?p) - 1" using nz n(2) by (simp add: unat_minus_one)
  have "unat (cnt s ?p) < 65536" by simp
  then have nm: "cnt s ?p - 1 \<noteq> U16_MAX" using u n(2) pos by (auto simp: U16_MAX_def word_unat_eq_iff)
  have other: "on_page (L - {a}) q = on_page L q" if "q \<noteq> ?p" for q using that by (auto simp: on_page_def)
  have same: "card (on_page (L - {a}) ?p) = card (on_page L ?p) - 1"
    unfolding on_page_remove using fin mem by simp
  have "counts_ok (put_cnt ?p (cnt s ?p - 1) s) (L - {a}) mk"
    using c(4) p u nm other same by (auto simp: counts_ok_def)
  moreover have "live_set (put_cnt ?p (cnt s ?p - 1) s) (L - {a})"
    using c(3) by (auto simp: live_set_def alloc_in_def)
  ultimately show "al_core (put_cnt ?p (cnt s ?p - 1) s) (L - {a}) mk"
    using put_cnt_geom [OF c(1,2) hp] by (simp add: al_core_def)
qed

lemma current_is_page:
  assumes "al_core s L mk" "current_ok s L mk"
  shows "(if current_block s \<noteq> 0 then rbind (decode_block (current_block s)) (\<lambda>b. Ok (b = alloc_block a)) else Ok False)
     = Ok (mk = Some (page_of a))" and "current_block s \<noteq> CURRENT_INSTALLING"
proof -
  show "(if current_block s \<noteq> 0 then rbind (decode_block (current_block s)) (\<lambda>b. Ok (b = alloc_block a)) else Ok False)
     = Ok (mk = Some (page_of a))"
  proof (cases mk)
    case None
    then show ?thesis using assms by (simp add: current_ok_def)
  next
    case (Some p)
    then have cb: "unat (current_block s) = p + 1" using assms by (simp add: current_ok_def)
    then obtain b where b: "decode_block (current_block s) = Ok b" "unat b = p" using decode_block_Ok by blast
    then show ?thesis using Some cb by (auto simp: page_of_def word_unat_eq_iff)
  qed
  show "current_block s \<noteq> CURRENT_INSTALLING"
  proof (cases mk)
    case None
    then show ?thesis using assms by (simp add: current_ok_def CURRENT_INSTALLING_def)
  next
    case (Some p)
    then have "p < 2 ^ 32" using page_index_lt [OF assms(1)] al_core_parts(4) [OF assms(1)] by (auto simp: counts_ok_def)
    then show ?thesis using Some assms not_installing by (auto simp: current_ok_def)
  qed
qed

lemma release_current:
  assumes core: "al_core s L (Some (page_of a))" and cur: "current_ok s L (Some (page_of a))" and a: "a \<in> L"
  shows "\<exists>live new. checked_sub (current_live (current_word s)) 1 = Some live
     \<and> pack_current Open (current_used (current_word s)) live = Ok new
     \<and> al_inv (s\<lparr>current_word := new\<rparr>) (L - {a})" and "current_live (current_word s) \<noteq> 0"
proof -
  let ?p = "page_of a" and ?w = "current_word s"
  note c = al_core_parts [OF core]
  have fin: "finite (on_page L ?p)" using c(3) by (auto simp: live_set_def on_page_def)
  have mem: "a \<in> on_page L ?p" using a by (simp add: on_page_def)
  have k: "unat (current_live ?w) = card (on_page L ?p)" "card (on_page L ?p) \<le> 65534" using cur by (auto simp: current_ok_def)
  have pos: "0 < card (on_page L ?p)" using mem fin card_gt_0_iff by blast
  then show nz: "current_live ?w \<noteq> 0" using k by auto
  have s1: "checked_sub (current_live ?w) 1 = Some (current_live ?w - 1)"
    using nz by (simp add: checked_sub_def word_le_nat_alt unat_gt_0 Suc_le_eq)
  have u: "unat (current_live ?w - 1) = card (on_page L ?p) - 1" using nz k by (simp add: unat_minus_one)
  obtain new where new: "pack_current Open (current_used ?w) (current_live ?w - 1) = Ok new"
    "current_used new = current_used ?w" "current_live new = current_live ?w - 1" "current_state new = Ok Open"
    using pack_current_Ok [OF current_used_lt] by metis
  have "current_ok (s\<lparr>current_word := new\<rparr>) (L - {a}) (Some ?p)"
    using cur new u fin mem k by (auto simp: current_ok_def on_page_remove)
  moreover have "al_core (s\<lparr>current_word := new\<rparr>) (L - {a}) (Some ?p)"
    using remove_core [OF core a refl] by simp
  ultimately have "al_inv (s\<lparr>current_word := new\<rparr>) (L - {a})" unfolding al_inv_def by blast
  then show "\<exists>live new. checked_sub (current_live ?w) 1 = Some live
     \<and> pack_current Open (current_used ?w) live = Ok new \<and> al_inv (s\<lparr>current_word := new\<rparr>) (L - {a})"
    using s1 new(1) by blast
qed

lemma release_count_wp:
  assumes inv: "al_inv s L" and a: "a \<in> L"
  shows "wp (release_count a) (\<lambda>_ t. al_ext s t \<and> al_inv t (L - {a}))
     (\<lambda>e t. t = s \<and> e = OutOfMemory \<and> reserve_limit (al_counts s) < 2) s"
proof -
  from inv obtain mk where core: "al_core s L mk" and cur: "current_ok s L mk" by (auto simp: al_inv_def)
  note c = al_core_parts [OF core]
  note cp = current_is_page(1) [OF core cur, of a] current_is_page(2) [OF core cur]
  have g: "current_guard s = Ok ()" using al_geom_parts(3) [OF c(1)] .
  have va: "validate_allocation s a = Ok ()" by (rule validate_allocation_live [OF core a])
  have step: "wp (release_step a) (\<lambda>fl t. fl = Return () \<and> al_ext s t \<and> al_inv t (L - {a}))
     (\<lambda>e t. t = s \<and> e = OutOfMemory \<and> reserve_limit (al_counts s) < 2) s"
  proof (cases "mk = Some (page_of a)")
    case True
    have opn: "current_state (current_word s) = Ok Open" using cur True by (simp add: current_ok_def)
    obtain live new where r: "checked_sub (current_live (current_word s)) 1 = Some live"
      "pack_current Open (current_used (current_word s)) live = Ok new" "al_inv (s\<lparr>current_word := new\<rparr>) (L - {a})"
      using release_current(1) [OF core [unfolded True] cur [unfolded True] a] by blast
    show ?thesis using g cp True opn r
      by (simp add: release_step_def wp_bnd wp_reads wp_lift wp_if wp_cas_current)
  next
    case False
    have hp: "unat (alloc_block a) < hw s" using c(3) a by (auto simp: live_set_def alloc_in_def page_of_def)
    note rs = release_sealed_core [OF core a False]
    have "current_ok (put_cnt (page_of a) (cnt s (page_of a) - 1) s) (L - {a}) mk"
    proof (cases mk)
      case None
      then show ?thesis using cur by (simp add: current_ok_def)
    next
      case (Some p)
      then have "on_page (L - {a}) p = on_page L p" using False by (auto simp: on_page_def)
      then show ?thesis using cur Some by (simp add: current_ok_def)
    qed
    then have fin: "al_inv (put_cnt (page_of a) (cnt s (page_of a) - 1) s) (L - {a})"
      using rs(3) by (auto simp: al_inv_def)
    have lp: "wp (loop (release_sealed_step (65536 + 2 * page_of a)) (cnt s (page_of a)))
       (\<lambda>_ t. al_ext s t \<and> al_inv t (L - {a})) (\<lambda>_ _. False) s"
      by (rule wp_loop_once) (use rs(1,2) fin in \<open>simp add: release_sealed_step_def wp_bnd wp_cas_counts wp_if\<close>)
    have cw: "count_word s (alloc_block a) = Ok (65536 + 2 * page_of a)"
      using count_word_Ok [OF c(1,2) hp] by (simp add: page_of_def)
    have rc: "read_count s (alloc_block a) = (if 2 \<le> reserve_limit (al_counts s) then Ok (cnt s (page_of a)) else Err OutOfMemory)"
      using read_count_eq [OF c(1,2) hp] by (simp add: page_of_def)
    show ?thesis using g cp False cw rc
      by (auto simp: release_step_def wp_bnd wp_reads wp_lift wp_if intro: wp_mono [OF lp])
  qed
  show ?thesis
    unfolding release_count_def wp_bnd wp_reads va rwp_prim
    by (rule wp_loop_once) (rule wp_mono [OF step], auto)
qed

lemma validate_release_live:
  assumes inv: "al_inv s L" and a: "a \<in> L" and r: "2 \<le> reserve_limit (al_counts s)"
  shows "validate_release s a = Ok ()"
proof -
  from inv obtain mk where core: "al_core s L mk" and cur: "current_ok s L mk" by (auto simp: al_inv_def)
  note c = al_core_parts [OF core]
  note cp = current_is_page(1) [OF core cur, of a] current_is_page(2) [OF core cur]
  have g: "current_guard s = Ok ()" using al_geom_parts(3) [OF c(1)] .
  have va: "validate_allocation s a = Ok ()" by (rule validate_allocation_live [OF core a])
  have hp: "unat (alloc_block a) < hw s" using c(3) a by (auto simp: live_set_def alloc_in_def page_of_def)
  have rc: "read_count s (alloc_block a) = Ok (cnt s (page_of a))"
    using read_count_eq [OF c(1,2) hp] r by (simp add: page_of_def)
  show ?thesis
  proof (cases "mk = Some (page_of a)")
    case True
    have opn: "current_state (current_word s) = Ok Open" using cur True by (simp add: current_ok_def)
    show ?thesis
      unfolding validate_release_def va rbind_simps
      by (rule rloop_step(2)) (use g cp True opn release_current(2) [OF core [unfolded True] cur [unfolded True] a]
          in \<open>simp add: Let_def\<close>)
  next
    case False
    show ?thesis
      unfolding validate_release_def va rbind_simps
      by (rule rloop_step(2)) (use g cp False rc release_sealed_core(1,2) [OF core a False] in \<open>simp add: Let_def\<close>)
  qed
qed

subsection \<open>Single allocations\<close>

lemma allocate_wp:
  assumes "al_inv s L"
  shows "wp (allocate simd n alignment)
     (\<lambda>a t. al_ext s t \<and> al_inv t (insert a L) \<and> a \<notin> L \<and> unat (alloc_length a) = n
        \<and> unat alignment dvd (a_lo a - 65536))
     (\<lambda>_ t. al_ext s t \<and> al_inv t L \<and> \<not> (al_calm s \<and> hw s < nbl s \<and> valid_request s n alignment 1)) s"
proof -
  have one: "\<exists>a. allocations b = [a]" if "granted L n (unat alignment) 1 b t" for b t
    using that by (cases "allocations b") (auto simp: granted_def simp flip: length_0_conv)
  show ?thesis
    unfolding allocate_def wp_bnd
  proof (rule wp_mono [OF allocate_batch_wp [OF assms]])
    fix b t
    assume b: "al_ext s t \<and> granted L n (unat alignment) 1 b t"
    then obtain a where "allocations b = [a]" using one by blast
    then show "wp (case allocations b of [] \<Rightarrow> err (Corrupt ''single allocation batch is empty'') | a # x \<Rightarrow> ok a)
       (\<lambda>a t. al_ext s t \<and> al_inv t (insert a L) \<and> a \<notin> L \<and> unat (alloc_length a) = n
          \<and> unat alignment dvd (a_lo a - 65536))
       (\<lambda>_ t. al_ext s t \<and> al_inv t L \<and> \<not> (al_calm s \<and> hw s < nbl s \<and> valid_request s n alignment 1)) t"
      using b by (simp add: granted_def)
  qed simp
qed

subsection \<open>Data access\<close>

definition put_data :: "(nat \<Rightarrow> u8) \<Rightarrow> block_allocator \<Rightarrow> block_allocator" where
  "put_data m al = al\<lparr>al_data := (al_data al)\<lparr>mem := m\<rparr>\<rparr>"

abbreviation dmem :: "block_allocator \<Rightarrow> nat \<Rightarrow> u8" where "dmem al \<equiv> mem (al_data al)"

lemma put_data_sel [simp]:
  "al_counts (put_data m al) = al_counts al" "al_capacity (put_data m al) = al_capacity al"
  "al_block_size (put_data m al) = al_block_size al" "al_block_count (put_data m al) = al_block_count al"
  "current_block (put_data m al) = current_block al" "current_word (put_data m al) = current_word al"
  "current_guard_poisoned (put_data m al) = current_guard_poisoned al" "dmem (put_data m al) = m"
  "file_length_word (al_data (put_data m al)) = file_length_word (al_data al)"
  "mapping_length (al_data (put_data m al)) = mapping_length (al_data al)"
  "reserve_limit (al_data (put_data m al)) = reserve_limit (al_data al)"
  "put_data m (put_data m' al) = put_data m al"
  "hw (put_data m al) = hw al" "cnt (put_data m al) p = cnt al p"
  by (simp_all add: put_data_def hw_def cnt_def)

text \<open>The bytes of a live allocation lie inside the data file.\<close>

lemma live_in_file:
  assumes "al_inv s L" "a \<in> L"
  shows "65536 \<le> a_lo a" "a_hi a \<le> flen (al_data s)" "a_hi a \<le> 65536 + unat (al_capacity s)"
proof -
  from assms obtain mk where core: "al_core s L mk" by (auto simp: al_inv_def)
  note c = al_core_parts [OF core]
  have ai: "page_of a < hw s" "65536 + page_of a * bsz s \<le> a_lo a" "a_hi a \<le> 65536 + page_of a * bsz s + bsz s"
    using c(3) assms(2) by (auto simp: live_set_def alloc_in_def)
  have "(page_of a + 1) * bsz s \<le> hw s * bsz s" using ai(1) by (intro mult_le_mono1) simp
  moreover have "hw s * bsz s \<le> nbl s * bsz s" using c(2) by (simp add: al_pages_def)
  moreover have "65536 + hw s * bsz s \<le> flen (al_data s)" using c(2) by (simp add: al_pages_def)
  ultimately show "65536 \<le> a_lo a" "a_hi a \<le> flen (al_data s)" "a_hi a \<le> 65536 + unat (al_capacity s)"
    using ai al_geom_parts(9) [OF c(1)] by (simp_all only: add_mult_distrib)
qed

lemma al_inv_geom: "al_inv s L \<Longrightarrow> al_geom s"
  by (auto simp: al_inv_def al_core_def)

lemma al_inv_put_data:
  assumes "al_inv s L" and "a + length bs \<le> flen (al_data s)"
  shows "al_inv (put_data (mwrite a bs (dmem s)) s) L"
proof -
  have "mf_inv (al_data (put_data (mwrite a bs (dmem s)) s))"
    using mf_inv_mwrite [OF al_geom_parts(1) [OF al_inv_geom [OF assms(1)]] assms(2)] by (simp add: put_data_def)
  then have g: "al_geom (put_data (mwrite a bs (dmem s)) s)"
    using al_inv_geom [OF assms(1)] by (simp add: al_geom_def)
  from assms(1) obtain mk where "al_core s L mk" "current_ok s L mk" by (auto simp: al_inv_def)
  then have "al_core (put_data (mwrite a bs (dmem s)) s) L mk" "current_ok (put_data (mwrite a bs (dmem s)) s) L mk"
    using g by (simp_all add: al_core_def al_pages_def live_set_def alloc_in_def counts_ok_def current_ok_def split: option.splits)
  then show ?thesis by (auto simp: al_inv_def)
qed

lemma al_write_at_live:
  assumes inv: "al_inv s L" and a: "a \<in> L" and len: "r + length bs \<le> unat (alloc_length a)"
  shows "al_write_at a r bs s = Some (Inr (), put_data (mwrite (a_lo a + r) bs (dmem s)) s)"
proof -
  note lf = live_in_file [OF inv a]
  have m: "mf_inv (al_data s)" by (rule al_geom_parts(1) [OF al_inv_geom [OF inv]])
  have f63: "flen (al_data s) < 2 ^ 63" by (rule mf_inv_idle [OF m])
  have r: "r + length bs < 2 ^ 64" "r < 2 ^ 64" using len lf f63 by (auto simp: a_hi_def a_lo_def)
  have off: "checked_add (alloc_offset a) (of_nat r) = Some (alloc_offset a + of_nat r)"
    "unat (alloc_offset a + of_nat r) = a_lo a + r"
    using lf f63 len r by (auto simp: checked_add_def unat_add_nowrap unat_of_nat_u64 a_hi_def a_lo_def)
  have "copy_in (alloc_offset a + of_nat r) bs (al_data s)
      = Some (Inr (), (al_data s)\<lparr>mem := mwrite (a_lo a + r) bs (dmem s)\<rparr>)"
    using copy_in_idle [OF m, of "alloc_offset a + of_nat r" bs] off(2) len lf by (simp add: a_hi_def a_lo_def)
  then have "wp (al_write_at a r bs) (\<lambda>x t. x = () \<and> t = put_data (mwrite (a_lo a + r) bs (dmem s)) s) (\<lambda>_ _. False) s"
    using len r off(1)
    by (simp add: al_write_at_def wp_bnd wp_lift usize_checked_add_def wp_if wp_on_data put_data_def) (simp add: wp_def)
  then show ?thesis by (simp only: wp_exact)
qed

lemma validate_data_range_Ok:
  assumes "al_geom s" "65536 \<le> unat offset" "unat offset + n \<le> 65536 + unat (al_capacity s)"
  shows "validate_data_range s offset n = Ok ()"
proof -
  have cap: "unat (al_capacity s) + 65536 < 2 ^ 63" using al_geom_parts(9,10) [OF assms(1)] by simp
  have n: "n < 2 ^ 64" using assms cap by simp
  have le: "(65536 :: u64) \<le> offset" using assms by (simp add: word_le_nat_alt)
  have r: "unat (offset - 65536) = unat offset - 65536" using le by (simp add: unat_sub_le)
  have "checked_add (offset - 65536) (of_nat n) = Some (offset - 65536 + of_nat n)"
    "unat (offset - 65536 + of_nat n) = unat offset - 65536 + n"
    using assms cap n r by (auto simp: checked_add_def unat_add_nowrap unat_of_nat_u64)
  moreover from this have "\<not> offset - 65536 + of_nat n > al_capacity s"
    using assms by (simp only: word_less_nat_alt not_less)
  ultimately show ?thesis using le n by (simp add: validate_data_range_def checked_sub_def layout_defs)
qed

lemma al_read_into_Ok:
  assumes "al_geom s" "65536 \<le> unat offset" "unat offset + n \<le> 65536 + unat (al_capacity s)"
    "unat offset + n \<le> flen (al_data s)"
  shows "al_read_into s offset n = Ok (mread (dmem s) (unat offset) n)"
  using assms copy_out_into_idle [OF al_geom_parts(1) [OF assms(1)]]
  by (simp add: al_read_into_def validate_data_range_Ok)

lemma al_atomic_u64_Ok:
  assumes "al_geom s" "65536 \<le> unat offset" "unat offset + 8 \<le> 65536 + unat (al_capacity s)"
    "unat offset + 8 \<le> flen (al_data s)" "unat offset mod 8 = 0"
  shows "al_atomic_u64 s offset = Ok (unat offset)"
  using assms mf_atomic_idle(1) [OF al_geom_parts(1) [OF assms(1)]]
  by (simp add: al_atomic_u64_def validate_data_range_Ok)

subsection \<open>Creation\<close>

lemma mf_advise_heads_wp: "mf_inv f \<Longrightarrow> wp mf_advise_heads (\<lambda>_ t. mf_same f t) (\<lambda>_ t. mf_same f t) f"
  by (simp add: mf_advise_heads_def wp_bnd mf_inv_def) (rule wp_mono [OF os_call_wp], auto simp: mf_inv_def)

lemma validate_layout_Ok:
  "validate_layout capacity bs = Ok () \<longleftrightarrow>
     is_power_of_two bs \<and> 65536 \<le> unat bs \<and> unat bs < 2 ^ 32 \<and> 0 < unat capacity
     \<and> unat capacity mod unat bs = 0 \<and> 0 < unat capacity div unat bs \<and> unat capacity div unat bs < 2 ^ 32"
proof -
  have "unat (0xffffffff :: u64) = 0xffffffff" by simp
  then show ?thesis
    by (auto simp: validate_layout_def layout_defs Let_def word_less_nat_alt word_unat_eq_iff unat_mod unat_div not_less
        split: if_splits)
qed

lemma file_lengths_eq:
  assumes v: "validate_layout capacity bs = Ok ()" and f: "file_lengths capacity bs = Ok (d, c, nb)"
  shows "nb = capacity div bs" "unat nb = unat capacity div unat bs" "unat nb * unat bs = unat capacity"
    "unat d = 65536 + unat capacity" "unat c = round_page (65536 + 2 * unat nb)"
proof -
  note v = v [unfolded validate_layout_Ok]
  show nb: "nb = capacity div bs" using f by (auto simp: file_lengths_def rbind_Ok_iff Let_def)
  show u: "unat nb = unat capacity div unat bs" by (simp add: nb unat_div)
  show m: "unat nb * unat bs = unat capacity" using v u by (simp add: dvd_div_mult_self mod_eq_0_iff_dvd)
  from f nb have d: "data_file_length nb bs = Ok d" and c: "count_file_length nb = Ok c"
    by (auto simp: file_lengths_def rbind_Ok_iff Let_def)
  from d show "unat d = 65536 + unat capacity"
    by (auto simp: data_file_length_def layout_defs m [symmetric] dest!: checked_add_unat checked_mul_unat
        split: Option.bind_splits)
  obtain c' where "count_file_length nb = Ok c'" "unat c' = round_page (65536 + 2 * unat nb)"
    using count_file_length_Ok [of nb] v u by metis
  with c show "unat c = round_page (65536 + 2 * unat nb)" by simp
qed

lemma al_create_parts:
  assumes "al_create ed ec xd xc capacity bs = Ok al"
  obtains d c nb data counts counts' where "validate_layout capacity bs = Ok ()" "file_lengths capacity bs = Ok (d, c, nb)"
    "mf_create_with_lengths ed xd d DATA_START False True = Ok data"
    "mf_create_with_lengths ec xc c COUNTS_START False True = Ok counts"
    "exec mf_advise_heads counts = Ok counts'"
    "al = \<lparr>al_data = data, al_counts = counts', al_capacity = capacity, al_block_size = bs,
         al_block_count = nb, current_block = 0, current_word = 0, current_guard_poisoned = False\<rparr>"
  using assms by (auto simp: al_create_def mf_create_growable_def rbind_Ok_iff)

lemma al_create_inv:
  assumes "al_create ed ec xd xc capacity bs = Ok al"
  shows "al_inv al {} \<and> hw al = 0 \<and> al_capacity al = capacity \<and> al_block_size al = bs
     \<and> dmem al = (\<lambda>_. 0) \<and> reserve_limit (al_data al) = reserve_limit ed
     \<and> reserve_limit (al_counts al) = reserve_limit ec"
  using assms
proof (rule al_create_parts)
  fix d c nb data counts counts'
  assume v: "validate_layout capacity bs = Ok ()" and f: "file_lengths capacity bs = Ok (d, c, nb)"
    and d: "mf_create_with_lengths ed xd d DATA_START False True = Ok data"
    and c: "mf_create_with_lengths ec xc c COUNTS_START False True = Ok counts"
    and h: "exec mf_advise_heads counts = Ok counts'"
    and al: "al = \<lparr>al_data = data, al_counts = counts', al_capacity = capacity, al_block_size = bs,
         al_block_count = nb, current_block = 0, current_word = 0, current_guard_poisoned = False\<rparr>"
  note fl = file_lengths_eq [OF v f]
  note v = v [unfolded validate_layout_Ok]
  note md = mf_create_with_lengths_Ok [OF d] and mc = mf_create_with_lengths_Ok [OF c]
  have "rwp (exec mf_advise_heads counts) (mf_same counts) (\<lambda>_. True)"
    by (rule wp_exec, rule wp_mono [OF mf_advise_heads_wp]) (use mc in auto)
  with h have s: "mf_same counts counts'" by simp
  have hw: "hw al = 0" using s mc by (simp add: al hw_def load64_def mf_same_def mread_zero from_le_zero)
  have "file_length_word counts' \<noteq> 0 \<and> 65536 \<le> flen counts'"
    using s mc by (auto simp: mf_same_def alloc_consts layout_defs word_unat_eq_iff)
  then have "al_geom al" "al_pages al"
    using v fl md mc s hw by (auto simp: al_geom_def al_pages_def mf_same_def al alloc_consts layout_defs)
  then have "al_core al {} None" by (simp add: al_core_def live_set_def counts_ok_def hw)
  then have "al_inv al {}" using idle_al_inv by (simp add: al)
  then show ?thesis using hw md mc s by (simp add: al mf_same_def)
qed

end
