(* ===== verification/Allocator_Props.thy ===== *)
theory Allocator_Props
  imports Allocator_Correct
begin

text \<open>
  The contract of the page allocator as a locale that its clients use, its interpretation on
  \<open>allocate\<close> and \<open>release\<close>, the reopening of a closed allocator, and the properties of
  src/allocator.rs.
\<close>

subsection \<open>A store of allocations\<close>

text \<open>
  What the clients of the allocator rely on: allocation adds a fresh range to the live set,
  release takes one away, neither touches a byte, errors leave the live set alone, and live
  ranges never overlap.
\<close>

locale allocation_store =
  fixes inv :: "'s \<Rightarrow> allocation set \<Rightarrow> bool"
    and alloc :: "usize \<Rightarrow> u64 \<Rightarrow> ('s, allocation) prog"
    and rel :: "allocation \<Rightarrow> ('s, unit) prog"
    and bytes :: "'s \<Rightarrow> nat \<Rightarrow> u8"
  assumes alloc_law: "inv s L \<Longrightarrow> wp (alloc n A)
        (\<lambda>a t. inv t (insert a L) \<and> a \<notin> L \<and> unat (alloc_length a) = n \<and> bytes t = bytes s)
        (\<lambda>_ t. inv t L \<and> bytes t = bytes s) s"
    and rel_law: "inv s L \<Longrightarrow> a \<in> L \<Longrightarrow> wp (rel a)
        (\<lambda>_ t. inv t (L - {a}) \<and> bytes t = bytes s) (\<lambda>_ t. inv t L \<and> bytes t = bytes s) s"
    and apart_law: "inv s L \<Longrightarrow> a \<in> L \<Longrightarrow> b \<in> L \<Longrightarrow> a \<noteq> b \<Longrightarrow> a_hi a \<le> a_lo b \<or> a_hi b \<le> a_lo a"

text \<open>A client: a list of requests, each answered before the next; it keeps the allocations it
  got and frees them by position.\<close>

datatype request = Get usize u64 | Free usize

definition serve ::
  "(usize \<Rightarrow> u64 \<Rightarrow> ('s, allocation) prog) \<Rightarrow> (allocation \<Rightarrow> ('s, unit) prog)
    \<Rightarrow> request \<Rightarrow> ('s \<times> allocation list, unit) prog" where
  "serve alloc rel q = (\<lambda>(s, live). case q of
       Get n A \<Rightarrow> (case alloc n A s of None \<Rightarrow> None
         | Some (Inl e, t) \<Rightarrow> Some (Inr (), (t, live))
         | Some (Inr a, t) \<Rightarrow> Some (Inr (), (t, a # live)))
     | Free i \<Rightarrow> if i < length live then (case rel (live ! i) s of None \<Rightarrow> None
         | Some (Inl e, t) \<Rightarrow> Some (Inr (), (t, live))
         | Some (Inr _, t) \<Rightarrow> Some (Inr (), (t, remove1 (live ! i) live)))
       else Some (Inr (), (s, live)))"

context allocation_store
begin

lemma serve_inv:
  assumes "inv s (set live)" "distinct live" "bytes s = m"
  shows "wp (serve alloc rel q) (\<lambda>_ (t, live'). inv t (set live') \<and> distinct live' \<and> bytes t = m) (\<lambda>_ _. False) (s, live)"
proof (cases q)
  case (Get n A)
  from alloc_law [OF assms(1), of n A] show ?thesis
    using assms(2,3) Get by (auto simp: wp_def serve_def split: option.splits sum.splits)
next
  case (Free i)
  show ?thesis
  proof (cases "i < length live")
    case True
    then have "live ! i \<in> set live" by simp
    from rel_law [OF assms(1) this] show ?thesis
      using assms(2,3) Free True
      by (auto simp: wp_def serve_def split: option.splits sum.splits)
  next
    case False
    then show ?thesis using assms Free by (simp add: wp_def serve_def)
  qed
qed

lemma serve_all:
  assumes "inv s (set live)" "distinct live"
  shows "wp (forM qs (serve alloc rel))
     (\<lambda>_ (t, live'). inv t (set live') \<and> distinct live' \<and> bytes t = bytes s) (\<lambda>_ _. False) (s, live)"
  by (rule wp_forM [where I = "\<lambda>_ (t, live'). inv t (set live') \<and> distinct live' \<and> bytes t = bytes s"])
    (use assms serve_inv in auto)

lemma served_apart:
  assumes "inv s (set live)" "a \<in> set live" "b \<in> set live" "a \<noteq> b"
  shows "{a_lo a..<a_hi a} \<inter> {a_lo b..<a_hi b} = {}"
  using apart_law [OF assms] by auto

end

lemma al_ext_bytes: "al_ext s t \<Longrightarrow> dmem t = dmem s"
  by (simp add: al_ext_def)

interpretation pages: allocation_store al_inv "allocate simd" release dmem for simd
proof unfold_locales
  fix s :: block_allocator and L n A
  assume "al_inv s L"
  then show "wp (allocate simd n A)
        (\<lambda>a t. al_inv t (insert a L) \<and> a \<notin> L \<and> unat (alloc_length a) = n \<and> dmem t = dmem s)
        (\<lambda>_ t. al_inv t L \<and> dmem t = dmem s) s"
    by (rule wp_mono [OF allocate_wp]) (auto simp: al_ext_bytes)
next
  fix s :: block_allocator and L a
  assume "al_inv s L" "a \<in> L"
  then show "wp (release a) (\<lambda>_ t. al_inv t (L - {a}) \<and> dmem t = dmem s)
      (\<lambda>_ t. al_inv t L \<and> dmem t = dmem s) s"
    unfolding release_def by (intro wp_mono [OF release_count_wp]) (auto simp: al_ext_bytes)
next
  fix s :: block_allocator and L a b
  assume "al_inv s L" "a \<in> L" "b \<in> L" "a \<noteq> b"
  then show "a_hi a \<le> a_lo b \<or> a_hi b \<le> a_lo a"
    by (auto simp: al_inv_def al_core_def live_set_def)
qed

subsection \<open>A concrete allocator\<close>

lemma file_lengths_exist:
  assumes "validate_layout capacity bs = Ok ()" "unat capacity < 2 ^ 62"
  obtains d c nb where "file_lengths capacity bs = Ok (d, c, nb)" "unat d < 2 ^ 63" "unat c < 2 ^ 63"
    "65536 \<le> unat d" "65536 \<le> unat c" "unat d mod 65536 = 0" "unat c mod 65536 = 0"
proof -
  note v = assms(1) [unfolded validate_layout_Ok]
  let ?nb = "capacity div bs"
  have nb: "unat ?nb = unat capacity div unat bs" by (simp add: unat_div)
  have m: "unat ?nb * unat bs = unat capacity" using v nb by (simp add: dvd_div_mult_self mod_eq_0_iff_dvd)
  obtain c where c: "count_file_length ?nb = Ok c" "unat c = round_page (65536 + 2 * unat ?nb)"
    using count_file_length_Ok [of ?nb] v nb by metis
  have c63: "unat c < 2 ^ 63"
  proof -
    have "unat c < 65536 + 2 * unat ?nb + 65536"
      using least_multiple(2) [of 65536 "65536 + 2 * unat ?nb"] c(2) by (simp add: round_page_def)
    then show ?thesis using v nb by simp
  qed
  let ?d = "?nb * bs + 65536"
  have d: "data_file_length ?nb bs = Ok ?d" "unat ?d = 65536 + unat capacity"
    using assms(2) m by (simp_all add: data_file_length_def checked_mul_def checked_add_def layout_defs
        unat_mul_nowrap unat_add_nowrap)
  have "65536 dvd unat bs" using page_multiple v by blast
  then have "65536 dvd unat capacity" using m by (metis dvd_mult)
  moreover have "unat c mod 65536 = 0" using c(2) by (simp add: round_page_def)
  moreover have "65536 \<le> unat c" using c(2) round_page_ge [of "65536 + 2 * unat ?nb"] by simp
  ultimately show thesis
    using that [of ?d c ?nb] c d c63 assms(2) by (simp add: file_lengths_def Let_def mod_eq_0_iff_dvd)
qed

lemma al_create_succeeds:
  assumes "validate_layout capacity bs = Ok ()" "unat capacity < 2 ^ 62"
    and "backend ed = Linux" "os_results ed = []" "backend ec = Linux" "os_results ec = []"
  shows "\<exists>al. al_create ed ec False False capacity bs = Ok al
     \<and> os_results (al_data al) = [] \<and> os_results (al_counts al) = []"
proof -
  obtain d c nb where f: "file_lengths capacity bs = Ok (d, c, nb)" "unat d < 2 ^ 63" "unat c < 2 ^ 63"
    "65536 \<le> unat d" "65536 \<le> unat c" "unat d mod 65536 = 0" "unat c mod 65536 = 0"
    using file_lengths_exist [OF assms(1,2)] by blast
  have vd: "validate_mapping_length Linux d = Ok ()" "validate_mapping_length Linux c = Ok ()"
    "validate_mapping_length Linux 65536 = Ok ()"
    using f by (auto simp: validate_mapping_length_Ok layout_defs word_unat_eq_iff unat_mod)
  obtain data where data: "mf_create_with_lengths ed False d 65536 False True = Ok data" "os_results data = []"
    using mf_create_with_lengths_succeeds [of ed d 65536 False True] vd assms f by (auto simp: word_le_nat_alt)
  obtain counts where counts: "mf_create_with_lengths ec False c 65536 False True = Ok counts" "os_results counts = []"
    using mf_create_with_lengths_succeeds [of ec c 65536 False True] vd assms f by (auto simp: word_le_nat_alt)
  have "mf_inv counts" using mf_create_with_lengths_Ok [OF counts(1)] by simp
  then have "exec mf_advise_heads counts = Ok counts"
    using counts(2) by (simp add: exec_def mf_advise_heads_def applied os_call_def mf_inv_def)
  then show ?thesis
    using assms(1) f(1) data counts
    by (simp add: al_create_def mf_create_growable_def layout_defs alloc_consts)
qed

text \<open>An environment whose system calls all succeed, and a two-page allocator in it.\<close>

definition quiet_env :: os_env where
  "quiet_env = \<lparr>backend = Linux, os_results = [], reserve_limit = 1048576\<rparr>"

lemma two_pages:
  obtains al where "al_create quiet_env quiet_env False False 131072 65536 = Ok al" "al_inv al {}" "al_calm al"
    "hw al = 0" "bsz al = 65536" "nbl al = 2" "dmem al = (\<lambda>_. 0)" "current_block al = 0" "al_capacity al = 131072"
proof -
  have "is_power_of_two (65536 :: u64)" using is_power_of_two_2p [of 16, where 'a = 64] by simp
  then have "validate_layout 131072 65536 = Ok ()" by (simp add: validate_layout_Ok)
  then obtain al where al: "al_create quiet_env quiet_env False False 131072 65536 = Ok al"
    and q: "os_results (al_data al) = []" "os_results (al_counts al) = []"
    using al_create_succeeds [of 131072 65536 quiet_env quiet_env] by (auto simp: quiet_env_def)
  note c = al_create_inv [OF al]
  have g: "bsz al = 65536" "unat (al_capacity al) = 131072" using c by simp_all
  have nb: "nbl al = 2" using al_geom_parts(9) [OF al_inv_geom [OF conjunct1 [OF c]]] g by simp
  have "al_calm al" using q nb c by (simp add: al_calm_def quiet_env_def)
  moreover have "current_block al = 0" using al by (auto elim: al_create_parts)
  ultimately show thesis using that al c g nb by simp
qed

subsection \<open>Closing and opening\<close>

text \<open>What a closed file leaves on disk.\<close>

abbreviation on_disk :: "mapped_file \<Rightarrow> disk_file" where "on_disk f \<equiv> disk_file.truncate f"

lemma reopen_file:
  assumes "mf_inv f" "os_results f = []" "unat len = mapping_length f" "len mod FORMAT_PAGE_SIZE = 0"
  shows "mf_open_growable Linux (Some (on_disk f)) len = Ok f"
proof -
  note i = assms(1) [unfolded mf_inv_def]
  have v: "validate_mapping_length Linux len = Ok ()" "validate_mapping_length Linux (os_length f) = Ok ()"
    using i assms by (auto simp: validate_mapping_length_Ok)
  have le: "\<not> os_length f > len" using i assms by (simp add: word_less_nat_alt)
  show ?thesis
    using v le i assms(2,3)
    by (cases f) (simp add: mf_open_growable_def mf_map_def mapping_new_def disk_file.defs os_call_def applied)
qed

lemma closed_header:
  assumes core: "al_core s L None" and r: "2 * hw s \<le> reserve_limit (al_counts s)"
  shows "validate_header s = Ok ()"
proof -
  note a = al_core_parts [OF core]
  note g = al_geom_parts [OF a(1)]
  let ?h = "load64 (al_counts s) 0"
  have lt: "hw s < 2 ^ 32" by (rule hw_lt [OF a(1,2)])
  have le: "hw s \<le> nbl s" "65536 + hw s * bsz s \<le> flen (al_data s)" "65536 + 2 * hw s \<le> flen (al_counts s)"
    using a(2) by (auto simp: al_pages_def)
  have cb: "closed_block_value s = Ok ?h"
    using lt by (simp add: closed_block_value_def high_water_Ok [OF a(1,2)] growing_clear_iff hw_def Let_def)
  obtain c where c: "count_file_length ?h = Ok c" "unat c = round_page (65536 + 2 * hw s)"
    using count_file_length_Ok [of ?h] lt by (auto simp: hw_def)
  obtain d where d: "data_file_length ?h (al_block_size s) = Ok d" "unat d = 65536 + hw s * bsz s"
    using data_file_length_Ok [OF a(1), of ?h] le by (auto simp: hw_def)
  have "65536 dvd flen (al_counts s)"
    using g(2) by (auto simp: mf_inv_def layout_defs word_unat_eq_iff unat_mod mod_eq_0_iff_dvd)
  then have cl: "\<not> file_length_word (al_counts s) < c"
    using c(2) least_multiple(3) [of 65536 "flen (al_counts s)" "65536 + 2 * hw s"] le
    by (simp add: round_page_def word_less_nat_alt)
  have hwc: "\<not> ?h > al_block_count s" using le by (simp add: word_less_nat_alt hw_def)
  have snap: "count_snapshot s ?h = Ok (mread (cmem s) 65536 (2 * hw s))"
    using count_snapshot_eq [OF a(1,2)] r by simp
  have "b \<noteq> u16_le U16_MAX" if b: "b \<in> set (chunks2 (mread (cmem s) 65536 (2 * hw s)))" for b
  proof
    assume e: "b = u16_le U16_MAX"
    from b obtain i where i: "i < hw s" "b = chunks2 (mread (cmem s) 65536 (2 * hw s)) ! i"
      by (auto simp: in_set_conv_nth)
    then have "b = mread (cmem s) (65536 + 2 * i) 2" by (simp add: nth_chunks2 mread_2 add.assoc)
    then have "cnt s i = from_le b" by (simp add: cnt_def load16_def)
    then have "cnt s i = U16_MAX" unfolding e by simp
    then show False using a(4) i(1) by (auto simp: counts_ok_def)
  qed
  then show ?thesis
    using cb c d cl hwc snap le g(1,2)
    by (auto simp: validate_header_def mf_file_length_idle [OF mf_inv_idle] word_less_nat_alt Let_def)
qed

lemma layout_of_inv:
  assumes "al_geom s"
  obtains c d where "validate_layout (al_capacity s) (al_block_size s) = Ok ()"
    "file_lengths (al_capacity s) (al_block_size s) = Ok (d, c, al_block_count s)"
    "unat d = mapping_length (al_data s)" "unat c = mapping_length (al_counts s)"
    "d mod FORMAT_PAGE_SIZE = 0" "c mod FORMAT_PAGE_SIZE = 0"
proof -
  note g = al_geom_parts [OF assms]
  have pos: "0 < bsz s" using g(5) by simp
  have q: "unat (al_capacity s) div bsz s = nbl s" using g(9) pos by simp
  have v: "validate_layout (al_capacity s) (al_block_size s) = Ok ()"
    using g q pos by (simp add: validate_layout_Ok)
  have n: "al_capacity s div al_block_size s = al_block_count s" using q by (simp add: word_unat_eq_iff unat_div)
  obtain d where d: "data_file_length (al_block_count s) (al_block_size s) = Ok d" "unat d = 65536 + nbl s * bsz s"
    using data_file_length_Ok [OF assms order_refl] .
  obtain c where c: "count_file_length (al_block_count s) = Ok c" "unat c = round_page (65536 + 2 * nbl s)"
    using count_file_length_Ok [OF g(8)] .
  have "65536 dvd bsz s" using page_multiple g(4,5) by blast
  then have "65536 dvd unat d" using d(2) by simp
  moreover have "65536 dvd unat c" using c(2) by (simp add: round_page_def)
  ultimately show thesis
    using that [of d c] v d c n g(11,12)
    by (simp add: file_lengths_def Let_def layout_defs word_unat_eq_iff unat_mod mod_eq_0_iff_dvd)
qed

lemma al_reopen:
  assumes core: "al_core s L None" and cb: "current_block s = 0" and calm: "al_calm s"
  shows "al_open Linux (Some (on_disk (al_data s))) (Some (on_disk (al_counts s))) (al_capacity s) (al_block_size s)
     = Ok (s\<lparr>current_word := 0\<rparr>)" and "al_inv (s\<lparr>current_word := 0\<rparr>) L"
proof -
  note a = al_core_parts [OF core]
  note g = al_geom_parts [OF a(1)]
  obtain c d where l: "validate_layout (al_capacity s) (al_block_size s) = Ok ()"
    "file_lengths (al_capacity s) (al_block_size s) = Ok (d, c, al_block_count s)"
    "unat d = mapping_length (al_data s)" "unat c = mapping_length (al_counts s)"
    "d mod FORMAT_PAGE_SIZE = 0" "c mod FORMAT_PAGE_SIZE = 0"
    using layout_of_inv [OF a(1)] .
  have quiet: "os_results (al_data s) = []" "os_results (al_counts s) = []" using calm by (auto simp: al_calm_def)
  have adv: "exec mf_advise_heads (al_counts s) = Ok (al_counts s)"
    using g(2) quiet by (simp add: exec_def mf_advise_heads_def applied os_call_def mf_inv_def)
  have eq: "\<lparr>al_data = al_data s, al_counts = al_counts s, al_capacity = al_capacity s,
      al_block_size = al_block_size s, al_block_count = al_block_count s, current_block = 0,
      current_word = 0, current_guard_poisoned = False\<rparr> = s\<lparr>current_word := 0\<rparr>"
    using cb a(1) by (simp add: al_geom_def)
  have core': "al_core (s\<lparr>current_word := 0\<rparr>) L None" using core by simp
  have "2 * hw s \<le> reserve_limit (al_counts s)" using calm a(2) by (simp add: al_calm_def al_pages_def)
  then have "validate_header (s\<lparr>current_word := 0\<rparr>) = Ok ()" using closed_header [OF core'] by simp
  then show "al_open Linux (Some (on_disk (al_data s))) (Some (on_disk (al_counts s))) (al_capacity s) (al_block_size s)
     = Ok (s\<lparr>current_word := 0\<rparr>)"
    using l reopen_file [OF g(1) quiet(1) l(3,5)] reopen_file [OF g(2) quiet(2) l(4,6)] adv eq
    by (simp add: al_open_def)
  show "al_inv (s\<lparr>current_word := 0\<rparr>) L" using core' cb idle_al_inv by simp
qed

lemma mf_sync_quiet: "mf_inv f \<Longrightarrow> os_results f = [] \<Longrightarrow> mf_sync_all f = Some (Inr (), f)"
  by (simp add: mf_sync_all_def mapping_sync_def applied bnd_def mf_file_length_idle [OF mf_inv_idle] os_call_def mf_inv_def)

lemma al_close_reopen:
  assumes "al_inv s L" "al_calm s"
  obtains t u where "al_sync_all s = Some (Inr (), t)"
    "al_open Linux (Some (on_disk (al_data t))) (Some (on_disk (al_counts t))) (al_capacity s) (al_block_size s) = Ok u"
    "al_inv u L" "al_ext s u" "al_inv t L" "al_ext s t"
proof -
  from seal_current_wp [OF assms(1)] assms(2) obtain t where
    t: "seal_current s = Some (Inr (), t)" "al_inv t L" "al_ext s t" "current_block t = 0"
    by (auto simp: wp_disj)
  have core: "al_core t L None" using t(2,4) by (auto simp: al_inv_def current_ok_def split: option.splits)
  have calm: "al_calm t" using al_ext_size(3) [OF t(3) assms(2)] .
  have "al_sync_all s = Some (Inr (), t)"
    using t(1) calm al_geom_parts(1,2) [OF al_core_parts(1) [OF core]]
    by (simp add: al_sync_all_def applied bnd_def on_data_def on_counts_def zoom_def al_calm_def mf_sync_quiet)
  moreover have "al_capacity t = al_capacity s" "al_block_size t = al_block_size s" using t(3) by (auto simp: al_ext_def)
  moreover have "al_ext s (t\<lparr>current_word := 0\<rparr>)" using t(3) by (simp add: al_ext_def al_calm_def hw_def)
  ultimately show thesis using that al_reopen [OF core t(4) calm] t(2,3) by metis
qed

subsection \<open>Properties\<close>

text \<open>C6. A batch allocation always returns. On success it hands out between one and the
  requested number of fresh ranges of the requested size and alignment, disjoint from each other
  and from everything live, and keeps the allocator's invariant; on an error the live set is
  unchanged. No byte of the data file changes. With valid arguments, unclaimed pages left and
  system calls that succeed, it succeeds.\<close>

theorem allocate_batch_correct:
  assumes "al_inv s L"
  shows "\<exists>r t. allocate_batch simd n alignment k s = Some (r, t) \<and> dmem t = dmem s \<and> (case r of
       Inr b \<Rightarrow> al_inv t (L \<union> set (allocations b)) \<and> L \<inter> set (allocations b) = {}
         \<and> 1 \<le> length (allocations b) \<and> length (allocations b) \<le> k \<and> distinct (allocations b)
         \<and> (\<forall>a \<in> set (allocations b). unat (alloc_length a) = n \<and> unat alignment dvd (a_lo a - 65536))
     | Inl e \<Rightarrow> al_inv t L \<and> \<not> (al_calm s \<and> hw s < nbl s \<and> valid_request s n alignment k))"
proof -
  have "wp (allocate_batch simd n alignment k)
     (\<lambda>b t. dmem t = dmem s \<and> al_inv t (L \<union> set (allocations b)) \<and> L \<inter> set (allocations b) = {}
         \<and> 1 \<le> length (allocations b) \<and> length (allocations b) \<le> k \<and> distinct (allocations b)
         \<and> (\<forall>a \<in> set (allocations b). unat (alloc_length a) = n \<and> unat alignment dvd (a_lo a - 65536)))
     (\<lambda>_ t. dmem t = dmem s \<and> al_inv t L \<and> \<not> (al_calm s \<and> hw s < nbl s \<and> valid_request s n alignment k)) s"
    by (rule wp_mono [OF allocate_batch_wp [OF assms]]) (auto simp: granted_def al_ext_bytes)
  then show ?thesis by (rule wp_returns)
qed

theorem allocate_batch_correct_witness:
  "\<exists>al b t. al_create quiet_env quiet_env False False 131072 65536 = Ok al
     \<and> allocate_batch Avx2 24 8 3 al = Some (Inr b, t) \<and> 1 \<le> length (allocations b) \<and> al_inv t (set (allocations b))"
proof -
  obtain al where al: "al_create quiet_env quiet_env False False 131072 65536 = Ok al" "al_inv al {}" "al_calm al"
    "hw al = 0" "bsz al = 65536" "nbl al = 2" by (rule two_pages)
  have "is_power_of_two (8 :: u64)" using is_power_of_two_2p [of 3, where 'a = 64] by simp
  with al have "valid_request al 24 8 3" by (simp add: valid_request_def)
  with allocate_batch_correct [OF al(2), of Avx2 24 8 3] al obtain b t where
    "allocate_batch Avx2 24 8 3 al = Some (Inr b, t)" "1 \<le> length (allocations b)" "al_inv t (set (allocations b))"
    by (auto simp: split_sum_ex)
  with al(1) show ?thesis by blast
qed

text \<open>C20. Releasing a live allocation always returns and removes exactly that allocation from the
  live set; no byte changes. The only possible error is the refusal of a two-byte reservation,
  and it changes nothing.\<close>

theorem release_correct:
  assumes "al_inv s L" "a \<in> L"
  shows "\<exists>r t. release a s = Some (r, t) \<and> dmem t = dmem s \<and> (case r of
       Inr _ \<Rightarrow> al_inv t (L - {a})
     | Inl e \<Rightarrow> t = s \<and> e = OutOfMemory \<and> reserve_limit (al_counts s) < 2)"
proof -
  have "wp (release a) (\<lambda>_ t. dmem t = dmem s \<and> al_inv t (L - {a}))
     (\<lambda>e t. dmem t = dmem s \<and> t = s \<and> e = OutOfMemory \<and> reserve_limit (al_counts s) < 2) s"
    unfolding release_def by (rule wp_mono [OF release_count_wp [OF assms]]) (auto simp: al_ext_bytes)
  then show ?thesis by (rule wp_returns)
qed

lemma one_live:
  obtains al a s where "al_create quiet_env quiet_env False False 131072 65536 = Ok al"
    "allocate Scalar 24 8 al = Some (Inr a, s)" "al_inv s {a}" "unat (alloc_length a) = 24" "al_calm s"
proof -
  obtain al where al: "al_create quiet_env quiet_env False False 131072 65536 = Ok al" "al_inv al {}" "al_calm al"
    "hw al = 0" "bsz al = 65536" "nbl al = 2" by (rule two_pages)
  have "is_power_of_two (8 :: u64)" using is_power_of_two_2p [of 3, where 'a = 64] by simp
  with al have "valid_request al 24 8 1" by (simp add: valid_request_def)
  with allocate_wp [OF al(2), of Scalar 24 8] al obtain a s where
    "allocate Scalar 24 8 al = Some (Inr a, s)" "al_inv s {a}" "unat (alloc_length a) = 24" "al_calm s"
    by (auto simp: wp_disj al_ext_size(3))
  with al(1) that show thesis by blast
qed

lemma calm_reserve: "al_calm s \<Longrightarrow> al_geom s \<Longrightarrow> 2 \<le> reserve_limit (al_counts s)"
  using al_geom_parts(7) [of s] by (auto simp: al_calm_def)

theorem release_correct_witness:
  "\<exists>a s t. release a s = Some (Inr (), t) \<and> al_inv s {a} \<and> al_inv t {}"
proof -
  obtain a s where s: "al_inv s {a}" "al_calm s" by (rule one_live)
  have "2 \<le> reserve_limit (al_counts s)" using calm_reserve s al_inv_geom by blast
  with release_correct [OF s(1), of a] obtain t where "release a s = Some (Inr (), t)" "al_inv t {}"
    by (auto simp: split_sum_ex)
  with s show ?thesis by blast
qed

text \<open>C7. From creation on, any sequence of allocation and release requests is answered (no call
  hangs), no request writes a data byte, and the allocations that are live at the end are
  pairwise disjoint ranges inside the data area.\<close>

theorem allocator_session:
  assumes "al_create env_data env_counts data_exists counts_exists capacity bs = Ok al"
  shows "\<exists>t live. forM qs (serve (allocate simd) release) (al, []) = Some (Inr (), (t, live))
     \<and> distinct live \<and> dmem t = (\<lambda>_. 0)
     \<and> (\<forall>a \<in> set live. 65536 \<le> a_lo a \<and> a_lo a < a_hi a \<and> a_hi a \<le> 65536 + unat (al_capacity t))
     \<and> (\<forall>a \<in> set live. \<forall>b \<in> set live. a \<noteq> b \<longrightarrow> {a_lo a..<a_hi a} \<inter> {a_lo b..<a_hi b} = {})"
proof -
  from al_create_inv [OF assms] have i: "al_inv al (set [])" and m: "dmem al = (\<lambda>_. 0)" by simp_all
  from pages.serve_all [OF i, of qs simd] obtain t live where
    t: "forM qs (serve (allocate simd) release) (al, []) = Some (Inr (), (t, live))"
      "al_inv t (set live)" "distinct live" "dmem t = (\<lambda>_. 0)"
    by (auto simp: wp_disj m)
  have "a_lo a < a_hi a" if "a \<in> set live" for a
    using t(2) that by (auto simp: al_inv_def al_core_def live_set_def alloc_in_def)
  with t live_in_file [OF t(2)] pages.served_apart [OF t(2)] show ?thesis by blast
qed

theorem allocator_session_witness:
  "\<exists>al t live. al_create quiet_env quiet_env False False 131072 65536 = Ok al
     \<and> forM [Get 24 8, Get 65536 64, Free 1, Get 100 3] (serve (allocate Neon) release) (al, []) = Some (Inr (), (t, live))
     \<and> distinct live"
proof -
  obtain al where al: "al_create quiet_env quiet_env False False 131072 65536 = Ok al" by (rule two_pages)
  from allocator_session [OF this, of "[Get 24 8, Get 65536 64, Free 1, Get 100 3]" Neon] al show ?thesis by blast
qed

text \<open>C28. The AVX2 and NEON masks of a chunk of sixteen counts are the scalar mask.\<close>

theorem zero_mask_16_scalar:
  assumes "length bytes = 32"
  shows "zero_mask_16 simd bytes = zero_mask_scalar bytes"
proof (rule bit_eqI)
  fix i
  show "bit (zero_mask_16 simd bytes) i \<longleftrightarrow> bit (zero_mask_scalar bytes) i"
  proof (cases "i < 16")
    case True
    then show ?thesis using assms zero_mask_16_bit [of bytes i simd] zero_mask_16_bit [of bytes i Scalar]
      by (simp add: zero_mask_16_def)
  next
    case False
    then show ?thesis using zero_mask_16_high [OF assms, of i simd] zero_mask_16_high [OF assms, of i Scalar]
      by (simp add: zero_mask_16_def)
  qed
qed

theorem zero_mask_16_scalar_witness:
  "zero_mask_16 Avx2 (replicate 16 0 @ replicate 16 7) = zero_mask_scalar (replicate 16 0 @ replicate 16 7)"
  by (rule zero_mask_16_scalar) simp

text \<open>C27. The scan for free pages, with any SIMD variant, finds the longest run of free pages
  that follows a page in use (or starts the file), and answers \<open>None\<close> only when there is no
  such run.\<close>

theorem longest_zero_run_correct:
  assumes "al_inv al L" "2 * hw al \<le> reserve_limit (al_counts al)"
  shows "\<exists>r. longest_zero_run simd al (load64 (al_counts al) 0) = Ok r \<and> (case r of
       None \<Rightarrow> \<forall>q k. \<not> claimable_run (cnt al) (hw al) q k
     | Some b \<Rightarrow> \<exists>k. claimable_run (cnt al) (hw al) (unat b) k
                    \<and> (\<forall>q k'. claimable_run (cnt al) (hw al) q k' \<longrightarrow> k' \<le> k))"
proof -
  from assms(1) have "al_geom al" "al_pages al" by (auto simp: al_inv_def al_core_def)
  from longest_zero_run_wp [OF this, of simd] assms(2) show ?thesis by (fastforce simp: rwp_disj)
qed

theorem longest_zero_run_correct_witness:
  "\<exists>al r. al_create quiet_env quiet_env False False 131072 65536 = Ok al \<and> longest_zero_run Neon al 0 = Ok r"
proof -
  obtain al where al: "al_create quiet_env quiet_env False False 131072 65536 = Ok al" "al_inv al {}" "al_calm al"
    "hw al = 0" "bsz al = 65536" "nbl al = 2" by (rule two_pages)
  have "load64 (al_counts al) 0 = 0" using al(4) by (simp add: hw_def unat_eq_0)
  with longest_zero_run_correct [OF al(2), of Neon] al show ?thesis by auto
qed

text \<open>C32. On the page that is being filled, once nothing on it is live, \<open>validate_release\<close> of a
  well-formed allocation never returns, in any single-threaded execution, while
  \<open>release_count\<close> reports the underflow.\<close>

theorem validate_release_hangs:
  assumes "al_core s L (Some (page_of a))" "current_ok s L (Some (page_of a))"
    and "on_page L (page_of a) = {}" and "validate_allocation s a = Ok ()"
  shows "validate_release s a = None
     \<and> release_count a s = Some (Inl (Corrupt ''page allocation count underflow''), s)"
proof
  note cp = current_is_page(1) [OF assms(1,2), of a] current_is_page(2) [OF assms(1,2)]
  have g: "current_guard s = Ok ()" using al_geom_parts(3) [OF al_core_parts(1) [OF assms(1)]] .
  have opn: "current_state (current_word s) = Ok Open" and live: "current_live (current_word s) = 0"
    using assms(2,3) by (auto simp: current_ok_def unat_eq_0)
  show "validate_release s a = None"
    unfolding validate_release_def assms(4) rbind_simps
    by (rule rloop_spin) (use g cp opn live in \<open>simp add: Let_def\<close>)
  have "release_step a s = Some (Inl (Corrupt ''page allocation count underflow''), s)"
    using g cp opn live by (simp add: release_step_def applied checked_sub_def)
  then show "release_count a s = Some (Inl (Corrupt ''page allocation count underflow''), s)"
    using assms(4) by (simp add: release_count_def applied loop_step(1))
qed

lemma fresh_page:
  obtains t p where "fresh t {} p" "bsz t = 65536"
proof -
  obtain al where al: "al_inv al {}" "al_calm al" "hw al = 0" "bsz al = 65536" "nbl al = 2" "current_block al = 0"
    by (rule two_pages)
  then have "al_core al {} None" by (auto simp: al_inv_def current_ok_def split: option.splits)
  from install_current_wp [OF this al(6), of Scalar 8] al obtain t where "al_ext al t" "\<exists>p. fresh t {} p"
    by (auto simp: wp_disj)
  with that al(4) al_ext_size(1) show thesis by metis
qed

theorem validate_release_hangs_witness:
  "\<exists>s a. validate_release s a = None"
proof -
  obtain t p where f: "fresh t {} p" "bsz t = 65536" by (rule fresh_page)
  then have c: "al_core t {} (Some p)" "current_ok t {} (Some p)" using fresh_current_ok by (auto simp: fresh_def)
  have p: "p < hw t" using al_core_parts(4) [OF c(1)] by (simp add: counts_ok_def)
  then have p32: "p < 2 ^ 32" using page_index_lt [OF c(1)] by blast
  define a where "a = \<lparr>alloc_offset = of_nat (65536 + p * 65536) :: u64, alloc_length = 8 :: u32, alloc_block = of_nat p :: u64\<rparr>"
  have u: "a_lo a = 65536 + p * 65536" "a_hi a = 65536 + p * 65536 + 8" "page_of a = p"
    using p32 by (simp_all add: a_def a_lo_def a_hi_def page_of_def unat_of_nat_u64 del: of_nat_add of_nat_mult)
  have "alloc_in t a" using u p f(2) by (simp add: alloc_in_def)
  then have "al_core t {a} (Some p)"
    using c(1) u(3) by (auto simp: al_core_def live_set_def counts_ok_def on_page_def)
  then have "validate_allocation t a = Ok ()" by (rule validate_allocation_live) simp
  with validate_release_hangs [of t "{}" a] c u(3) show ?thesis by (auto simp: on_page_def)
qed

text \<open>C36. Writing inside a live allocation succeeds, reading the range back returns the bytes
  written, and the bytes of every other live allocation stay as they were.\<close>

theorem write_read_live:
  assumes "al_inv s L" "a \<in> L" "r + length bs \<le> unat (alloc_length a)"
  shows "\<exists>t. al_write_at a r bs s = Some (Inr (), t) \<and> al_inv t L
     \<and> al_read_into t (alloc_offset a + of_nat r) (length bs) = Ok bs
     \<and> (\<forall>b \<in> L - {a}. \<forall>x. a_lo b \<le> x \<and> x < a_hi b \<longrightarrow> dmem t x = dmem s x)"
proof -
  let ?t = "put_data (mwrite (a_lo a + r) bs (dmem s)) s"
  note lf = live_in_file [OF assms(1,2)]
  have "flen (al_data s) < 2 ^ 63" by (rule mf_inv_idle [OF al_geom_parts(1) [OF al_inv_geom [OF assms(1)]]])
  then have u: "unat (alloc_offset a + of_nat r) = a_lo a + r"
    using lf assms(3) by (simp add: a_lo_def a_hi_def unat_add_nowrap unat_of_nat_u64)
  have fit: "a_lo a + r + length bs \<le> a_hi a" using assms(3) by (simp add: a_lo_def a_hi_def)
  have inv: "al_inv ?t L" by (rule al_inv_put_data [OF assms(1)]) (use fit lf in simp)
  have rd: "al_read_into ?t (alloc_offset a + of_nat r) (length bs) = Ok bs"
    by (subst al_read_into_Ok) (use al_inv_geom [OF inv] u fit lf in auto)
  have "dmem ?t x = dmem s x" if "b \<in> L - {a}" "a_lo b \<le> x" "x < a_hi b" for b x
    using pages.apart_law [OF assms(1), of a b] assms(2) that fit by (auto simp: mwrite_def)
  then show ?thesis using al_write_at_live [OF assms] inv rd by blast
qed

theorem write_read_live_witness:
  "\<exists>a s t. al_write_at a 16 [1, 2, 3] s = Some (Inr (), t) \<and> al_read_into t (alloc_offset a + 16) 3 = Ok [1, 2, 3]"
proof -
  obtain a s where s: "al_inv s {a}" "unat (alloc_length a) = 24" by (rule one_live)
  from write_read_live [OF s(1), of a 16 "[1, 2, 3]"] s(2) show ?thesis by (auto simp: numeral_3_eq_3)
qed

text \<open>C21. Closing with \<open>sync_all\<close> and opening the two files again gives an allocator with the
  same live allocations and the same bytes.\<close>

theorem close_open_roundtrip:
  assumes "al_inv s L" "al_calm s"
  shows "\<exists>t u. al_sync_all s = Some (Inr (), t)
     \<and> al_open Linux (Some (on_disk (al_data t))) (Some (on_disk (al_counts t))) (al_capacity s) (al_block_size s) = Ok u
     \<and> al_inv u L \<and> dmem u = dmem s"
  using al_close_reopen [OF assms] by (metis al_ext_bytes)

theorem close_open_roundtrip_witness:
  "\<exists>a s t u. al_inv s {a} \<and> al_sync_all s = Some (Inr (), t)
     \<and> al_open Linux (Some (on_disk (al_data t))) (Some (on_disk (al_counts t))) (al_capacity s) (al_block_size s) = Ok u
     \<and> al_inv u {a}"
proof -
  obtain a s where s: "al_inv s {a}" "al_calm s" by (rule one_live)
  from close_open_roundtrip [OF this] s(1) show ?thesis by blast
qed

end
