(* ===== verification/Node_Correct.thy ===== *)
theory Node_Correct
  imports Node Allocator_Props
begin

text \<open>
  Correctness of src/node.rs: the image of a node in the data file, what the reads return on it,
  and how allocation, pointer updates and tombstones change it.
\<close>

subsection \<open>The packed pointer\<close>

lemma pointer_mask: "NODE_POINTER_MASK = mask 48"
  by (simp add: layout_defs mask_eq_exp_minus_1)

lemma le_pointer_mask: "w \<le> NODE_POINTER_MASK \<longleftrightarrow> unat w < 2 ^ 48"
proof -
  have "unat NODE_POINTER_MASK = 2 ^ 48 - 1" by (simp add: layout_defs)
  then show ?thesis by (simp add: word_le_nat_alt less_eq_Suc_le [symmetric]) linarith
qed

lemma small_bits: "unat (w :: u64) < 2 ^ 48 \<Longrightarrow> 48 \<le> i \<Longrightarrow> \<not> bit w i"
proof -
  assume "unat w < 2 ^ 48" "48 \<le> i"
  then have "unat w < 2 ^ i" using power_increasing [of 48 i "2::nat"] by linarith
  then have "\<not> bit (unat w) i" by (simp add: bit_iff_odd)
  then show "\<not> bit w i" by (auto simp: bit_unsigned_iff dest: bit_imp_le_length)
qed

lemma small_mask: "unat (w :: u64) < 2 ^ 48 \<Longrightarrow> w AND mask 48 = w"
  by (rule bit_eqI) (use small_bits [of w] in \<open>auto simp: bit_simps not_le [symmetric]\<close>)

text \<open>The pointer word of a node: the checksum of its key and value above the next offset.\<close>

definition node_word :: "bytes \<Rightarrow> u64 \<Rightarrow> u64 \<Rightarrow> u64" where
  "node_word key value nxt = push_bit 48 (ucast (node_checksum key value)) OR nxt"

lemma node_word_parts:
  assumes "unat nxt < 2 ^ 48"
  shows "node_word key value nxt AND NODE_POINTER_MASK = nxt"
    and "drop_bit 48 (node_word key value nxt) = ucast (node_checksum key value)"
    and "unat nxt' < 2 ^ 48 \<Longrightarrow> (node_word key value nxt AND NOT NODE_POINTER_MASK) OR nxt' = node_word key value nxt'"
  unfolding node_word_def pointer_mask
proof -
  note sb = small_bits [OF assms]
  show "(push_bit 48 (ucast (node_checksum key value)) OR nxt) AND mask 48 = nxt"
    by (rule bit_eqI) (use sb in \<open>auto simp: bit_simps not_le [symmetric]\<close>)
  show "drop_bit 48 (push_bit 48 (ucast (node_checksum key value)) OR nxt) = ucast (node_checksum key value)"
    by (rule bit_eqI) (use sb in \<open>auto simp: bit_simps dest: bit_imp_le_length\<close>)
  assume "unat nxt' < 2 ^ 48"
  note sb' = small_bits [OF this]
  show "((push_bit 48 (ucast (node_checksum key value)) OR nxt) AND NOT (mask 48)) OR nxt'
      = push_bit 48 (ucast (node_checksum key value)) OR nxt'"
    by (rule bit_eqI) (use sb sb' in \<open>auto simp: bit_simps not_le [symmetric]\<close>)
qed

lemma node_checksum_nonzero: "node_checksum key value \<noteq> 0"
proof -
  have "1 \<le> node_checksum key value" by (simp add: node_checksum_def Let_def)
  then show ?thesis by auto
qed

subsection \<open>Images of nodes\<close>

definition node_image :: "bytes \<Rightarrow> u64 \<Rightarrow> u64 \<Rightarrow> bytes" where
  "node_image key value nxt = key @ u64_le value @ u64_le (node_word key value nxt)"

text \<open>A node lies at an address of the data file.\<close>

definition node_at :: "(nat \<Rightarrow> u8) \<Rightarrow> nat \<Rightarrow> bytes \<Rightarrow> u64 \<Rightarrow> u64 \<Rightarrow> bool" where
  "node_at m off key value nxt \<longleftrightarrow>
     length key = 16 \<and> unat nxt < 2 ^ 48 \<and> mread m off 32 = node_image key value nxt"

lemma length_node_image: "length key = 16 \<Longrightarrow> length (node_image key value nxt) = 32"
  by (simp add: node_image_def)

lemma node_at_cong:
  "(\<And>x. off \<le> x \<Longrightarrow> x < off + 32 \<Longrightarrow> m' x = m x) \<Longrightarrow> node_at m off key value nxt \<Longrightarrow> node_at m' off key value nxt"
  using mread_cong [of off 32 m' m] by (simp add: node_at_def)

lemma node_at_write:
  "length key = 16 \<Longrightarrow> unat nxt < 2 ^ 48 \<Longrightarrow> node_at (mwrite off (node_image key value nxt) m) off key value nxt"
  by (simp add: node_at_def length_node_image)

lemma node_at_split:
  assumes "node_at m off key value nxt"
  shows "mread m off 16 = key" "mread m (off + 16) 8 = u64_le value" "mread m (off + 24) 8 = u64_le (node_word key value nxt)"
proof -
  have "mread m off (16 + (8 + 8)) = key @ u64_le value @ u64_le (node_word key value nxt)" and k: "length key = 16"
    using assms by (simp_all add: node_at_def node_image_def)
  then have e: "mread m off 16 @ mread m (off + 16) 8 @ mread m (off + 16 + 8) 8
      = key @ u64_le value @ u64_le (node_word key value nxt)"
    by (simp only: mread_append)
  have "off + 16 + 8 = off + 24" by simp
  from e [unfolded this] k show "mread m off 16 = key" "mread m (off + 16) 8 = u64_le value"
    "mread m (off + 24) 8 = u64_le (node_word key value nxt)" by auto
qed

lemma node_at_relink:
  assumes "node_at m off key value nxt" "unat nxt' < 2 ^ 48"
  shows "node_at (mwrite (off + 24) (u64_le (node_word key value nxt')) m) off key value nxt'"
proof -
  let ?m = "mwrite (off + 24) (u64_le (node_word key value nxt')) m"
  note s = node_at_split [OF assms(1)]
  have "mread ?m off 16 = mread m off 16" "mread ?m (off + 16) 8 = mread m (off + 16) 8"
    by (rule mread_cong; simp add: mwrite_def)+
  moreover have "mread ?m (off + 24) 8 = u64_le (node_word key value nxt')" by simp
  moreover have "mread ?m off (16 + (8 + 8)) = mread ?m off 16 @ mread ?m (off + 16) 8 @ mread ?m (off + 16 + 8) 8"
    by (simp only: mread_append)
  moreover have "off + 16 + 8 = off + 24" by simp
  ultimately have "mread ?m off 32 = node_image key value nxt'" using s by (simp add: node_image_def)
  with assms show ?thesis by (simp add: node_at_def)
qed

lemma serialize_node_eq:
  "serialize_node key value =
     (if length key = 16 then Ok (node_image key value 0) else Err (InvalidKeyLength 16 (length key)))"
proof (cases "length key = 16")
  case True
  have "splice (splice (splice (replicate 32 0) 0 key) 16 (u64_le value)) 24 (u64_le (node_word key value 0))
      = node_image key value 0"
    by (rule nth_equalityI) (use True in \<open>auto simp: nth_splice node_image_def nth_append\<close>)
  then show ?thesis using True
    by (simp add: serialize_node_def Let_def layout_defs KEY_SIZE_def node_word_def)
qed (simp add: serialize_node_def KEY_SIZE_def)

subsection \<open>Reads\<close>

text \<open>A place for a node: aligned and inside both the capacity and the file.\<close>

definition node_place :: "block_allocator \<Rightarrow> u64 \<Rightarrow> bool" where
  "node_place s off \<longleftrightarrow> al_geom s \<and> 65536 \<le> unat off \<and> unat off + 32 \<le> 65536 + unat (al_capacity s)
     \<and> unat off + 32 \<le> flen (al_data s) \<and> unat off mod 32 = 0"

lemma node_place_pointer:
  assumes "node_place s off"
  shows "unat (off + 24) = unat off + 24" "checked_add off 24 = Some (off + 24)"
proof -
  have "flen (al_data s) < 2 ^ 63" using assms mf_inv_idle al_geom_parts(1) by (auto simp: node_place_def)
  then have "unat off + 24 < 2 ^ 64" using assms by (simp add: node_place_def)
  then show "unat (off + 24) = unat off + 24" "checked_add off 24 = Some (off + 24)"
    by (simp_all add: unat_add_nowrap checked_add_def)
qed

lemma read_node_at:
  assumes p: "node_place s off" and n: "node_at (dmem s) (unat off) key value nxt"
  shows "read_node s off = Ok \<lparr>node_offset = off, node_next = nxt, node_value = value, node_key = key\<rparr>"
proof -
  have rd: "al_read_into s off 32 = Ok (node_image key value nxt)"
    using p n al_read_into_Ok [of s off 32] by (auto simp: node_place_def node_at_def)
  have k: "length key = 16" and nx: "unat nxt < 2 ^ 48" using n by (auto simp: node_at_def)
  have off0: "off \<noteq> 0" "off mod 32 = 0" using p by (auto simp: node_place_def word_unat_eq_iff unat_mod)
  have sl: "slice (node_image key value nxt) 0 16 = Some key"
    "slice (node_image key value nxt) 16 24 = Some (u64_le value)"
    "slice (node_image key value nxt) 24 32 = Some (u64_le (node_word key value nxt))"
    using k by (auto simp: node_image_def slice_def)
  note nw = node_word_parts(1,2) [OF nx]
  have "unat (drop_bit 48 (node_word key value nxt)) < 2 ^ 16" unfolding nw(2) by simp
  then have cs: "u16_try_from (drop_bit 48 (node_word key value nxt)) = Some (node_checksum key value)"
    unfolding nw(2) by (simp add: u16_try_from_def word_unat_eq_iff unat_ucast_down)
  show ?thesis
    using rd off0 sl cs nw(1)
    by (simp add: read_node_def layout_defs(4-12) read_u64_def usize_checked_add_def)
qed

lemma read_pointer_at:
  assumes p: "node_place s off" and n: "node_at (dmem s) (unat off) key value nxt"
  shows "read_pointer_word s off = Ok (node_word key value nxt)" and "read_next s off = Ok nxt"
    and "al_atomic_u64 s (off + 24) = Ok (unat off + 24)"
proof -
  have g: "al_geom s" using p by (simp add: node_place_def)
  note np = node_place_pointer [OF p]
  have rd: "al_read_into s (off + 24) 8 = Ok (u64_le (node_word key value nxt))"
    using al_read_into_Ok [OF g, of "off + 24" 8] p np(1) node_at_split(3) [OF n] by (simp add: node_place_def)
  show "read_pointer_word s off = Ok (node_word key value nxt)"
    using rd np(2) by (simp add: read_pointer_word_def layout_defs)
  have "unat nxt < 2 ^ 48" using n by (simp add: node_at_def)
  then show "read_next s off = Ok nxt"
    using rd np(2) node_word_parts(1) by (simp add: read_next_def NODE_POINTER_OFFSET_def)
  have "(unat off + 24) mod 8 = 0"
  proof -
    have "8 dvd unat off" using p dvd_trans [of 8 32 "unat off"] by (auto simp: node_place_def mod_eq_0_iff_dvd)
    then show ?thesis by (simp add: mod_eq_0_iff_dvd)
  qed
  then show "al_atomic_u64 s (off + 24) = Ok (unat off + 24)"
    using al_atomic_u64_Ok [OF g, of "off + 24"] p np(1) by (simp add: node_place_def)
qed


subsection \<open>Updates\<close>

definition set_pointer :: "u64 \<Rightarrow> u64 \<Rightarrow> block_allocator \<Rightarrow> block_allocator" where
  "set_pointer off w s = put_data (mwrite (unat off + 24) (u64_le w) (dmem s)) s"

lemma wp_store_data:
  "wp (on_data (store64 a w)) Q E s = Q () (put_data (mwrite a (u64_le w) (dmem s)) s)"
  by (simp add: wp_def on_data_def zoom_def store64_def put_data_def applied)

lemma wp_cas_data:
  "wp (on_data (cas64 a v w)) Q E s =
     (if load64 (al_data s) a = v then Q True (put_data (mwrite a (u64_le w) (dmem s)) s) else Q False s)"
  by (simp add: wp_def on_data_def zoom_def cas64_def store64_def put_data_def applied)

lemma load_pointer_at:
  "node_at (dmem s) (unat off) key value nxt \<Longrightarrow> load64 (al_data s) (unat off + 24) = node_word key value nxt"
  by (simp add: load64_def node_at_split(3))

lemma wp_compare_exchange_next:
  assumes p: "node_place s off" and n: "node_at (dmem s) (unat off) key value nxt"
    and "unat expected < 2 ^ 48" "unat replacement < 2 ^ 48"
  shows "wp (compare_exchange_next off expected replacement) Q E s =
     (if nxt = expected then Q True (set_pointer off (node_word key value replacement) s) else Q False s)"
proof -
  have b: "\<not> (expected > NODE_POINTER_MASK \<or> replacement > NODE_POINTER_MASK)"
    using assms(3,4) by (simp add: le_pointer_mask not_less)
  have nx: "unat nxt < 2 ^ 48" using n by (simp add: node_at_def)
  show ?thesis
    using b read_pointer_at [OF p n] load_pointer_at [OF n] node_word_parts [OF nx] assms(4)
    by (cases "nxt = expected")
      (auto simp: compare_exchange_next_def NODE_POINTER_OFFSET_def wp_bnd wp_reads wp_cas_data Let_def set_pointer_def)
qed

lemma wp_set_private_next:
  assumes p: "node_place s off" and n: "node_at (dmem s) (unat off) key value nxt"
    and "unat new < 2 ^ 48"
  shows "wp (set_private_next off nxt new) Q E s = Q () (set_pointer off (node_word key value new) s)"
proof -
  have nx: "unat nxt < 2 ^ 48" using n by (simp add: node_at_def)
  then have b: "\<not> (nxt > NODE_POINTER_MASK \<or> new > NODE_POINTER_MASK)"
    using assms(3) by (simp add: le_pointer_mask not_less)
  show ?thesis
    using b read_pointer_at [OF p n] load_pointer_at [OF n] node_word_parts [OF nx] assms(3)
    by (simp add: set_private_next_def NODE_POINTER_OFFSET_def wp_bnd wp_reads wp_cas_data Let_def set_pointer_def)
qed

lemma wp_tombstone_node:
  assumes "node_place s off"
  shows "wp (tombstone_node off) Q E s = Q () (set_pointer off 0 s)"
proof -
  have g: "al_geom s" using assms by (simp add: node_place_def)
  note np = node_place_pointer [OF assms]
  have "8 dvd unat off" using assms dvd_trans [of 8 32 "unat off"] by (auto simp: node_place_def mod_eq_0_iff_dvd)
  then have "(unat off + 24) mod 8 = 0" by (simp add: mod_eq_0_iff_dvd)
  then have "al_atomic_u64 s (off + 24) = Ok (unat off + 24)"
    using al_atomic_u64_Ok [OF g, of "off + 24"] assms np(1) by (simp add: node_place_def)
  then show ?thesis
    by (simp add: tombstone_node_def NODE_POINTER_OFFSET_def wp_bnd wp_reads wp_store_data set_pointer_def)
qed

subsection \<open>Live nodes\<close>

text \<open>What an operation on an allocator keeps, its bytes apart.\<close>

definition al_step :: "block_allocator \<Rightarrow> block_allocator \<Rightarrow> bool" where
  "al_step s t \<longleftrightarrow> al_capacity t = al_capacity s \<and> al_block_size t = al_block_size s
     \<and> al_block_count t = al_block_count s \<and> flen (al_data s) \<le> flen (al_data t) \<and> hw s \<le> hw t
     \<and> reserve_limit (al_data t) = reserve_limit (al_data s)
     \<and> reserve_limit (al_counts t) = reserve_limit (al_counts s) \<and> (al_calm s \<longrightarrow> al_calm t)"

lemma al_ext_step: "al_ext s t \<longleftrightarrow> al_step s t \<and> dmem t = dmem s"
  by (auto simp: al_ext_def al_step_def)

lemma al_step_refl [simp]: "al_step s s" by (simp add: al_step_def)

lemma al_step_trans [trans]: "al_step s t \<Longrightarrow> al_step t u \<Longrightarrow> al_step s u" by (auto simp: al_step_def)

lemma al_step_put_data [simp]: "al_step s (put_data m t) = al_step s t" "al_step (put_data m s) t = al_step s t"
  by (auto simp: al_step_def al_calm_def put_data_def hw_def)

lemma set_pointer_sel [simp]:
  "al_step s (set_pointer off w t) = al_step s t" "al_step (set_pointer off w s) t = al_step s t"
  "dmem (set_pointer off w s) = mwrite (unat off + 24) (u64_le w) (dmem s)"
  "al_capacity (set_pointer off w s) = al_capacity s"
  "hw (set_pointer off w s) = hw s"
  by (simp_all add: set_pointer_def)

text \<open>A live allocation that can hold a node.\<close>

definition node_alloc :: "allocation \<Rightarrow> bool" where
  "node_alloc a \<longleftrightarrow> unat (alloc_length a) = 32 \<and> a_lo a mod 32 = 0"

lemma node_alloc_hi: "node_alloc a \<Longrightarrow> a_hi a = a_lo a + 32"
  by (simp add: node_alloc_def a_hi_def a_lo_def)

lemma live_node_place:
  assumes "al_inv s L" "a \<in> L" "node_alloc a"
  shows "node_place s (alloc_offset a)"
  using live_in_file [OF assms(1,2)] al_inv_geom [OF assms(1)] assms(3) node_alloc_hi [OF assms(3)]
  by (simp add: node_place_def node_alloc_def a_lo_def)

lemma al_inv_set_pointer:
  assumes "al_inv s L" "a \<in> L" "node_alloc a"
  shows "al_inv (set_pointer (alloc_offset a) w s) L"
  unfolding set_pointer_def
  by (rule al_inv_put_data [OF assms(1)])
    (use live_in_file [OF assms(1,2)] node_alloc_hi [OF assms(3)] in \<open>simp add: a_lo_def\<close>)

text \<open>Pointer updates of one live node leave every other live range alone.\<close>

lemma set_pointer_other:
  assumes "al_inv s L" "a \<in> L" "node_alloc a" "b \<in> L" "b \<noteq> a" "a_lo b \<le> x" "x < a_hi b"
  shows "dmem (set_pointer (alloc_offset a) w s) x = dmem s x"
  using pages.apart_law [OF assms(1,2,4)] assms(5-7) node_alloc_hi [OF assms(3)]
  by (auto simp: mwrite_def a_lo_def)

lemma node_alloc_live:
  assumes "al_inv t L" "a \<in> L" "unat (alloc_length a) = 32" "32 dvd (a_lo a - 65536)"
  shows "node_alloc a"
proof -
  have "65536 \<le> a_lo a" using live_in_file(1) [OF assms(1,2)] by simp
  then have "32 dvd a_lo a" using assms(4) by presburger
  then show ?thesis using assms(3) by (simp add: node_alloc_def mod_eq_0_iff_dvd)
qed

lemma al_write_node:
  fixes word :: u64
  assumes "al_inv s L" "a \<in> L" "unat (alloc_length a) = 32" "length key = 16"
  defines "t \<equiv> put_data (mwrite (a_lo a) (node_image key word 0) (dmem s)) s"
  shows "al_write a (node_image key word 0) s = Some (Inr (), t)" and "al_inv t L"
proof -
  show "al_write a (node_image key word 0) s = Some (Inr (), t)"
    using al_write_at_live [OF assms(1,2), of 0 "node_image key word 0"] assms(3,4)
    by (simp add: al_write_def length_node_image t_def)
  have "a_hi a = a_lo a + 32" using assms(3) by (simp add: a_hi_def a_lo_def)
  then show "al_inv t L"
    unfolding t_def using live_in_file(2) [OF assms(1,2)] assms(4)
    by (intro al_inv_put_data [OF assms(1)]) (simp add: length_node_image)
qed

lemma allocate_node_wp:
  assumes inv: "al_inv s L" and key: "length key = 16"
  shows "wp (allocate_node simd key value)
     (\<lambda>a t. al_step s t \<and> al_inv t (insert a L) \<and> a \<notin> L \<and> node_alloc a
        \<and> dmem t = mwrite (a_lo a) (node_image key value 0) (dmem s))
     (\<lambda>_ t. al_ext s t \<and> al_inv t L \<and> \<not> (al_calm s \<and> hw s < nbl s)) s"
proof -
  have pw: "is_power_of_two (32 :: u64)" using is_power_of_two_2p [of 5, where 'a = 64] by simp
  have vr: "valid_request s 32 32 1"
    using pw al_geom_parts(5) [OF al_inv_geom [OF inv]] by (simp add: valid_request_def)
  show ?thesis
    unfolding allocate_node_def wp_bnd wp_lift serialize_node_eq
    using key
    apply simp
    apply (rule wp_mono [OF allocate_wp [OF inv]])
    subgoal for a t
      using al_write_node [OF _ insertI1 _ key, of t a L "value"] node_alloc_live [OF _ insertI1, of t a L]
      by (simp add: wp_def catch_def al_ext_step layout_defs applied)
    subgoal using vr by (auto simp: layout_defs)
    done
qed

subsection \<open>Blobs\<close>

definition blob_image :: "bytes \<Rightarrow> bytes" where
  "blob_image value = u32_le (of_nat (length value)) @ u32_le (blob_checksum value) @ value"

definition blob_at :: "(nat \<Rightarrow> u8) \<Rightarrow> allocation \<Rightarrow> bytes \<Rightarrow> bool" where
  "blob_at m a value \<longleftrightarrow> length value < 2 ^ 32 \<and> unat (alloc_length a) = 8 + length value
     \<and> mread m (a_lo a) (8 + length value) = blob_image value"

lemma blob_at_hi: "blob_at m a value \<Longrightarrow> a_hi a = a_lo a + (8 + length value)"
  by (simp add: blob_at_def a_hi_def a_lo_def)

lemma blob_header_eq:
  "length value < 2 ^ 32 \<Longrightarrow> blob_header value = Ok (u32_le (of_nat (length value)) @ u32_le (blob_checksum value))"
proof -
  have "splice (splice (replicate 8 0) 0 (u32_le a)) 4 (u32_le b) = u32_le a @ u32_le b" for a b :: u32
    by (rule nth_equalityI) (auto simp: nth_splice nth_append)
  then show "length value < 2 ^ 32 \<Longrightarrow> blob_header value = Ok (u32_le (of_nat (length value)) @ u32_le (blob_checksum value))"
    by (simp add: blob_header_def Let_def layout_defs)
qed

lemma decode_blob_header_eq: "decode_blob_header (u32_le a @ u32_le b) = (a, b)"
  by (simp add: decode_blob_header_def)

lemma blob_at_split:
  assumes "blob_at m a value"
  shows "mread m (a_lo a) 8 = u32_le (of_nat (length value)) @ u32_le (blob_checksum value)"
    and "mread m (a_lo a + 8) (length value) = value"
proof -
  have "mread m (a_lo a) 8 @ mread m (a_lo a + 8) (length value)
      = (u32_le (of_nat (length value)) @ u32_le (blob_checksum value)) @ value"
    using assms by (simp add: blob_at_def blob_image_def mread_append [symmetric])
  then show "mread m (a_lo a) 8 = u32_le (of_nat (length value)) @ u32_le (blob_checksum value)"
    "mread m (a_lo a + 8) (length value) = value"
    by (subst (asm) append_eq_append_conv; simp)+
qed

lemma blob_at_write:
  assumes "length value < 2 ^ 32" "unat (alloc_length a) = 8 + length value"
  shows "blob_at (mwrite (a_lo a + 8) value (mwrite (a_lo a) (u32_le (of_nat (length value)) @ u32_le (blob_checksum value)) m)) a value"
proof -
  let ?h = "u32_le (of_nat (length value)) @ u32_le (blob_checksum value)"
  let ?m = "mwrite (a_lo a + 8) value (mwrite (a_lo a) ?h m)"
  have "mread ?m (a_lo a) 8 = mread (mwrite (a_lo a) ?h m) (a_lo a) 8"
    by (rule mread_cong) (simp add: mwrite_def)
  then have "mread ?m (a_lo a) 8 = ?h" by simp
  moreover have "mread ?m (a_lo a + 8) (length value) = value" by simp
  ultimately have "mread ?m (a_lo a) (8 + length value) = ?h @ value" by (simp only: mread_append)
  with assms show ?thesis by (simp add: blob_at_def blob_image_def)
qed

lemma blob_at_cong:
  "(\<And>x. a_lo a \<le> x \<Longrightarrow> x < a_hi a \<Longrightarrow> m' x = m x) \<Longrightarrow> blob_at m a value \<Longrightarrow> blob_at m' a value"
  using mread_cong [of "a_lo a" "8 + length value" m' m] blob_at_hi [of m a "value"] by (simp add: blob_at_def)

subsection \<open>Properties\<close>

lemma live_in_insert: "al_inv t (insert a L) \<Longrightarrow> b \<in> L \<Longrightarrow> a \<notin> L \<Longrightarrow> a_lo b \<le> x \<Longrightarrow> x < a_hi b \<Longrightarrow> \<not> (a_lo a \<le> x \<and> x < a_hi a)"
  using pages.apart_law [of t "insert a L" a b] by (cases "a = b") auto

text \<open>C34. A node that was just allocated is read back with its key and value and a null next
  offset, and no other live range of the body file changes.\<close>

theorem allocate_node_roundtrip:
  assumes "al_inv s L" "length key = KEY_SIZE"
  shows "\<exists>r t. allocate_node simd key value s = Some (r, t) \<and> (case r of
       Inr a \<Rightarrow> al_inv t (insert a L) \<and> a \<notin> L
         \<and> read_node t (alloc_offset a) = Ok \<lparr>node_offset = alloc_offset a, node_next = 0, node_value = value, node_key = key\<rparr>
         \<and> (\<forall>b \<in> L. \<forall>x. a_lo b \<le> x \<and> x < a_hi b \<longrightarrow> dmem t x = dmem s x)
     | Inl e \<Rightarrow> al_inv t L \<and> dmem t = dmem s \<and> \<not> (al_calm s \<and> hw s < nbl s))"
proof -
  have key: "length key = 16" using assms(2) by (simp add: KEY_SIZE_def)
  have rd: "read_node t (alloc_offset a) = Ok \<lparr>node_offset = alloc_offset a, node_next = 0, node_value = value, node_key = key\<rparr>"
    if "al_inv t (insert a L)" "node_alloc a" "dmem t = mwrite (a_lo a) (node_image key value 0) (dmem s)" for a t
  proof (rule read_node_at)
    show "node_place t (alloc_offset a)" by (rule live_node_place [OF that(1) insertI1 that(2)])
    show "node_at (dmem t) (unat (alloc_offset a)) key value 0"
      unfolding that(3) a_lo_def [symmetric] by (rule node_at_write) (use key in auto)
  qed
  have fr: "dmem t x = dmem s x"
    if "al_inv t (insert a L)" "a \<notin> L" "node_alloc a" "dmem t = mwrite (a_lo a) (node_image key value 0) (dmem s)"
      "b \<in> L" "a_lo b \<le> x" "x < a_hi b" for a b t x
    using live_in_insert [OF that(1) that(5) that(2) that(6,7)] node_alloc_hi [OF that(3)] that(4) key
    by (auto simp: mwrite_def length_node_image)
  have "wp (allocate_node simd key value) (\<lambda>a t. True \<and> al_inv t (insert a L) \<and> a \<notin> L
         \<and> read_node t (alloc_offset a) = Ok \<lparr>node_offset = alloc_offset a, node_next = 0, node_value = value, node_key = key\<rparr>
         \<and> (\<forall>b \<in> L. \<forall>x. a_lo b \<le> x \<and> x < a_hi b \<longrightarrow> dmem t x = dmem s x))
     (\<lambda>_ t. True \<and> al_inv t L \<and> dmem t = dmem s \<and> \<not> (al_calm s \<and> hw s < nbl s)) s"
    by (rule wp_mono [OF allocate_node_wp [OF assms(1) key]]) (use rd fr in \<open>auto simp: al_ext_step\<close>)
  from wp_returns [OF this] show ?thesis by simp
qed

lemma one_node:
  obtains a s where "al_inv s {a}" "node_alloc a" "node_at (dmem s) (a_lo a) (replicate 16 7) 42 0" "al_calm s"
proof -
  obtain al where al: "al_inv al {}" "al_calm al" "hw al = 0" "nbl al = 2" by (rule two_pages)
  from allocate_node_wp [OF al(1), of "replicate 16 7" Scalar 42] al obtain a t where
    t: "al_step al t" "al_inv t {a}" "node_alloc a" "dmem t = mwrite (a_lo a) (node_image (replicate 16 7) 42 0) (dmem al)"
    by (auto simp: wp_disj)
  have "node_at (dmem t) (a_lo a) (replicate 16 7) 42 0" unfolding t(4) by (rule node_at_write) simp_all
  moreover have "al_calm t" using t(1) al(2) by (simp add: al_step_def)
  ultimately show thesis using that t by blast
qed

theorem allocate_node_roundtrip_witness:
  "\<exists>al a t n. al_create quiet_env quiet_env False False 131072 65536 = Ok al
     \<and> allocate_node Avx2 (replicate 16 7) 42 al = Some (Inr a, t)
     \<and> read_node t (alloc_offset a) = Ok n \<and> node_value n = 42 \<and> node_key n = replicate 16 7"
proof -
  obtain al where al: "al_create quiet_env quiet_env False False 131072 65536 = Ok al" "al_inv al {}"
    "al_calm al" "hw al = 0" "nbl al = 2" by (rule two_pages)
  from allocate_node_roundtrip [OF al(2), of "replicate 16 7" Avx2 42] al obtain a t where
    "allocate_node Avx2 (replicate 16 7) 42 al = Some (Inr a, t)"
    "read_node t (alloc_offset a) = Ok \<lparr>node_offset = alloc_offset a, node_next = 0, node_value = 42, node_key = replicate 16 7\<rparr>"
    by (auto simp: KEY_SIZE_def split_sum_ex)
  with al(1) show ?thesis by (metis node.select_convs(3,4))
qed

text \<open>C35. Exchanging the next offset of a live node succeeds exactly when the observed offset is
  the expected one; the node then reads back with the new offset and the same key and value, and
  no other live range changes.\<close>

theorem compare_exchange_next_correct:
  assumes "al_inv s L" "a \<in> L" "node_alloc a" "node_at (dmem s) (a_lo a) key value nxt"
    and "expected \<le> NODE_POINTER_MASK" "replacement \<le> NODE_POINTER_MASK"
  shows "\<exists>t. compare_exchange_next (alloc_offset a) expected replacement s = Some (Inr (nxt = expected), t)
     \<and> al_inv t L
     \<and> read_node t (alloc_offset a) = Ok \<lparr>node_offset = alloc_offset a,
           node_next = (if nxt = expected then replacement else nxt), node_value = value, node_key = key\<rparr>
     \<and> (\<forall>b \<in> L - {a}. \<forall>x. a_lo b \<le> x \<and> x < a_hi b \<longrightarrow> dmem t x = dmem s x)"
proof -
  have at: "node_at (dmem s) (unat (alloc_offset a)) key value nxt" using assms(4) by (simp add: a_lo_def)
  have b: "unat expected < 2 ^ 48" "unat replacement < 2 ^ 48" using assms(5,6) by (simp_all add: le_pointer_mask)
  note p = live_node_place [OF assms(1-3)]
  let ?t = "set_pointer (alloc_offset a) (node_word key value replacement) s"
  note i = al_inv_set_pointer [OF assms(1-3)]
  have rd: "read_node ?t (alloc_offset a) = Ok \<lparr>node_offset = alloc_offset a, node_next = replacement, node_value = value, node_key = key\<rparr>"
    by (rule read_node_at [OF live_node_place [OF i assms(2,3)]]) (use node_at_relink [OF at b(2)] in simp)
  have "wp (compare_exchange_next (alloc_offset a) expected replacement)
      (\<lambda>c t. c = (nxt = expected) \<and> t = (if nxt = expected then ?t else s)) (\<lambda>_ _. False) s"
    using wp_compare_exchange_next [OF p at b] by simp
  then have ex: "compare_exchange_next (alloc_offset a) expected replacement s
      = Some (Inr (nxt = expected), if nxt = expected then ?t else s)"
    by (simp only: wp_exact)
  show ?thesis
    using ex rd read_node_at [OF p at] i assms(1) set_pointer_other [OF assms(1-3)]
    by (cases "nxt = expected") auto
qed

theorem compare_exchange_next_correct_witness:
  "\<exists>(a :: allocation) s t n. compare_exchange_next (alloc_offset a) 0 65568 s = Some (Inr True, t)
     \<and> read_node t (alloc_offset a) = Ok n \<and> node_next n = 65568"
proof -
  obtain a s where s: "al_inv s {a}" "node_alloc a" "node_at (dmem s) (a_lo a) (replicate 16 7) 42 0" by (rule one_node)
  have "(65568 :: u64) \<le> NODE_POINTER_MASK" "(0 :: u64) \<le> NODE_POINTER_MASK" by (simp_all add: le_pointer_mask)
  with compare_exchange_next_correct [OF s(1) singletonI s(2,3), of 0 65568] obtain t where
    "compare_exchange_next (alloc_offset a) 0 65568 s = Some (Inr True, t)"
    "read_node t (alloc_offset a) = Ok \<lparr>node_offset = alloc_offset a, node_next = 65568, node_value = 42, node_key = replicate 16 7\<rparr>"
    by auto
  then show ?thesis by fastforce
qed

text \<open>A tombstoned node is no longer present: the scan of a compaction skips it, and a read
  reports a checksum mismatch, because the checksum of a node is never zero.\<close>

lemma tombstone_hides:
  assumes "al_inv s L" "a \<in> L" "node_alloc a"
  shows "\<exists>t. tombstone_node (alloc_offset a) s = Some (Inr (), t) \<and> al_inv t L
     \<and> read_node_if_present t (alloc_offset a) = Ok None
     \<and> read_node t (alloc_offset a) = Err (Corrupt ''body node checksum does not match'')"
proof -
  let ?t = "set_pointer (alloc_offset a) 0 s" and ?off = "alloc_offset a"
  have p: "node_place s ?off" by (rule live_node_place [OF assms])
  have i: "al_inv ?t L" by (rule al_inv_set_pointer [OF assms])
  have pt: "node_place ?t ?off" by (rule live_node_place [OF i assms(2,3)])
  note g = al_inv_geom [OF i] and np = node_place_pointer [OF pt]
  have "wp (tombstone_node ?off) (\<lambda>u t. u = () \<and> t = ?t) (\<lambda>_ _. False) s"
    using wp_tombstone_node [OF p] by simp
  then have ex: "tombstone_node ?off s = Some (Inr (), ?t)" by (simp only: wp_exact)
  have z: "mread (dmem ?t) (unat ?off + 24) 8 = u64_le 0" by simp
  have "al_read_into ?t (?off + 24) 8 = Ok (u64_le 0)"
    using al_read_into_Ok [OF g, of "?off + 24" 8] pt np(1) z by (simp add: node_place_def)
  then have pr: "read_node_if_present ?t ?off = Ok None"
    using np(2) by (simp add: read_node_if_present_def read_pointer_word_def layout_defs)
  let ?bs = "mread (dmem ?t) (unat ?off) 32"
  have rd: "al_read_into ?t ?off 32 = Ok ?bs" using al_read_into_Ok [OF g, of ?off 32] pt by (simp add: node_place_def)
  have sl: "slice ?bs 0 16 = Some (take 16 ?bs)" "slice ?bs 16 24 = Some (take 8 (drop 16 ?bs))" by (simp_all add: slice_def)
  have "mread (dmem ?t) (unat ?off) (24 + 8) = mread (dmem ?t) (unat ?off) 24 @ mread (dmem ?t) (unat ?off + 24) 8"
    by (simp only: mread_append)
  then have s3: "slice ?bs 24 32 = Some (u64_le 0)" using z by (simp add: slice_def)
  have off0: "?off \<noteq> 0" "?off mod 32 = 0" using p by (auto simp: node_place_def word_unat_eq_iff unat_mod)
  have "read_node ?t ?off = Err (Corrupt ''body node checksum does not match'')"
    using rd off0 sl s3 node_checksum_nonzero
    by (simp add: read_node_def layout_defs(4-12) read_u64_def usize_checked_add_def u16_try_from_def)
  with ex i pr show ?thesis by blast
qed

end
