(* ===== verification/Table_Inv.thy ===== *)
theory Table_Inv
  imports Table_Admin Node_Correct
begin

text \<open>
  The invariant of the hash table of src/table.rs: every bucket head starts a finite chain of
  nodes in the body file, every node is a live allocation of the body allocator whose key hashes
  to its bucket, and every tagged value is a live blob. The chains of a state are its abstract
  contents; the traversals \<open>find\<close> and \<open>find_offset\<close> are functions of them.
\<close>

subsection \<open>Chains\<close>

text \<open>An entry: its node, its key, the value word of the node, the blob behind the word, and the
  value bytes the entry stands for.\<close>

record entry =
  en_node :: allocation
  en_key :: bytes
  en_word :: u64
  en_blob :: "allocation option"
  en_value :: bytes

type_synonym chains = "nat \<Rightarrow> entry list"

fun first_offset :: "entry list \<Rightarrow> u64" where
  "first_offset [] = 0"
| "first_offset (e # es) = alloc_offset (en_node e)"

fun chain :: "(nat \<Rightarrow> u8) \<Rightarrow> entry list \<Rightarrow> bool" where
  "chain m [] \<longleftrightarrow> True"
| "chain m (e # es) \<longleftrightarrow> node_at m (a_lo (en_node e)) (en_key e) (en_word e) (first_offset es) \<and> chain m es"

lemma chain_mem: "chain m (xs @ e # ys) \<Longrightarrow> node_at m (a_lo (en_node e)) (en_key e) (en_word e) (first_offset ys)"
  by (induction xs) auto

lemma chain_tail: "chain m (xs @ ys) \<Longrightarrow> chain m ys"
  by (induction xs) auto

lemma chain_cong:
  "chain m es \<Longrightarrow> (\<And>e x. e \<in> set es \<Longrightarrow> a_lo (en_node e) \<le> x \<Longrightarrow> x < a_lo (en_node e) + 32 \<Longrightarrow> m' x = m x) \<Longrightarrow> chain m' es"
proof (induction es)
  case (Cons e es)
  from Cons.prems have "node_at m' (a_lo (en_node e)) (en_key e) (en_word e) (first_offset es)"
    by (intro node_at_cong [of _ m' m]) auto
  moreover have "chain m' es" by (rule Cons.IH) (use Cons.prems in auto)
  ultimately show ?case by simp
qed simp

text \<open>The place that points to the rest of a chain after \<open>pre\<close>.\<close>

definition link_after :: "u64 \<Rightarrow> entry list \<Rightarrow> link" where
  "link_after bk pre = (if pre = [] then Head bk else Link_Node (alloc_offset (en_node (last pre))))"

lemma link_after_simps [simp]:
  "link_after bk [] = Head bk" "link_after bk (pre @ [e]) = Link_Node (alloc_offset (en_node e))"
  by (simp_all add: link_after_def)

text \<open>Dropping the entry after \<open>xs @ [p]\<close> by writing its next offset into \<open>p\<close>.\<close>

lemma chain_skip:
  assumes "chain m (xs @ [p] @ e # ys)" "distinct (map en_node (xs @ [p]))"
    and "chain m' ys"
    and "\<And>d x. d \<in> set xs \<Longrightarrow> a_lo (en_node d) \<le> x \<Longrightarrow> x < a_lo (en_node d) + 32 \<Longrightarrow> m' x = m x"
    and "node_at m' (a_lo (en_node p)) (en_key p) (en_word p) (first_offset ys)"
  shows "chain m' (xs @ [p] @ ys)"
  using assms(1,2,4)
proof (induction xs)
  case Nil
  then show ?case using assms(3,5) by simp
next
  case (Cons d xs)
  have fo: "first_offset (xs @ p # e # ys) = first_offset (xs @ p # ys)" by (cases xs) simp_all
  have "node_at m' (a_lo (en_node d)) (en_key d) (en_word d) (first_offset (xs @ p # ys))"
    using Cons.prems(1,3) fo by (intro node_at_cong [of _ m' m]) auto
  moreover have "chain m' (xs @ [p] @ ys)" by (rule Cons.IH) (use Cons.prems in auto)
  ultimately show ?case by simp
qed

subsection \<open>The invariant\<close>

abbreviation buckets :: "database \<Rightarrow> nat" where "buckets db \<equiv> unat (bucket_count (db_config db))"

abbreviation key_bucket :: "database \<Rightarrow> bytes \<Rightarrow> u64" where
  "key_bucket db key \<equiv> hash_bucket db (key_hash db key)"

definition entries :: "database \<Rightarrow> chains \<Rightarrow> entry set" where
  "entries db ch = (\<Union>b < buckets db. set (ch b))"

text \<open>The value of an entry is the node's word, or the blob it points to; a set stores none.\<close>

definition value_ok :: "database \<Rightarrow> entry \<Rightarrow> bool" where
  "value_ok db e \<longleftrightarrow> (case en_blob e of
       None \<Rightarrow> en_word e AND VALUE_BLOB_TAG = 0 \<and> (if mode (db_config db) = Map
          then en_value e = u64_le (en_word e) else en_word e = 0 \<and> en_value e = [])
     | Some b \<Rightarrow> mode (db_config db) = Map \<and> en_word e = VALUE_BLOB_TAG OR alloc_offset b
         \<and> (\<exists>bl. db_blobs db = Some bl \<and> blob_at (dmem bl) b (en_value e)))"

text \<open>Everything that does not depend on the chains: the vectors have one entry per bucket, the
  quiescence lock is not poisoned, node offsets fit in 48 bits, and a map has blobs. Two bytes
  can always be reserved, which is what reading one page count takes.\<close>

definition db_shape :: "database \<Rightarrow> bool" where
  "db_shape db \<longleftrightarrow> 0 < buckets db \<and> length (runtime_heads db) = buckets db
     \<and> length (delete_locks db) = buckets db \<and> \<not> quiescence_poisoned db
     \<and> unat (al_capacity (db_body db)) + 65536 < 2 ^ 48 \<and> 2 \<le> reserve_limit (al_counts (db_body db))
     \<and> (case db_blobs db of None \<Rightarrow> mode (db_config db) = Set
        | Some bl \<Rightarrow> mode (db_config db) = Map \<and> 2 \<le> reserve_limit (al_counts bl))"

text \<open>No delete lock is held.\<close>

definition unlocked :: "database \<Rightarrow> bool" where
  "unlocked db \<longleftrightarrow> delete_locks db = replicate (buckets db) 0"

definition blobs_inv :: "block_allocator option \<Rightarrow> allocation set \<Rightarrow> bool" where
  "blobs_inv blobs B \<longleftrightarrow> (case blobs of None \<Rightarrow> B = {} | Some bl \<Rightarrow> al_inv bl B)"

definition bucket_ok :: "database \<Rightarrow> nat \<Rightarrow> entry list \<Rightarrow> bool" where
  "bucket_ok db b es \<longleftrightarrow> chain (dmem (db_body db)) es \<and> runtime_heads db ! b = first_offset es
     \<and> distinct (map en_node es)
     \<and> (\<forall>e \<in> set es. node_alloc (en_node e) \<and> unat (key_bucket db (en_key e)) = b \<and> value_ok db e)"

text \<open>A blob belongs to one entry.\<close>

definition one_owner :: "entry set \<Rightarrow> bool" where
  "one_owner E \<longleftrightarrow> (\<forall>e \<in> E. \<forall>f \<in> E. \<forall>x. en_blob e = Some x \<longrightarrow> en_blob f = Some x \<longrightarrow> en_node e = en_node f)"

lemma one_ownerD: "one_owner E \<Longrightarrow> e \<in> E \<Longrightarrow> f \<in> E \<Longrightarrow> en_blob e = Some x \<Longrightarrow> en_blob f = Some x \<Longrightarrow> en_node e = en_node f"
  unfolding one_owner_def by blast

lemma one_owner_mono: "one_owner E \<Longrightarrow> F \<subseteq> E \<Longrightarrow> one_owner F"
  unfolding one_owner_def by blast

lemma one_owner_insert:
  "one_owner E \<Longrightarrow> (\<And>f x. f \<in> E \<Longrightarrow> en_blob f = Some x \<Longrightarrow> en_blob e \<noteq> Some x) \<Longrightarrow> one_owner (insert e E)"
  unfolding one_owner_def by blast

text \<open>\<open>L\<close> and \<open>B\<close> are the live allocations of the body and the blob file.\<close>

definition db_inv :: "database \<Rightarrow> chains \<Rightarrow> allocation set \<Rightarrow> allocation set \<Rightarrow> bool" where
  "db_inv db ch L B \<longleftrightarrow> db_shape db \<and> al_inv (db_body db) L \<and> blobs_inv (db_blobs db) B
     \<and> (\<forall>b < buckets db. bucket_ok db b (ch b))
     \<and> en_node ` entries db ch \<subseteq> L
     \<and> (\<forall>e \<in> entries db ch. \<forall>x. en_blob e = Some x \<longrightarrow> x \<in> B)
     \<and> one_owner (entries db ch)"

lemma db_invD:
  assumes "db_inv db ch L B"
  shows "db_shape db" "al_inv (db_body db) L" "blobs_inv (db_blobs db) B"
    "b < buckets db \<Longrightarrow> bucket_ok db b (ch b)" "e \<in> entries db ch \<Longrightarrow> en_node e \<in> L"
    "e \<in> entries db ch \<Longrightarrow> en_blob e = Some x \<Longrightarrow> x \<in> B" "one_owner (entries db ch)"
  using assms unfolding db_inv_def by blast+

lemma entriesI: "b < buckets db \<Longrightarrow> e \<in> set (ch b) \<Longrightarrow> e \<in> entries db ch"
  by (auto simp: entries_def)

lemma key_bucket_lt: "db_shape db \<Longrightarrow> unat (key_bucket db key) < buckets db"
  by (simp add: hash_bucket_def unat_mod db_shape_def)

text \<open>Facts about one bucket of a database that satisfies the invariant.\<close>

lemma bucket_facts:
  assumes inv: "db_inv db ch L B" and b: "b < buckets db"
  shows "chain (dmem (db_body db)) (ch b)" "runtime_heads db ! b = first_offset (ch b)" "distinct (map en_node (ch b))"
    "b < length (runtime_heads db)"
    "e \<in> set (ch b) \<Longrightarrow> en_node e \<in> L \<and> node_alloc (en_node e) \<and> node_place (db_body db) (alloc_offset (en_node e))
       \<and> unat (key_bucket db (en_key e)) = b \<and> value_ok db e \<and> 0 < a_lo (en_node e) \<and> a_lo (en_node e) < 2 ^ 48"
proof -
  note k = db_invD(4) [OF inv b, unfolded bucket_ok_def]
  show "chain (dmem (db_body db)) (ch b)" "runtime_heads db ! b = first_offset (ch b)" "distinct (map en_node (ch b))"
    using k by auto
  show "b < length (runtime_heads db)" using db_invD(1) [OF inv] b by (simp add: db_shape_def)
  assume e: "e \<in> set (ch b)"
  have l: "en_node e \<in> L" using db_invD(5) [OF inv] entriesI [of b db e ch] b e by blast
  have na: "node_alloc (en_node e)" using k e by blast
  note lf = live_in_file [OF db_invD(2) [OF inv] l]
  have "a_lo (en_node e) < 2 ^ 48"
    using lf db_invD(1) [OF inv] node_alloc_hi [OF na] by (simp add: db_shape_def)
  then show "en_node e \<in> L \<and> node_alloc (en_node e) \<and> node_place (db_body db) (alloc_offset (en_node e))
       \<and> unat (key_bucket db (en_key e)) = b \<and> value_ok db e \<and> 0 < a_lo (en_node e) \<and> a_lo (en_node e) < 2 ^ 48"
    using l na live_node_place [OF db_invD(2) [OF inv] l na] k e lf by auto
qed

lemma first_offset_small:
  assumes inv: "db_inv db ch L B" and b: "b < buckets db" and s: "ch b = pre @ post"
  shows "unat (first_offset post) < 2 ^ 48" "first_offset post = 0 \<longleftrightarrow> post = []"
proof -
  have "\<And>e es. post = e # es \<Longrightarrow> e \<in> set (ch b)" using s by simp
  then show "unat (first_offset post) < 2 ^ 48" "first_offset post = 0 \<longleftrightarrow> post = []"
    using bucket_facts(5) [OF inv b] by (cases post; fastforce simp: a_lo_def)+
qed

subsection \<open>Traversal\<close>

definition node_of :: "entry \<Rightarrow> u64 \<Rightarrow> node" where
  "node_of e nxt = \<lparr>node_offset = alloc_offset (en_node e), node_next = nxt, node_value = en_word e, node_key = en_key e\<rparr>"

lemma read_entry:
  assumes inv: "db_inv db ch L B" and b: "b < buckets db" and s: "ch b = pre @ e # post"
  shows "read_node (db_body db) (alloc_offset (en_node e)) = Ok (node_of e (first_offset post))"
    and "read_next (db_body db) (alloc_offset (en_node e)) = Ok (first_offset post)"
proof -
  have e: "e \<in> set (ch b)" using s by simp
  have p: "node_place (db_body db) (alloc_offset (en_node e))" using bucket_facts(5) [OF inv b e] by blast
  have at: "node_at (dmem (db_body db)) (unat (alloc_offset (en_node e))) (en_key e) (en_word e) (first_offset post)"
    using chain_mem [of _ pre e post] bucket_facts(1) [OF inv b] s by (simp add: a_lo_def)
  from read_node_at [OF p at] read_pointer_at(2) [OF p at]
  show "read_node (db_body db) (alloc_offset (en_node e)) = Ok (node_of e (first_offset post))"
    "read_next (db_body db) (alloc_offset (en_node e)) = Ok (first_offset post)" by (simp_all add: node_of_def)
qed

lemma read_head_eq:
  assumes inv: "db_inv db ch L B" and b: "unat bk < buckets db"
  shows "read_head db bk = Ok (first_offset (ch (unat bk)))" "head db bk = Ok (unat bk)"
  using bucket_facts(2,4) [OF inv b] by (simp_all add: read_head_def head_def)

lemma link_value_eq:
  assumes inv: "db_inv db ch L B" and b: "unat bk < buckets db" and s: "ch (unat bk) = pre @ post"
  shows "link_value db (link_after bk pre) = Ok (first_offset post)"
proof (cases pre rule: rev_cases)
  case Nil
  then show ?thesis using read_head_eq [OF inv b] s by (simp add: link_value_def)
next
  case (snoc xs e)
  then show ?thesis using read_entry(2) [OF inv b, of xs e post] s by (simp add: link_value_def)
qed

fun found_in :: "u64 \<Rightarrow> u64 \<Rightarrow> bytes \<Rightarrow> entry list \<Rightarrow> entry list \<Rightarrow> found" where
  "found_in bk root key pre [] = \<lparr>fd_node = None, fd_root = root, fd_link = link_after bk pre\<rparr>"
| "found_in bk root key pre (e # es) =
     (if en_key e = key then \<lparr>fd_node = Some (node_of e (first_offset es)), fd_root = root, fd_link = link_after bk pre\<rparr>
      else found_in bk root key (pre @ [e]) es)"

lemma find_chain:
  assumes inv: "db_inv db ch L B" and b: "unat bk < buckets db"
  shows "ch (unat bk) = pre @ post \<Longrightarrow>
     rloop (find_step db bk (key_hash db key) key (first_offset (ch (unat bk)))) (link_after bk pre, first_offset post)
       = Ok (Some (found_in bk (first_offset (ch (unat bk))) key pre post))"
proof (induction post arbitrary: pre)
  case Nil
  show ?case
    by (rule rloop_step(2)) (simp add: find_step_def read_head_eq [OF inv b])
next
  case (Cons e es)
  have nz: "alloc_offset (en_node e) \<noteq> 0" using first_offset_small(2) [OF inv b Cons.prems] by simp
  note rd = read_entry [OF inv b Cons.prems] and lv = link_value_eq [OF inv b Cons.prems]
  show ?case
  proof (cases "en_key e = key")
    case True
    show ?thesis
      by (rule rloop_step(2)) (use nz rd lv True in \<open>simp add: find_step_def Let_def node_of_def\<close>)
  next
    case False
    have "rloop (find_step db bk (key_hash db key) key (first_offset (ch (unat bk)))) (link_after bk pre, first_offset (e # es))
        = rloop (find_step db bk (key_hash db key) key (first_offset (ch (unat bk)))) (link_after bk (pre @ [e]), first_offset es)"
      by (rule rloop_step(3)) (use nz rd lv False in \<open>simp add: find_step_def Let_def node_of_def\<close>)
    with Cons False show ?thesis by simp
  qed
qed

lemma db_find_eq:
  assumes inv: "db_inv db ch L B" and b: "unat bk < buckets db"
  shows "db_find db bk (key_hash db key) key = Ok (found_in bk (first_offset (ch (unat bk))) key [] (ch (unat bk)))"
  unfolding db_find_def
  by (rule rloop_step(2))
    (use find_chain [OF inv b, of "[]" "ch (unat bk)"] in \<open>simp add: link_value_def read_head_eq [OF inv b]\<close>)

lemma found_in_cases:
  obtains (absent) "key \<notin> en_key ` set post" "found_in bk root key pre post = \<lparr>fd_node = None, fd_root = root, fd_link = link_after bk (pre @ post)\<rparr>"
  | (present) xs e ys where "post = xs @ e # ys" "en_key e = key" "key \<notin> en_key ` set xs"
      "found_in bk root key pre post = \<lparr>fd_node = Some (node_of e (first_offset ys)), fd_root = root, fd_link = link_after bk (pre @ xs)\<rparr>"
proof (induction post arbitrary: pre thesis)
  case Nil
  then show ?case by simp
next
  case (Cons e es)
  show ?case
  proof (cases "en_key e = key")
    case True
    then show ?thesis using Cons.prems(2) [of "[]" e es] by simp
  next
    case False
    show ?thesis
    proof (rule Cons.IH [of "pre @ [e]"])
      assume "key \<notin> en_key ` set es"
        "found_in bk root key (pre @ [e]) es = \<lparr>fd_node = None, fd_root = root, fd_link = link_after bk ((pre @ [e]) @ es)\<rparr>"
      then show ?thesis using Cons.prems(1) False by simp
    next
      fix xs f ys
      assume "es = xs @ f # ys" "en_key f = key" "key \<notin> en_key ` set xs"
        "found_in bk root key (pre @ [e]) es =
           \<lparr>fd_node = Some (node_of f (first_offset ys)), fd_root = root, fd_link = link_after bk ((pre @ [e]) @ xs)\<rparr>"
      then show ?thesis using Cons.prems(2) [of "e # xs" f ys] False by simp
    qed
  qed
qed

end
