(* ===== verification/Table_Correct.thy ===== *)
theory Table_Correct
  imports Table_Inv
begin

text \<open>
  The operations of src/table.rs against the invariant: what each does to the chains and to the
  live allocations of the body and the blob file.
\<close>

subsection \<open>Values\<close>

lemma small_bits_63: "unat (w :: u64) < 2 ^ 63 \<Longrightarrow> \<not> bit w 63"
  by (simp add: bit_63_iff)

lemma tag_word:
  assumes "unat (off :: u64) < 2 ^ 63"
  shows "(VALUE_BLOB_TAG OR off) AND VALUE_BLOB_TAG \<noteq> 0" "(VALUE_BLOB_TAG OR off) AND VALUE_OFFSET_MASK = off"
    "off AND NOT VALUE_OFFSET_MASK = 0"
proof -
  have t: "VALUE_BLOB_TAG = 2 ^ 63" by (simp add: VALUE_BLOB_TAG_def)
  have b: "bit (VALUE_BLOB_TAG :: u64) i \<longleftrightarrow> i = 63" for i unfolding t bit_exp_iff by auto
  have n: "\<not> bit off 63" using small_bits_63 [OF assms] .
  have "bit ((VALUE_BLOB_TAG OR off) AND VALUE_BLOB_TAG) 63" by (simp add: bit_simps b)
  then show "(VALUE_BLOB_TAG OR off) AND VALUE_BLOB_TAG \<noteq> 0" by auto
  show "(VALUE_BLOB_TAG OR off) AND VALUE_OFFSET_MASK = off"
    by (rule bit_eqI) (use n in \<open>auto simp: VALUE_OFFSET_MASK_def bit_simps b\<close>)
  show "off AND NOT VALUE_OFFSET_MASK = 0"
    by (rule bit_eqI) (use n in \<open>auto simp: VALUE_OFFSET_MASK_def bit_simps b\<close>)
qed

lemma live_offset_63:
  assumes "al_inv s L" "a \<in> L"
  shows "unat (alloc_offset a) < 2 ^ 63"
  using live_in_file(2) [OF assms] mf_inv_idle [OF al_geom_parts(1) [OF al_inv_geom [OF assms(1)]]]
  by (simp add: a_hi_def)

lemma read_blob_live:
  assumes bl: "db_blobs db = Some bl" and inv: "al_inv bl B" and b: "b \<in> B" and at: "blob_at (dmem bl) b v"
  shows "read_blob db (alloc_offset b) = (if length v \<le> reserve_limit (al_data bl) then Ok v else Err OutOfMemory)"
proof -
  note lf = live_in_file [OF inv b] and g = al_inv_geom [OF inv] and hi = blob_at_hi [OF at] and sp = blob_at_split [OF at]
  let ?o = "alloc_offset b"
  have o63: "unat ?o < 2 ^ 63" by (rule live_offset_63 [OF inv b])
  have v32: "length v < 2 ^ 32" using at by (simp add: blob_at_def)
  have hd: "al_read_into bl ?o 8 = Ok (u32_le (of_nat (length v)) @ u32_le (blob_checksum v))"
    using al_read_into_Ok [OF g, of ?o 8] lf hi sp(1) by (simp add: a_lo_def)
  have off: "checked_add ?o 8 = Some (?o + 8)" "unat (?o + 8) = a_lo b + 8"
    using o63 by (simp_all add: checked_add_def unat_add_nowrap a_lo_def)
  have vr: "validate_data_range bl (?o + 8) (length v) = Ok ()"
    by (rule validate_data_range_Ok [OF g]) (use off lf hi in \<open>simp_all add: a_lo_def\<close>)
  have ci: "copy_out_into (al_data bl) (?o + 8) (length v) = Ok v"
    using copy_out_into_idle [OF al_geom_parts(1) [OF g], of "?o + 8" "length v" v] off lf hi sp(2) by simp
  have u: "unat (of_nat (length v) :: u32) = length v" using v32 by (simp add: unat_of_nat)
  show ?thesis
    using bl hd off(1) vr ci u
    by (auto simp: read_blob_def layout_defs decode_blob_header_eq al_read_def copy_out_def try_reserve_def)
qed

lemma read_value_ok:
  assumes inv: "db_inv db ch L B" and v: "value_ok db e" and e: "set_option (en_blob e) \<subseteq> B" and m: "mode (db_config db) = Map"
  shows "\<exists>bl. db_blobs db = Some bl \<and> read_value db (en_word e) =
     (if en_blob e = None \<or> length (en_value e) \<le> reserve_limit (al_data bl) then Ok (en_value e) else Err OutOfMemory)"
proof -
  obtain bl where bl: "db_blobs db = Some bl" using db_invD(1) [OF inv] m by (auto simp: db_shape_def split: option.splits)
  then have bi: "al_inv bl B" using db_invD(3) [OF inv] by (simp add: blobs_inv_def)
  show ?thesis
  proof (cases "en_blob e")
    case None
    then show ?thesis using v m bl by (simp add: value_ok_def read_value_def inline_value_bytes_def)
  next
    case (Some b)
    then have b: "b \<in> B" using e by simp
    have w: "en_word e = VALUE_BLOB_TAG OR alloc_offset b" "blob_at (dmem bl) b (en_value e)"
      using v Some bl by (auto simp: value_ok_def)
    show ?thesis
      using read_blob_live [OF bl bi b w(2)] tag_word [OF live_offset_63 [OF bi b]] w(1) bl Some
      by (simp add: read_value_def)
  qed
qed

lemma read_entry_value:
  assumes inv: "db_inv db ch L B" and e: "e \<in> entries db ch" and m: "mode (db_config db) = Map"
  shows "\<exists>bl. db_blobs db = Some bl \<and> read_node_value db (node_of e nxt) =
     (if en_blob e = None \<or> length (en_value e) \<le> reserve_limit (al_data bl) then Ok (en_value e) else Err OutOfMemory)"
proof -
  have "value_ok db e" using e bucket_facts(5) [OF inv] by (auto simp: entries_def)
  moreover have "set_option (en_blob e) \<subseteq> B" using db_invD(6) [OF inv e] by (cases "en_blob e") auto
  ultimately show ?thesis using read_value_ok [OF inv _ _ m] by (simp add: read_node_value_def node_of_def)
qed

subsection \<open>Frame\<close>

text \<open>What an operation of the table leaves alone.\<close>

definition db_step :: "database \<Rightarrow> database \<Rightarrow> bool" where
  "db_step s t \<longleftrightarrow> db_config t = db_config s \<and> db_heads t = db_heads s
     \<and> checkpoint_state t = checkpoint_state s \<and> checkpoint_generation t = checkpoint_generation s
     \<and> compaction_state t = compaction_state s \<and> delete_locks t = delete_locks s
     \<and> al_step (db_body s) (db_body t) \<and> rel_option al_step (db_blobs s) (db_blobs t)"

lemma db_step_refl [simp]: "db_step s s"
  by (simp add: db_step_def option.rel_refl)

lemma rel_option_trans: "rel_option al_step a b \<Longrightarrow> rel_option al_step b c \<Longrightarrow> rel_option al_step a c"
  by (cases a; cases b; cases c) (auto intro: al_step_trans)

lemma db_step_trans [trans]: "db_step s t \<Longrightarrow> db_step t u \<Longrightarrow> db_step s u"
  unfolding db_step_def by (metis al_step_trans rel_option_trans)

lemma db_step_config: "db_step s t \<Longrightarrow> db_config t = db_config s"
  by (simp add: db_step_def)

lemma db_step_upd:
  "al_step (db_body s) t \<Longrightarrow> db_step s (s\<lparr>db_body := t\<rparr>)"
  "db_blobs s = Some b \<Longrightarrow> al_step b c \<Longrightarrow> db_step s (s\<lparr>db_blobs := Some c\<rparr>)"
  "db_step s (s\<lparr>runtime_heads := h\<rparr>)"
  by (simp_all add: db_step_def option.rel_refl)

lemma key_bucket_cong: "db_config t = db_config s \<Longrightarrow> key_bucket t key = key_bucket s key"
  by (simp add: hash_bucket_def key_hash_def)

lemma wp_on_body:
  "wp (on_body m) Q E db = wp m (\<lambda>a t. Q a (db\<lparr>db_body := t\<rparr>)) (\<lambda>e t. E e (db\<lparr>db_body := t\<rparr>)) (db_body db)"
  by (simp add: on_body_def wp_zoom)

lemma wp_on_blobs:
  "db_blobs db = Some bl \<Longrightarrow>
   wp (on_blobs m) Q E db = wp m (\<lambda>a t. Q a (db\<lparr>db_blobs := Some t\<rparr>)) (\<lambda>e t. E e (db\<lparr>db_blobs := Some t\<rparr>)) bl"
  by (simp add: on_blobs_def wp_def zoom_def split: option.splits sum.splits)

lemma wp_cas_head:
  "wp (cas_head i x y) Q E db = (if runtime_heads db ! i = x
     then Q True (db\<lparr>runtime_heads := (runtime_heads db)[i := y]\<rparr>) else Q False db)"
  by (simp add: cas_head_def wp_def)

lemma wp_on_fst: "wp (on_fst m) Q E (s, x) = wp m (\<lambda>a t. Q a (t, x)) (\<lambda>e t. E e (t, x)) s"
  by (simp add: on_fst_def wp_zoom)

lemma wp_scoped: "wp (scoped x m) Q E s = wp m (\<lambda>a (t, y). Q (Inr a, y) t) (\<lambda>e (t, y). Q (Inl e, y) t) (s, x)"
  by (auto simp: wp_def scoped_def split: option.splits sum.splits prod.splits)

lemma wp_bracket:
  "wp (bracket acquire drp m) Q E s =
     wp acquire (\<lambda>g. wp m (\<lambda>a. wp (drp g) (\<lambda>_. Q a) E) (\<lambda>e. wp (drp g) (\<lambda>_. E e) E)) E s"
  by (auto simp: bracket_def bnd_def attempt_def outcome_def wp_def split: option.splits sum.splits prod.splits)

text \<open>A change of the body allocator that keeps the nodes of the chains.\<close>

lemma db_inv_body:
  assumes inv: "db_inv db ch L B" and st: "al_step (db_body db) t" and t: "al_inv t L'"
    and sub: "en_node ` entries db ch \<subseteq> L'"
    and mem: "\<And>a x. a \<in> en_node ` entries db ch \<Longrightarrow> a_lo a \<le> x \<Longrightarrow> x < a_hi a \<Longrightarrow> dmem t x = dmem (db_body db) x"
  shows "db_inv (db\<lparr>db_body := t\<rparr>) ch L' B"
proof -
  let ?db = "db\<lparr>db_body := t\<rparr>"
  have ent: "entries ?db ch = entries db ch" by (simp add: entries_def)
  have kb: "key_bucket ?db k = key_bucket db k" for k by (simp add: hash_bucket_def key_hash_def)
  have vo: "value_ok ?db e = value_ok db e" for e by (cases "en_blob e") (simp_all add: value_ok_def)
  have bo: "bucket_ok ?db b (ch b)" if b: "b < buckets db" for b
  proof -
    note k = db_invD(4) [OF inv b, unfolded bucket_ok_def]
    have "chain (dmem t) (ch b)"
    proof (rule chain_cong)
      show "chain (dmem (db_body db)) (ch b)" using k by blast
      fix e x assume e: "e \<in> set (ch b)" and x: "a_lo (en_node e) \<le> x" "x < a_lo (en_node e) + 32"
      have "en_node e \<in> en_node ` entries db ch" using entriesI [of b db e ch] b e by blast
      moreover have "a_hi (en_node e) = a_lo (en_node e) + 32" using k e node_alloc_hi by blast
      ultimately show "dmem t x = dmem (db_body db) x" using mem x by simp
    qed
    then show ?thesis using k by (simp add: bucket_ok_def kb vo)
  qed
  have sh: "db_shape ?db" using db_invD(1) [OF inv] st
    by (cases "db_blobs db") (simp_all add: db_shape_def al_step_def)
  show ?thesis
    unfolding db_inv_def ent
    using sh t db_invD(3,6,7) [OF inv] bo sub by simp
qed

text \<open>A change of the blob allocator that keeps the blobs of the chains.\<close>

lemma db_inv_blobs:
  assumes inv: "db_inv db ch L B" and bl: "db_blobs db = Some bl" and st: "al_step bl t" and t: "al_inv t B'"
    and sub: "\<And>e b. e \<in> entries db ch \<Longrightarrow> en_blob e = Some b \<Longrightarrow> b \<in> B'"
    and mem: "\<And>e b x. e \<in> entries db ch \<Longrightarrow> en_blob e = Some b \<Longrightarrow> a_lo b \<le> x \<Longrightarrow> x < a_hi b \<Longrightarrow> dmem t x = dmem bl x"
  shows "db_inv (db\<lparr>db_blobs := Some t\<rparr>) ch L B'"
proof -
  let ?db = "db\<lparr>db_blobs := Some t\<rparr>"
  have ent: "entries ?db ch = entries db ch" by (simp add: entries_def)
  have kb: "key_bucket ?db k = key_bucket db k" for k by (simp add: hash_bucket_def key_hash_def)
  have vo: "value_ok ?db e" if "e \<in> entries db ch" "value_ok db e" for e
  proof (cases "en_blob e")
    case None
    then show ?thesis using that(2) by (simp add: value_ok_def)
  next
    case (Some b)
    then have "blob_at (dmem bl) b (en_value e)" using that(2) bl by (auto simp: value_ok_def)
    then have "blob_at (dmem t) b (en_value e)" using mem [OF that(1) Some] by (rule blob_at_cong [rotated])
    then show ?thesis using that(2) Some by (simp add: value_ok_def)
  qed
  have bo: "bucket_ok ?db b (ch b)" if b: "b < buckets db" for b
    using db_invD(4) [OF inv b] vo entriesI [of b db _ ch] b by (simp add: bucket_ok_def kb)
  have sh: "db_shape ?db" using db_invD(1) [OF inv] st bl by (simp add: db_shape_def al_step_def)
  show ?thesis
    unfolding db_inv_def ent
    using sh t db_invD(2,5,7) [OF inv] bo sub by (auto simp: blobs_inv_def)
qed


subsection \<open>Changing one chain\<close>

lemma entries_upd:
  "entries (db\<lparr>db_body := t, runtime_heads := h\<rparr>) (ch(b := es)) \<subseteq> set es \<union> entries db ch"
  by (auto simp: entries_def split: if_splits)

lemma db_inv_bucket:
  assumes inv: "db_inv db ch L B" and b: "b < buckets db"
    and st: "al_step (db_body db) t" and t: "al_inv t L"
    and ch: "chain (dmem t) es" "distinct (map en_node es)"
    and es: "\<And>e. e \<in> set es \<Longrightarrow> node_alloc (en_node e) \<and> unat (key_bucket db (en_key e)) = b \<and> value_ok db e"
    and F: "set es \<subseteq> F" "entries db ch \<subseteq> F" "one_owner F" "en_node ` F \<subseteq> L"
      "\<And>e x. e \<in> F \<Longrightarrow> en_blob e = Some x \<Longrightarrow> x \<in> B"
    and mem: "\<And>c e x. c < buckets db \<Longrightarrow> c \<noteq> b \<Longrightarrow> e \<in> set (ch c) \<Longrightarrow> a_lo (en_node e) \<le> x
        \<Longrightarrow> x < a_lo (en_node e) + 32 \<Longrightarrow> dmem t x = dmem (db_body db) x"
  shows "db_inv (db\<lparr>db_body := t, runtime_heads := (runtime_heads db)[b := first_offset es]\<rparr>) (ch(b := es)) L B"
proof -
  let ?db = "db\<lparr>db_body := t, runtime_heads := (runtime_heads db)[b := first_offset es]\<rparr>"
  have ent: "entries ?db (ch(b := es)) \<subseteq> F" using entries_upd F(1,2) by blast
  have kb: "key_bucket ?db k = key_bucket db k" for k by (simp add: hash_bucket_def key_hash_def)
  have vo: "value_ok ?db e = value_ok db e" for e by (cases "en_blob e") (simp_all add: value_ok_def)
  have bo: "bucket_ok ?db c ((ch(b := es)) c)" if c: "c < buckets db" for c
  proof (cases "c = b")
    case True
    then show ?thesis using ch es bucket_facts(4) [OF inv b] by (simp add: bucket_ok_def kb vo)
  next
    case False
    note k = db_invD(4) [OF inv c, unfolded bucket_ok_def]
    have "chain (dmem t) (ch c)" by (rule chain_cong [OF conjunct1 [OF k]]) (rule mem [OF c False])
    then show ?thesis using k False by (simp add: bucket_ok_def kb vo)
  qed
  have sh: "db_shape ?db" using db_invD(1) [OF inv] st
    by (cases "db_blobs db") (simp_all add: db_shape_def al_step_def)
  show ?thesis
    unfolding db_inv_def
  proof (intro conjI)
    show "en_node ` entries ?db (ch(b := es)) \<subseteq> L" using ent F(4) by blast
    show "\<forall>e \<in> entries ?db (ch(b := es)). \<forall>x. en_blob e = Some x \<longrightarrow> x \<in> B" using ent F(5) by blast
    show "one_owner (entries ?db (ch(b := es)))" by (rule one_owner_mono [OF F(3) ent])
    show "\<forall>c < buckets ?db. bucket_ok ?db c ((ch(b := es)) c)" using bo by simp
  qed (use sh t db_invD(3) [OF inv] in simp_all)
qed

lemma db_inv_push:
  assumes inv: "db_inv db ch L B" and b: "unat bk < buckets db"
    and n: "node_alloc (en_node e)" "en_node e \<in> L" "en_node e \<notin> en_node ` entries db ch"
    and at: "node_at (dmem (db_body db)) (a_lo (en_node e)) (en_key e) (en_word e) (first_offset (ch (unat bk)))"
    and e: "key_bucket db (en_key e) = bk" "value_ok db e"
    and bl: "\<And>x. en_blob e = Some x \<Longrightarrow> x \<in> B \<and> (\<forall>f \<in> entries db ch. en_blob f \<noteq> Some x)"
  shows "db_inv (db\<lparr>runtime_heads := (runtime_heads db)[unat bk := alloc_offset (en_node e)]\<rparr>)
     (ch(unat bk := e # ch (unat bk))) L B"
proof -
  let ?b = "unat bk"
  have sub: "set (ch ?b) \<subseteq> entries db ch" using b by (auto simp: entries_def)
  have new: "en_node e \<notin> set (map en_node (ch ?b))" using n(3) sub by auto
  have "db_inv (db\<lparr>db_body := db_body db, runtime_heads := (runtime_heads db)[?b := first_offset (e # ch ?b)]\<rparr>)
     (ch(?b := e # ch ?b)) L B"
  proof (rule db_inv_bucket [OF inv b _ db_invD(2) [OF inv], where F = "insert e (entries db ch)"])
    show "chain (dmem (db_body db)) (e # ch ?b)" using at bucket_facts(1) [OF inv b] by simp
    show "distinct (map en_node (e # ch ?b))" using new bucket_facts(3) [OF inv b] by simp
    show "one_owner (insert e (entries db ch))"
      by (rule one_owner_insert [OF db_invD(7) [OF inv]]) (use bl in fastforce)
    show "en_node ` insert e (entries db ch) \<subseteq> L" using n(2) db_invD(5) [OF inv] by auto
    fix f assume "f \<in> set (e # ch ?b)"
    then show "node_alloc (en_node f) \<and> unat (key_bucket db (en_key f)) = ?b \<and> value_ok db f"
      using n(1) e bucket_facts(5) [OF inv b] by auto
  qed (use sub bl db_invD(6) [OF inv] in auto)
  then show ?thesis by simp
qed

text \<open>Two entries in different buckets, or at different positions, have different nodes.\<close>

lemma entry_unique:
  assumes inv: "db_inv db ch L B" and b: "b < buckets db" and s: "ch b = pre @ e # post"
    and f: "f \<in> entries (db :: database) (ch(b := pre @ post))"
  shows "en_node f \<noteq> en_node e"
proof -
  from f obtain c where c: "c < buckets db" "f \<in> set ((ch(b := pre @ post)) c)" by (auto simp: entries_def)
  show ?thesis
  proof (cases "c = b")
    case True
    then have "en_node f \<in> set (map en_node (pre @ post))" using c(2) by auto
    moreover have "en_node e \<notin> set (map en_node (pre @ post))" using bucket_facts(3) [OF inv b] s by auto
    ultimately show ?thesis by metis
  next
    case False
    then have fc: "f \<in> set (ch c)" using c by simp
    then obtain xs ys where fs: "ch c = xs @ f # ys" by (auto simp: in_set_conv_decomp)
    have e: "e \<in> set (ch b)" using s by simp
    have "node_at (dmem (db_body db)) (a_lo (en_node e)) (en_key e) (en_word e) (first_offset post)"
      using chain_mem [of _ pre e post] bucket_facts(1) [OF inv b] s by simp
    moreover have "node_at (dmem (db_body db)) (a_lo (en_node f)) (en_key f) (en_word f) (first_offset ys)"
      using chain_mem [of _ xs f ys] bucket_facts(1) [OF inv c(1)] fs by simp
    ultimately have "en_node f = en_node e \<Longrightarrow> en_key f = en_key e" using node_at_split(1) by metis
    moreover have "unat (key_bucket db (en_key e)) = b" "unat (key_bucket db (en_key f)) = c"
      using bucket_facts(5) [OF inv b e] bucket_facts(5) [OF inv c(1) fc] by blast+
    ultimately show ?thesis using False by auto
  qed
qed

lemma compare_exchange_link_wp:
  assumes inv: "db_inv db ch L B" and b: "unat bk < buckets db" and s: "ch (unat bk) = pre @ e # post"
  shows "wp (compare_exchange_link (link_after bk pre) (alloc_offset (en_node e)) (first_offset post))
     (\<lambda>swapped t. swapped \<and> db_step db t \<and> db_inv t (ch(unat bk := pre @ post)) L B) (\<lambda>_ _. False) db"
proof -
  let ?b = "unat bk"
  have in_b: "set (pre @ post) \<subseteq> set (ch ?b)" using s by auto
  have sub: "set (ch ?b) \<subseteq> entries db ch" using b by (auto simp: entries_def)
  have d: "distinct (map en_node (pre @ post))" using bucket_facts(3) [OF inv b] s by auto
  have F: "set (pre @ post) \<subseteq> entries db ch" "en_node ` entries db ch \<subseteq> L"
    using in_b sub db_invD(5) [OF inv] by auto
  have es: "f \<in> set (pre @ post) \<Longrightarrow> node_alloc (en_node f) \<and> unat (key_bucket db (en_key f)) = ?b \<and> value_ok db f" for f
    using bucket_facts(5) [OF inv b, of f] in_b by blast
  have small: "unat (alloc_offset (en_node e)) < 2 ^ 48" "unat (first_offset post) < 2 ^ 48"
    using first_offset_small(1) [OF inv b s] first_offset_small(1) [OF inv b, of "pre @ [e]" post] s by auto
  have post: "chain (dmem (db_body db)) post" using chain_tail [of _ "pre @ [e]" post] bucket_facts(1) [OF inv b] s by simp
  note go = db_inv_bucket [OF inv b _ _ _ d es F(1) order_refl db_invD(7) [OF inv] F(2) db_invD(6) [OF inv]]
  show ?thesis
  proof (cases pre rule: rev_cases)
    case Nil
    have hd: "runtime_heads db ! ?b = alloc_offset (en_node e)" using bucket_facts(2) [OF inv b] s Nil by simp
    have "db_inv (db\<lparr>db_body := db_body db, runtime_heads := (runtime_heads db)[?b := first_offset (pre @ post)]\<rparr>) (ch(?b := pre @ post)) L B"
      by (rule go) (use db_invD(2) [OF inv] post Nil in auto)
    then have "db_inv (db\<lparr>runtime_heads := (runtime_heads db)[?b := first_offset post]\<rparr>) (ch(?b := post)) L B"
      using Nil by simp
    then show ?thesis
      using hd Nil by (simp add: compare_exchange_link_def wp_bnd wp_reads read_head_eq [OF inv b] wp_cas_head db_step_upd)
  next
    case (snoc xs p)
    have p: "p \<in> set (ch ?b)" using s snoc by simp
    note pf = bucket_facts(5) [OF inv b p]
    have pl: "en_node p \<in> L" "node_alloc (en_node p)" "node_place (db_body db) (alloc_offset (en_node p))" using pf by blast+
    let ?o = "alloc_offset (en_node p)"
    have at: "node_at (dmem (db_body db)) (unat ?o) (en_key p) (en_word p) (alloc_offset (en_node e))"
      using chain_mem [of _ xs p "e # post"] bucket_facts(1) [OF inv b] s snoc by (simp add: a_lo_def)
    let ?t = "set_pointer ?o (node_word (en_key p) (en_word p) (first_offset post)) (db_body db)"
    have ti: "al_inv ?t L" by (rule al_inv_set_pointer [OF db_invD(2) [OF inv] pl(1,2)])
    have other: "dmem ?t x = dmem (db_body db) x" if "f \<in> entries db ch" "en_node f \<noteq> en_node p"
        "a_lo (en_node f) \<le> x" "x < a_lo (en_node f) + 32" for f x
    proof -
      have "node_alloc (en_node f)" using that(1) bucket_facts(5) [OF inv] by (auto simp: entries_def)
      then show ?thesis
        using set_pointer_other [OF db_invD(2) [OF inv] pl(1,2), of "en_node f" x] that db_invD(5) [OF inv that(1)] node_alloc_hi
        by simp
    qed
    have uniq: "en_node f \<noteq> en_node p" if "f \<in> entries db (ch(?b := xs @ e # post))" for f
      by (rule entry_unique [OF inv b _ that]) (use s snoc in simp)
    have dmm: "dmem ?t = mwrite (unat ?o + 24) (u64_le (node_word (en_key p) (en_word p) (first_offset post))) (dmem (db_body db))"
      by simp
    have chn: "chain (dmem ?t) (pre @ post)"
    proof -
      have mono: "f \<in> entries db ch" if "f \<in> set (xs @ e # post)" for f using that s snoc sub by auto
      have in_u: "f \<in> entries db (ch(?b := xs @ e # post))" if "f \<in> set (xs @ e # post)" for f
        using that b by (auto simp: entries_def)
      have keep: "dmem ?t x = dmem (db_body db) x"
        if "f \<in> set (xs @ e # post)" "a_lo (en_node f) \<le> x" "x < a_lo (en_node f) + 32" for f x
        using other [OF mono [OF that(1)] uniq [OF in_u [OF that(1)]] that(2,3)] .
      have "chain (dmem ?t) (xs @ [p] @ post)"
      proof (rule chain_skip [of "dmem (db_body db)" xs p e post])
        show "chain (dmem (db_body db)) (xs @ [p] @ e # post)" using bucket_facts(1) [OF inv b] s snoc by simp
        show "distinct (map en_node (xs @ [p]))" using d snoc by simp
        show "chain (dmem ?t) post"
          by (rule chain_cong [OF post], rule keep) auto
        show "node_at (dmem ?t) (a_lo (en_node p)) (en_key p) (en_word p) (first_offset post)"
          unfolding dmm a_lo_def by (rule node_at_relink [OF at small(2)])
        show "dmem ?t x = dmem (db_body db) x"
          if "f \<in> set xs" "a_lo (en_node f) \<le> x" "x < a_lo (en_node f) + 32" for f x
          by (rule keep [of f]) (use that in auto)
      qed
      then show ?thesis using snoc by simp
    qed
    have hd: "(runtime_heads db)[?b := first_offset (pre @ post)] = runtime_heads db"
    proof -
      have "runtime_heads db ! ?b = first_offset (pre @ post)"
        using bucket_facts(2) [OF inv b] s snoc by (cases xs) simp_all
      then show ?thesis using list_update_id by metis
    qed
    have "db_inv (db\<lparr>db_body := ?t, runtime_heads := (runtime_heads db)[?b := first_offset (pre @ post)]\<rparr>) (ch(?b := pre @ post)) L B"
    proof (rule go [OF _ ti chn])
      fix c f x assume c: "c < buckets db" "c \<noteq> ?b" "f \<in> set (ch c)" "a_lo (en_node f) \<le> x" "x < a_lo (en_node f) + 32"
      then have "f \<in> entries db ch" "f \<in> entries db (ch(?b := xs @ e # post))" by (auto simp: entries_def)
      with other uniq c show "dmem ?t x = dmem (db_body db) x" by blast
    qed simp_all
    then have "db_inv (db\<lparr>db_body := ?t\<rparr>) (ch(?b := pre @ post)) L B" unfolding hd by simp
    then show ?thesis
      using snoc wp_compare_exchange_next [OF pl(3) at small]
      by (simp add: compare_exchange_link_def wp_on_body db_step_upd)
  qed
qed

subsection \<open>Releasing what is not in a chain\<close>

lemma entries_cong: "db_step db t \<Longrightarrow> entries t ch = entries db ch"
  by (simp add: entries_def db_step_def)

lemma body_reserve: "db_inv db ch L B \<Longrightarrow> \<not> reserve_limit (al_counts (db_body db)) < 2"
  using db_invD(1) [of db ch L B] by (simp add: db_shape_def)

lemma release_node_wp:
  assumes inv: "db_inv db ch L B" and a: "a \<in> L" "a \<notin> en_node ` entries db ch"
  shows "wp (on_body (release_count a)) (\<lambda>_ t. db_step db t \<and> db_inv t ch (L - {a}) B) (\<lambda>_ _. False) db"
proof -
  have "db_inv (db\<lparr>db_body := t\<rparr>) ch (L - {a}) B \<and> db_step db (db\<lparr>db_body := t\<rparr>)"
    if "al_ext (db_body db) t" "al_inv t (L - {a})" for t
    using db_inv_body [OF inv, of t "L - {a}"] db_step_upd(1) [of db t] that a db_invD(5) [OF inv] by (auto simp: al_ext_step)
  then show ?thesis
    unfolding wp_on_body
    by (intro wp_mono [OF release_count_wp [OF db_invD(2) [OF inv] a(1)]]) (use body_reserve [OF inv] in auto)
qed

lemma tombstone_wp:
  assumes inv: "db_inv db ch L B" and a: "a \<in> L" "a \<notin> en_node ` entries db ch" "node_alloc a"
  shows "wp (on_body (tombstone_node (alloc_offset a))) (\<lambda>_ t. db_step db t \<and> db_inv t ch L B) (\<lambda>_ _. False) db"
proof -
  note ai = db_invD(2) [OF inv]
  let ?t = "set_pointer (alloc_offset a) 0 (db_body db)"
  have "db_inv (db\<lparr>db_body := ?t\<rparr>) ch L B"
  proof (rule db_inv_body [OF inv _ al_inv_set_pointer [OF ai a(1,3)]])
    fix b x assume b: "b \<in> en_node ` entries db ch" "a_lo b \<le> x" "x < a_hi b"
    then have "b \<in> L" "b \<noteq> a" using db_invD(5) [OF inv] a(2) by auto
    then show "dmem ?t x = dmem (db_body db) x" using set_pointer_other [OF ai a(1,3)] b by blast
  qed (use db_invD(5) [OF inv] in auto)
  then show ?thesis
    by (simp add: wp_on_body wp_tombstone_node [OF live_node_place [OF ai a(1,3)]] db_step_upd)
qed

lemma release_blob_wp:
  assumes inv: "db_inv db ch L B" and bl: "db_blobs db = Some bl" and x: "x \<in> B" "\<And>e. e \<in> entries db ch \<Longrightarrow> en_blob e \<noteq> Some x"
  shows "wp (on_blobs (release_count x)) (\<lambda>_ t. db_step db t \<and> db_inv t ch L (B - {x})) (\<lambda>_ _. False) db"
proof -
  have bi: "al_inv bl B" using db_invD(3) [OF inv] bl by (simp add: blobs_inv_def)
  have r: "\<not> reserve_limit (al_counts bl) < 2" using db_invD(1) [OF inv] bl by (simp add: db_shape_def)
  have "db_inv (db\<lparr>db_blobs := Some t\<rparr>) ch L (B - {x}) \<and> db_step db (db\<lparr>db_blobs := Some t\<rparr>)"
    if "al_ext bl t" "al_inv t (B - {x})" for t
    using db_inv_blobs [OF inv bl, of t "B - {x}"] db_step_upd(2) [OF bl, of t] that x db_invD(6) [OF inv]
    by (auto simp: al_ext_step)
  then show ?thesis
    unfolding wp_on_blobs [OF bl]
    by (intro wp_mono [OF release_count_wp [OF bi x(1)]]) (use r in auto)
qed

lemma if_blob_release_wp:
  assumes inv: "db_inv db ch L B" and x: "set_option o' \<subseteq> B" "\<And>e. e \<in> entries db ch \<Longrightarrow> set_option (en_blob e) \<inter> set_option o' = {}"
  shows "wp (if_blob o' release_count) (\<lambda>_ t. db_step db t \<and> db_inv t ch L (B - set_option o')) (\<lambda>_ _. False) db"
proof (cases o')
  case None
  then show ?thesis using inv by (simp add: if_blob_def wp_def applied split: option.splits)
next
  case (Some b)
  then obtain bl where bl: "db_blobs db = Some bl"
    using x(1) db_invD(3) [OF inv] by (cases "db_blobs db") (auto simp: blobs_inv_def)
  have "if_blob o' release_count db = on_blobs (release_count b) db" using bl Some by (simp add: if_blob_def)
  moreover have "wp (on_blobs (release_count b)) (\<lambda>_ t. db_step db t \<and> db_inv t ch L (B - {b})) (\<lambda>_ _. False) db"
    by (rule release_blob_wp [OF inv bl]) (use x Some in auto)
  ultimately show ?thesis using Some by (simp add: wp_def)
qed

subsection \<open>Unlinking\<close>

lemma node_allocations_eq:
  assumes inv: "db_inv db ch L B" and e: "e \<in> entries db ch"
  shows "node_allocations db (alloc_offset (en_node e)) (en_word e) = Ok (en_node e, en_blob e)"
proof -
  obtain b where b: "b < buckets db" "e \<in> set (ch b)" using e by (auto simp: entries_def)
  note ef = bucket_facts(5) [OF inv b]
  have n: "en_node e \<in> L" "node_alloc (en_node e)" and vo: "value_ok db e" using ef by blast+
  have len: "(of_nat NODE_SIZE :: u32) = alloc_length (en_node e)"
    using n(2) by (simp add: node_alloc_def NODE_SIZE_def word_unat_eq_iff)
  have af: "allocation_for (db_body db) (alloc_offset (en_node e)) (of_nat NODE_SIZE) = Ok (en_node e)"
    unfolding len using db_invD(2) [OF inv] n(1) allocation_for_live by (auto simp: al_inv_def)
  have vr: "validate_release (db_body db) (en_node e) = Ok ()"
    by (rule validate_release_live [OF db_invD(2) [OF inv] n(1)]) (use body_reserve [OF inv] in simp)
  show ?thesis
  proof (cases "en_blob e")
    case None
    then have "blob_allocation db (en_word e) = Ok None"
      using vo by (auto simp: blob_allocation_def value_ok_def split: if_splits)
    then show ?thesis using af vr None by (simp add: node_allocations_def split: option.splits)
  next
    case (Some x)
    then have x: "x \<in> B" using db_invD(6) [OF inv e] by blast
    obtain bl where w: "mode (db_config db) = Map" "en_word e = VALUE_BLOB_TAG OR alloc_offset x" "db_blobs db = Some bl"
        "blob_at (dmem bl) x (en_value e)" using vo Some by (auto simp: value_ok_def)
    have bi: "al_inv bl B" using db_invD(3) [OF inv] w(3) by (simp add: blobs_inv_def)
    note lf = live_in_file [OF bi x] and g = al_inv_geom [OF bi]
    let ?v = "en_value e"
    have hd: "al_read_into bl (alloc_offset x) 8 = Ok (u32_le (of_nat (length ?v)) @ u32_le (blob_checksum ?v))"
      using al_read_into_Ok [OF g, of "alloc_offset x" 8] lf blob_at_hi [OF w(4)] blob_at_split(1) [OF w(4)] by (simp add: a_lo_def)
    have al: "unat (alloc_length x) = 8 + length ?v" "length ?v < 2 ^ 32" using w(4) by (auto simp: blob_at_def)
    have "unat (8 :: u32) + unat (of_nat (length ?v) :: u32) < 2 ^ 32"
      using al unsigned_less [of "alloc_length x", where 'a = nat] by (simp add: unat_of_nat)
    then have tot: "checked_add 8 (of_nat (length ?v)) = Some (alloc_length x)"
      using al by (simp add: checked_add_def word_unat_eq_iff unat_add_nowrap unat_of_nat)
    have "allocation_for bl (alloc_offset x) (alloc_length x) = Ok x"
      using bi x allocation_for_live by (auto simp: al_inv_def)
    then have ba: "blob_allocation db (en_word e) = Ok (Some x)"
      using w tag_word [OF live_offset_63 [OF bi x]] hd tot
      by (simp add: blob_allocation_def BLOB_HEADER_SIZE_def decode_blob_header_eq Let_def)
    have "2 \<le> reserve_limit (al_counts bl)" using db_invD(1) [OF inv] w(3) by (simp add: db_shape_def)
    then have "validate_release bl x = Ok ()" by (rule validate_release_live [OF bi x])
    then show ?thesis using af vr ba w(3) Some by (simp add: node_allocations_def)
  qed
qed

text \<open>What is left after the entry \<open>e\<close> left its chain does not use its node or blob.\<close>

lemma detached_free:
  assumes inv: "db_inv db ch L B" and b: "b < buckets db" and s: "ch b = pre @ e # post"
    and t: "db_step db t"
  shows "en_node e \<notin> en_node ` entries t (ch(b := pre @ post))"
    and "f \<in> entries t (ch(b := pre @ post)) \<Longrightarrow> set_option (en_blob f) \<inter> set_option (en_blob e) = {}"
    and "e \<in> entries db ch" and "entries t (ch(b := pre @ post)) \<subseteq> entries db ch"
proof -
  have u: "f \<in> entries t (ch(b := pre @ post)) \<Longrightarrow> en_node f \<noteq> en_node e" for f
    using entry_unique [OF inv b s] entries_cong [OF t] by metis
  then show "en_node e \<notin> en_node ` entries t (ch(b := pre @ post))" by (metis imageE)
  show ein: "e \<in> entries db ch" using entriesI [of b db e ch] b s by simp
  show sub: "entries t (ch(b := pre @ post)) \<subseteq> entries db ch"
    using s b unfolding entries_cong [OF t] by (auto simp: entries_def split: if_splits)
  assume f: "f \<in> entries t (ch(b := pre @ post))"
  then have "f \<in> entries db ch" using sub by blast
  then show "set_option (en_blob f) \<inter> set_option (en_blob e) = {}"
    using one_ownerD [OF db_invD(7) [OF inv] _ ein] u [OF f] by (cases "en_blob f"; cases "en_blob e") auto
qed

text \<open>Releasing a node that left its chain: the tombstone, then the blob, then the node.\<close>

lemma release_detached_wp:
  assumes inv: "db_inv db ch L B" and n: "n \<in> L" "n \<notin> en_node ` entries db ch" "node_alloc n"
    and bl: "set_option o' \<subseteq> B" "\<And>e. e \<in> entries db ch \<Longrightarrow> set_option (en_blob e) \<inter> set_option o' = {}"
  shows "wp (release_detached \<lparr>dn_body = n, dn_blob = o'\<rparr>)
     (\<lambda>_ t. db_step db t \<and> db_inv t ch (L - {n}) (B - set_option o')) (\<lambda>_ _. False) db"
proof -
  have s3: "wp (on_body (release_count n)) (\<lambda>_ u. db_step db u \<and> db_inv u ch (L - {n}) (B - set_option o')) (\<lambda>_ _. False) t"
    if "db_step db t" "db_inv t ch L (B - set_option o')" for t
    by (rule wp_mono [OF release_node_wp [OF that(2) n(1)]]) (use n(2) that(1) entries_cong [OF that(1)] in \<open>auto intro: db_step_trans\<close>)
  have s2: "wp (if_blob o' release_count) (\<lambda>_ u. db_step db u \<and> db_inv u ch L (B - set_option o')) (\<lambda>_ _. False) t"
    if "db_step db t" "db_inv t ch L B" for t
    by (rule wp_mono [OF if_blob_release_wp [OF that(2) bl(1)]])
      (use bl(2) that(1) entries_cong [OF that(1)] in \<open>auto intro: db_step_trans\<close>)
  show ?thesis
    unfolding release_detached_def
    apply (simp add: wp_bnd)
    apply (rule wp_mono [OF tombstone_wp [OF inv n]]; (clarsimp simp: wp_bnd)?)
    apply (rule wp_mono [OF s2]; clarsimp?)
    apply (rule wp_mono [OF s3]; clarsimp?)
    done
qed

lemma unlink_link_wp:
  assumes inv: "db_inv db ch L B" and b: "unat bk < buckets db" and s: "ch (unat bk) = pre @ e # post"
  shows "wp (unlink_link (link_after bk pre) (node_of e (first_offset post)))
     (\<lambda>_ t. db_step db t \<and> db_inv t (ch(unat bk := pre @ post)) (L - {en_node e}) (B - set_option (en_blob e)))
     (\<lambda>_ _. False) db"
proof -
  let ?ch = "ch(unat bk := pre @ post)" and ?n = "en_node e"
  note df = detached_free [OF inv b s]
  have ein: "e \<in> entries db ch" using df(3) [of db] by simp
  have n: "?n \<in> L" "node_alloc ?n" using bucket_facts(5) [OF inv b, of e] s by auto
  have bl: "set_option (en_blob e) \<subseteq> B" using db_invD(6) [OF inv ein] by (cases "en_blob e") auto
  have na: "node_allocations db (node_offset (node_of e (first_offset post))) (node_value (node_of e (first_offset post)))
      = Ok (?n, en_blob e)" using node_allocations_eq [OF inv ein] by (simp add: node_of_def)
  have off: "node_offset (node_of e (first_offset post)) = alloc_offset ?n" "node_next (node_of e (first_offset post)) = first_offset post"
    by (simp_all add: node_of_def)
  have rel: "wp (release_detached \<lparr>dn_body = ?n, dn_blob = en_blob e\<rparr>)
      (\<lambda>_ u. db_step db u \<and> db_inv u ?ch (L - {?n}) (B - set_option (en_blob e))) (\<lambda>_ _. False) t"
    if t: "db_step db t" "db_inv t ?ch L B" for t
    by (rule wp_mono [OF release_detached_wp [OF t(2) n(1) df(1) [OF t(1)] n(2) bl df(2) [OF t(1)]]])
      (use t(1) in \<open>auto intro: db_step_trans\<close>)
  show ?thesis
    unfolding unlink_link_def wp_bnd wp_reads na
    unfolding rwp_prim prod.case off wp_bnd
    apply (rule wp_mono [OF compare_exchange_link_wp [OF inv b s]])
     apply clarsimp
     apply (rule rel [unfolded release_detached_def, simplified])
    apply simp_all
    done
qed


subsection \<open>Delete locks\<close>

lemma db_inv_locks:
  assumes "length l = length (delete_locks db)"
  shows "db_inv (db\<lparr>delete_locks := l\<rparr>) ch L B = db_inv db ch L B"
proof -
  let ?db = "db\<lparr>delete_locks := l\<rparr>"
  have "value_ok ?db e = value_ok db e" for e by (cases "en_blob e") (simp_all add: value_ok_def)
  then have "bucket_ok ?db b es = bucket_ok db b es" for b es
    by (simp add: bucket_ok_def hash_bucket_def key_hash_def)
  moreover have "entries ?db ch = entries db ch" by (simp add: entries_def)
  moreover have "db_shape ?db = db_shape db" using assms by (cases "db_blobs db") (simp_all add: db_shape_def)
  ultimately show ?thesis by (simp add: db_inv_def)
qed

definition locked :: "nat \<Rightarrow> database \<Rightarrow> database" where
  "locked b db = db\<lparr>delete_locks := (delete_locks db)[b := 1]\<rparr>"

lemma db_inv_locked [simp]: "db_inv (locked b db) ch L B = db_inv db ch L B"
  by (simp add: locked_def db_inv_locks)

lemma locked_sel [simp]:
  "db_config (locked b db) = db_config db" "runtime_heads (locked b db) = runtime_heads db"
  "key_hash (locked b db) = key_hash db" "hash_bucket (locked b db) = hash_bucket db" "buckets (locked b db) = buckets db"
  by (simp_all add: locked_def key_hash_def hash_bucket_def fun_eq_iff)

lemma wp_cas_delete_lock:
  "wp (cas_delete_lock i x y) Q E db = (if delete_locks db ! i = x
     then Q True (db\<lparr>delete_locks := (delete_locks db)[i := y]\<rparr>) else Q False db)"
  by (simp add: cas_delete_lock_def wp_def)

lemma lock_delete_bucket_wp:
  assumes sh: "db_shape db" and u: "unlocked db" and b: "unat bk < buckets db"
  shows "wp (lock_delete_bucket bk) (\<lambda>i t. i = unat bk \<and> t = locked (unat bk) db) (\<lambda>_ _. False) db"
proof -
  have "unat bk < length (delete_locks db)" using sh b by (simp add: db_shape_def)
  moreover have "delete_locks db ! unat bk = 0" using u b by (simp add: unlocked_def)
  ultimately show ?thesis
    by (simp add: lock_delete_bucket_def wp_bnd) (rule wp_loop_once, simp add: wp_bnd wp_cas_delete_lock locked_def)
qed

lemma drop_delete_guard_wp:
  assumes sh: "db_shape db" and u: "unlocked db" and b: "unat bk < buckets db" and t: "db_step (locked (unat bk) db) t"
  shows "wp (drop_delete_guard (unat bk)) (\<lambda>_ s. s = t\<lparr>delete_locks := delete_locks db\<rparr>) (\<lambda>_ _. False) t"
proof -
  have len: "unat bk < length (delete_locks db)" using sh b by (simp add: db_shape_def)
  have z: "delete_locks db ! unat bk = 0" using u b by (simp add: unlocked_def)
  have dl: "delete_locks t = (delete_locks db)[unat bk := 1]" using t by (simp add: db_step_def locked_def)
  have "(delete_locks db)[unat bk := 0] = delete_locks db" using z len by (metis list_update_id)
  then show ?thesis
    using dl len
    by (simp add: drop_delete_guard_def wp_bnd) (rule wp_loop_once, simp add: wp_bnd wp_cas_delete_lock)
qed

text \<open>The guard takes the lock, runs its body, and gives the lock back on every path.\<close>

lemma with_delete_guard_wp:
  assumes sh: "db_shape db" and u: "unlocked db" and b: "unat bk < buckets db"
    and m: "wp m (\<lambda>a t. db_step (locked (unat bk) db) t \<and> Q a (t\<lparr>delete_locks := delete_locks db\<rparr>))
        (\<lambda>e t. db_step (locked (unat bk) db) t \<and> E e (t\<lparr>delete_locks := delete_locks db\<rparr>)) (locked (unat bk) db)"
  shows "wp (with_delete_guard bk m) Q E db"
proof -
  have drp: "wp (drop_delete_guard (unat bk)) (\<lambda>_. P) F t"
    if "db_step (locked (unat bk) db) t" "P (t\<lparr>delete_locks := delete_locks db\<rparr>)" for P F t
    by (rule wp_mono [OF drop_delete_guard_wp [OF sh u b that(1)]]) (use that(2) in auto)
  show ?thesis
    unfolding with_delete_guard_def wp_bracket
    apply (rule wp_mono [OF lock_delete_bucket_wp [OF sh u b]])
     apply clarsimp
     apply (rule wp_mono [OF m])
      apply (auto intro!: drp)
    done
qed

lemma with_delete_guard_local_wp:
  assumes sh: "db_shape db" and u: "unlocked db" and b: "unat bk < buckets db"
    and m: "wp m (\<lambda>a (t, y). db_step (locked (unat bk) db) t \<and> Q a (t\<lparr>delete_locks := delete_locks db\<rparr>, y))
        (\<lambda>e (t, y). db_step (locked (unat bk) db) t \<and> E e (t\<lparr>delete_locks := delete_locks db\<rparr>, y)) (locked (unat bk) db, x)"
  shows "wp (with_delete_guard_local bk m) Q E (db, x)"
proof -
  have drp: "wp (on_fst (drop_delete_guard (unat bk))) (\<lambda>_. P) F (t, y)"
    if "db_step (locked (unat bk) db) t" "P (t\<lparr>delete_locks := delete_locks db\<rparr>, y)" for P F t y
    unfolding wp_on_fst by (rule wp_mono [OF drop_delete_guard_wp [OF sh u b that(1)]]) (use that(2) in auto)
  show ?thesis
    unfolding with_delete_guard_local_def wp_bracket wp_on_fst
    apply (rule wp_mono [OF lock_delete_bucket_wp [OF sh u b]])
     apply clarsimp
     apply (rule wp_mono [OF m])
      apply (auto intro!: drp)
    done
qed


subsection \<open>Deletion\<close>

definition lookup_entry :: "bytes \<Rightarrow> entry list \<Rightarrow> entry option" where
  "lookup_entry key es = find (\<lambda>e. en_key e = key) es"

fun remove_entry :: "bytes \<Rightarrow> entry list \<Rightarrow> entry list" where
  "remove_entry key [] = []"
| "remove_entry key (e # es) = (if en_key e = key then es else e # remove_entry key es)"

lemma lookup_absent [simp]: "key \<notin> en_key ` set es \<Longrightarrow> lookup_entry key es = None"
  by (auto simp: lookup_entry_def find_None_iff)

lemma lookup_split [simp]: "en_key e = key \<Longrightarrow> key \<notin> en_key ` set xs \<Longrightarrow> lookup_entry key (xs @ e # ys) = Some e"
  by (induction xs) (auto simp: lookup_entry_def)

lemma remove_absent [simp]: "key \<notin> en_key ` set es \<Longrightarrow> remove_entry key es = es"
  by (induction es) auto

lemma remove_split [simp]: "en_key e = key \<Longrightarrow> key \<notin> en_key ` set xs \<Longrightarrow> remove_entry key (xs @ e # ys) = xs @ ys"
  by (induction xs) auto

abbreviation node_set :: "entry option \<Rightarrow> allocation set" where "node_set o' \<equiv> en_node ` set_option o'"
abbreviation blob_set :: "entry option \<Rightarrow> allocation set" where "blob_set o' \<equiv> (\<Union>e \<in> set_option o'. set_option (en_blob e))"

lemma guard_ok: "db_inv db ch L B \<Longrightarrow> operation_guard db = Ok ()"
  using db_invD(1) [of db ch L B] by (simp add: operation_guard_def db_shape_def)

lemma delete_step_wp:
  fixes key :: bytes
  assumes inv: "db_inv db ch L B"
  defines "bk \<equiv> key_bucket db key"
  defines "es \<equiv> ch (unat bk)"
  shows "wp (delete_step bk (key_hash db key) key)
     (\<lambda>c t. c = Return (lookup_entry key es \<noteq> None) \<and> db_step db t
        \<and> db_inv t (ch(unat bk := remove_entry key es)) (L - node_set (lookup_entry key es)) (B - blob_set (lookup_entry key es)))
     (\<lambda>_ _. False) db"
proof -
  have b: "unat bk < buckets db" using key_bucket_lt [OF db_invD(1) [OF inv]] by (simp add: bk_def)
  show ?thesis
  proof (cases rule: found_in_cases [of key es bk "first_offset es" "[]"])
    case absent
    then show ?thesis
      using inv db_find_eq [OF inv b] by (simp add: delete_step_def wp_bnd wp_reads es_def fun_upd_idem)
  next
    case (present xs e ys)
    then show ?thesis
      using db_find_eq [OF inv b]
      apply (simp add: delete_step_def wp_bnd wp_reads wp_attempt es_def)
      apply (rule wp_mono [OF unlink_link_wp [OF inv b]])
      using present by (auto simp: es_def)
  qed
qed

lemma db_delete_wp:
  assumes inv: "db_inv db ch L B" and u: "unlocked db" and k: "length key = 16"
  defines "bk \<equiv> key_bucket db key"
  defines "es \<equiv> ch (unat bk)"
  shows "wp (db_delete key)
     (\<lambda>r t. r = (lookup_entry key es \<noteq> None) \<and> db_step db t
        \<and> db_inv t (ch(unat bk := remove_entry key es)) (L - node_set (lookup_entry key es)) (B - blob_set (lookup_entry key es)))
     (\<lambda>_ _. False) db"
proof -
  note sh = db_invD(1) [OF inv]
  have b: "unat bk < buckets db" using key_bucket_lt [OF sh] by (simp add: bk_def)
  let ?Q = "\<lambda>r t. r = (lookup_entry key es \<noteq> None) \<and> db_step db t
        \<and> db_inv t (ch(unat bk := remove_entry key es)) (L - node_set (lookup_entry key es)) (B - blob_set (lookup_entry key es))"
  have give: "db_inv (t\<lparr>delete_locks := delete_locks db\<rparr>) ch' L' B' \<and> db_step db (t\<lparr>delete_locks := delete_locks db\<rparr>)"
    if "db_step (locked (unat bk) db) t" "db_inv t ch' L' B'" for t ch' L' B'
  proof
    have "length (delete_locks db) = length (delete_locks t)" using that(1) by (simp add: db_step_def locked_def)
    then show "db_inv (t\<lparr>delete_locks := delete_locks db\<rparr>) ch' L' B'" using that(2) by (simp add: db_inv_locks)
    show "db_step db (t\<lparr>delete_locks := delete_locks db\<rparr>)" using that(1) by (simp add: db_step_def locked_def)
  qed
  have "wp (with_delete_guard bk (loop (\<lambda>_. delete_step bk (key_hash db key) key) ())) ?Q (\<lambda>_ _. False) db"
  proof (rule with_delete_guard_wp [OF sh u b], rule wp_loop_once)
    have "db_inv (locked (unat bk) db) ch L B" using inv by simp
    note d = delete_step_wp [OF this, of key, unfolded locked_sel, folded bk_def, folded es_def]
    show "wp (delete_step bk (key_hash db key) key)
       (\<lambda>c t. \<exists>a. c = Return a \<and> db_step (locked (unat bk) db) t \<and> ?Q a (t\<lparr>delete_locks := delete_locks db\<rparr>))
       (\<lambda>e t. db_step (locked (unat bk) db) t \<and> False) (locked (unat bk) db)"
      by (rule wp_mono [OF d]) (use give in auto)
  qed
  then show ?thesis
    using k guard_ok [OF inv]
    by (simp add: db_delete_def wp_bnd wp_reads wp_lift validate_key_def KEY_SIZE_def bk_def es_def)
qed

end
