(* ===== verification/Table_Insert.thy ===== *)
theory Table_Insert
  imports Table_Correct
begin

text \<open>
  Insertion into the hash table: what \<open>allocate_blob\<close>, \<open>allocate_node_or_release\<close>,
  \<open>release_private\<close>, the publication loop of \<open>put_inner\<close> and \<open>commit_private_group\<close> of
  src/table.rs do to a table that satisfies the invariant, on their success and error paths.
\<close>

subsection \<open>Storing a value\<close>

text \<open>The entry a new node will be: what the blob allocation and the encoded word must satisfy.\<close>

abbreviation new_entry :: "allocation \<Rightarrow> bytes \<Rightarrow> u64 \<Rightarrow> allocation option \<Rightarrow> bytes option \<Rightarrow> entry" where
  "new_entry a key word o' v \<equiv> \<lparr>en_node = a, en_key = key, en_word = word, en_blob = o',
     en_value = (case v of None \<Rightarrow> [] | Some v \<Rightarrow> v)\<rparr>"

definition stored :: "database \<Rightarrow> bytes option \<Rightarrow> allocation option \<Rightarrow> u64 \<Rightarrow> bool" where
  "stored db v o' word \<longleftrightarrow> encoded_value db v o' = Ok word \<and> (\<forall>a key. value_ok db (new_entry a key word o' v))"

text \<open>Enough room: the system calls succeed and pages are left for the node and, when the value
  is not stored inline, for the blob.\<close>

definition roomy :: "database \<Rightarrow> bytes option \<Rightarrow> bool" where
  "roomy db v \<longleftrightarrow> al_calm (db_body db) \<and> hw (db_body db) < nbl (db_body db)
     \<and> (\<forall>bl w. db_blobs db = Some bl \<longrightarrow> v = Some w \<longrightarrow> inline_value_word w = None
          \<longrightarrow> al_calm bl \<and> hw bl < nbl bl \<and> 8 + length w \<le> bsz bl)"

lemma inline_value:
  assumes "inline_value_word v = Some w"
  shows "w AND VALUE_BLOB_TAG = 0" "u64_le w = v"
  using assms by (auto simp: inline_value_word_def Let_def split: if_splits)

lemma write_blob:
  assumes inv: "al_inv s (insert a B)" and a: "a \<notin> B" "unat (alloc_length a) = 8 + length v" and v: "length v < 2 ^ 32"
  defines "h \<equiv> u32_le (of_nat (length v)) @ u32_le (blob_checksum v)"
  defines "t \<equiv> put_data (mwrite (a_lo a + 8) v (mwrite (a_lo a) h (dmem s))) s"
  shows "bnd (al_write_at a 0 h) (\<lambda>_. al_write_at a 8 v) s = Some (Inr (), t)"
    and "al_inv t (insert a B)" and "blob_at (dmem t) a v" and "al_step s t"
    and "b \<in> B \<Longrightarrow> a_lo b \<le> x \<Longrightarrow> x < a_hi b \<Longrightarrow> dmem t x = dmem s x"
proof -
  let ?s = "put_data (mwrite (a_lo a) h (dmem s)) s"
  have hl: "length h = 8" by (simp add: h_def)
  have hi: "a_hi a = a_lo a + (8 + length v)" using a(2) by (simp add: a_hi_def a_lo_def)
  note lf = live_in_file [OF inv insertI1]
  have w1: "al_write_at a 0 h s = Some (Inr (), ?s)" using al_write_at_live [OF inv insertI1, of 0 h] hl a(2) by simp
  have i1: "al_inv ?s (insert a B)" by (rule al_inv_put_data [OF inv]) (use hl hi lf in simp)
  have w2: "al_write_at a 8 v ?s = Some (Inr (), t)"
    using al_write_at_live [OF i1 insertI1, of 8 v] a(2) by (simp add: t_def)
  show "bnd (al_write_at a 0 h) (\<lambda>_. al_write_at a 8 v) s = Some (Inr (), t)"
    using w1 w2 by (simp add: bnd_def)
  have "al_inv (put_data (mwrite (a_lo a + 8) v (dmem ?s)) ?s) (insert a B)"
    by (rule al_inv_put_data [OF i1]) (use hi lf in simp)
  then show "al_inv t (insert a B)" by (simp add: t_def)
  show "blob_at (dmem t) a v" using blob_at_write [OF v a(2)] by (simp add: t_def h_def)
  show "al_step s t" by (simp add: t_def)
  assume "b \<in> B" "a_lo b \<le> x" "x < a_hi b"
  then show "dmem t x = dmem s x"
    using live_in_insert [OF inv _ a(1), of b x] hi hl by (auto simp: t_def mwrite_def)
qed

lemma wp_ok_fun: "wp (ok x) Q E = Q x"
  by (rule ext) simp

lemma wp_catch_ok: "m s = Some (Inr a, t) \<Longrightarrow> wp (catch m h) Q E s = Q a t"
  by (simp add: wp_def catch_def)

lemma value_ok_cong:
  "db_config t = db_config s \<Longrightarrow> db_blobs t = db_blobs s \<Longrightarrow> value_ok t e = value_ok s e"
  by (cases "en_blob e") (simp_all add: value_ok_def)

lemma stored_cong:
  "db_config t = db_config s \<Longrightarrow> db_blobs t = db_blobs s \<Longrightarrow> stored t v o' w = stored s v o' w"
  using value_ok_cong [of t s] by (simp add: stored_def encoded_value_def)

text \<open>Entries keep their values as long as their blobs are among \<open>B\<close>.\<close>

definition keeps_blobs :: "allocation set \<Rightarrow> database \<Rightarrow> database \<Rightarrow> bool" where
  "keeps_blobs B s t \<longleftrightarrow> (\<forall>e. value_ok s e \<longrightarrow> set_option (en_blob e) \<subseteq> B \<longrightarrow> value_ok t e)"

lemma keeps_blobs_refl [simp]: "keeps_blobs B s s"
  by (simp add: keeps_blobs_def)

lemma keeps_blobs_upd:
  assumes bl: "db_blobs db = Some bl"
    and mem: "\<And>b x. b \<in> B \<Longrightarrow> a_lo b \<le> x \<Longrightarrow> x < a_hi b \<Longrightarrow> dmem t x = dmem bl x"
  shows "keeps_blobs B db (db\<lparr>db_blobs := Some t\<rparr>)"
  unfolding keeps_blobs_def
proof (intro allI impI)
  fix e assume v: "value_ok db e" and b: "set_option (en_blob e) \<subseteq> B"
  show "value_ok (db\<lparr>db_blobs := Some t\<rparr>) e"
  proof (cases "en_blob e")
    case (Some x)
    then have "blob_at (dmem bl) x (en_value e)" using v bl by (auto simp: value_ok_def)
    then have "blob_at (dmem t) x (en_value e)"
      by (rule blob_at_cong [rotated]) (rule mem, use b Some in simp_all)
    then show ?thesis using v Some by (simp add: value_ok_def)
  qed (use v in \<open>simp add: value_ok_def\<close>)
qed

lemma allocate_blob_wp:
  assumes inv: "db_inv db ch L B" and v: "validate_value db v = Ok ()"
  shows "wp (allocate_blob simd v)
     (\<lambda>o' t. db_step db t \<and> db_inv t ch L (B \<union> set_option o') \<and> set_option o' \<inter> B = {}
        \<and> db_body t = db_body db \<and> keeps_blobs B db t \<and> (\<exists>w. stored t v o' w))
     (\<lambda>_ t. db_step db t \<and> db_inv t ch L B \<and> db_body t = db_body db \<and> keeps_blobs B db t \<and> \<not> roomy db v) db"
proof (cases "mode (db_config db) = Set")
  case True
  then have n: "v = None" using v by (auto simp: validate_value_def split: if_splits)
  have "stored db v None 0" using True n by (simp add: stored_def encoded_value_def value_ok_def)
  then show ?thesis using True inv by (auto simp: allocate_blob_def wp_bnd)
next
  case False
  then have m: "mode (db_config db) = Map" using mode.exhaust by blast
  obtain w where w: "v = Some w" using v False by (auto simp: validate_value_def ok_or_def split: option.splits)
  obtain bl where bl: "db_blobs db = Some bl" using db_invD(1) [OF inv] m by (auto simp: db_shape_def split: option.splits)
  then have bi: "al_inv bl B" using db_invD(3) [OF inv] by (simp add: blobs_inv_def)
  show ?thesis
  proof (cases "inline_value_word w")
    case (Some x)
    have "stored db v None x"
      using m w Some inline_value [OF Some] by (simp add: stored_def encoded_value_def value_ok_def)
    then show ?thesis using m w Some inv by (auto simp: allocate_blob_def wp_bnd wp_lift)
  next
    case None
    show ?thesis
    proof (cases "8 + length w < 2 ^ 64")
      case False
      have "bsz bl < 2 ^ 32" using al_geom_parts(6) [OF al_inv_geom [OF bi]] .
      then have "\<not> roomy db v" using False bl w None by (auto simp: roomy_def)
      then show ?thesis using m w None inv False
        by (simp add: allocate_blob_def wp_bnd wp_lift usize_checked_add_def BLOB_HEADER_SIZE_def)
    next
      case True
      have pw: "is_power_of_two (8 :: u64)" using is_power_of_two_2p [of 3, where 'a = 64] by simp
      have keep: "db_inv (db\<lparr>db_blobs := Some t\<rparr>) ch L B" if "al_step bl t" "al_inv t B" "dmem t = dmem bl" for t
        by (rule db_inv_blobs [OF inv bl that(1,2)]) (use that db_invD(6) [OF inv] in auto)
      have fin: "db_step db (db\<lparr>db_blobs := Some t\<rparr>) \<and> db_inv (db\<lparr>db_blobs := Some t\<rparr>) ch L (insert a B)
          \<and> keeps_blobs B db (db\<lparr>db_blobs := Some t\<rparr>) \<and> (\<exists>x. stored (db\<lparr>db_blobs := Some t\<rparr>) v (Some a) x)"
        if t: "al_step bl t" "al_inv t (insert a B)" "blob_at (dmem t) a w"
          "\<And>b x. b \<in> B \<Longrightarrow> a_lo b \<le> x \<Longrightarrow> x < a_hi b \<Longrightarrow> dmem t x = dmem bl x" for a t
      proof -
        have "db_inv (db\<lparr>db_blobs := Some t\<rparr>) ch L (insert a B)"
          by (rule db_inv_blobs [OF inv bl t(1,2)]) (use db_invD(6) [OF inv] t(4) in blast)+
        moreover have "stored (db\<lparr>db_blobs := Some t\<rparr>) v (Some a) (VALUE_BLOB_TAG OR alloc_offset a)"
          using m w None t(3) tag_word(3) [OF live_offset_63 [OF t(2) insertI1]]
          by (simp add: stored_def encoded_value_def value_ok_def Let_def)
        moreover have "keeps_blobs B db (db\<lparr>db_blobs := Some t\<rparr>)" using keeps_blobs_upd [OF bl, of B t] t(4) by metis
        ultimately show ?thesis using db_step_upd(2) [OF bl t(1)] by blast
      qed
      have wr: "wp (bnd (lift (blob_header w)) (\<lambda>header.
            bnd (on_blobs (catch (bnd (al_write_at a 0 header) (\<lambda>_. al_write_at a 8 w))
               (\<lambda>e. bnd (ignore (release a)) (\<lambda>_. err e)))) (\<lambda>_. ok (Some a))))
          (\<lambda>o' t. db_step db t \<and> db_inv t ch L (B \<union> set_option o') \<and> set_option o' \<inter> B = {}
             \<and> db_body t = db_body db \<and> keeps_blobs B db t \<and> (\<exists>x. stored t v o' x))
          (\<lambda>_ t. db_step db t \<and> db_inv t ch L B \<and> db_body t = db_body db \<and> keeps_blobs B db t \<and> \<not> roomy db v) (db\<lparr>db_blobs := Some s\<rparr>)"
        if s: "al_ext bl s" "al_inv s (insert a B)" "a \<notin> B" "unat (alloc_length a) = 8 + length w" for a s
      proof -
        have "unat (alloc_length a) < 2 ^ 32" using unsigned_less [of "alloc_length a", where 'a = nat] by simp
        then have w32: "length w < 2 ^ 32" using s(4) by simp
        note wb = write_blob [OF s(2-4) w32]
        let ?t = "put_data (mwrite (a_lo a + 8) w (mwrite (a_lo a) (u32_le (of_nat (length w)) @ u32_le (blob_checksum w)) (dmem s))) s"
        have st: "al_step bl ?t" using s(1) by (simp add: al_ext_step)
        have d: "db_step db (db\<lparr>db_blobs := Some ?t\<rparr>) \<and> db_inv (db\<lparr>db_blobs := Some ?t\<rparr>) ch L (insert a B)
          \<and> keeps_blobs B db (db\<lparr>db_blobs := Some ?t\<rparr>) \<and> (\<exists>x. stored (db\<lparr>db_blobs := Some ?t\<rparr>) v (Some a) x)"
          by (rule fin [OF st wb(2,3)]) (use wb(5) s(1) in \<open>auto simp: al_ext_step\<close>)
        show ?thesis
          using d s(3) wb(1)
          by (simp add: wp_bnd [where m = "lift _"] wp_bnd [where m = "on_blobs _"] wp_lift blob_header_eq [OF w32]
              wp_on_blobs wp_catch_ok)
      qed
      show ?thesis
        using m w None True
        apply (simp add: allocate_blob_def wp_bnd [where m = "gets _"] wp_bnd [where m = "lift (Some _)"]
            wp_bnd [where m = "on_blobs (allocate _ _ _)"] wp_lift usize_checked_add_def BLOB_HEADER_SIZE_def wp_on_blobs [OF bl])
        apply (rule wp_mono [OF allocate_wp [OF bi]])
        subgoal using wr by (simp add: BLOB_HEADER_SIZE_def)
        subgoal for e t using keep [of t] db_step_upd(2) [OF bl, of t] keeps_blobs_upd [OF bl, of B t] bl None pw
          by (auto simp: al_ext_step roomy_def valid_request_def)
        done
    qed
  qed
qed


subsection \<open>Private nodes\<close>

text \<open>A private insertion: a node and perhaps a blob that are live but in no chain.\<close>

definition private_ok :: "database \<Rightarrow> chains \<Rightarrow> allocation set \<Rightarrow> allocation set \<Rightarrow> allocation \<Rightarrow> allocation option \<Rightarrow> bool" where
  "private_ok db ch L B a o' \<longleftrightarrow> db_inv db ch (insert a L) (B \<union> set_option o') \<and> a \<notin> L \<and> set_option o' \<inter> B = {}
     \<and> node_alloc a \<and> en_node ` entries db ch \<subseteq> L \<and> (\<forall>e \<in> entries db ch. set_option (en_blob e) \<subseteq> B)"

lemma private_okD:
  assumes "private_ok db ch L B a o'"
  shows "db_inv db ch (insert a L) (B \<union> set_option o')" "a \<notin> L" "set_option o' \<inter> B = {}" "node_alloc a"
    "a \<notin> en_node ` entries db ch" "e \<in> entries db ch \<Longrightarrow> set_option (en_blob e) \<inter> set_option o' = {}"
  using assms unfolding private_ok_def by blast+

lemma allocate_node_or_release_wp:
  assumes inv: "db_inv db ch L (B \<union> set_option o')" and d: "set_option o' \<inter> B = {}" and k: "length key = 16"
    and bs: "\<And>e. e \<in> entries db ch \<Longrightarrow> set_option (en_blob e) \<subseteq> B"
  shows "wp (allocate_node_or_release simd key word o')
     (\<lambda>a t. db_step db t \<and> private_ok t ch L B a o' \<and> db_blobs t = db_blobs db
        \<and> node_at (dmem (db_body t)) (a_lo a) key word 0)
     (\<lambda>_ t. db_step db t \<and> db_inv t ch L B \<and> \<not> (al_calm (db_body db) \<and> hw (db_body db) < nbl (db_body db))) db"
proof -
  note ai = db_invD(2) [OF inv]
  have sub: "en_node ` entries db ch \<subseteq> L" using db_invD(5) [OF inv] by auto
  have good: "private_ok (db\<lparr>db_body := t\<rparr>) ch L B a o' \<and> node_at (dmem t) (a_lo a) key word 0"
    if t: "al_step (db_body db) t" "al_inv t (insert a L)" "a \<notin> L" "node_alloc a"
      "dmem t = mwrite (a_lo a) (node_image key word 0) (dmem (db_body db))" for a t
  proof -
    have "db_inv (db\<lparr>db_body := t\<rparr>) ch (insert a L) (B \<union> set_option o')"
    proof (rule db_inv_body [OF inv t(1,2)])
      fix b x assume b: "b \<in> en_node ` entries db ch" "a_lo b \<le> x" "x < a_hi b"
      then have "b \<in> L" using sub by blast
      then show "dmem t x = dmem (db_body db) x"
        using live_in_insert [OF t(2) _ t(3), of b x] b node_alloc_hi [OF t(4)] k
        by (auto simp: t(5) mwrite_def length_node_image)
    qed (use sub in auto)
    moreover have "node_at (dmem t) (a_lo a) key word 0" unfolding t(5) by (rule node_at_write) (use k in auto)
    moreover have "entries (db\<lparr>db_body := t\<rparr>) ch = entries db ch" by (simp add: entries_def)
    ultimately show ?thesis using t d sub bs by (simp add: private_ok_def)
  qed
  have back': "wp (bnd (case o' of Some b \<Rightarrow> ignore (release_blob b) | None \<Rightarrow> ok ()) (\<lambda>_. err e)) Q
      (\<lambda>_ u. db_step db u \<and> db_inv u ch L B \<and> P) t"
    if t: "db_step db t" "db_inv t ch L (B \<union> set_option o')" "P" for e t P and Q :: "allocation \<Rightarrow> database \<Rightarrow> bool"
  proof (cases o')
    case None
    then show ?thesis using t by (simp add: wp_bnd)
  next
    case (Some b)
    obtain bl where bl: "db_blobs t = Some bl"
      using db_invD(3) [OF t(2)] Some by (cases "db_blobs t") (auto simp: blobs_inv_def)
    have e: "(B \<union> set_option o') - {b} = B" using d Some by auto
    have "wp (on_blobs (release_count b)) (\<lambda>_ u. db_step t u \<and> db_inv u ch L B) (\<lambda>_ _. False) t"
      using release_blob_wp [OF t(2) bl, of b] Some d bs unfolding e entries_cong [OF t(1)] by fastforce
    then have "wp (on_blobs (release_count b)) (\<lambda>_ u. db_step db u \<and> db_inv u ch L B \<and> P) (\<lambda>_ u. db_step db u \<and> db_inv u ch L B \<and> P) t"
      by (rule wp_mono) (use t in \<open>auto intro: db_step_trans\<close>)
    then show ?thesis using Some
      by (simp add: wp_bnd wp_ignore release_blob_def) (erule wp_mono; simp)
  qed
  have keep: "db_inv (db\<lparr>db_body := t\<rparr>) ch L (B \<union> set_option o')" if "al_ext (db_body db) t" "al_inv t L" for t
    by (rule db_inv_body [OF inv _ that(2)]) (use that sub in \<open>auto simp: al_ext_step\<close>)
  show ?thesis
    unfolding allocate_node_or_release_def wp_catch wp_on_body
    apply (rule wp_mono [OF allocate_node_wp [OF ai k]])
    subgoal using good by (auto intro: db_step_upd)
    subgoal by (rule back') (auto simp: keep al_ext_step intro!: db_step_upd)
    done
qed

lemma release_private_wp:
  assumes p: "private_ok db ch L B a o'"
  shows "wp (release_private a o') (\<lambda>_ t. db_step db t \<and> db_inv t ch L B) (\<lambda>_ _. False) db"
proof -
  note d = private_okD [OF p]
  have vr: "validate_release (db_body db) a = Ok ()"
    by (rule validate_release_live [OF db_invD(2) [OF d(1)]]) (use body_reserve [OF d(1)] in auto)
  have vb: "validate_release bl b = Ok ()" if "db_blobs db = Some bl" "o' = Some b" for bl b
    by (rule validate_release_live [of bl "B \<union> set_option o'"])
      (use that db_invD(1,3) [OF d(1)] in \<open>auto simp: blobs_inv_def db_shape_def\<close>)
  have eqB: "(B \<union> set_option o') - set_option o' = B" using d(3) by auto
  have eqL: "insert a L - {a} = L" using d(2) by auto
  have cg: "entries t ch = entries db ch" if "db_step db t" for t using entries_cong [OF that] .
  have s1: "wp (if_blob o' (\<lambda>b. bnd (reads (\<lambda>al. validate_release al b)) (\<lambda>_. release_count b)))
      (\<lambda>_ t. db_step db t \<and> db_inv t ch (insert a L) B) (\<lambda>_ _. False) db"
  proof -
    have "if_blob o' (\<lambda>b. bnd (reads (\<lambda>al. validate_release al b)) (\<lambda>_. release_count b)) db = if_blob o' release_count db"
      using vb by (auto simp: if_blob_def on_blobs_def zoom_def applied split: option.splits)
    moreover have "wp (if_blob o' release_count) (\<lambda>_ t. db_step db t \<and> db_inv t ch (insert a L) B) (\<lambda>_ _. False) db"
      using if_blob_release_wp [OF d(1) _ d(6)] unfolding eqB by blast
    ultimately show ?thesis by (simp add: wp_def)
  qed
  have s2: "wp (on_body (tombstone_node (alloc_offset a))) (\<lambda>_ u. db_step db u \<and> db_inv u ch (insert a L) B) (\<lambda>_ _. False) t"
    if "db_step db t" "db_inv t ch (insert a L) B" for t
    by (rule wp_mono [OF tombstone_wp [OF that(2) insertI1 _ d(4)]])
      (use d(5) that cg [OF that(1)] in \<open>auto intro: db_step_trans\<close>)
  have s3: "wp (on_body (release_count a)) (\<lambda>_ u. db_step db u \<and> db_inv u ch L B) (\<lambda>_ _. False) t"
    if "db_step db t" "db_inv t ch (insert a L) B" for t
    by (rule wp_mono [OF release_node_wp [OF that(2) insertI1, unfolded eqL]])
      (use d(5) that cg [OF that(1)] in \<open>auto intro: db_step_trans\<close>)
  show ?thesis
    unfolding release_private_def wp_bnd wp_reads vr rwp_prim
    apply (rule wp_mono [OF s1]; clarsimp?)
    apply (rule wp_mono [OF s2]; clarsimp?)
    apply (rule wp_mono [OF s3]; clarsimp?)
    done
qed


subsection \<open>Insertion\<close>

text \<open>The chains after a value was stored: the new entry first, an older entry with its key gone.\<close>

abbreviation put_chain :: "chains \<Rightarrow> u64 \<Rightarrow> entry \<Rightarrow> chains" where
  "put_chain ch bk e \<equiv> ch(unat bk := e # remove_entry (en_key e) (ch (unat bk)))"

text \<open>Linking a private node in front of its chain.\<close>

lemma private_push:
  fixes key :: bytes
  assumes p: "private_ok db ch L B a o'" and at: "node_at (dmem (db_body db)) (a_lo a) key word 0"
    and sto: "stored db v o' word"
  defines "bk \<equiv> key_bucket db key"
  defines "root \<equiv> first_offset (ch (unat bk))"
  defines "t \<equiv> set_pointer (alloc_offset a) (node_word key word root) (db_body db)"
  defines "db2 \<equiv> db\<lparr>db_body := t, runtime_heads := (runtime_heads db)[unat bk := alloc_offset a]\<rparr>"
  shows "db_inv (db\<lparr>db_body := t\<rparr>) ch (insert a L) (B \<union> set_option o')" (is ?first)
    and "db_inv db2 (ch(unat bk := new_entry a key word o' v # ch (unat bk))) (insert a L) (B \<union> set_option o')" (is ?second)
    and "db_step db db2" and "unat root < 2 ^ 48" and "node_place (db_body db) (alloc_offset a)"
proof -
  note d = private_okD [OF p]
  let ?b = "unat bk" and ?e = "new_entry a key word o' v"
  have b: "?b < buckets db" using key_bucket_lt [OF db_invD(1) [OF d(1)]] by (simp add: bk_def)
  show small: "unat root < 2 ^ 48" using first_offset_small(1) [OF d(1) b, of "[]" "ch ?b"] by (simp add: root_def)
  let ?db1 = "db\<lparr>db_body := t\<rparr>"
  note ai = db_invD(2) [OF d(1)]
  show "node_place (db_body db) (alloc_offset a)" by (rule live_node_place [OF ai insertI1 d(4)])
  have nodes: "x \<in> en_node ` entries db ch \<Longrightarrow> x \<in> L" for x using p by (auto simp: private_ok_def)
  show i1: ?first
  proof (rule db_inv_body [OF d(1)])
    show "al_inv t (insert a L)" unfolding t_def by (rule al_inv_set_pointer [OF ai insertI1 d(4)])
    fix x y assume x: "x \<in> en_node ` entries db ch" "a_lo x \<le> y" "y < a_hi x"
    have "x \<in> insert a L" "x \<noteq> a" using nodes [OF x(1)] d(2) by auto
    then show "dmem t y = dmem (db_body db) y"
      unfolding t_def using set_pointer_other [OF ai insertI1 d(4)] x by blast
  qed (use nodes in \<open>auto simp: t_def\<close>)
  have e1: "entries ?db1 ch = entries db ch" by (simp add: entries_def)
  have at1: "node_at (dmem (db_body ?db1)) (a_lo a) key word root"
    using node_at_relink [OF at small] by (simp add: a_lo_def t_def)
  have "db_inv (?db1\<lparr>runtime_heads := (runtime_heads ?db1)[?b := alloc_offset (en_node ?e)]\<rparr>)
      (ch(?b := ?e # ch ?b)) (insert a L) (B \<union> set_option o')"
  proof (rule db_inv_push [OF i1])
    show "key_bucket ?db1 (en_key ?e) = bk" by (simp add: hash_bucket_def key_hash_def bk_def)
    show "value_ok ?db1 ?e" using sto value_ok_cong [of ?db1 db] by (simp add: stored_def)
    show "en_node ?e \<notin> en_node ` entries ?db1 ch" unfolding e1 using d(5) by simp
    show "node_at (dmem (db_body ?db1)) (a_lo (en_node ?e)) (en_key ?e) (en_word ?e) (first_offset (ch ?b))"
      using at1 by (simp add: root_def)
    show "x \<in> B \<union> set_option o' \<and> (\<forall>f \<in> entries ?db1 ch. en_blob f \<noteq> Some x)" if "en_blob ?e = Some x" for x
      unfolding e1 using d(6) that by fastforce
  qed (use b d(4) in auto)
  then show ?second by (simp add: db2_def)
  show "db_step db db2" by (simp add: db_step_def option.rel_refl db2_def t_def)
qed

lemma put_step_wp:
  fixes key :: bytes
  assumes p: "private_ok db ch L B a o'" and at: "node_at (dmem (db_body db)) (a_lo a) key word 0"
    and sto: "stored db v o' word"
  defines "bk \<equiv> key_bucket db key"
  defines "old \<equiv> lookup_entry key (ch (unat bk))"
  shows "wp (put_step key (key_hash db key) bk replace a o' 0)
     (\<lambda>c t. db_step db t \<and> (if old \<noteq> None \<and> \<not> replace then c = Return Existing \<and> db_inv t ch L B
        else c = Return (if old \<noteq> None then Replaced else Inserted)
           \<and> db_inv t (put_chain ch bk (new_entry a key word o' v)) (insert a L - node_set old) ((B \<union> set_option o') - blob_set old)))
     (\<lambda>_ _. False) db"
proof -
  note d = private_okD [OF p]
  let ?b = "unat bk" and ?e = "new_entry a key word o' v"
  let ?root = "first_offset (ch ?b)"
  have b: "?b < buckets db" using key_bucket_lt [OF db_invD(1) [OF d(1)]] by (simp add: bk_def)
  have fnd: "db_find db bk (key_hash db key) key = Ok (found_in bk ?root key [] (ch ?b))" by (rule db_find_eq [OF d(1) b])
  let ?t = "set_pointer (alloc_offset a) (node_word key word ?root) (db_body db)"
  let ?db1 = "db\<lparr>db_body := ?t\<rparr>"
  let ?db2 = "?db1\<lparr>runtime_heads := (runtime_heads db)[?b := alloc_offset a]\<rparr>"
  note pp = private_push [OF p at sto, folded bk_def]
  have i1: "db_inv ?db1 ch (insert a L) (B \<union> set_option o')" by (rule pp(1))
  have i2: "db_inv ?db2 (ch(?b := ?e # ch ?b)) (insert a L) (B \<union> set_option o')" using pp(2) by simp
  have st2: "db_step db ?db2" using pp(3) by simp
  have spn: "wp (set_private_next (alloc_offset a) 0 ?root) Q E (db_body db) = Q () ?t" for Q E
    by (rule wp_set_private_next [OF pp(5) _ pp(4)]) (use at in \<open>simp add: a_lo_def\<close>)
  have hd: "head ?db1 bk = Ok ?b" "runtime_heads ?db1 ! ?b = ?root"
    using read_head_eq(2) [OF i1, of bk] bucket_facts(2) [OF i1, of ?b] b by auto
  have tail: "wp (bnd (catch (on_body (set_private_next (alloc_offset a) 0 ?root)) (release_private_then a o')) (\<lambda>_.
       bnd (catch (reads (\<lambda>db. head db bk)) (release_private_then a o')) (\<lambda>incoming.
       bnd (cas_head incoming ?root (alloc_offset a)) (\<lambda>swapped.
       if swapped then bnd m (\<lambda>_. ok (Return r)) else ok (Continue c))))) Q E db
     = wp m (\<lambda>_. Q (Return r)) E ?db2" for m r c Q E
    using hd wp_ok_fun [of "Return r" Q E] by (simp add: wp_bnd wp_catch wp_on_body spn wp_reads wp_cas_head)
  show ?thesis
  proof (cases rule: found_in_cases [of key "ch ?b" bk ?root "[]"])
    case absent
    then have "old = None" by (simp add: old_def)
    then show ?thesis
      using fnd absent i2 st2
      by (simp add: put_step_def wp_bnd [where m = "catch (reads _) _"] wp_catch wp_reads Let_def tail)
  next
    case (present xs e ys)
    then have o: "old = Some e" by (simp add: old_def)
    show ?thesis
    proof (cases replace)
      case False
      show ?thesis
        using fnd present(4) o False
        apply (simp add: put_step_def wp_bnd wp_catch wp_reads Let_def)
        apply (rule wp_mono [OF release_private_wp [OF p]])
        by simp_all
    next
      case True
      have lk: "(case link_after bk xs of Head _ \<Rightarrow> Link_Node (alloc_offset a) | Link_Node off \<Rightarrow> Link_Node off) = link_after bk (?e # xs)"
        by (simp add: link_after_def)
      have un: "wp (unlink_link (link_after bk (?e # xs)) (node_of e (first_offset ys)))
         (\<lambda>_ t. db_step ?db2 t \<and> db_inv t ((ch(?b := ?e # ch ?b))(?b := (?e # xs) @ ys))
             (insert a L - {en_node e}) ((B \<union> set_option o') - set_option (en_blob e))) (\<lambda>_ _. False) ?db2"
        by (rule unlink_link_wp [OF i2]) (use b present(1) in auto)
      have chs: "(ch(?b := ?e # ch ?b))(?b := (?e # xs) @ ys) = put_chain ch bk ?e"
        using present by simp
      show ?thesis
        using fnd present(4) o True
        apply (simp add: put_step_def wp_bnd [where m = "catch (reads _) _"] wp_catch wp_reads Let_def tail lk)
        apply (rule wp_mono [OF un [unfolded chs]])
        using st2 by (auto intro: db_step_trans)
    qed
  qed
qed

text \<open>What a successful insertion of a value under a key leaves: one new entry at the front of its
  chain, the live allocations of the entry it replaces given back, nothing else allocated.\<close>

definition put_done :: "database \<Rightarrow> chains \<Rightarrow> u64 \<Rightarrow> bytes \<Rightarrow> bytes option \<Rightarrow> entry option \<Rightarrow> allocation set \<Rightarrow> allocation set \<Rightarrow> bool" where
  "put_done t ch bk key v old L B \<longleftrightarrow> (\<exists>a word o'. a \<notin> L \<and> set_option o' \<inter> B = {}
     \<and> db_inv t (put_chain ch bk (new_entry a key word o' v)) (insert a L - node_set old) ((B \<union> set_option o') - blob_set old))"

lemma put_inner_wp:
  fixes key :: bytes
  assumes inv: "db_inv db ch L B" and k: "length key = 16" and v: "validate_value db v = Ok ()"
  defines "bk \<equiv> key_bucket db key"
  defines "old \<equiv> lookup_entry key (ch (unat bk))"
  shows "wp (put_inner simd key v replace)
     (\<lambda>c t. db_step db t \<and> (if old \<noteq> None \<and> \<not> replace then c = Existing \<and> db_inv t ch L B
        else c = (if old \<noteq> None then Replaced else Inserted) \<and> put_done t ch bk key v old L B))
     (\<lambda>_ t. db_step db t \<and> db_inv t ch L B \<and> \<not> roomy db v) db"
    (is "wp _ ?Q ?E db")
proof -
  have bs: "set_option (en_blob e) \<subseteq> B" if "e \<in> entries db ch" for e using db_invD(6) [OF inv that] by auto
  have fin: "wp (loop (put_step key (key_hash t key) (key_bucket t key) replace a o') 0) ?Q ?E t"
    if t: "db_step db t" and p: "private_ok t ch L B a o'" and at: "node_at (dmem (db_body t)) (a_lo a) key word 0"
      and sto: "stored t v o' word" for t a o' word
  proof -
    have kb: "key_bucket t key = bk" using key_bucket_cong [OF db_step_config [OF t]] by (simp add: bk_def)
    have "set_option o' \<inter> B = {}" "a \<notin> L" using private_okD(2,3) [OF p] by auto
    then show ?thesis
      apply (intro wp_loop_once wp_mono [OF put_step_wp [OF p at sto, of replace]])
      unfolding kb old_def [symmetric]
      using t by (auto simp: put_done_def intro: db_step_trans split: if_splits) blast+
  qed
  have node: "wp (bnd (allocate_node_or_release simd key word o') (\<lambda>node.
       bnd (gets (\<lambda>d. hash_bucket d (key_hash t key))) (\<lambda>bucket.
       loop (put_step key (key_hash t key) bucket replace node o') 0))) ?Q ?E t"
    if t: "db_step db t" "db_inv t ch L (B \<union> set_option o')" "set_option o' \<inter> B = {}" "db_body t = db_body db"
      and sto: "stored t v o' word" for t o' word
  proof -
    have *: "wp (allocate_node_or_release simd key word o')
     (\<lambda>a u. db_step t u \<and> private_ok u ch L B a o' \<and> db_blobs u = db_blobs t
        \<and> node_at (dmem (db_body u)) (a_lo a) key word 0)
     (\<lambda>_ u. db_step t u \<and> db_inv u ch L B \<and> \<not> (al_calm (db_body t) \<and> hw (db_body t) < nbl (db_body t))) t"
      by (rule allocate_node_or_release_wp [OF t(2,3) k]) (use bs entries_cong [OF t(1)] in blast)
    show ?thesis
      unfolding wp_bnd
      apply (rule wp_mono [OF *])
      subgoal premises p for a u
      proof -
        have du: "db_step db u" using p t(1) by (blast intro: db_step_trans)
        have c: "db_config u = db_config t" using p by (blast intro: db_step_config)
        have kh: "key_hash u key = key_hash t key" using c by (simp add: key_hash_def)
        have "stored u v o' word" using stored_cong [OF c, of v o' word] p sto by blast
        then show ?thesis using fin [OF du, of a o' word] p unfolding kh wp_prim by blast
      qed
      subgoal using t by (auto simp: roomy_def intro: db_step_trans)
      done
  qed
  have start: "wp (put_inner simd key v replace) Q E db = wp (allocate_blob simd v) (\<lambda>o' t.
      rwp (encoded_value t v o') (\<lambda>word. wp (bnd (allocate_node_or_release simd key word o') (\<lambda>node.
         bnd (gets (\<lambda>d. hash_bucket d (key_hash t key))) (\<lambda>bucket.
         loop (put_step key (key_hash t key) bucket replace node o') 0))) Q E t) (\<lambda>e. E e t)) E db" for Q E
    using k v guard_ok [OF inv]
    by (simp add: put_inner_def wp_bnd wp_reads wp_lift validate_key_def KEY_SIZE_def wp_bnd [abs_def] wp_reads [abs_def])
  show ?thesis
    unfolding start
    apply (rule wp_mono [OF allocate_blob_wp [OF inv v]])
    subgoal for o' t using node [of t o'] unfolding stored_def by (elim conjE exE) (simp only: rwp_prim, blast)
    subgoal by blast
    done
qed

lemma validate_value_map: "mode (db_config db) = Map \<Longrightarrow> validate_value db (Some v) = Ok ()"
  by (simp add: validate_value_def ok_or_def)

lemma db_put_wp:
  fixes key :: bytes
  assumes inv: "db_inv db ch L B" and k: "length key = 16" and m: "mode (db_config db) = Map"
  defines "bk \<equiv> key_bucket db key"
  defines "old \<equiv> lookup_entry key (ch (unat bk))"
  shows "wp (db_put simd key v)
     (\<lambda>c t. db_step db t \<and> c = (if old = None then PR_Inserted else PR_Replaced)
        \<and> put_done t ch bk key (Some v) old L B)
     (\<lambda>_ t. db_step db t \<and> db_inv t ch L B \<and> \<not> roomy db (Some v)) db"
proof -
  note p = put_inner_wp [OF inv k validate_value_map [OF m, of v], of simd True, folded bk_def, folded old_def]
  show ?thesis
    using m apply (simp add: db_put_def wp_bnd split del: if_split)
    apply (rule wp_mono [OF p])
    by (auto split: if_splits)
qed

lemma db_put_new_wp:
  fixes key :: bytes
  assumes inv: "db_inv db ch L B" and k: "length key = 16" and m: "mode (db_config db) = Map"
  defines "bk \<equiv> key_bucket db key"
  defines "old \<equiv> lookup_entry key (ch (unat bk))"
  shows "wp (db_put_new simd key v)
     (\<lambda>c t. db_step db t \<and> c = (old = None)
        \<and> (if old = None then put_done t ch bk key (Some v) None L B else db_inv t ch L B))
     (\<lambda>_ t. db_step db t \<and> db_inv t ch L B \<and> \<not> roomy db (Some v)) db"
proof -
  note p = put_inner_wp [OF inv k validate_value_map [OF m, of v], of simd False, folded bk_def, folded old_def]
  show ?thesis
    using m apply (simp add: db_put_new_def wp_bnd split del: if_split)
    apply (rule wp_mono [OF p])
    by (auto split: if_splits)
qed

subsection \<open>Publication without a search\<close>

text \<open>\<open>commit_private_group\<close> of one private node: the node is pushed on its chain.\<close>

lemma commit_private_wp:
  fixes key :: bytes
  assumes p: "private_ok db ch L B a o'" and at: "node_at (dmem (db_body db)) (a_lo a) key word 0"
    and sto: "stored db v o' word"
  defines "bk \<equiv> key_bucket db key"
  shows "wp (commit_private_group \<lparr>pg_head = unat bk, pg_tail_node = alloc_offset a, pg_root = alloc_offset a\<rparr>)
     (\<lambda>_ t. db_step db t \<and> db_inv t (ch(unat bk := new_entry a key word o' v # ch (unat bk))) (insert a L) (B \<union> set_option o'))
     (\<lambda>_ _. False) db"
proof -
  note d = private_okD [OF p] and pp = private_push [OF p at sto, folded bk_def]
  have b: "unat bk < buckets db" using key_bucket_lt [OF db_invD(1) [OF d(1)]] by (simp add: bk_def)
  have at': "node_at (dmem (db_body db)) (unat (alloc_offset a)) key word 0" using at by (simp add: a_lo_def)
  have nx: "read_next (db_body db) (alloc_offset a) = Ok 0" by (rule read_pointer_at(2) [OF pp(5) at'])
  have h: "runtime_heads db ! unat bk = first_offset (ch (unat bk))" by (rule bucket_facts(2) [OF d(1) b])
  show ?thesis
    unfolding commit_private_group_def
    by (rule wp_loop_once)
      (use pp(2,3) nx h in \<open>simp add: commit_step_def wp_bnd wp_reads wp_on_body wp_compare_exchange_next [OF pp(5) at' _ pp(4)]
         wp_cas_head\<close>)
qed

text \<open>An insertion without a search: the new entry in front of the chain, older ones kept.\<close>

definition add_done :: "database \<Rightarrow> chains \<Rightarrow> u64 \<Rightarrow> bytes \<Rightarrow> bytes option \<Rightarrow> allocation set \<Rightarrow> allocation set \<Rightarrow> bool" where
  "add_done t ch bk key v L B \<longleftrightarrow> (\<exists>a word o'. a \<notin> L \<and> set_option o' \<inter> B = {}
     \<and> db_inv t (ch(unat bk := new_entry a key word o' v # ch (unat bk))) (insert a L) (B \<union> set_option o'))"

lemma allocate_private_insert_wp:
  assumes inv: "db_inv db ch L B" and k: "length key = 16" and v: "validate_value db v = Ok ()"
  shows "wp (allocate_private_insert simd key v bk)
     (\<lambda>p t. db_step db t \<and> pv_bucket p = bk \<and> private_ok t ch L B (pv_node p) (pv_blob p)
        \<and> (\<exists>word. stored t v (pv_blob p) word \<and> node_at (dmem (db_body t)) (a_lo (pv_node p)) key word 0))
     (\<lambda>_ t. db_step db t \<and> db_inv t ch L B \<and> \<not> roomy db v) db" (is "wp _ ?Q ?E db")
proof -
  have bs: "set_option (en_blob e) \<subseteq> B" if "e \<in> entries db ch" for e using db_invD(6) [OF inv that] by auto
  have node: "wp (allocate_node_or_release simd key word o')
      (\<lambda>a u. ?Q \<lparr>pv_node = a, pv_blob = o', pv_bucket = bk\<rparr> u) ?E t"
    if t: "db_step db t" "db_inv t ch L (B \<union> set_option o')" "set_option o' \<inter> B = {}" "db_body t = db_body db"
      and sto: "stored t v o' word" for t o' word
  proof -
    have *: "wp (allocate_node_or_release simd key word o')
     (\<lambda>a u. db_step t u \<and> private_ok u ch L B a o' \<and> db_blobs u = db_blobs t
        \<and> node_at (dmem (db_body u)) (a_lo a) key word 0)
     (\<lambda>_ u. db_step t u \<and> db_inv u ch L B \<and> \<not> (al_calm (db_body t) \<and> hw (db_body t) < nbl (db_body t))) t"
      by (rule allocate_node_or_release_wp [OF t(2,3) k]) (use bs entries_cong [OF t(1)] in blast)
    have "db_step t u \<Longrightarrow> db_blobs u = db_blobs t \<Longrightarrow> stored u v o' word" for u
      using stored_cong [OF db_step_config] sto by blast
    then show ?thesis
      by (intro wp_mono [OF *]) (use t in \<open>auto simp: roomy_def intro: db_step_trans\<close>)
  qed
  have start: "wp (allocate_private_insert simd key v bk) Q E db = wp (allocate_blob simd v) (\<lambda>o' t.
      rwp (encoded_value t v o') (\<lambda>word. wp (allocate_node_or_release simd key word o')
         (\<lambda>a. Q \<lparr>pv_node = a, pv_blob = o', pv_bucket = bk\<rparr>) E t) (\<lambda>e. E e t)) E db" for Q E
    by (simp add: allocate_private_insert_def wp_bnd wp_reads wp_bnd [abs_def] wp_reads [abs_def] wp_ok_fun)
  show ?thesis
    unfolding start
    apply (rule wp_mono [OF allocate_blob_wp [OF inv v]])
    subgoal for o' t using node [of t o'] unfolding stored_def by (elim conjE exE) (simp only: rwp_prim, blast)
    subgoal by blast
    done
qed

lemma insert_one_inner_wp:
  fixes key :: bytes
  assumes inv: "db_inv db ch L B" and k: "length key = 16" and v: "validate_value db v = Ok ()"
  shows "wp (insert_one_inner simd key v)
     (\<lambda>_ t. db_step db t \<and> add_done t ch (key_bucket db key) key v L B)
     (\<lambda>_ t. db_step db t \<and> db_inv t ch L B \<and> \<not> roomy db v) db" (is "wp _ ?Q ?E db")
proof -
  let ?bk = "key_bucket db key"
  have fin: "wp (commit_private_group \<lparr>pg_head = unat ?bk, pg_tail_node = alloc_offset a, pg_root = alloc_offset a\<rparr>) ?Q ?E t"
    if t: "db_step db t" and p: "private_ok t ch L B a o'" and at: "node_at (dmem (db_body t)) (a_lo a) key word 0"
      and sto: "stored t v o' word" for t a o' word
  proof -
    have kb: "key_bucket t key = ?bk" using key_bucket_cong [OF db_step_config [OF t]] .
    have "set_option o' \<inter> B = {}" "a \<notin> L" using private_okD(2,3) [OF p] by auto
    then show ?thesis
      by (intro wp_mono [OF commit_private_wp [OF p at sto, unfolded kb]])
        (use t in \<open>auto simp: add_done_def intro: db_step_trans\<close>)
  qed
  have hd: "head t ?bk = Ok (unat ?bk)" if "db_step db t" "private_ok t ch L B a o'" for t a o'
    by (rule read_head_eq(2) [OF private_okD(1) [OF that(2)]])
      (use key_bucket_lt [OF db_invD(1) [OF inv], of key] db_step_config [OF that(1)] in simp)
  have start: "wp (insert_one_inner simd key v) Q E db =
      wp (bnd (allocate_private_insert simd key v ?bk) (\<lambda>private.
     bnd (catch (reads (\<lambda>db. head db (pv_bucket private)))
           (release_private_then (pv_node private) (pv_blob private))) (\<lambda>h.
     commit_private_group \<lparr>pg_head = h, pg_tail_node = alloc_offset (pv_node private),
                           pg_root = alloc_offset (pv_node private)\<rparr>))) Q E db" for Q E
    using k v guard_ok [OF inv]
    by (simp add: insert_one_inner_def wp_bnd wp_reads wp_lift validate_key_def KEY_SIZE_def)
  show ?thesis
    unfolding start wp_bnd wp_catch wp_reads
    apply (rule wp_mono [OF allocate_private_insert_wp [OF inv k v]])
    subgoal for p t using fin [of t "pv_node p" "pv_blob p"]
      by (elim conjE exE) (simp only: hd [of t "pv_node p" "pv_blob p"] rwp_prim)
    subgoal by blast
    done
qed

lemma db_add_wp:
  fixes key :: bytes
  assumes inv: "db_inv db ch L B" and k: "length key = 16" and m: "mode (db_config db) = Set"
  shows "wp (db_add simd key)
     (\<lambda>r t. db_step db t \<and> r = PR_Inserted \<and> add_done t ch (key_bucket db key) key None L B)
     (\<lambda>_ t. db_step db t \<and> db_inv t ch L B \<and> \<not> roomy db None) db"
proof -
  have v: "validate_value db None = Ok ()" using m by (simp add: validate_value_def)
  show ?thesis
    using m apply (simp add: db_add_def wp_bnd)
    apply (rule wp_mono [OF insert_one_inner_wp [OF inv k v]])
    by simp_all
qed

end
