(* ===== verification/Table_Map.thy ===== *)
theory Table_Map
  imports Table_Insert
begin

text \<open>
  The abstract contents of the table of src/table.rs. A key owns a stack of values, newest
  first: \<open>put\<close> replaces the top, \<open>add\<close> and the write-only writer push, \<open>delete\<close> pops, \<open>get\<close>
  and \<open>contains\<close> look at the top. The operations of the table refine these, and a table in
  which no key has more than one value refines a finite map.
\<close>

subsection \<open>Tables without leaks\<close>

text \<open>Exactly the pages of the entries are live, and no delete lock is held.\<close>

abbreviation node_pages :: "database \<Rightarrow> chains \<Rightarrow> allocation set" where
  "node_pages db ch \<equiv> en_node ` entries db ch"

definition blob_pages :: "database \<Rightarrow> chains \<Rightarrow> allocation set" where
  "blob_pages db ch = (\<Union>e \<in> entries db ch. set_option (en_blob e))"

definition table :: "database \<Rightarrow> chains \<Rightarrow> bool" where
  "table db ch \<longleftrightarrow> db_inv db ch (node_pages db ch) (blob_pages db ch) \<and> unlocked db"

lemma entries_bucket:
  assumes "b < buckets db"
  shows "entries db (ch(b := es)) = set es \<union> (\<Union>c \<in> {..<buckets db} - {b}. set (ch c))"
  using assms by (auto simp: entries_def split: if_splits)

lemma entries_put:
  "b < buckets db \<Longrightarrow> entries db (ch(b := e # es)) = insert e (entries db (ch(b := es)))"
  by (simp add: entries_bucket)

lemma entries_split:
  assumes "b < buckets db" "ch b = xs @ e # ys"
  shows "entries db ch = insert e (entries db (ch(b := xs @ ys)))"
proof -
  have "entries db ch = entries db (ch(b := xs @ e # ys))" using assms(2) by (metis fun_upd_idem)
  then show ?thesis by (simp add: entries_bucket [OF assms(1)])
qed

lemma pages_drop:
  assumes inv: "db_inv db ch L B" and b: "b < buckets db" and s: "ch b = pre @ e # post"
  shows "node_pages db (ch(b := pre @ post)) = node_pages db ch - {en_node e}"
    and "blob_pages db (ch(b := pre @ post)) = blob_pages db ch - set_option (en_blob e)"
proof -
  let ?ch = "ch(b := pre @ post)"
  have sp: "entries db ch = insert e (entries db ?ch)" using entries_split [OF b, of ch pre e post] s by blast
  have nd: "f \<in> entries db ?ch \<Longrightarrow> en_node f \<noteq> en_node e" for f using entry_unique [OF inv b s] by blast
  have bd: "f \<in> entries db ?ch \<Longrightarrow> en_blob e = Some x \<Longrightarrow> en_blob f \<noteq> Some x" for f x
    using one_ownerD [OF db_invD(7) [OF inv], of e f x] nd [of f] sp by auto
  show "node_pages db ?ch = node_pages db ch - {en_node e}" unfolding sp using nd by auto
  show "blob_pages db ?ch = blob_pages db ch - set_option (en_blob e)"
    unfolding sp blob_pages_def using bd by fastforce
qed

lemma pages_remove:
  assumes inv: "db_inv db ch L B" and b: "b < buckets db"
  shows "node_pages db (ch(b := remove_entry key (ch b))) = node_pages db ch - node_set (lookup_entry key (ch b))
     \<and> blob_pages db (ch(b := remove_entry key (ch b))) = blob_pages db ch - blob_set (lookup_entry key (ch b))"
proof (cases rule: found_in_cases [of key "ch b" 0 0 "[]"])
  case absent
  then show ?thesis by (simp add: fun_upd_idem)
next
  case (present xs e ys)
  then show ?thesis using pages_drop [OF inv b, of xs e ys] by simp
qed

lemma lookup_mem: "lookup_entry key es = Some e \<Longrightarrow> e \<in> set es \<and> en_key e = key"
  by (auto simp: lookup_entry_def find_Some_iff)

lemma pages_cong: "db_step db t \<Longrightarrow> blob_pages t ch = blob_pages db ch"
  by (simp add: blob_pages_def entries_cong)

lemma unlocked_step: "db_step db t \<Longrightarrow> unlocked t = unlocked db"
  by (simp add: unlocked_def db_step_def)

lemma table_put:
  fixes key :: bytes
  assumes tab: "table db ch" and st: "db_step db t"
  defines "bk \<equiv> key_bucket db key"
  defines "old \<equiv> lookup_entry key (ch (unat bk))"
  assumes d: "put_done t ch bk key v old (node_pages db ch) (blob_pages db ch)"
  shows "\<exists>e. en_key e = key \<and> en_value e = (case v of None \<Rightarrow> [] | Some v \<Rightarrow> v) \<and> table t (put_chain ch bk e)"
proof -
  have inv: "db_inv db ch (node_pages db ch) (blob_pages db ch)" and u: "unlocked db" using tab by (auto simp: table_def)
  have b: "unat bk < buckets db" using key_bucket_lt [OF db_invD(1) [OF inv]] by (simp add: bk_def)
  note rm = pages_remove [OF inv b, of key, folded old_def, THEN conjunct1] pages_remove [OF inv b, of key, folded old_def, THEN conjunct2]
  from d obtain a word o' where a: "a \<notin> node_pages db ch" "set_option o' \<inter> blob_pages db ch = {}"
    and i: "db_inv t (put_chain ch bk (new_entry a key word o' v)) (insert a (node_pages db ch) - node_set old)
        ((blob_pages db ch \<union> set_option o') - blob_set old)" unfolding put_done_def by blast
  let ?e = "new_entry a key word o' v"
  let ?ch = "put_chain ch bk ?e"
  have oe: "old = Some f \<Longrightarrow> f \<in> entries db ch" for f
    using lookup_mem [of key "ch (unat bk)" f] b by (auto simp: old_def entries_def)
  have sub: "node_set old \<subseteq> node_pages db ch" "blob_set old \<subseteq> blob_pages db ch"
    using oe by (auto simp: blob_pages_def)
  have e: "entries db ?ch = insert ?e (entries db (ch(unat bk := remove_entry key (ch (unat bk)))))"
    using entries_put [OF b] by simp
  have "node_pages t ?ch = insert a (node_pages db ch) - node_set old"
    unfolding entries_cong [OF st] e using a sub rm(1) by auto
  moreover have "blob_pages t ?ch = (blob_pages db ch \<union> set_option o') - blob_set old"
  proof -
    have "blob_pages db ?ch = set_option o' \<union> (blob_pages db ch - blob_set old)"
      unfolding blob_pages_def e using rm(2) [unfolded blob_pages_def] by simp
    also have "\<dots> = (blob_pages db ch \<union> set_option o') - blob_set old" using a(2) sub(2) by blast
    finally show ?thesis using pages_cong [OF st] by simp
  qed
  ultimately have "table t ?ch" using i u unlocked_step [OF st] by (simp add: table_def)
  then show ?thesis by (intro exI [of _ ?e]) simp
qed

lemma table_add:
  fixes key :: bytes
  assumes tab: "table db ch" and st: "db_step db t"
  defines "bk \<equiv> key_bucket db key"
  assumes d: "add_done t ch bk key v (node_pages db ch) (blob_pages db ch)"
  shows "\<exists>e. en_key e = key \<and> en_value e = (case v of None \<Rightarrow> [] | Some v \<Rightarrow> v) \<and> table t (ch(unat bk := e # ch (unat bk)))"
proof -
  have inv: "db_inv db ch (node_pages db ch) (blob_pages db ch)" and u: "unlocked db" using tab by (auto simp: table_def)
  have b: "unat bk < buckets db" using key_bucket_lt [OF db_invD(1) [OF inv]] by (simp add: bk_def)
  from d obtain a word o' where
    i: "db_inv t (ch(unat bk := new_entry a key word o' v # ch (unat bk))) (insert a (node_pages db ch))
        (blob_pages db ch \<union> set_option o')" unfolding add_done_def by blast
  let ?e = "new_entry a key word o' v"
  let ?ch = "ch(unat bk := ?e # ch (unat bk))"
  have e: "entries db ?ch = insert ?e (entries db ch)" using entries_put [OF b, of ch ?e "ch (unat bk)"] by simp
  have "node_pages t ?ch = insert a (node_pages db ch)" unfolding entries_cong [OF st] e by simp
  moreover have "blob_pages t ?ch = blob_pages db ch \<union> set_option o'"
    unfolding pages_cong [OF st] unfolding blob_pages_def e by auto
  ultimately have "table t ?ch" using i u unlocked_step [OF st] by (simp add: table_def)
  then show ?thesis by (intro exI [of _ ?e]) simp
qed

lemma table_delete:
  fixes key :: bytes
  assumes tab: "table db ch" and st: "db_step db t"
  defines "bk \<equiv> key_bucket db key"
  defines "old \<equiv> lookup_entry key (ch (unat bk))"
  assumes i: "db_inv t (ch(unat bk := remove_entry key (ch (unat bk)))) (node_pages db ch - node_set old) (blob_pages db ch - blob_set old)"
  shows "table t (ch(unat bk := remove_entry key (ch (unat bk))))"
proof -
  have inv: "db_inv db ch (node_pages db ch) (blob_pages db ch)" and u: "unlocked db" using tab by (auto simp: table_def)
  have b: "unat bk < buckets db" using key_bucket_lt [OF db_invD(1) [OF inv]] by (simp add: bk_def)
  note rm = pages_remove [OF inv b, of key, folded old_def, THEN conjunct1] pages_remove [OF inv b, of key, folded old_def, THEN conjunct2]
  show ?thesis
    using i u unlocked_step [OF st] unfolding table_def entries_cong [OF st] pages_cong [OF st] rm by simp
qed

subsection \<open>The values of a key\<close>

type_synonym history = "bytes \<Rightarrow> bytes list"

definition versions :: "database \<Rightarrow> chains \<Rightarrow> history" where
  "versions db ch key = map en_value (filter (\<lambda>e. en_key e = key) (ch (unat (key_bucket db key))))"

definition stores :: "database \<Rightarrow> history \<Rightarrow> bool" where
  "stores db f \<longleftrightarrow> (\<exists>ch. table db ch \<and> f = versions db ch)"

lemma filter_remove_entry:
  "filter (\<lambda>e. en_key e = key) (remove_entry key es) = tl (filter (\<lambda>e. en_key e = key) es)"
  "k \<noteq> key \<Longrightarrow> filter (\<lambda>e. en_key e = k) (remove_entry key es) = filter (\<lambda>e. en_key e = k) es"
  by (induction es) auto

lemma lookup_entry_filter:
  "lookup_entry key es = (case filter (\<lambda>e. en_key e = key) es of [] \<Rightarrow> None | e # _ \<Rightarrow> Some e)"
  by (induction es) (auto simp: lookup_entry_def)

lemma lookup_versions:
  "lookup_entry key (ch (unat (key_bucket db key))) = None \<longleftrightarrow> versions db ch key = []"
  "lookup_entry key (ch (unat (key_bucket db key))) = Some e \<Longrightarrow> \<exists>vs. versions db ch key = en_value e # vs"
  by (auto simp: lookup_entry_filter versions_def split: list.splits)

lemma versions_bucket:
  fixes key :: bytes
  assumes c: "db_config t = db_config db"
    and o: "\<And>k. k \<noteq> key \<Longrightarrow> filter (\<lambda>e. en_key e = k) es = filter (\<lambda>e. en_key e = k) (ch (unat (key_bucket db key)))"
  shows "versions t (ch(unat (key_bucket db key) := es))
     = (versions db ch)(key := map en_value (filter (\<lambda>e. en_key e = key) es))"
proof (rule ext)
  fix k
  show "versions t (ch(unat (key_bucket db key) := es)) k
     = ((versions db ch)(key := map en_value (filter (\<lambda>e. en_key e = key) es))) k"
    using o [of k] key_bucket_cong [OF c, of k] by (auto simp: versions_def)
qed

lemma versions_cong: "db_config t = db_config db \<Longrightarrow> versions t ch = versions db ch"
  using key_bucket_cong [of t db] by (simp add: versions_def fun_eq_iff)

lemma stores_keep:
  assumes tab: "table db ch" and st: "db_step db t" and i: "db_inv t ch (node_pages db ch) (blob_pages db ch)"
  shows "stores t (versions db ch)"
proof -
  have "table t ch" using i tab unlocked_step [OF st] unfolding table_def entries_cong [OF st] pages_cong [OF st] by simp
  then show ?thesis using versions_cong [OF db_step_config [OF st]] unfolding stores_def by metis
qed

lemma stores_put:
  fixes key :: bytes
  assumes tab: "table db ch" and st: "db_step db t"
    and d: "put_done t ch (key_bucket db key) key v (lookup_entry key (ch (unat (key_bucket db key)))) (node_pages db ch) (blob_pages db ch)"
  shows "stores t ((versions db ch)(key := (case v of None \<Rightarrow> [] | Some v \<Rightarrow> v) # tl (versions db ch key)))"
proof -
  let ?bk = "key_bucket db key"
  from table_put [OF tab st d] obtain e where e: "en_key e = key" "en_value e = (case v of None \<Rightarrow> [] | Some v \<Rightarrow> v)"
    and t: "table t (put_chain ch ?bk e)" by blast
  have "versions t (put_chain ch ?bk e) = (versions db ch)(key := en_value e # tl (versions db ch key))"
    by (subst versions_bucket [OF db_step_config [OF st]])
      (use e(1) in \<open>auto simp: filter_remove_entry versions_def map_tl\<close>)
  then show ?thesis using t e(2) unfolding stores_def by metis
qed

lemma stores_add:
  fixes key :: bytes
  assumes tab: "table db ch" and st: "db_step db t"
    and d: "add_done t ch (key_bucket db key) key v (node_pages db ch) (blob_pages db ch)"
  shows "stores t ((versions db ch)(key := (case v of None \<Rightarrow> [] | Some v \<Rightarrow> v) # versions db ch key))"
proof -
  let ?bk = "key_bucket db key"
  from table_add [OF tab st d] obtain e where e: "en_key e = key" "en_value e = (case v of None \<Rightarrow> [] | Some v \<Rightarrow> v)"
    and t: "table t (ch(unat ?bk := e # ch (unat ?bk)))" by blast
  have "versions t (ch(unat ?bk := e # ch (unat ?bk))) = (versions db ch)(key := en_value e # versions db ch key)"
    by (subst versions_bucket [OF db_step_config [OF st]]) (use e(1) in \<open>auto simp: versions_def\<close>)
  then show ?thesis using t e(2) unfolding stores_def by metis
qed

lemma stores_delete:
  fixes key :: bytes
  assumes tab: "table db ch" and st: "db_step db t"
  defines "es \<equiv> ch (unat (key_bucket db key))"
  assumes i: "db_inv t (ch(unat (key_bucket db key) := remove_entry key es))
       (node_pages db ch - node_set (lookup_entry key es)) (blob_pages db ch - blob_set (lookup_entry key es))"
  shows "stores t ((versions db ch)(key := tl (versions db ch key)))"
proof -
  let ?bk = "key_bucket db key"
  have t: "table t (ch(unat ?bk := remove_entry key es))" using table_delete [OF tab st] i by (simp add: es_def)
  have "versions t (ch(unat ?bk := remove_entry key es)) = (versions db ch)(key := tl (versions db ch key))"
    by (subst versions_bucket [OF db_step_config [OF st]]) (auto simp: filter_remove_entry versions_def map_tl es_def)
  then show ?thesis using t unfolding stores_def by metis
qed

subsection \<open>Refinement\<close>

lemma stores_inv: "table db ch \<Longrightarrow> db_inv db ch (node_pages db ch) (blob_pages db ch)" "table db ch \<Longrightarrow> unlocked db"
  by (simp_all add: table_def)

lemma put_refines:
  assumes s: "stores db f" and k: "length key = 16" and m: "mode (db_config db) = Map"
  shows "wp (db_put simd key v)
     (\<lambda>r t. db_step db t \<and> r = (if f key = [] then PR_Inserted else PR_Replaced) \<and> stores t (f(key := v # tl (f key))))
     (\<lambda>_ t. db_step db t \<and> stores t f \<and> \<not> roomy db (Some v)) db"
proof -
  from s obtain ch where tab: "table db ch" and f: "f = versions db ch" unfolding stores_def by blast
  show ?thesis
    unfolding f
    by (rule wp_mono [OF db_put_wp [OF stores_inv(1) [OF tab] k m]])
      (use stores_put [OF tab, of _ key "Some v"] stores_keep [OF tab] lookup_versions(1) [of key ch db] in auto)
qed

lemma put_new_refines:
  assumes s: "stores db f" and k: "length key = 16" and m: "mode (db_config db) = Map"
  shows "wp (db_put_new simd key v)
     (\<lambda>r t. db_step db t \<and> r = (f key = []) \<and> stores t (if f key = [] then f(key := [v]) else f))
     (\<lambda>_ t. db_step db t \<and> stores t f \<and> \<not> roomy db (Some v)) db"
proof -
  from s obtain ch where tab: "table db ch" and f: "f = versions db ch" unfolding stores_def by blast
  show ?thesis
    unfolding f
    by (rule wp_mono [OF db_put_new_wp [OF stores_inv(1) [OF tab] k m]])
      (use stores_put [OF tab, of _ key "Some v"] stores_keep [OF tab] lookup_versions(1) [of key ch db] in \<open>auto split: if_splits\<close>)
qed

lemma add_refines:
  assumes s: "stores db f" and k: "length key = 16" and m: "mode (db_config db) = Set"
  shows "wp (db_add simd key)
     (\<lambda>r t. db_step db t \<and> r = PR_Inserted \<and> stores t (f(key := [] # f key)))
     (\<lambda>_ t. db_step db t \<and> stores t f \<and> \<not> roomy db None) db"
proof -
  from s obtain ch where tab: "table db ch" and f: "f = versions db ch" unfolding stores_def by blast
  show ?thesis
    unfolding f
    by (rule wp_mono [OF db_add_wp [OF stores_inv(1) [OF tab] k m]])
      (use stores_add [OF tab, of _ key None] stores_keep [OF tab] in auto)
qed

lemma delete_refines:
  assumes s: "stores db f" and k: "length key = 16"
  shows "wp (db_delete key)
     (\<lambda>r t. db_step db t \<and> r = (f key \<noteq> []) \<and> stores t (f(key := tl (f key)))) (\<lambda>_ _. False) db"
proof -
  from s obtain ch where tab: "table db ch" and f: "f = versions db ch" unfolding stores_def by blast
  show ?thesis
    unfolding f
    by (rule wp_mono [OF db_delete_wp [OF stores_inv [OF tab] k]])
      (use stores_delete [OF tab, of _ key] lookup_versions(1) [of key ch db] in auto)
qed

lemma contains_refines:
  assumes s: "stores db f" and k: "length key = 16"
  shows "db_contains db key = Ok (f key \<noteq> [])"
proof -
  from s obtain ch where tab: "table db ch" and f: "f = versions db ch" unfolding stores_def by blast
  note inv = stores_inv(1) [OF tab]
  note fnd = db_find_eq [OF inv key_bucket_lt [OF db_invD(1) [OF inv]], of key key]
  show ?thesis
    using fnd k guard_ok [OF inv] lookup_versions(1) [of key ch db] unfolding f
    by (cases rule: found_in_cases [of key "ch (unat (key_bucket db key))" "key_bucket db key" "first_offset (ch (unat (key_bucket db key)))" "[]"])
      (simp_all add: db_contains_def validate_key_def KEY_SIZE_def Let_def)
qed

lemma get_refines:
  assumes s: "stores db f" and k: "length key = 16" and m: "mode (db_config db) = Map"
  shows "f key = [] \<Longrightarrow> db_get db key = Ok None"
    and "f key = v # vs \<Longrightarrow> \<exists>bl. db_blobs db = Some bl \<and> db_get db key \<in> {Ok (Some v), Err OutOfMemory}
       \<and> (length v \<le> reserve_limit (al_data bl) \<longrightarrow> db_get db key = Ok (Some v))"
proof -
  from s obtain ch where tab: "table db ch" and f: "f = versions db ch" unfolding stores_def by blast
  note inv = stores_inv(1) [OF tab]
  let ?bk = "key_bucket db key"
  have b: "unat ?bk < buckets db" by (rule key_bucket_lt [OF db_invD(1) [OF inv]])
  note fnd = db_find_eq [OF inv b, of key]
  have g: "db_get db key = rbind (db_find db ?bk (key_hash db key) key) (\<lambda>found. case fd_node found of None \<Rightarrow> Ok None
      | Some n \<Rightarrow> rbind (read_node_value db n) (\<lambda>v. Ok (Some v)))"
    using k m guard_ok [OF inv] by (simp add: db_get_def validate_key_def KEY_SIZE_def Let_def)
  show "db_get db key = Ok None" if "f key = []"
  proof (cases rule: found_in_cases [of key "ch (unat ?bk)" ?bk "first_offset (ch (unat ?bk))" "[]"])
    case absent
    then show ?thesis using fnd g by simp
  next
    case (present xs e ys)
    then show ?thesis using that f lookup_versions(1) [of key ch db] by simp
  qed
  show "\<exists>bl. db_blobs db = Some bl \<and> db_get db key \<in> {Ok (Some v), Err OutOfMemory}
       \<and> (length v \<le> reserve_limit (al_data bl) \<longrightarrow> db_get db key = Ok (Some v))" if fk: "f key = v # vs"
  proof (cases rule: found_in_cases [of key "ch (unat ?bk)" ?bk "first_offset (ch (unat ?bk))" "[]"])
    case absent
    then show ?thesis using fk f lookup_versions(1) [of key ch db] by simp
  next
    case (present xs e ys)
    have "en_value e = v" using lookup_versions(2) [of key ch db e] present fk f by auto
    moreover have "e \<in> entries db ch" using entriesI [OF b, of e ch] present(1) by simp
    ultimately show ?thesis
      using read_entry_value [OF inv, of e "first_offset ys"] m fnd present(4) g by fastforce
  qed
qed

subsection \<open>Creation\<close>

lemma rmap_const: "rmap (\<lambda>_. Ok c) xs = Ok (replicate (length xs) c)"
  by (induction xs) simp_all

lemma create_heads_eq:
  "create_runtime_heads n f False = (if unat n \<le> reserve_limit f then Ok (replicate (unat n) 0) else Err OutOfMemory)"
  by (simp add: create_runtime_heads_def try_reserve_def rmap_const)

lemma empty_table:
  assumes c: "db_config db = c" "bucket_count c \<noteq> 0" "runtime_heads db = replicate (unat (bucket_count c)) 0"
      "delete_locks db = replicate (unat (bucket_count c)) 0" "\<not> quiescence_poisoned db"
    and body: "al_inv (db_body db) {}" "unat (al_capacity (db_body db)) + 65536 < 2 ^ 48" "2 \<le> reserve_limit (al_counts (db_body db))"
    and blobs: "case db_blobs db of None \<Rightarrow> mode c = Set | Some bl \<Rightarrow> mode c = Map \<and> al_inv bl {} \<and> 2 \<le> reserve_limit (al_counts bl)"
  shows "stores db (\<lambda>_. [])"
proof -
  let ?ch = "\<lambda>_. [] :: entry list"
  have e: "entries db ?ch = {}" by (simp add: entries_def)
  have sh: "db_shape db" using assms by (cases "db_blobs db") (simp_all add: db_shape_def unat_gt_0)
  have bi: "blobs_inv (db_blobs db) {}" using blobs by (simp add: blobs_inv_def split: option.splits)
  have "db_inv db ?ch {} {}"
    using sh body bi c by (simp add: db_inv_def e bucket_ok_def one_owner_def)
  then have "table db ?ch" using c by (simp add: table_def e blob_pages_def unlocked_def)
  moreover have "versions db ?ch = (\<lambda>_. [])" by (simp add: versions_def fun_eq_iff)
  ultimately show ?thesis unfolding stores_def by metis
qed

lemma validate_capacity:
  assumes "validate c = Ok ()"
  shows "bucket_count c \<noteq> 0" "unat (body_capacity c) + 65536 < 2 ^ 48"
proof -
  have "body_capacity c \<le> saturating_sub NODE_POINTER_MASK DATA_START"
    using assms by (auto simp: validate_def split: if_splits)
  then have "unat (body_capacity c) \<le> unat (saturating_sub NODE_POINTER_MASK DATA_START)" by (simp add: word_le_nat_alt)
  also have "\<dots> = 2 ^ 48 - 1 - 65536"
    by (simp add: saturating_sub_def layout_defs push_bit_eq_mult)
  finally show "unat (body_capacity c) + 65536 < 2 ^ 48" by simp
  show "bucket_count c \<noteq> 0" using assms by (auto simp: validate_def split: if_splits)
qed

lemma create_stores:
  assumes "db_create env c = Ok db" "2 \<le> reserve_limit (env_body_counts env)" "2 \<le> reserve_limit (env_blobs_counts env)"
  shows "db_config db = c" "stores db (\<lambda>_. [])"
proof -
  from assms(1) obtain heads body blobs where v: "validate c = Ok ()"
    and body: "al_create (env_body env) (env_body_counts env) False False (body_capacity c) (block_size c) = Ok body"
    and blobs: "(if mode c = Map then
              rbind (al_create (env_blobs env) (env_blobs_counts env) False False (blob_capacity c) (block_size c)) (\<lambda>b. Ok (Some b))
            else Ok None) = Ok blobs"
    and db: "db = \<lparr>db_config = c, db_heads = heads, runtime_heads = replicate (unat (bucket_count c)) 0,
         delete_locks = replicate (unat (bucket_count c)) 0,
         db_body = body, db_blobs = blobs, checkpoint_state = 0, checkpoint_generation = 0,
         quiescence_poisoned = False, compaction_state = 0\<rparr>"
    by (auto simp: db_create_def rbind_Ok_iff create_heads_eq create_delete_locks_def try_reserve_def split: if_splits)
  show "db_config db = c" by (simp add: db)
  note bi = al_create_inv [OF body]
  have bl: "case blobs of None \<Rightarrow> mode c = Set | Some bl \<Rightarrow> mode c = Map \<and> al_inv bl {} \<and> 2 \<le> reserve_limit (al_counts bl)"
    using blobs assms(3) mode.exhaust [of "mode c"] by (auto simp: rbind_Ok_iff split: if_splits dest!: al_create_inv)
  show "stores db (\<lambda>_. [])"
    by (rule empty_table [of _ c]) (use validate_capacity [OF v] bi bl assms(2) in \<open>simp_all add: db\<close>)
qed

subsection \<open>The header page\<close>

fun fields_in :: "nat \<Rightarrow> (usize \<times> u64) list \<Rightarrow> nat \<Rightarrow> bool" where
  "fields_in n [] m \<longleftrightarrow> n \<le> m"
| "fields_in n ((i, _) # fs) m \<longleftrightarrow> n \<le> i \<and> fields_in (i + 8) fs m"

lemma fields_in_le: "fields_in n fs m \<Longrightarrow> n \<le> m"
  by (induction n fs m rule: fields_in.induct) auto

lemma write_header_eq:
  "i + 8 \<le> length h \<Longrightarrow> length h \<le> 65536 \<Longrightarrow> write_header_u64 h i v = Ok (splice h i (u64_le v))"
  by (simp add: write_header_u64_def usize_checked_add_def)

lemma write_fields:
  assumes "fields_in n fs m" "length h = 65536" "m \<le> 65536"
  shows "\<exists>h'. rfold (\<lambda>(i, v) h. write_header_u64 h i v) fs h = Ok h' \<and> length h' = 65536
     \<and> (\<forall>(i, v) \<in> set fs. slice h' i (i + 8) = Some (u64_le v)) \<and> (\<forall>a b. b \<le> n \<longrightarrow> slice h' a b = slice h a b)"
  using assms
proof (induction n fs m arbitrary: h rule: fields_in.induct)
  case (2 n i v fs m)
  have im: "i + 8 \<le> 65536" using fields_in_le [of "i + 8" fs m] 2 by simp
  let ?h = "splice h i (u64_le v)"
  have l: "length ?h = 65536" using im 2 by simp
  from 2(1) [of ?h] l "2.prems" obtain h' where h': "rfold (\<lambda>(i, v) h. write_header_u64 h i v) fs ?h = Ok h'" "length h' = 65536"
    "\<forall>(i, v) \<in> set fs. slice h' i (i + 8) = Some (u64_le v)" "\<forall>a b. b \<le> i + 8 \<longrightarrow> slice h' a b = slice ?h a b"
    by (simp only: fields_in.simps) blast
  have a: "slice h' i (i + 8) = Some (u64_le v)" using h'(4) slice_splice_same [of i "u64_le v" h] im 2 by simp
  have b: "slice h' a b = slice h a b" if "b \<le> n" for a b
    using h'(4) slice_splice_disjoint [of i "u64_le v" h b a] that 2 im by simp
  show ?case
    using h'(1-3) a b im 2 by (intro exI [of _ h']) (simp add: write_header_eq)
qed (simp add: exI)

text \<open>The header page: every field is where it was written, and the checksum covers what precedes it.\<close>

lemma header_page_eq:
  "\<exists>h. header_page c = Ok h \<and> length h = 65536 \<and> slice h 0 8 = Some HEADER_MAGIC
     \<and> (\<forall>(i, v) \<in> set (header_fields c). slice h i (i + 8) = Some (u64_le v))
     \<and> slice h 96 104 = Some (u64_le (xxh64 (take 96 h) HEADER_CHECKSUM_SEED))"
proof -
  let ?h = "splice (replicate (unat FORMAT_PAGE_SIZE) 0) 0 HEADER_MAGIC"
  have l: "length ?h = 65536" by (simp add: layout_defs HEADER_MAGIC_def)
  have fi: "fields_in 8 (header_fields c) 96" by (simp add: header_fields_def)
  from write_fields [OF fi l] obtain h where h: "rfold (\<lambda>(i, v) h. write_header_u64 h i v) (header_fields c) ?h = Ok h"
    "length h = 65536" "\<forall>(i, v) \<in> set (header_fields c). slice h i (i + 8) = Some (u64_le v)"
    "\<forall>a b. b \<le> 8 \<longrightarrow> slice h a b = slice ?h a b" by auto
  have "length HEADER_MAGIC = 8" by (simp add: HEADER_MAGIC_def)
  then have mg: "slice h 0 8 = Some HEADER_MAGIC"
    using h(4) slice_splice_same [of 0 HEADER_MAGIC "replicate (unat FORMAT_PAGE_SIZE) 0"] by (simp add: layout_defs)
  let ?x = "u64_le (xxh64 (take 96 h) HEADER_CHECKSUM_SEED)"
  let ?r = "splice h 96 ?x"
  have dis: "slice ?r a b = slice h a b" if "b \<le> 96" for a b
    using slice_splice_disjoint [of 96 ?x h b a] that h(2) by simp
  have cs: "header_checksum h = Ok (xxh64 (take 96 h) HEADER_CHECKSUM_SEED)"
    using h(2) by (simp add: header_checksum_def HEADER_CHECKSUM_OFFSET_def ok_or_def)
  have pg: "header_page c = Ok ?r"
    unfolding header_page_def h(1) using h(2) cs by (simp add: write_header_eq HEADER_CHECKSUM_OFFSET_def)
  have le: "i + 8 \<le> 96" if "(i, v) \<in> set (header_fields c)" for i v using that by (auto simp: header_fields_def)
  have "take 96 ?r = take 96 h" using h(2) by (simp add: splice_def)
  moreover have "slice ?r 96 104 = Some ?x" using slice_splice_same [of 96 ?x h] h(2) by simp
  moreover have "slice ?r 0 8 = Some HEADER_MAGIC" using dis mg by simp
  moreover have "\<forall>(i, v) \<in> set (header_fields c). slice ?r i (i + 8) = Some (u64_le v)"
  proof (clarify)
    fix i v assume iv: "(i, v) \<in> set (header_fields c)"
    have "slice h i (i + 8) = Some (u64_le v)" using h(3) iv by (metis (mono_tags, lifting) case_prodD)
    then show "slice ?r i (i + 8) = Some (u64_le v)" using dis [OF le [OF iv]] by simp
  qed
  moreover have "length ?r = 65536" using h(2) by simp
  ultimately show ?thesis using pg by (intro exI [of _ ?r]) simp
qed

lemma initialize_header_wp:
  assumes "mf_inv f" "65536 \<le> flen f" "65536 \<le> reserve_limit f"
  obtains h where "header_page c = Ok h" "length h = 65536"
    "initialize_header c f = Some (Inr (), f\<lparr>mem := mwrite 0 h (mem f)\<rparr>)"
proof -
  obtain h where h: "header_page c = Ok h" "length h = 65536" using header_page_eq [of c] by blast
  have "copy_in 0 h f = Some (Inr (), f\<lparr>mem := mwrite 0 h (mem f)\<rparr>)"
    using copy_in_idle [OF assms(1), of 0 h] assms(2) h(2) by simp
  then show thesis
    using that [OF h] assms(3) h(1)
    by (simp add: initialize_header_def bnd_def reads_def lift_def try_reserve_def layout_defs)
qed

subsection \<open>A concrete database\<close>

definition small_config :: "mode \<Rightarrow> config" where
  "small_config m = \<lparr>mode = m, bucket_count = 4, body_capacity = 131072,
     blob_capacity = (if m = Map then 131072 else 0), block_size = 65536, hash_seed = 0\<rparr>"

definition quiet_create :: create_env where
  "quiet_create = \<lparr>env_dir = None, env_heads = quiet_env, env_body = quiet_env, env_body_counts = quiet_env,
     env_blobs = quiet_env, env_blobs_counts = quiet_env\<rparr>"

lemma heads_length_4: "heads_length 4 = Ok 262144"
proof -
  have p: "is_power_of_two (65536 :: u64)" using is_power_of_two_2p [of 16, where 'a = 64] by simp
  obtain r where r: "align_up 32 65536 = Some r" "unat r = 65536" using align_up_eq [OF p, of 32] by auto
  then have "r = 65536" by (simp add: word_unat_eq_iff)
  with r have "align_up 32 65536 = Some 65536" by simp
  then show ?thesis by (simp add: heads_length_def bank_size_def layout_defs checked_mul_def checked_add_def ok_or_def)
qed

lemma quiet_allocator:
  assumes al: "al_create quiet_env quiet_env False False 131072 65536 = Ok al"
  shows "al_calm al \<and> hw al < nbl al \<and> bsz al = 65536 \<and> reserve_limit (al_data al) = 1048576"
proof -
  obtain b where "al_create quiet_env quiet_env False False 131072 65536 = Ok b" "al_calm b" "hw b = 0" "bsz b = 65536" "nbl b = 2"
    by (rule two_pages)
  then show ?thesis using al al_create_inv [OF al] by (simp add: quiet_env_def)
qed

text \<open>Creating a small database succeeds when the system calls do; the new table is empty and roomy.\<close>

lemma small_create:
  obtains db al where "db_create quiet_create (small_config m) = Ok db" "db_config db = small_config m"
    "al_create quiet_env quiet_env False False 131072 65536 = Ok al" "db_body db = al"
    "db_blobs db = (if m = Map then Some al else None)" "stores db (\<lambda>_. [])"
    "os_results (db_heads db) = []" "reserve_limit (db_heads db) = 1048576"
proof -
  have p: "is_power_of_two (65536 :: u64)" using is_power_of_two_2p [of 16, where 'a = 64] by simp
  have v: "validate (small_config m) = Ok ()"
    using p by (cases m) (simp_all add: validate_def small_config_def saturating_sub_def layout_defs push_bit_eq_mult)
  have vm: "validate_mapping_length Linux 262144 = Ok ()" by (simp add: validate_mapping_length_Ok layout_defs word_unat_eq_iff unat_mod)
  obtain f where f: "mf_create quiet_env False 262144 False = Ok f" "os_results f = []"
    using mf_create_with_lengths_succeeds [of quiet_env 262144 262144 False False] vm by (auto simp: mf_create_def quiet_env_def)
  have fi: "mf_inv f" "file_length_word f = 262144" "reserve_limit f = 1048576"
    using mf_create_with_lengths_Ok [OF f(1) [unfolded mf_create_def]] by (simp_all add: quiet_env_def)
  obtain h where h: "initialize_header (small_config m) f = Some (Inr (), f\<lparr>mem := mwrite 0 h (mem f)\<rparr>)"
    by (rule initialize_header_wp [of f "small_config m"]) (use fi in auto)
  let ?f = "f\<lparr>mem := mwrite 0 h (mem f)\<rparr>"
  have adv: "exec mf_advise_heads ?f = Ok ?f"
    using fi f(2) by (simp add: exec_def mf_advise_heads_def applied os_call_def mf_inv_def)
  obtain al where al: "al_create quiet_env quiet_env False False 131072 65536 = Ok al" by (rule two_pages)
  let ?db = "\<lparr>db_config = small_config m, db_heads = ?f, runtime_heads = replicate 4 0, delete_locks = replicate 4 0,
         db_body = al, db_blobs = (if m = Map then Some al else None), checkpoint_state = 0, checkpoint_generation = 0,
         quiescence_poisoned = False, compaction_state = 0\<rparr>"
  have db: "db_create quiet_create (small_config m) = Ok ?db"
    unfolding db_create_def
    using v heads_length_4 f h adv al fi(3)
    by (simp add: quiet_create_def exec_def create_heads_eq create_delete_locks_def try_reserve_def small_config_def)
  have "2 \<le> reserve_limit (env_body_counts quiet_create)" "2 \<le> reserve_limit (env_blobs_counts quiet_create)"
    by (simp_all add: quiet_create_def quiet_env_def)
  from that [OF db _ al _ _ create_stores(2) [OF db this]] f(2) fi(3) show thesis by simp
qed

lemma small_database:
  obtains db where "db_create quiet_create (small_config Map) = Ok db" "stores db (\<lambda>_. [])" "mode (db_config db) = Map"
    "\<And>v. length v \<le> 60000 \<Longrightarrow> roomy db (Some v)" "reserve_limit (db_heads db) = 1048576"
    "\<And>bl. db_blobs db = Some bl \<Longrightarrow> reserve_limit (al_data bl) = 1048576"
proof -
  obtain db al where db: "db_create quiet_create (small_config Map) = Ok db" "db_config db = small_config Map"
    "db_body db = al" "db_blobs db = (if Map = Map then Some al else None)" "stores db (\<lambda>_. [])"
    "reserve_limit (db_heads db) = 1048576"
    and al: "al_create quiet_env quiet_env False False 131072 65536 = Ok al" by (rule small_create [of Map])
  show thesis
    by (rule that [OF db(1,5)]) (use quiet_allocator [OF al] db in \<open>simp_all add: roomy_def small_config_def\<close>)
qed

lemma small_set:
  obtains db where "db_create quiet_create (small_config Set) = Ok db" "stores db (\<lambda>_. [])" "mode (db_config db) = Set" "roomy db None"
proof -
  obtain db al where db: "db_create quiet_create (small_config Set) = Ok db" "db_config db = small_config Set"
    "db_body db = al" "db_blobs db = (if Set = Map then Some al else None)" "stores db (\<lambda>_. [])"
    and al: "al_create quiet_env quiet_env False False 131072 65536 = Ok al" by (rule small_create [of Set])
  show thesis
    by (rule that [OF db(1,5)]) (use quiet_allocator [OF al] db in \<open>simp_all add: roomy_def small_config_def\<close>)
qed

end
