(* ===== verification/Table_Props.thy ===== *)
theory Table_Props
  imports Table_Map
begin

text \<open>
  The contract of the table as a finite map, as a locale with its client, its interpretation on
  the operations of src/table.rs, and the properties of the table.
\<close>

subsection \<open>The interface\<close>

datatype ('k, 'v) map_call = Put 'k 'v | Put_New 'k 'v | Delete 'k

datatype map_reply = Stored put_result | Fresh bool | Deleted bool | Failed error

text \<open>What a reply allows the contents to become; \<open>None\<close> for a reply the contract rules out.\<close>

fun map_spec :: "('k \<rightharpoonup> 'v) \<Rightarrow> ('k, 'v) map_call \<times> map_reply \<Rightarrow> ('k \<rightharpoonup> 'v) option" where
  "map_spec m (Put k v, Stored r) =
     (if r = (if m k = None then PR_Inserted else PR_Replaced) then Some (m(k \<mapsto> v)) else None)"
| "map_spec m (Put_New k v, Fresh b) =
     (if b = (m k = None) then Some (if m k = None then m(k \<mapsto> v) else m) else None)"
| "map_spec m (Delete k, Deleted b) = (if b = (m k \<noteq> None) then Some (m(k := None)) else None)"
| "map_spec m (c, Failed e) = Some m"
| "map_spec m (c, r) = None"

fun replay :: "('k \<rightharpoonup> 'v) \<Rightarrow> (('k, 'v) map_call \<times> map_reply) list \<Rightarrow> ('k \<rightharpoonup> 'v) option" where
  "replay m [] = Some m"
| "replay m (x # xs) = Option.bind (map_spec m x) (\<lambda>m'. replay m' xs)"

lemma replay_append: "replay m (xs @ ys) = Option.bind (replay m xs) (\<lambda>m'. replay m' ys)"
  by (induction xs arbitrary: m) (auto split: Option.bind_splits)

fun call_key :: "('k, 'v) map_call \<Rightarrow> 'k" where
  "call_key (Put k v) = k"
| "call_key (Put_New k v) = k"
| "call_key (Delete k) = k"

text \<open>A client: calls one after the other, whatever they answer, and keeps the log.\<close>

definition perform ::
  "('k \<Rightarrow> 'v \<Rightarrow> ('s, put_result) prog) \<Rightarrow> ('k \<Rightarrow> 'v \<Rightarrow> ('s, bool) prog) \<Rightarrow> ('k \<Rightarrow> ('s, bool) prog)
    \<Rightarrow> ('k, 'v) map_call \<Rightarrow> ('s \<times> (('k, 'v) map_call \<times> map_reply) list, unit) prog" where
  "perform put put_new del c =
     bnd (on_fst (catch (case c of
         Put k v \<Rightarrow> bnd (put k v) (\<lambda>r. ok (Stored r))
       | Put_New k v \<Rightarrow> bnd (put_new k v) (\<lambda>b. ok (Fresh b))
       | Delete k \<Rightarrow> bnd (del k) (\<lambda>b. ok (Deleted b))) (\<lambda>e. ok (Failed e)))) (\<lambda>r.
     modify (\<lambda>(s, log). (s, log @ [(c, r)])))"

locale map_store =
  fixes holds :: "'s \<Rightarrow> ('k \<rightharpoonup> 'v) \<Rightarrow> bool" and valid_key :: "'k \<Rightarrow> bool"
    and put :: "'k \<Rightarrow> 'v \<Rightarrow> ('s, put_result) prog"
    and put_new :: "'k \<Rightarrow> 'v \<Rightarrow> ('s, bool) prog"
    and del :: "'k \<Rightarrow> ('s, bool) prog"
  assumes put_law: "holds s m \<Longrightarrow> valid_key k \<Longrightarrow> wp (put k v)
        (\<lambda>r t. r = (if m k = None then PR_Inserted else PR_Replaced) \<and> holds t (m(k \<mapsto> v))) (\<lambda>_ t. holds t m) s"
    and put_new_law: "holds s m \<Longrightarrow> valid_key k \<Longrightarrow> wp (put_new k v)
        (\<lambda>b t. b = (m k = None) \<and> holds t (if m k = None then m(k \<mapsto> v) else m)) (\<lambda>_ t. holds t m) s"
    and del_law: "holds s m \<Longrightarrow> valid_key k \<Longrightarrow> wp (del k)
        (\<lambda>b t. b = (m k \<noteq> None) \<and> holds t (m(k := None))) (\<lambda>_ t. holds t m) s"
begin

lemma perform_simulates:
  assumes h: "holds s m" and k: "valid_key (call_key c)"
  shows "wp (perform put put_new del c)
     (\<lambda>_ (t, log'). \<exists>r m'. log' = log @ [(c, r)] \<and> map_spec m (c, r) = Some m' \<and> holds t m') (\<lambda>_ _. False) (s, log)"
proof (cases c)
  case (Put k v)
  then show ?thesis
    using put_law [OF h, of k v] assms(2)
    by (simp add: perform_def wp_bnd wp_catch on_fst_def wp_zoom) (erule wp_mono; auto)
next
  case (Put_New k v)
  then show ?thesis
    using put_new_law [OF h, of k v] assms(2)
    by (simp add: perform_def wp_bnd wp_catch on_fst_def wp_zoom) (erule wp_mono; auto)
next
  case (Delete k)
  then show ?thesis
    using del_law [OF h, of k] assms(2)
    by (simp add: perform_def wp_bnd wp_catch on_fst_def wp_zoom) (erule wp_mono; auto)
qed

text \<open>A whole session ends in a state whose contents are what the log says.\<close>

lemma session_simulates:
  assumes "holds s m" "\<forall>c \<in> set cs. valid_key (call_key c)"
  shows "wp (forM cs (perform put put_new del))
     (\<lambda>_ (t, log). map fst log = cs \<and> (\<exists>m'. replay m log = Some m' \<and> holds t m')) (\<lambda>_ _. False) (s, [])"
proof -
  let ?I = "\<lambda>rest (t, log). (\<forall>c \<in> set rest. valid_key (call_key c)) \<and> map fst log @ rest = cs
      \<and> (\<exists>m'. replay m log = Some m' \<and> holds t m')"
  have "wp (forM cs (perform put put_new del)) (\<lambda>_ t. ?I [] t) (\<lambda>_ _. False) (s, [])"
  proof (rule wp_forM [where I = ?I])
    show "?I cs (s, [])" using assms by simp
    fix c rest and st :: "'s \<times> (('k, 'v) map_call \<times> map_reply) list"
    assume i: "?I (c # rest) st"
    obtain t log where st: "st = (t, log)" by (cases st)
    from i obtain m' where m': "replay m log = Some m'" "holds t m'" unfolding st by auto
    have vk: "valid_key (call_key c)" using i unfolding st by simp
    show "wp (perform put put_new del c) (\<lambda>_. ?I rest) (\<lambda>_ _. False) st"
      unfolding st by (rule wp_mono [OF perform_simulates [OF m'(2) vk, of log]]) (use i m'(1) in \<open>auto simp: st replay_append\<close>)
  qed
  then show ?thesis by (rule wp_mono) auto
qed

end

subsection \<open>The table as a map\<close>

definition one_value :: "('k \<rightharpoonup> 'v) \<Rightarrow> 'k \<Rightarrow> 'v list" where
  "one_value m k = (case m k of None \<Rightarrow> [] | Some v \<Rightarrow> [v])"

lemma one_value_simps [simp]:
  "one_value m k = [] \<longleftrightarrow> m k = None" "tl (one_value m k) = []"
  "(one_value m)(k := [v]) = one_value (m(k \<mapsto> v))" "(one_value m)(k := []) = one_value (m(k := None))"
  by (auto simp: one_value_def fun_eq_iff split: option.splits)

definition map_of_table :: "database \<Rightarrow> (bytes \<rightharpoonup> bytes) \<Rightarrow> bool" where
  "map_of_table db m \<longleftrightarrow> stores db (one_value m) \<and> mode (db_config db) = Map"

abbreviation key16 :: "bytes \<Rightarrow> bool" where "key16 key \<equiv> length key = 16"

interpretation table_map: map_store map_of_table key16 "db_put simd" "db_put_new simd" db_delete for simd
proof unfold_locales
  fix db m and k v :: bytes
  assume h: "map_of_table db m" "key16 k"
  have s: "stores db (one_value m)" and md: "mode (db_config db) = Map" using h by (auto simp: map_of_table_def)
  show "wp (db_put simd k v)
        (\<lambda>r t. r = (if m k = None then PR_Inserted else PR_Replaced) \<and> map_of_table t (m(k \<mapsto> v))) (\<lambda>_ t. map_of_table t m) db"
    by (rule wp_mono [OF put_refines [OF s h(2) md]]) (use md in \<open>auto simp: map_of_table_def dest: db_step_config\<close>)
  show "wp (db_put_new simd k v)
        (\<lambda>b t. b = (m k = None) \<and> map_of_table t (if m k = None then m(k \<mapsto> v) else m)) (\<lambda>_ t. map_of_table t m) db"
    by (rule wp_mono [OF put_new_refines [OF s h(2) md]]) (use md in \<open>auto simp: map_of_table_def dest: db_step_config\<close>)
  show "wp (db_delete k) (\<lambda>b t. b = (m k \<noteq> None) \<and> map_of_table t (m(k := None))) (\<lambda>_ t. map_of_table t m) db"
    by (rule wp_mono [OF delete_refines [OF s h(2)]]) (use md in \<open>auto simp: map_of_table_def dest: db_step_config\<close>)
qed

lemma empty_map: "one_value (\<lambda>_. None) = (\<lambda>_. [])"
  by (simp add: one_value_def fun_eq_iff)

lemma get_map:
  assumes "map_of_table db m" "key16 key"
  shows "\<exists>bl. db_blobs db = Some bl \<and> db_get db key \<in> {Ok (m key), Err OutOfMemory}
     \<and> ((\<forall>v. m key = Some v \<longrightarrow> length v \<le> reserve_limit (al_data bl)) \<longrightarrow> db_get db key = Ok (m key))"
proof -
  have s: "stores db (one_value m)" and md: "mode (db_config db) = Map" using assms by (auto simp: map_of_table_def)
  obtain ch where "table db ch" using s by (auto simp: stores_def)
  then obtain bl where bl: "db_blobs db = Some bl"
    using db_invD(1) [OF stores_inv(1)] md by (fastforce simp: db_shape_def split: option.splits)
  show ?thesis
  proof (cases "m key")
    case None
    then show ?thesis using get_refines(1) [OF s assms(2) md] bl by (auto simp: one_value_def)
  next
    case (Some v)
    then show ?thesis using get_refines(2) [OF s assms(2) md, of v "[]"] bl by (auto simp: one_value_def)
  qed
qed

text \<open>A small map that holds one value, for concrete inputs.\<close>

definition key_a :: bytes where "key_a = replicate 16 1"
definition value_a :: bytes where "value_a = [7, 0, 0, 0]"

lemma one_stored:
  obtains db t where "db_create quiet_create (small_config Map) = Ok db" "db_put Neon key_a value_a db = Some (Inr PR_Inserted, t)"
    "stores t ((\<lambda>_. [])(key_a := [value_a]))" "mode (db_config t) = Map" "reserve_limit (db_heads t) = 1048576"
    "\<forall>bl. db_blobs t = Some bl \<longrightarrow> reserve_limit (al_data bl) = 1048576"
proof -
  obtain db where db: "db_create quiet_create (small_config Map) = Ok db" "stores db (\<lambda>_. [])" "mode (db_config db) = Map"
    and r: "roomy db (Some value_a)" and l: "reserve_limit (db_heads db) = 1048576"
      "\<And>bl. db_blobs db = Some bl \<Longrightarrow> reserve_limit (al_data bl) = 1048576"
    by (rule small_database) (auto simp: value_a_def)
  have "key16 key_a" "roomy db (Some value_a)" using r by (simp_all add: key_a_def)
  then obtain t where t: "db_put Neon key_a value_a db = Some (Inr PR_Inserted, t)" "stores t ((\<lambda>_. [])(key_a := [value_a]))"
    and st: "db_step db t"
    using put_refines [OF db(2) _ db(3), of key_a Neon value_a] by (auto simp: wp_disj)
  show thesis
    by (rule that [OF db(1) t]) (use st db(3) l in \<open>auto simp: db_step_def al_step_def rel_option_iff split: option.splits\<close>)
qed

subsection \<open>Properties of the table\<close>

text \<open>C22. A newly created database is an empty table: its configuration is the one asked for and
  every key has no value; exactly no page of the body and of the blobs is live.\<close>

theorem create_empty:
  assumes "db_create env c = Ok db"
    and "2 \<le> reserve_limit (env_body_counts env)" "2 \<le> reserve_limit (env_blobs_counts env)"
  shows "db_config db = c \<and> stores db (\<lambda>_. [])"
  using create_stores [OF assms] by blast

theorem create_empty_witness:
  "\<exists>db. db_create quiet_create (small_config Map) = Ok db \<and> db_config db = small_config Map \<and> stores db (\<lambda>_. [])"
proof -
  obtain db where db: "db_create quiet_create (small_config Map) = Ok db" by (rule small_database)
  from create_empty [OF db] db show ?thesis by (auto simp: quiet_create_def quiet_env_def)
qed



text \<open>C8. \<open>put_new\<close> stores the value only when the key has none, says whether it did, and never
  changes the value of a key that is present; it always returns and an error leaves the contents.\<close>

theorem put_new_correct:
  assumes "stores db f" "length key = 16" "mode (db_config db) = Map"
  shows "\<exists>r t. db_put_new simd key v db = Some (r, t) \<and> db_step db t
     \<and> (case r of Inr b \<Rightarrow> b = (f key = []) \<and> stores t (if f key = [] then f(key := [v]) else f)
        | Inl e \<Rightarrow> stores t f \<and> \<not> roomy db (Some v))"
  by (rule wp_returns) (rule put_new_refines [OF assms])

theorem put_new_correct_witness:
  "\<exists>db t r u. db_create quiet_create (small_config Map) = Ok db \<and> db_put Neon key_a value_a db = Some (Inr PR_Inserted, t)
     \<and> db_put_new Neon key_a [1, 2, 3] t = Some (r, u) \<and> stores u ((\<lambda>_. [])(key_a := [value_a]))"
proof -
  obtain db t where "db_create quiet_create (small_config Map) = Ok db" "db_put Neon key_a value_a db = Some (Inr PR_Inserted, t)"
    and t: "stores t ((\<lambda>_. [])(key_a := [value_a]))" "mode (db_config t) = Map" by (rule one_stored)
  moreover from put_new_correct [OF t(1) _ t(2), of key_a Neon "[1, 2, 3]"]
  have "\<exists>r u. db_put_new Neon key_a [1, 2, 3] t = Some (r, u) \<and> stores u ((\<lambda>_. [])(key_a := [value_a]))"
    by (simp add: key_a_def split_sum_ex) blast
  ultimately show ?thesis by blast
qed

text \<open>C4. \<open>delete\<close> never fails on a well-formed table whose delete locks are free: it removes the
  newest value of the key, says whether there was one, keeps every other key and gives the delete
  lock and the pages of the removed value back.\<close>

theorem delete_correct:
  assumes "stores db f" "length key = 16"
  shows "\<exists>t. db_delete key db = Some (Inr (f key \<noteq> []), t) \<and> db_step db t \<and> stores t (f(key := tl (f key)))"
  using delete_refines [OF assms] by (auto simp: wp_disj)

theorem delete_correct_witness:
  "\<exists>db t u. db_create quiet_create (small_config Map) = Ok db \<and> db_put Neon key_a value_a db = Some (Inr PR_Inserted, t)
     \<and> db_delete key_a t = Some (Inr True, u)"
proof -
  obtain db t where "db_create quiet_create (small_config Map) = Ok db" "db_put Neon key_a value_a db = Some (Inr PR_Inserted, t)"
    and t: "stores t ((\<lambda>_. [])(key_a := [value_a]))" by (rule one_stored)
  moreover from delete_correct [OF t, of key_a]
  have "\<exists>u. db_delete key_a t = Some (Inr True, u)" by (auto simp: key_a_def)
  ultimately show ?thesis by blast
qed

text \<open>C3. \<open>get\<close> terminates and returns the newest value of the key, or nothing when it has none;
  the only error is a failed reservation of the buffer for the value.\<close>

theorem get_correct:
  assumes "stores db f" "length key = 16" "mode (db_config db) = Map"
  shows "case f key of [] \<Rightarrow> db_get db key = Ok None
     | v # vs \<Rightarrow> \<exists>bl. db_blobs db = Some bl \<and> db_get db key \<in> {Ok (Some v), Err OutOfMemory}
         \<and> (length v \<le> reserve_limit (al_data bl) \<longrightarrow> db_get db key = Ok (Some v))"
  using get_refines [OF assms] by (simp split: list.splits)

theorem get_correct_witness:
  "\<exists>db t. db_create quiet_create (small_config Map) = Ok db \<and> db_put Neon key_a value_a db = Some (Inr PR_Inserted, t)
     \<and> db_get t key_a \<in> {Ok (Some value_a), Err OutOfMemory}"
proof -
  obtain db t where "db_create quiet_create (small_config Map) = Ok db" "db_put Neon key_a value_a db = Some (Inr PR_Inserted, t)"
    and t: "stores t ((\<lambda>_. [])(key_a := [value_a]))" "mode (db_config t) = Map" by (rule one_stored)
  moreover from get_correct [OF t(1) _ t(2), of key_a] have "db_get t key_a \<in> {Ok (Some value_a), Err OutOfMemory}"
    by (auto simp: key_a_def)
  ultimately show ?thesis by blast
qed

text \<open>C9. \<open>add\<close> on a set always returns: it adds one more copy of the key and keeps every other key;
  an error means that a system call failed or that no page was left, and leaves the contents.\<close>

theorem add_correct:
  assumes "stores db f" "length key = 16" "mode (db_config db) = Set"
  shows "\<exists>r t. db_add simd key db = Some (r, t) \<and> db_step db t
     \<and> (case r of Inr p \<Rightarrow> p = PR_Inserted \<and> stores t (f(key := [] # f key))
        | Inl e \<Rightarrow> stores t f \<and> \<not> roomy db None)"
  by (rule wp_returns) (rule add_refines [OF assms])

theorem add_correct_witness:
  "\<exists>db t. db_create quiet_create (small_config Set) = Ok db \<and> db_add Scalar key_a db = Some (Inr PR_Inserted, t)"
proof -
  obtain db where db: "db_create quiet_create (small_config Set) = Ok db" "stores db (\<lambda>_. [])" "mode (db_config db) = Set" "roomy db None"
    by (rule small_set)
  from add_correct [OF db(2) _ db(3), of key_a Scalar] have "\<exists>t. db_add Scalar key_a db = Some (Inr PR_Inserted, t)"
    using db(4) by (simp add: key_a_def split_sum_ex) blast
  with db(1) show ?thesis by blast
qed

text \<open>C1. A session of \<open>put\<close>, \<open>put_new\<close> and \<open>delete\<close> calls on a new map refines a finite map:
  every call returns, the log of replies is one the abstract map can produce, failed calls change
  nothing, and afterwards \<open>contains\<close> and \<open>get\<close> answer from the abstract map the log leads to.\<close>

theorem map_session_refines:
  assumes "db_create env c = Ok db" "mode c = Map"
    and "2 \<le> reserve_limit (env_body_counts env)" "2 \<le> reserve_limit (env_blobs_counts env)"
    and "\<forall>call \<in> set calls. length (call_key call) = 16"
  shows "\<exists>t log m. forM calls (perform (db_put simd) (db_put_new simd) db_delete) (db, []) = Some (Inr (), (t, log))
     \<and> map fst log = calls \<and> replay (\<lambda>_. None) log = Some m
     \<and> (\<forall>key. length key = 16 \<longrightarrow> db_contains t key = Ok (m key \<noteq> None) \<and> db_get t key \<in> {Ok (m key), Err OutOfMemory})"
proof -
  have "map_of_table db (\<lambda>_. None)" using create_stores [OF assms(1,3,4)] assms(2) by (simp add: map_of_table_def empty_map)
  from table_map.session_simulates [OF this, of calls simd] assms(5) obtain t log m where
    t: "forM calls (perform (db_put simd) (db_put_new simd) db_delete) (db, []) = Some (Inr (), (t, log))"
      "map fst log = calls" "replay (\<lambda>_. None) log = Some m" "map_of_table t m"
    by (auto simp: wp_disj)
  have "db_contains t key = Ok (m key \<noteq> None) \<and> db_get t key \<in> {Ok (m key), Err OutOfMemory}" if "length key = 16" for key
    using contains_refines [of t "one_value m" key] get_map [OF t(4) that] t(4) that by (auto simp: map_of_table_def)
  with t show ?thesis by blast
qed

theorem map_session_refines_witness:
  "\<exists>db t log. db_create quiet_create (small_config Map) = Ok db
     \<and> forM [Put key_a value_a, Put_New key_a [1], Delete key_a] (perform (db_put Neon) (db_put_new Neon) db_delete) (db, [])
         = Some (Inr (), (t, log)) \<and> length log = 3"
proof -
  obtain db where db: "db_create quiet_create (small_config Map) = Ok db" by (rule small_database)
  have k: "\<forall>call \<in> set [Put key_a value_a, Put_New key_a [1], Delete key_a]. length (call_key call) = 16"
    by (simp add: key_a_def)
  from map_session_refines [OF db _ _ _ k, of Neon] obtain t log where
    "forM [Put key_a value_a, Put_New key_a [1], Delete key_a] (perform (db_put Neon) (db_put_new Neon) db_delete) (db, [])
      = Some (Inr (), (t, log))" "map fst log = [Put key_a value_a, Put_New key_a [1], Delete key_a]"
    by (auto simp: small_config_def quiet_create_def quiet_env_def)
  moreover from this(2) have "length log = 3" by (metis length_map length_Cons list.size(3) numeral_3_eq_3)
  ultimately show ?thesis using db by blast
qed





end
