(* ===== verification/Checkpoint.thy ===== *)
theory Checkpoint
  imports Table_Admin
begin

text \<open>
  src/checkpoint.rs: durable checkpoints and recovery. A checkpoint copies every bucket chain into
  one of two snapshot file sets and publishes a checksummed manifest in the heads file; opening
  selects the newest manifest whose snapshot validates and rebuilds the runtime files from it.

  The database directory is explicit: the files by name, the outcomes of the coming directory
  operations, and the environments that the coming file creations meet. A file that a database or
  a snapshot has open keeps its entry; its bytes come back to the directory when it is dropped.
\<close>

subsection \<open>The database directory\<close>

datatype suffix = Body_File | Body_Counts | Blobs_File | Blobs_Counts

datatype file_name = Heads_File | Runtime suffix | Snapshot u64 suffix

record directory =
  dir_files :: "file_name \<rightharpoonup> disk_file"
  dir_results :: "io_error option list"
  dir_envs :: "nat \<Rightarrow> os_env"
  dir_created :: nat
  dir_backend :: backend

definition dir_call :: "(directory, unit) prog" where
  "dir_call d = (case dir_results d of
       [] \<Rightarrow> Some (Inr (), d)
     | None # rest \<Rightarrow> Some (Inr (), d\<lparr>dir_results := rest\<rparr>)
     | Some e # rest \<Rightarrow> Some (Inl (Io e), d\<lparr>dir_results := rest\<rparr>))"

text \<open>\<open>std::fs::metadata(path)?.len()\<close>\<close>

definition metadata_len :: "file_name \<Rightarrow> (directory, u64) prog" where
  "metadata_len name =
     bnd dir_call (\<lambda>_.
     bnd (reads (\<lambda>d. ok_or (dir_files d name) (Io NotFound))) (\<lambda>f. ok (os_length f)))"

definition remove_file :: "file_name \<Rightarrow> (directory, unit) prog" where
  "remove_file name =
     bnd (reads (\<lambda>d. ok_or (dir_files d name) (Io NotFound))) (\<lambda>_.
     bnd dir_call (\<lambda>_. modify (\<lambda>d. d\<lparr>dir_files := (dir_files d)(name := None)\<rparr>)))"

definition remove_if_exists :: "file_name \<Rightarrow> (directory, unit) prog" where
  "remove_if_exists name = catch (remove_file name) (\<lambda>e. if e = Io NotFound then ok () else err e)"

text \<open>\<open>File::open(path)?.sync_all()?\<close> of the directory and of its parent.\<close>

definition sync_namespace :: "(directory, unit) prog" where
  "sync_namespace = bnd dir_call (\<lambda>_. bnd dir_call (\<lambda>_. bnd dir_call (\<lambda>_. dir_call)))"

text \<open>Dropping a mapped file leaves its bytes on disk.\<close>

definition put_back :: "file_name \<Rightarrow> mapped_file \<Rightarrow> directory \<Rightarrow> directory" where
  "put_back name f d = d\<lparr>dir_files := (dir_files d)(name \<mapsto> disk_file.truncate f)\<rparr>"

definition next_env :: "(directory, os_env) prog" where
  "next_env d = Some (Inr (dir_envs d (dir_created d)), d\<lparr>dir_created := dir_created d + 1\<rparr>)"

text \<open>What a creation that fails leaves at its path: a file when \<open>create_new\<close> succeeded.\<close>

definition mf_create_left :: "os_env \<Rightarrow> bool \<Rightarrow> u64 \<Rightarrow> u64 \<Rightarrow> disk_file option" where
  "mf_create_left env exists len file_len =
     (if is_ok (validate_mapping_length (backend env) len) \<and> is_ok (validate_mapping_length (backend env) file_len)
         \<and> \<not> file_len > len \<and> \<not> exists
      then case os_call (os_env.extend env \<lparr>os_length = 0, mem = (\<lambda>_. 0)\<rparr>) of
             Some (Inr _, file) \<Rightarrow>
               (case bnd (set_len file_len) (\<lambda>_. platform_reserve 0 file_len) file of
                  Some (_, file) \<Rightarrow> Some file | None \<Rightarrow> None)
           | _ \<Rightarrow> None
      else None)"

definition al_create_left :: "os_env \<Rightarrow> os_env \<Rightarrow> bool \<Rightarrow> bool \<Rightarrow> u64 \<Rightarrow> u64 \<Rightarrow> disk_file option \<times> disk_file option" where
  "al_create_left ed ec xd xc capacity bs =
     (case rbind (validate_layout capacity bs) (\<lambda>_. file_lengths capacity bs) of
        Some (Inr (data_length, count_bytes, _)) \<Rightarrow>
          (case mf_create_growable ed xd data_length DATA_START of
             Some (Inr data) \<Rightarrow> (Some (disk_file.truncate data),
               (case mf_create_growable ec xc count_bytes COUNTS_START of
                  Some (Inr counts) \<Rightarrow> Some (disk_file.truncate counts)
                | _ \<Rightarrow> mf_create_left ec xc count_bytes COUNTS_START))
           | _ \<Rightarrow> (mf_create_left ed xd data_length DATA_START, None))
      | _ \<Rightarrow> (None, None))"

definition leave :: "file_name \<Rightarrow> disk_file option \<Rightarrow> directory \<Rightarrow> directory" where
  "leave name f d = (case f of None \<Rightarrow> d | Some f \<Rightarrow> d\<lparr>dir_files := (dir_files d)(name \<mapsto> f)\<rparr>)"

text \<open>\<open>BlockAllocator::create\<close> and \<open>BlockAllocator::open\<close> on two paths of the directory.\<close>

definition dir_create_allocator :: "file_name \<Rightarrow> file_name \<Rightarrow> u64 \<Rightarrow> u64 \<Rightarrow> (directory, block_allocator) prog" where
  "dir_create_allocator data counts capacity bs =
     bnd next_env (\<lambda>ed. bnd next_env (\<lambda>ec. (\<lambda>d.
       let xd = dir_files d data \<noteq> None; xc = dir_files d counts \<noteq> None in
       case al_create ed ec xd xc capacity bs of
         None \<Rightarrow> None
       | Some (Inr al) \<Rightarrow> Some (Inr al, put_back counts (al_counts al) (put_back data (al_data al) d))
       | Some (Inl e) \<Rightarrow>
           let (fd, fc) = al_create_left ed ec xd xc capacity bs
           in Some (Inl e, leave counts fc (leave data fd d)))))"

definition dir_open_allocator :: "directory \<Rightarrow> file_name \<Rightarrow> file_name \<Rightarrow> u64 \<Rightarrow> u64 \<Rightarrow> block_allocator res" where
  "dir_open_allocator d data counts capacity bs =
     al_open (dir_backend d) (dir_files d data) (dir_files d counts) capacity bs"

definition dir_open_heads :: "directory \<Rightarrow> u64 \<Rightarrow> mapped_file res" where
  "dir_open_heads d len = mf_open (dir_backend d) (dir_files d Heads_File) len"

definition on_snd :: "('x, 'a) prog \<Rightarrow> ('s \<times> 'x, 'a) prog" where
  "on_snd = zoom snd (\<lambda>x p. (fst p, x))"

subsection \<open>The header and the manifests\<close>

definition CHECKPOINT_BUSY :: u64 where "CHECKPOINT_BUSY = 1"
definition MANIFEST_MAGIC :: u64 where "MANIFEST_MAGIC = 0x43415343484b5031"
definition MANIFEST_BASE :: u64 where "MANIFEST_BASE = 128"
definition MANIFEST_STRIDE :: u64 where "MANIFEST_STRIDE = 64"

record manifest =
  mn_generation :: u64
  mn_bank :: u64
  mn_checksum :: u64

definition header_u64 :: "bytes \<Rightarrow> usize \<Rightarrow> u64 res" where
  "header_u64 bytes offset =
     rbind (ok_or (usize_checked_add offset 8) (Corrupt ''header read overflow'')) (\<lambda>stop.
     rbind (ok_or (slice bytes offset stop) (Corrupt ''header field is out of range'')) (\<lambda>source.
     if length source \<noteq> 8 then Err (Corrupt ''invalid header field'') else Ok (from_le source)))"

definition read_mapped_u64 :: "mapped_file \<Rightarrow> u64 \<Rightarrow> u64 res" where
  "read_mapped_u64 f offset = rbind (copy_out f offset 8) (\<lambda>bytes. Ok (from_le bytes))"

definition read_config :: "mapped_file \<Rightarrow> config res" where
  "read_config heads =
     rbind (copy_out heads 0 (unat FORMAT_PAGE_SIZE)) (\<lambda>header.
     if slice header 0 8 \<noteq> Some HEADER_MAGIC then Err (Corrupt ''heads header magic does not match'')
     else
       rbind (header_u64 header 8) (\<lambda>version.
       if version \<noteq> FORMAT_VERSION then Err (Unsupported ''database format version is not supported'')
       else
         rbind (header_u64 header HEADER_CHECKSUM_OFFSET) (\<lambda>stored.
         rbind (header_checksum header) (\<lambda>checksum.
         if stored \<noteq> checksum then Err (Corrupt ''heads header checksum does not match'')
         else
           rbind (header_u64 header 16) (\<lambda>m.
           rbind (if m = 1 then Ok Set else if m = 2 then Ok Map else Err (Corrupt ''database mode is invalid'')) (\<lambda>mode.
           rbind (header_u64 header 32) (\<lambda>key_size.
           if unat key_size \<noteq> KEY_SIZE then Err (Corrupt ''stored key size is invalid'')
           else
             rbind (header_u64 header 88) (\<lambda>policy.
             if policy \<noteq> 0 then Err (Corrupt ''stored inline policy is invalid'')
             else
               rbind (header_u64 header 24) (\<lambda>buckets.
               rbind (header_u64 header 40) (\<lambda>body.
               rbind (header_u64 header 48) (\<lambda>blob.
               rbind (header_u64 header 56) (\<lambda>block.
               rbind (header_u64 header 72) (\<lambda>seed.
               let c = \<lparr>mode = mode, bucket_count = buckets, body_capacity = body, blob_capacity = blob,
                        block_size = block, hash_seed = seed\<rparr> in
               rbind (validate c) (\<lambda>_.
               rbind (header_u64 header 80) (\<lambda>node_size.
               if node_size \<noteq> NODE_SIZE_U64 then Err (Corrupt ''stored body node size is invalid'')
               else Ok c)))))))))))))))"

definition manifest_offset :: "u64 \<Rightarrow> u64 res" where
  "manifest_offset bank =
     (if bank > 1 then Err (Corrupt ''manifest bank is out of range'')
      else
        rbind (ok_or (checked_mul bank MANIFEST_STRIDE) (Corrupt ''manifest offset overflow'')) (\<lambda>relative.
        ok_or (checked_add MANIFEST_BASE relative) (Corrupt ''manifest offset overflow'')))"

definition manifest_checksum :: "u64 \<Rightarrow> u64 \<Rightarrow> u64 \<Rightarrow> u64" where
  "manifest_checksum generation bank snapshot_checksum =
     (let first = xxh64 (u64_le generation) (MANIFEST_MAGIC XOR bank)
      in xxh64 (u64_le snapshot_checksum) first)"

definition read_manifest :: "mapped_file \<Rightarrow> u64 \<Rightarrow> manifest option res" where
  "read_manifest heads bank =
     rbind (manifest_offset bank) (\<lambda>offset.
     rbind (read_mapped_u64 heads offset) (\<lambda>magic.
     if magic \<noteq> MANIFEST_MAGIC then Ok None
     else
       rbind (read_mapped_u64 heads (offset + 8)) (\<lambda>generation.
       rbind (read_mapped_u64 heads (offset + 16)) (\<lambda>stored_bank.
       rbind (read_mapped_u64 heads (offset + 24)) (\<lambda>checksum.
       rbind (read_mapped_u64 heads (offset + 32)) (\<lambda>snapshot_checksum.
       if stored_bank \<noteq> bank \<or> generation AND 1 \<noteq> bank
          \<or> checksum \<noteq> manifest_checksum generation bank snapshot_checksum
       then Ok None
       else Ok (Some \<lparr>mn_generation = generation, mn_bank = bank, mn_checksum = snapshot_checksum\<rparr>)))))))"

definition read_manifests :: "mapped_file \<Rightarrow> manifest option list res" where
  "read_manifests heads =
     rbind (read_manifest heads 0) (\<lambda>first.
     rbind (read_manifest heads 1) (\<lambda>second.
     case (first, second) of
       (Some left, Some right) \<Rightarrow>
         if mn_generation right > mn_generation left then Ok [Some right, Some left] else Ok [first, second]
     | _ \<Rightarrow> Ok [first, second]))"

text \<open>\<open>cas_replace\<close> of an atomic given by its load and its compare-exchange.\<close>

definition cas_replace :: "('s \<Rightarrow> u64) \<Rightarrow> (u64 \<Rightarrow> u64 \<Rightarrow> ('s, bool) prog) \<Rightarrow> u64 \<Rightarrow> ('s, unit) prog" where
  "cas_replace load cas replacement =
     bnd (gets load) (\<lambda>observed.
     loop (\<lambda>observed.
       bnd (cas observed replacement) (\<lambda>swapped.
       if swapped then ok (Return ())
       else bnd (gets load) (\<lambda>actual. ok (Continue actual)))) observed)"

definition replace_mapped :: "u64 \<Rightarrow> u64 \<Rightarrow> (mapped_file, unit) prog" where
  "replace_mapped offset v =
     bnd (reads (\<lambda>f. mf_atomic_u64 f offset)) (\<lambda>a. cas_replace (\<lambda>f. load64 f a) (cas64 a) v)"

definition write_manifest :: "manifest \<Rightarrow> (mapped_file, unit) prog" where
  "write_manifest mn =
     bnd (lift (manifest_offset (mn_bank mn))) (\<lambda>offset.
     bnd (replace_mapped offset 0) (\<lambda>_.
     bnd (replace_mapped (offset + 8) (mn_generation mn)) (\<lambda>_.
     bnd (replace_mapped (offset + 16) (mn_bank mn)) (\<lambda>_.
     bnd (replace_mapped (offset + 32) (mn_checksum mn)) (\<lambda>_.
     bnd (replace_mapped (offset + 24) (manifest_checksum (mn_generation mn) (mn_bank mn) (mn_checksum mn))) (\<lambda>_.
     replace_mapped offset MANIFEST_MAGIC))))))"

definition invalidate_manifest :: "u64 \<Rightarrow> (mapped_file, unit) prog" where
  "invalidate_manifest bank =
     bnd (lift (manifest_offset bank)) (\<lambda>offset. replace_mapped offset 0)"

subsection \<open>Snapshots\<close>

record snapshot_files =
  sn_body :: block_allocator
  sn_blobs :: "block_allocator option"

definition sn_on_body :: "(block_allocator, 'a) prog \<Rightarrow> (snapshot_files, 'a) prog" where
  "sn_on_body = zoom sn_body (\<lambda>b sn. sn\<lparr>sn_body := b\<rparr>)"

definition sn_on_blobs :: "string \<Rightarrow> (block_allocator, 'a) prog \<Rightarrow> (snapshot_files, 'a) prog" where
  "sn_on_blobs missing m sn = (case sn_blobs sn of
       None \<Rightarrow> err (Corrupt missing) sn
     | Some b \<Rightarrow> zoom (\<lambda>_. b) (\<lambda>b sn. sn\<lparr>sn_blobs := Some b\<rparr>) m sn)"

definition sn_if_blob :: "allocation option \<Rightarrow> (allocation \<Rightarrow> (block_allocator, unit) prog) \<Rightarrow> (snapshot_files, unit) prog" where
  "sn_if_blob blob f sn = (case (sn_blobs sn, blob) of
       (Some _, Some a) \<Rightarrow> sn_on_blobs [] (f a) sn
     | _ \<Rightarrow> ok () sn)"

definition read_source_blob :: "block_allocator option \<Rightarrow> u64 \<Rightarrow> (bytes \<times> bytes) res" where
  "read_source_blob source offset =
     rbind (ok_or source (Corrupt ''checkpoint source blob file is missing'')) (\<lambda>source.
     rbind (al_read_into source offset BLOB_HEADER_SIZE) (\<lambda>header.
     let (len, expected_checksum) = decode_blob_header header in
     rbind (ok_or (checked_add offset (of_nat BLOB_HEADER_SIZE)) (Corrupt ''checkpoint blob offset overflow'')) (\<lambda>value_offset.
     rbind (al_read source value_offset (unat len)) (\<lambda>bytes.
     if expected_checksum \<noteq> blob_checksum bytes then Err (Corrupt ''checkpoint blob checksum does not match'')
     else Ok (header, bytes)))))"

definition copy_blob :: "simd \<Rightarrow> block_allocator option \<Rightarrow> u64 \<Rightarrow> (snapshot_files, u64 \<times> allocation option) prog" where
  "copy_blob simd source encoded =
     (if encoded AND VALUE_BLOB_TAG = 0 then ok (encoded, None)
      else
        bnd (lift (read_source_blob source (encoded AND VALUE_OFFSET_MASK))) (\<lambda>(header, bytes).
        bnd (sn_on_blobs ''checkpoint blob file is missing''
              (bnd (lift (ok_or (usize_checked_add BLOB_HEADER_SIZE (length bytes)) (Corrupt ''checkpoint blob length overflow''))) (\<lambda>total.
               bnd (allocate simd total 8) (\<lambda>a.
               bnd (catch (bnd (al_write_at a 0 header) (\<lambda>_. al_write_at a BLOB_HEADER_SIZE bytes))
                     (\<lambda>e. bnd (ignore (release a)) (\<lambda>_. err e))) (\<lambda>_.
               ok a))))) (\<lambda>a.
        ok (VALUE_BLOB_TAG OR alloc_offset a, Some a))))"

definition copy_node :: "simd \<Rightarrow> block_allocator option \<Rightarrow> node \<Rightarrow> u64 \<Rightarrow> (snapshot_files, u64) prog" where
  "copy_node simd source_blobs n nxt =
     bnd (copy_blob simd source_blobs (node_value n)) (\<lambda>(v, blob).
     bnd (catch (sn_on_body (allocate_node simd (node_key n) v)) (\<lambda>e.
            bnd (ignore (sn_if_blob blob release)) (\<lambda>_. err e))) (\<lambda>a.
     bnd (catch (sn_on_body (set_private_next (alloc_offset a) 0 nxt)) (\<lambda>e.
            bnd (ignore (sn_on_body (release a))) (\<lambda>_.
            bnd (ignore (sn_if_blob blob release)) (\<lambda>_. err e)))) (\<lambda>_.
     ok (alloc_offset a))))"

definition release_snapshot_node :: "u64 \<Rightarrow> config \<Rightarrow> (snapshot_files, unit) prog" where
  "release_snapshot_node offset c =
     bnd (reads (\<lambda>sn. read_node (sn_body sn) offset)) (\<lambda>n.
     bnd (if node_value n AND VALUE_BLOB_TAG \<noteq> 0 then
            (if mode c \<noteq> Map then err (Corrupt ''set snapshot node has a blob tag'')
             else
               let blob_offset = node_value n AND VALUE_OFFSET_MASK in
               sn_on_blobs ''snapshot blob allocator is missing''
                 (bnd (reads (\<lambda>b. al_read_into b blob_offset BLOB_HEADER_SIZE)) (\<lambda>header.
                  let (len, _) = decode_blob_header header in
                  bnd (lift (ok_or (checked_add (of_nat BLOB_HEADER_SIZE) len) (Corrupt ''snapshot blob length overflow''))) (\<lambda>total.
                  bnd (reads (\<lambda>b. allocation_for b blob_offset total)) release))))
          else ok ()) (\<lambda>_.
     sn_on_body (bnd (reads (\<lambda>b. allocation_for b offset (of_nat NODE_SIZE))) release)))"

definition release_snapshot_chain :: "u64 \<Rightarrow> config \<Rightarrow> (snapshot_files, unit) prog" where
  "release_snapshot_chain root c =
     loop (\<lambda>root.
       if root = 0 then ok (Return ())
       else
         bnd (reads (\<lambda>sn. read_node (sn_body sn) root)) (\<lambda>n.
         bnd (release_snapshot_node root c) (\<lambda>_. ok (Continue (node_next n))))) root"

definition snapshot_chain_contains :: "block_allocator \<Rightarrow> u64 \<Rightarrow> bytes \<Rightarrow> bool res" where
  "snapshot_chain_contains body root key =
     rloop (\<lambda>root.
       if root = 0 then Ok (Return False)
       else
         rbind (read_node body root) (\<lambda>n.
         if node_key n = key then Ok (Return True) else Ok (Continue (node_next n)))) root"

definition snapshot_root_atomic :: "mapped_file \<Rightarrow> config \<Rightarrow> u64 \<Rightarrow> u64 \<Rightarrow> nat res" where
  "snapshot_root_atomic heads c bank bucket =
     (if bucket \<ge> bucket_count c then Err (Corrupt ''checkpoint bucket is out of range'')
      else
        rbind (snapshot_bank_start (bucket_count c) bank) (\<lambda>start.
        rbind (ok_or (checked_mul bucket 8) (Corrupt ''checkpoint root offset overflow'')) (\<lambda>relative.
        rbind (ok_or (checked_add start relative) (Corrupt ''checkpoint root offset overflow'')) (\<lambda>offset.
        mf_atomic_u64 heads offset))))"

definition mix_checksum :: "u64 \<Rightarrow> u64 \<Rightarrow> u64" where
  "mix_checksum checksum v = xxh64 (u64_le v) checksum"

definition snapshot_prefix_contains :: "block_allocator \<Rightarrow> u64 \<Rightarrow> u64 \<Rightarrow> u64 \<Rightarrow> bytes \<Rightarrow> bool res" where
  "snapshot_prefix_contains body root target maximum_nodes key =
     rloop (\<lambda>(current, visited).
       if current = target then Ok (Return False)
       else if current = 0 then Err (Corrupt ''checkpoint target is not reachable from its root'')
       else
         rbind (ok_or (checked_add visited 1) (Corrupt ''checkpoint prefix traversal overflow'')) (\<lambda>visited.
         if visited > maximum_nodes then Err (Corrupt ''checkpoint prefix contains a cycle'')
         else
           rbind (read_node body current) (\<lambda>n.
           if node_key n = key then Ok (Return True) else Ok (Continue (node_next n, visited))))) (root, 0)"

definition validate_snapshot_blob :: "snapshot_files \<Rightarrow> config \<Rightarrow> node \<Rightarrow> unit res" where
  "validate_snapshot_blob sn c n =
     (if mode c = Set then
        (if node_value n = 0 then Ok () else Err (Corrupt ''set checkpoint node stores a value''))
      else if node_value n AND VALUE_BLOB_TAG = 0 then Ok ()
      else
        let offset = node_value n AND VALUE_OFFSET_MASK in
        rbind (ok_or (sn_blobs sn) (Corrupt ''map checkpoint blob file is missing'')) (\<lambda>blobs.
        rbind (al_read_into blobs offset BLOB_HEADER_SIZE) (\<lambda>header.
        let (len, expected_checksum) = decode_blob_header header in
        rbind (ok_or (checked_add (of_nat BLOB_HEADER_SIZE) len) (Corrupt ''checkpoint blob length overflow'')) (\<lambda>total.
        rbind (allocation_for blobs offset total) (\<lambda>_.
        rbind (ok_or (checked_add offset (of_nat BLOB_HEADER_SIZE)) (Corrupt ''checkpoint blob offset overflow'')) (\<lambda>value_offset.
        rbind (al_read blobs value_offset (unat len)) (\<lambda>bytes.
        if expected_checksum \<noteq> blob_checksum bytes then Err (Corrupt ''checkpoint blob checksum does not match'')
        else Ok ())))))))"

text \<open>One node of a bucket chain: the body of the \<open>while\<close> loop of \<open>snapshot_checksum\<close>.\<close>

definition checksum_step ::
  "snapshot_files \<Rightarrow> config \<Rightarrow> u64 \<Rightarrow> u64 \<Rightarrow> u64 \<Rightarrow> u64 \<times> u64 \<times> u64 \<Rightarrow> (u64 \<times> u64 \<times> u64, u64) flow res" where
  "checksum_step sn c maximum_nodes bucket root = (\<lambda>(checksum, current, visited).
     if current = 0 then Ok (Return checksum)
     else
       rbind (ok_or (checked_add visited 1) (Corrupt ''checkpoint traversal overflow'')) (\<lambda>visited.
       if visited > maximum_nodes then Err (Corrupt ''checkpoint body chain contains a cycle'')
       else
         rbind (allocation_for (sn_body sn) current (of_nat NODE_SIZE)) (\<lambda>_.
         rbind (read_node (sn_body sn) current) (\<lambda>n.
         let node_hash = xxh64 (node_key n) (hash_seed c) in
         if node_hash mod bucket_count c \<noteq> bucket then Err (Corrupt ''checkpoint node is in the wrong hash bucket'')
         else
           rbind (snapshot_prefix_contains (sn_body sn) root current maximum_nodes (node_key n)) (\<lambda>duplicate.
           if duplicate then Err (Corrupt ''checkpoint contains a duplicate key'')
           else
             rbind (validate_snapshot_blob sn c n) (\<lambda>_.
             let checksum = mix_checksum checksum (node_offset n);
                 checksum = mix_checksum checksum (node_next n);
                 checksum = mix_checksum checksum (node_value n);
                 checksum = xxh64 (node_key n) checksum
             in Ok (Continue (checksum, node_next n, visited))))))))"

definition snapshot_checksum :: "mapped_file \<Rightarrow> snapshot_files \<Rightarrow> config \<Rightarrow> u64 \<Rightarrow> u64 res" where
  "snapshot_checksum heads sn c bank =
     rbind (ok_or (checked_add (body_capacity c div NODE_SIZE_U64) 1) (Corrupt ''checkpoint node limit overflow'')) (\<lambda>maximum_nodes.
     rfold (\<lambda>b checksum.
       let bucket = of_nat b in
       rbind (snapshot_root_atomic heads c bank bucket) (\<lambda>a.
       let root = load64 heads a;
           checksum = mix_checksum checksum bucket;
           checksum = mix_checksum checksum root
       in rloop (checksum_step sn c maximum_nodes bucket root) (checksum, root, 0)))
     [0..<unat (bucket_count c)] MANIFEST_MAGIC)"

definition validate_snapshot :: "mapped_file \<Rightarrow> snapshot_files \<Rightarrow> config \<Rightarrow> manifest \<Rightarrow> unit res" where
  "validate_snapshot heads sn c mn =
     rbind (snapshot_checksum heads sn c (mn_bank mn)) (\<lambda>checksum.
     if checksum \<noteq> mn_checksum mn then Err (Corrupt ''checkpoint snapshot checksum does not match'')
     else Ok ())"

definition create_snapshot :: "config \<Rightarrow> u64 \<Rightarrow> (directory, snapshot_files) prog" where
  "create_snapshot c bank =
     bnd (dir_create_allocator (Snapshot bank Body_File) (Snapshot bank Body_Counts) (body_capacity c) (block_size c)) (\<lambda>body.
     bnd (if mode c = Map then
            bnd (dir_create_allocator (Snapshot bank Blobs_File) (Snapshot bank Blobs_Counts) (blob_capacity c) (block_size c))
              (\<lambda>b. ok (Some b))
          else ok None) (\<lambda>blobs.
     ok \<lparr>sn_body = body, sn_blobs = blobs\<rparr>))"

definition open_snapshot :: "directory \<Rightarrow> config \<Rightarrow> u64 \<Rightarrow> snapshot_files res" where
  "open_snapshot d c bank =
     rbind (dir_open_allocator d (Snapshot bank Body_File) (Snapshot bank Body_Counts) (body_capacity c) (block_size c)) (\<lambda>body.
     rbind (if mode c = Map then
              rbind (dir_open_allocator d (Snapshot bank Blobs_File) (Snapshot bank Blobs_Counts) (blob_capacity c) (block_size c))
                (\<lambda>b. Ok (Some b))
            else Ok None) (\<lambda>blobs.
     Ok \<lparr>sn_body = body, sn_blobs = blobs\<rparr>))"

definition drop_snapshot :: "u64 \<Rightarrow> snapshot_files \<Rightarrow> directory \<Rightarrow> directory" where
  "drop_snapshot bank sn d =
     (let d = put_back (Snapshot bank Body_File) (al_data (sn_body sn)) d;
          d = put_back (Snapshot bank Body_Counts) (al_counts (sn_body sn)) d
      in case sn_blobs sn of None \<Rightarrow> d
         | Some b \<Rightarrow> put_back (Snapshot bank Blobs_Counts) (al_counts b)
                       (put_back (Snapshot bank Blobs_File) (al_data b) d))"

definition remove_files :: "(suffix \<Rightarrow> file_name) \<Rightarrow> mode \<Rightarrow> (directory, unit) prog" where
  "remove_files name m =
     bnd (remove_if_exists (name Body_File)) (\<lambda>_.
     bnd (remove_if_exists (name Body_Counts)) (\<lambda>_.
     if m = Map then
       bnd (remove_if_exists (name Blobs_File)) (\<lambda>_. remove_if_exists (name Blobs_Counts))
     else ok ()))"

definition remove_snapshot_files :: "mode \<Rightarrow> u64 \<Rightarrow> (directory, unit) prog" where
  "remove_snapshot_files m bank = remove_files (Snapshot bank) m"

definition remove_runtime_files :: "mode \<Rightarrow> (directory, unit) prog" where
  "remove_runtime_files m = remove_files Runtime m"

subsection \<open>Taking a checkpoint\<close>

definition snapshot_root :: "database \<Rightarrow> u64 \<Rightarrow> u64 \<Rightarrow> nat res" where
  "snapshot_root db bank bucket = snapshot_root_atomic (db_heads db) (db_config db) bank bucket"

definition clear_snapshot_bank :: "u64 \<Rightarrow> (database, unit) prog" where
  "clear_snapshot_bank bank =
     bnd (gets db_config) (\<lambda>c.
     forM [0..<unat (bucket_count c)] (\<lambda>bucket.
       bnd (reads (\<lambda>db. snapshot_root db bank (of_nat bucket))) (\<lambda>a.
       on_heads (cas_replace (\<lambda>f. load64 f a) (cas64 a) 0))))"

definition clear_runtime_heads :: "(database, unit) prog" where
  "clear_runtime_heads =
     bnd (gets db_config) (\<lambda>c.
     forM [0..<unat (bucket_count c)] (\<lambda>bucket.
       bnd (reads (\<lambda>db. head db (of_nat bucket))) (\<lambda>i.
       cas_replace (\<lambda>db. runtime_heads db ! i) (cas_head i) 0)))"

definition release_chain_then :: "u64 \<Rightarrow> config \<Rightarrow> error \<Rightarrow> (database \<times> snapshot_files, 'a) prog" where
  "release_chain_then root c e = bnd (on_snd (release_snapshot_chain root c)) (\<lambda>_. err e)"

text \<open>One node of the source chain: the \<open>while\<close> loop of \<open>copy_bucket_to_snapshot\<close>, on its locals
  \<open>current\<close>, \<open>snapshot_root\<close> and \<open>snapshot_tail\<close>; \<open>None\<close> asks for a restart.\<close>

definition copy_step ::
  "simd \<Rightarrow> config \<Rightarrow> u64 \<times> u64 \<times> u64 \<Rightarrow> (database \<times> snapshot_files, (u64 \<times> u64 \<times> u64, u64 option) flow) prog" where
  "copy_step simd c = (\<lambda>(current, root, tail).
     if current = 0 then ok (Return (Some root))
     else
       bnd (catch (reads (\<lambda>(db, _). read_node (db_body db) current)) (release_chain_then root c)) (\<lambda>n.
       bnd (reads (\<lambda>(_, sn). snapshot_chain_contains (sn_body sn) root (node_key n))) (\<lambda>present.
       bnd (if present then ok (root, tail)
            else
              bnd (gets (\<lambda>(db, _). db_blobs db)) (\<lambda>source_blobs.
              bnd (catch (on_snd (copy_node simd source_blobs n 0)) (release_chain_then root c)) (\<lambda>copied.
              if root = 0 then ok (copied, copied)
              else
                bnd (catch (on_snd (sn_on_body (set_private_next tail 0 copied))) (\<lambda>e.
                       bnd (on_snd (release_snapshot_node copied c)) (\<lambda>_. release_chain_then root c e))) (\<lambda>_.
                ok (root, copied))))) (\<lambda>(root, tail).
       bnd (reads (\<lambda>(db, _). read_next (db_body db) current)) (\<lambda>observed.
       if observed \<noteq> node_next n then bnd (on_snd (release_snapshot_chain root c)) (\<lambda>_. ok (Return None))
       else ok (Continue (node_next n, root, tail)))))))"

definition copy_bucket_to_snapshot :: "simd \<Rightarrow> u64 \<Rightarrow> (database \<times> snapshot_files, u64) prog" where
  "copy_bucket_to_snapshot simd bucket =
     bnd (gets (\<lambda>(db, _). db_config db)) (\<lambda>c.
     loop (\<lambda>_.
       bnd (reads (\<lambda>(db, _). head db bucket)) (\<lambda>runtime_head.
       bnd (gets (\<lambda>(db, _). runtime_heads db ! runtime_head)) (\<lambda>source_root.
       bnd (gets (\<lambda>(db, _). runtime_heads db ! runtime_head)) (\<lambda>again.
       if again \<noteq> source_root then ok (Continue ())
       else
         bnd (loop (copy_step simd c) (source_root, 0, 0)) (\<lambda>r.
         case r of
           None \<Rightarrow> ok (Continue ())
         | Some root \<Rightarrow>
             bnd (gets (\<lambda>(db, _). runtime_heads db ! runtime_head)) (\<lambda>now.
             if now \<noteq> source_root then bnd (on_snd (release_snapshot_chain root c)) (\<lambda>_. ok (Continue ()))
             else ok (Return root))))))) ())"

type_synonym world = "database \<times> directory"

definition on_db :: "(database, 'a) prog \<Rightarrow> (world, 'a) prog" where "on_db = on_fst"
definition on_dir :: "(directory, 'a) prog \<Rightarrow> (world, 'a) prog" where "on_dir = on_snd"

text \<open>The part of \<open>checkpoint_inner\<close> in which the snapshot is open.\<close>

definition on_copy :: "(database \<times> snapshot_files, 'a) prog \<Rightarrow> (world \<times> snapshot_files, 'a) prog" where
  "on_copy = zoom (\<lambda>((db, _), sn). (db, sn)) (\<lambda>(db, sn) ((_, d), _). ((db, d), sn))"

definition copy_bucket_and_publish :: "simd \<Rightarrow> u64 \<Rightarrow> u64 \<Rightarrow> (world \<times> snapshot_files, unit) prog" where
  "copy_bucket_and_publish simd bank bucket =
     bnd (on_copy (copy_bucket_to_snapshot simd bucket)) (\<lambda>root.
     bnd (reads (\<lambda>((db, _), _). snapshot_root db bank bucket)) (\<lambda>a.
     bnd (on_fst (on_db (on_heads (cas64 a 0 root)))) (\<lambda>swapped.
     if swapped then ok () else err (Corrupt ''checkpoint root bank was not empty''))))"

definition cas_generation :: "u64 \<Rightarrow> u64 \<Rightarrow> (database, bool) prog" where
  "cas_generation expected new db =
     (if checkpoint_generation db = expected then Some (Inr True, db\<lparr>checkpoint_generation := new\<rparr>)
      else Some (Inr False, db))"

definition fill_snapshot :: "simd \<Rightarrow> u64 \<Rightarrow> u64 \<Rightarrow> u64 \<Rightarrow> (world \<times> snapshot_files, u64) prog" where
  "fill_snapshot simd previous_generation generation bank =
     bnd (gets (\<lambda>((db, _), _). db_config db)) (\<lambda>c.
     bnd (forM [0..<unat (bucket_count c)] (\<lambda>bucket. copy_bucket_and_publish simd bank (of_nat bucket))) (\<lambda>_.
     bnd (reads (\<lambda>((db, _), sn). snapshot_checksum (db_heads db) sn c bank)) (\<lambda>checksum.
     bnd (on_snd (sn_on_body al_sync_all)) (\<lambda>_.
     bnd (gets (\<lambda>(_, sn). sn_blobs sn)) (\<lambda>blobs.
     bnd (if blobs \<noteq> None then on_snd (sn_on_blobs [] al_sync_all) else ok ()) (\<lambda>_.
     bnd (on_fst (on_dir sync_namespace)) (\<lambda>_.
     bnd (on_fst (on_db (on_heads mf_sync_all))) (\<lambda>_.
     bnd (on_fst (on_db (on_heads (write_manifest
            \<lparr>mn_generation = generation, mn_bank = bank, mn_checksum = checksum\<rparr>)))) (\<lambda>_.
     bnd (on_fst (on_db (on_heads mf_sync_all))) (\<lambda>_.
     bnd (on_fst (on_db (cas_generation previous_generation generation))) (\<lambda>swapped.
     if swapped then ok generation
     else err (Corrupt ''checkpoint generation changed unexpectedly''))))))))))))"

definition checkpoint_inner :: "simd \<Rightarrow> (world, u64) prog" where
  "checkpoint_inner simd =
     bnd (gets (\<lambda>(db, _). checkpoint_generation db)) (\<lambda>previous_generation.
     bnd (lift (ok_or (checked_add previous_generation 1) (CapacityExhausted ''checkpoint generation''))) (\<lambda>generation.
     let bank = generation AND 1 in
     bnd (on_db (on_heads (invalidate_manifest bank))) (\<lambda>_.
     bnd (on_db (on_heads mf_sync_all)) (\<lambda>_.
     bnd (gets (\<lambda>(db, _). db_config db)) (\<lambda>c.
     bnd (on_dir (remove_snapshot_files (mode c) bank)) (\<lambda>_.
     bnd (on_db (clear_snapshot_bank bank)) (\<lambda>_.
     bnd (on_dir (create_snapshot c bank)) (\<lambda>snapshot.
     bnd (scoped snapshot (fill_snapshot simd previous_generation generation bank)) (\<lambda>(r, snapshot).
     bnd (on_dir (modify (drop_snapshot bank snapshot))) (\<lambda>_.
     outcome r))))))))))"

definition cleanup_failed_checkpoint :: "u64 \<Rightarrow> (world, unit) prog" where
  "cleanup_failed_checkpoint bank =
     bnd (on_db (on_heads (invalidate_manifest bank))) (\<lambda>_.
     bnd (on_db (on_heads mf_sync_all)) (\<lambda>_.
     bnd (gets (\<lambda>(db, _). db_config db)) (\<lambda>c.
     bnd (on_dir (remove_snapshot_files (mode c) bank)) (\<lambda>_.
     bnd (on_db (clear_snapshot_bank bank)) (\<lambda>_.
     on_dir sync_namespace)))))"

definition cas_checkpoint_state :: "u64 \<Rightarrow> u64 \<Rightarrow> (database, bool) prog" where
  "cas_checkpoint_state expected new db =
     (if checkpoint_state db = expected then Some (Inr True, db\<lparr>checkpoint_state := new\<rparr>)
      else Some (Inr False, db))"

definition db_checkpoint :: "simd \<Rightarrow> (world, u64) prog" where
  "db_checkpoint simd =
     bnd (reads (\<lambda>(db, _). operation_guard db)) (\<lambda>_.
     bracket
       (bnd (on_db (cas_checkpoint_state CHECKPOINT_IDLE CHECKPOINT_BUSY)) (\<lambda>swapped.
          if swapped then ok () else err (Busy ''another checkpoint is active'')))
       (\<lambda>_. on_db (modify (\<lambda>db. db\<lparr>checkpoint_state := CHECKPOINT_IDLE\<rparr>)))
       (bnd (gets (\<lambda>(db, _). compaction_state db)) (\<lambda>compacting.
        if compacting \<noteq> 0 then err (Busy ''compaction is active'')
        else
          bnd (gets (\<lambda>(db, _). checkpoint_generation db)) (\<lambda>generation.
          bnd (lift (ok_or (checked_add generation 1) (CapacityExhausted ''checkpoint generation''))) (\<lambda>failed_generation.
          catch (checkpoint_inner simd) (\<lambda>e.
            bnd (ignore (cleanup_failed_checkpoint (failed_generation AND 1))) (\<lambda>_. err e)))))))"

subsection \<open>Opening\<close>

definition on_stores :: "(snapshot_files, 'a) prog \<Rightarrow> (database, 'a) prog" where
  "on_stores = zoom (\<lambda>db. \<lparr>sn_body = db_body db, sn_blobs = db_blobs db\<rparr>)
     (\<lambda>sn db. db\<lparr>db_body := sn_body sn, db_blobs := sn_blobs sn\<rparr>)"

definition rebuild_step :: "simd \<Rightarrow> snapshot_files \<Rightarrow> u64 \<times> u64 \<Rightarrow> (database, (u64 \<times> u64, u64) flow) prog" where
  "rebuild_step simd snapshot = (\<lambda>(source, runtime_root).
     if source = 0 then ok (Return runtime_root)
     else
       bnd (lift (read_node (sn_body snapshot) source)) (\<lambda>n.
       bnd (on_stores (copy_node simd (sn_blobs snapshot) n runtime_root)) (\<lambda>root.
       ok (Continue (node_next n, root)))))"

definition rebuild_bucket :: "simd \<Rightarrow> snapshot_files \<Rightarrow> u64 \<Rightarrow> u64 \<Rightarrow> (database, unit) prog" where
  "rebuild_bucket simd snapshot bank bucket =
     bnd (reads (\<lambda>db. snapshot_root db bank bucket)) (\<lambda>a.
     bnd (gets (\<lambda>db. load64 (db_heads db) a)) (\<lambda>source.
     bnd (loop (rebuild_step simd snapshot) (source, 0)) (\<lambda>runtime_root.
     bnd (reads (\<lambda>db. head db bucket)) (\<lambda>i.
     bnd (cas_head i 0 runtime_root) (\<lambda>swapped.
     if swapped then ok () else err (Corrupt ''runtime head was not cleared during recovery''))))))"

definition rebuild_runtime :: "simd \<Rightarrow> snapshot_files \<Rightarrow> u64 \<Rightarrow> (database, unit) prog" where
  "rebuild_runtime simd snapshot bank =
     bnd (gets db_config) (\<lambda>c.
     forM [0..<unat (bucket_count c)] (\<lambda>bucket. rebuild_bucket simd snapshot bank (of_nat bucket)))"

text \<open>Dropping a database leaves the bytes of its files on disk.\<close>

definition drop_database :: "database \<Rightarrow> directory \<Rightarrow> directory" where
  "drop_database db d =
     (let d = put_back Heads_File (db_heads db) d;
          d = put_back (Runtime Body_File) (al_data (db_body db)) d;
          d = put_back (Runtime Body_Counts) (al_counts (db_body db)) d
      in case db_blobs db of None \<Rightarrow> d
         | Some b \<Rightarrow> put_back (Runtime Blobs_Counts) (al_counts b)
                       (put_back (Runtime Blobs_File) (al_data b) d))"

definition open_generation :: "simd \<Rightarrow> config \<Rightarrow> u64 \<Rightarrow> manifest \<Rightarrow> (directory, database) prog" where
  "open_generation simd c mapped_length mn =
     bnd (reads (\<lambda>d. dir_open_heads d mapped_length)) (\<lambda>heads.
     bnd (reads (\<lambda>d. open_snapshot d c (mn_bank mn))) (\<lambda>snapshot.
     bnd (lift (validate_snapshot heads snapshot c mn)) (\<lambda>_.
     bnd (lift (exec mf_advise_heads heads)) (\<lambda>heads.
     bnd (remove_runtime_files (mode c)) (\<lambda>_.
     bnd (dir_create_allocator (Runtime Body_File) (Runtime Body_Counts) (body_capacity c) (block_size c)) (\<lambda>body.
     bnd (if mode c = Map then
            bnd (dir_create_allocator (Runtime Blobs_File) (Runtime Blobs_Counts) (blob_capacity c) (block_size c))
              (\<lambda>b. ok (Some b))
          else ok None) (\<lambda>blobs.
     bnd (lift (create_runtime_heads (bucket_count c) heads False)) (\<lambda>runtime.
     bnd (lift (create_delete_locks (bucket_count c) (reserve_limit heads))) (\<lambda>locks.
     let db = \<lparr>db_config = c, db_heads = heads, runtime_heads = runtime, delete_locks = locks,
               db_body = body, db_blobs = blobs, checkpoint_state = CHECKPOINT_IDLE,
               checkpoint_generation = mn_generation mn, quiescence_poisoned = False, compaction_state = 0\<rparr> in
     bnd (scoped db (on_snd (bnd clear_runtime_heads (\<lambda>_. rebuild_runtime simd snapshot (mn_bank mn))))) (\<lambda>(r, db).
     case r of
       Inr _ \<Rightarrow> ok db
     | Inl e \<Rightarrow> bnd (modify (drop_database db)) (\<lambda>_. err e)))))))))))"

text \<open>The manifests in order; the first error is the one reported.\<close>

primrec try_generations :: "simd \<Rightarrow> config \<Rightarrow> u64 \<Rightarrow> manifest list \<Rightarrow> error option \<Rightarrow> (directory, database) prog" where
  "try_generations simd c len [] first_error =
     err (case first_error of Some e \<Rightarrow> e | None \<Rightarrow> Corrupt ''database has no valid checkpoint'')"
| "try_generations simd c len (mn # mns) first_error =
     bnd (attempt (open_generation simd c len mn)) (\<lambda>r.
     case r of
       Inr db \<Rightarrow> ok db
     | Inl e \<Rightarrow> try_generations simd c len mns (if first_error = None then Some e else first_error))"

definition open_heads :: "(directory, mapped_file \<times> config \<times> u64) prog" where
  "open_heads =
     bnd (metadata_len Heads_File) (\<lambda>mapped_length.
     bnd (reads (\<lambda>d. dir_open_heads d mapped_length)) (\<lambda>heads.
     bnd (lift (read_config heads)) (\<lambda>c.
     ok (heads, c, mapped_length))))"

definition check_heads_length :: "config \<Rightarrow> u64 \<Rightarrow> unit res" where
  "check_heads_length c mapped_length =
     rbind (heads_length (bucket_count c)) (\<lambda>len.
     if len \<noteq> mapped_length then Err (Corrupt ''heads file length does not match its configuration'') else Ok ())"

definition db_open :: "simd \<Rightarrow> (directory, database) prog" where
  "db_open simd =
     bnd open_heads (\<lambda>(heads, c, mapped_length).
     bnd (lift (check_heads_length c mapped_length)) (\<lambda>_.
     bnd (lift (read_manifests heads)) (\<lambda>manifests.
     try_generations simd c mapped_length (map the (filter (\<lambda>m. m \<noteq> None) manifests)) None)))"

definition open_runtime :: "(directory, database) prog" where
  "open_runtime =
     bnd open_heads (\<lambda>(heads, c, mapped_length).
     bnd (lift (check_heads_length c mapped_length)) (\<lambda>_.
     bnd (lift (exec mf_advise_heads heads)) (\<lambda>heads.
     bnd (lift (create_runtime_heads (bucket_count c) heads True)) (\<lambda>runtime.
     bnd (lift (create_delete_locks (bucket_count c) (reserve_limit heads))) (\<lambda>locks.
     bnd (reads (\<lambda>d. dir_open_allocator d (Runtime Body_File) (Runtime Body_Counts) (body_capacity c) (block_size c))) (\<lambda>body.
     bnd (if mode c = Map then
            bnd (reads (\<lambda>d. dir_open_allocator d (Runtime Blobs_File) (Runtime Blobs_Counts) (blob_capacity c) (block_size c)))
              (\<lambda>b. ok (Some b))
          else ok None) (\<lambda>blobs.
     ok \<lparr>db_config = c, db_heads = heads, runtime_heads = runtime, delete_locks = locks,
         db_body = body, db_blobs = blobs, checkpoint_state = CHECKPOINT_IDLE,
         checkpoint_generation = 0, quiescence_poisoned = False, compaction_state = 0\<rparr>)))))))"

text \<open>\<open>headroom.div_ceil(block_size)\<close>; a validated block size is not zero.\<close>

definition div_ceil :: "u64 \<Rightarrow> u64 \<Rightarrow> u64" where
  "div_ceil a b = a div b + (if a mod b = 0 then 0 else 1)"

definition write_capacity :: "u64 \<Rightarrow> (mapped_file, unit) prog" where
  "write_capacity new_capacity =
     bnd (reads (\<lambda>heads. copy_out heads 0 (unat FORMAT_PAGE_SIZE))) (\<lambda>header.
     bnd (lift (write_header_u64 header 40 new_capacity)) (\<lambda>header.
     bnd (lift (header_checksum header)) (\<lambda>checksum.
     bnd (lift (write_header_u64 header HEADER_CHECKSUM_OFFSET checksum)) (\<lambda>header.
     bnd (copy_in 0 header) (\<lambda>_. mf_sync_all)))))"

definition ensure_runtime_body_headroom :: "u64 \<Rightarrow> (directory, bool) prog" where
  "ensure_runtime_body_headroom headroom =
     bnd open_heads (\<lambda>(heads, c, _).
     if headroom = 0 then err (InvalidConfig ''runtime body headroom must be nonzero'')
     else
       bnd (lift (ok_or (checked_mul (div_ceil headroom (block_size c)) (block_size c)) (InvalidConfig ''runtime body headroom overflow''))) (\<lambda>required.
       bnd (reads (\<lambda>d. read_high_water (dir_files d (Runtime Body_Counts)))) (\<lambda>next_block.
       if next_block > body_capacity c div block_size c then err (Corrupt ''body allocator high-water mark is out of range'')
       else
         bnd (lift (ok_or (checked_mul next_block (block_size c)) (Corrupt ''body allocator used capacity overflow''))) (\<lambda>used.
         bnd (lift (ok_or (checked_sub (body_capacity c) used) (Corrupt ''body allocator remaining capacity overflow''))) (\<lambda>remaining.
         if remaining \<ge> required then ok False
         else
           bnd (lift (ok_or (checked_add used required) (InvalidConfig ''runtime body capacity overflow''))) (\<lambda>new_capacity.
           bnd (scoped heads (on_snd (write_capacity new_capacity))) (\<lambda>(r, heads).
           bnd (modify (put_back Heads_File heads)) (\<lambda>_.
           bnd (outcome r) (\<lambda>_. ok True)))))))))"

end
