(* ===== verification/Manifest.thy ===== *)
theory Manifest
  imports Table_Map Checkpoint
begin

text \<open>
  The header page and the two manifests of the heads file of src/checkpoint.rs: where their words
  are, what \<open>read_config\<close> and \<open>read_manifest\<close> make of them, and what \<open>write_manifest\<close> stores.
\<close>

subsection \<open>The header\<close>

text \<open>The bytes of a heads file whose header describes a configuration.\<close>

definition header_at :: "(nat \<Rightarrow> u8) \<Rightarrow> config \<Rightarrow> bool" where
  "header_at m c \<longleftrightarrow> mread m 0 8 = HEADER_MAGIC \<and> (\<forall>(i, v) \<in> set (header_fields c). mread m i 8 = u64_le v)
     \<and> mread m 96 8 = u64_le (xxh64 (mread m 0 96) HEADER_CHECKSUM_SEED)"

lemma header_at_cong: "(\<And>x. x < 104 \<Longrightarrow> m' x = m x) \<Longrightarrow> header_at m c \<Longrightarrow> header_at m' c"
proof -
  assume m: "\<And>x. x < 104 \<Longrightarrow> m' x = m x" and h: "header_at m c"
  have "mread m' a n = mread m a n" if "a + n \<le> 104" for a n by (rule mread_cong) (use m that in auto)
  then show "header_at m' c" using h by (simp add: header_at_def header_fields_def)
qed

lemma slice_mread: "i \<le> j \<Longrightarrow> j \<le> n \<Longrightarrow> slice (mread m a n) i j = Some (mread m (a + i) (j - i))"
  by (simp add: mread_sub)

lemma header_at_write:
  assumes "header_page c = Ok h"
  shows "header_at (mwrite 0 h m) c" "length h = 65536"
proof -
  from header_page_eq [of c] assms have h: "length h = 65536" "slice h 0 8 = Some HEADER_MAGIC"
     "\<forall>(i, v) \<in> set (header_fields c). slice h i (i + 8) = Some (u64_le v)"
     "slice h 96 104 = Some (u64_le (xxh64 (take 96 h) HEADER_CHECKSUM_SEED))" by auto
  show "length h = 65536" by (rule h(1))
  have s: "slice h i j = Some (mread (mwrite 0 h m) i (j - i))" if "i \<le> j" "j \<le> 65536" for i j
  proof -
    have "mread (mwrite 0 h m) 0 65536 = h" using h(1) by simp
    then show ?thesis using slice_mread [OF that, of "mwrite 0 h m" 0] by simp
  qed
  have t: "take 96 h = mread (mwrite 0 h m) 0 96" using s [of 0 96] h(1) by (simp add: slice_def)
  have "\<forall>(i, v) \<in> set (header_fields c). mread (mwrite 0 h m) i 8 = u64_le v"
    using h(3) s by (auto simp: header_fields_def)
  then show "header_at (mwrite 0 h m) c" using h(2,4) s t by (simp add: header_at_def)
qed

lemma header_u64_mread: "i + 8 \<le> 65536 \<Longrightarrow> header_u64 (mread m 0 65536) i = Ok (from_le (mread m i 8))"
  by (simp add: header_u64_def usize_checked_add_def ok_or_def mread_sub)

lemma header_checksum_mread: "header_checksum (mread m 0 65536) = Ok (xxh64 (mread m 0 96) HEADER_CHECKSUM_SEED)"
  using mread_sub [of 0 96 65536 m 0] by (simp add: header_checksum_def HEADER_CHECKSUM_OFFSET_def ok_or_def)

lemma read_config_eq:
  assumes f: "mf_inv f" "65536 \<le> flen f" "65536 \<le> reserve_limit f" and h: "header_at (mem f) c"
  shows "read_config f = rbind (validate c) (\<lambda>_. Ok c)"
proof -
  have co: "copy_out f 0 65536 = Ok (mread (mem f) 0 65536)" using copy_out_idle [OF f(1,3), of 0] f(2) by simp
  have mg: "slice (mread (mem f) 0 65536) 0 8 = Some HEADER_MAGIC"
    using h slice_mread [of 0 8 65536 "mem f" 0] by (simp add: header_at_def)
  have fld: "header_u64 (mread (mem f) 0 65536) i = Ok v" if "(i, v) \<in> set (header_fields c)" for i v
  proof -
    have "i + 8 \<le> 65536" using that by (auto simp: header_fields_def)
    moreover have "mread (mem f) i 8 = u64_le v" using h that by (auto simp: header_at_def)
    ultimately show ?thesis by (simp add: header_u64_mread)
  qed
  have cs: "header_u64 (mread (mem f) 0 65536) 96 = Ok (xxh64 (mread (mem f) 0 96) HEADER_CHECKSUM_SEED)"
    using h by (simp add: header_at_def header_u64_mread)
  have md: "(if mode_u64 (mode c) = 1 then Ok Set else if mode_u64 (mode c) = 2 then Ok Map
      else Err (Corrupt ''database mode is invalid'')) = Ok (mode c)" by (cases "mode c") simp_all
  have c: "\<lparr>mode = mode c, bucket_count = bucket_count c, body_capacity = body_capacity c,
      blob_capacity = blob_capacity c, block_size = block_size c, hash_seed = hash_seed c\<rparr> = c" by simp
  show ?thesis
    unfolding read_config_def
    using co mg cs md fld
    by (simp add: layout_defs header_fields_def HEADER_CHECKSUM_OFFSET_def header_checksum_mread KEY_SIZE_def Let_def) (simp only: c)
qed

subsection \<open>Manifests\<close>

definition manifest_pos :: "u64 \<Rightarrow> nat" where "manifest_pos bank = 128 + 64 * unat bank"

lemma manifest_offset_eq: "bank \<le> 1 \<Longrightarrow> \<exists>off. manifest_offset bank = Ok off \<and> unat off = manifest_pos bank"
proof -
  assume b: "bank \<le> 1"
  then have u: "unat bank \<le> 1" by (simp add: word_le_nat_alt)
  then have m: "unat (bank * 64) = unat bank * 64" by (simp add: unat_mul_nowrap)
  then have "unat (128 + bank * 64) = 128 + unat bank * 64" using u by (simp add: unat_add_nowrap)
  then show ?thesis
    using b u m by (simp add: manifest_offset_def MANIFEST_STRIDE_def MANIFEST_BASE_def checked_mul_def checked_add_def
        manifest_pos_def not_less)
qed

text \<open>The five words of a manifest in the heads file.\<close>

definition manifest_at :: "(nat \<Rightarrow> u8) \<Rightarrow> u64 \<Rightarrow> u64 list" where
  "manifest_at m bank = map (\<lambda>i. from_le (mread m (manifest_pos bank + 8 * i) 8)) [0..<5]"

lemma cas_replace_mapped:
  "cas_replace (\<lambda>f. load64 f a) (cas64 a) v f = Some (Inr (), f\<lparr>mem := mwrite a (u64_le v) (mem f)\<rparr>)"
proof -
  have "wp (cas_replace (\<lambda>f. load64 f a) (cas64 a) v) (\<lambda>_ t. t = f\<lparr>mem := mwrite a (u64_le v) (mem f)\<rparr>) (\<lambda>_ _. False) f"
    unfolding cas_replace_def wp_bnd
    by simp (rule wp_loop_once, simp add: wp_bnd, simp add: wp_def cas64_def bnd_def store64_def modify_def ok_def)
  then show ?thesis by (auto simp: wp_disj)
qed

lemma replace_mapped_eq:
  assumes "mf_inv f" "unat off + 8 \<le> flen f" "unat off mod 8 = 0"
  shows "replace_mapped off v f = Some (Inr (), f\<lparr>mem := mwrite (unat off) (u64_le v) (mem f)\<rparr>)"
proof -
  have "mf_atomic_u64 f off = Ok (unat off)" using mf_atomic_idle(1) [OF assms(1)] assms(2,3) by simp
  then show ?thesis by (simp add: replace_mapped_def bnd_def reads_def cas_replace_mapped)
qed

lemma wp_replace_mapped:
  assumes "mf_inv f" "unat off + 8 \<le> flen f" "unat off mod 8 = 0"
  shows "wp (replace_mapped off v) Q E f = Q () (f\<lparr>mem := mwrite (unat off) (u64_le v) (mem f)\<rparr>)"
  using replace_mapped_eq [OF assms] by (simp add: wp_def)

lemma mf_inv_write:
  "mf_inv f \<Longrightarrow> a + length bs \<le> flen f \<Longrightarrow> mf_inv (f\<lparr>mem := mwrite a bs (mem f)\<rparr>)"
  by (auto simp: mf_inv_def mwrite_def)

lemma manifest_offsets:
  fixes off :: u64
  assumes "unat off = manifest_pos bank" "bank \<le> 1" "i \<le> 4"
  shows "unat (off + of_nat (8 * i)) = manifest_pos bank + 8 * i"
proof -
  have "unat bank \<le> 1" using assms(2) by (simp add: word_le_nat_alt)
  then have "unat off \<le> 192" using assms(1) by (simp add: manifest_pos_def)
  moreover have "unat (of_nat (8 * i) :: u64) = 8 * i" using assms(3) by (subst unat_of_nat_u64) simp_all
  ultimately show ?thesis using assms(1,3) by (subst unat_add_nowrap) simp_all
qed

text \<open>The memory after \<open>write_manifest\<close>, in the order of its six stores.\<close>

definition manifest_mem :: "manifest \<Rightarrow> (nat \<Rightarrow> u8) \<Rightarrow> nat \<Rightarrow> u8" where
  "manifest_mem mn m = (let p = manifest_pos (mn_bank mn) in
     mwrite p (u64_le MANIFEST_MAGIC)
       (mwrite (p + 24) (u64_le (manifest_checksum (mn_generation mn) (mn_bank mn) (mn_checksum mn)))
       (mwrite (p + 32) (u64_le (mn_checksum mn))
       (mwrite (p + 16) (u64_le (mn_bank mn))
       (mwrite (p + 8) (u64_le (mn_generation mn)) (mwrite p (u64_le 0) m))))))"

lemma write_manifest_eq:
  assumes f: "mf_inv f" "65536 \<le> flen f" and b: "mn_bank mn \<le> 1"
  shows "write_manifest mn f = Some (Inr (), f\<lparr>mem := manifest_mem mn (mem f)\<rparr>)"
    and "mf_inv (f\<lparr>mem := manifest_mem mn (mem f)\<rparr>)"
proof -
  obtain off where off: "manifest_offset (mn_bank mn) = Ok off" "unat off = manifest_pos (mn_bank mn)"
    using manifest_offset_eq [OF b] by blast
  let ?p = "manifest_pos (mn_bank mn)"
  have p: "?p \<le> 192" "?p mod 8 = 0" using b by (auto simp: manifest_pos_def word_le_nat_alt)
  have o8: "unat (off + 8) = ?p + 8" "unat (off + 16) = ?p + 16" "unat (off + 24) = ?p + 24" "unat (off + 32) = ?p + 32"
    using manifest_offsets [OF off(2) b, of 1] manifest_offsets [OF off(2) b, of 2] manifest_offsets [OF off(2) b, of 3]
      manifest_offsets [OF off(2) b, of 4] by simp_all
  have md: "(?p + 8) mod 8 = 0" "(?p + 16) mod 8 = 0" "(?p + 24) mod 8 = 0" "(?p + 32) mod 8 = 0" using p(2) by presburger+
  have inv: "mf_inv (g\<lparr>mem := mwrite a (u64_le v) m\<rparr>)" if "mf_inv (g\<lparr>mem := m\<rparr>)" "a + 8 \<le> flen g" for g a v m
    using mf_inv_write [OF that(1), of a "u64_le v"] that(2) by simp
  have f0: "mf_inv (f\<lparr>mem := mem f\<rparr>)" using f(1) by simp
  show "mf_inv (f\<lparr>mem := manifest_mem mn (mem f)\<rparr>)"
    unfolding manifest_mem_def Let_def by (intro inv f0) (use p f in auto)
  have "wp (write_manifest mn) (\<lambda>_ t. t = f\<lparr>mem := manifest_mem mn (mem f)\<rparr>) (\<lambda>_ _. False) f"
    using p md f
    by (simp add: write_manifest_def wp_bnd wp_lift off o8 wp_replace_mapped inv [OF f0] inv mf_inv_write manifest_mem_def Let_def)
  then show "write_manifest mn f = Some (Inr (), f\<lparr>mem := manifest_mem mn (mem f)\<rparr>)" by (auto simp: wp_disj)
qed

lemma manifest_mem_other:
  "x < manifest_pos (mn_bank mn) \<or> manifest_pos (mn_bank mn) + 40 \<le> x \<Longrightarrow> manifest_mem mn m x = m x"
  by (auto simp: manifest_mem_def mwrite_def Let_def)

lemma read_mapped_eq:
  assumes "mf_inv f" "8 \<le> reserve_limit f" "unat off + 8 \<le> flen f"
  shows "read_mapped_u64 f off = Ok (from_le (mread (mem f) (unat off) 8))"
proof -
  have "copy_out f off 8 = Ok (mread (mem f) (unat off) 8)" using copy_out_idle [OF assms(1,2)] assms(3) by blast
  then show ?thesis by (simp add: read_mapped_u64_def)
qed

text \<open>What \<open>read_manifest\<close> makes of the five words.\<close>

definition decode_manifest :: "(nat \<Rightarrow> u8) \<Rightarrow> u64 \<Rightarrow> manifest option" where
  "decode_manifest m bank = (let p = manifest_pos bank; w = (\<lambda>i. from_le (mread m (p + i) 8)) in
     if w 0 = MANIFEST_MAGIC \<and> w 16 = bank \<and> w 8 AND 1 = bank \<and> w 24 = manifest_checksum (w 8) bank (w 32)
     then Some \<lparr>mn_generation = w 8, mn_bank = bank, mn_checksum = w 32\<rparr> else None)"

lemma read_manifest_eq:
  assumes f: "mf_inv f" "65536 \<le> flen f" "8 \<le> reserve_limit f" and b: "bank \<le> 1"
  shows "read_manifest f bank = Ok (decode_manifest (mem f) bank)"
proof -
  obtain off where off: "manifest_offset bank = Ok off" "unat off = manifest_pos bank"
    using manifest_offset_eq [OF b] by blast
  have p: "manifest_pos bank \<le> 192" using b by (auto simp: manifest_pos_def word_le_nat_alt)
  have o8: "unat (off + 8) = manifest_pos bank + 8" "unat (off + 16) = manifest_pos bank + 16"
      "unat (off + 24) = manifest_pos bank + 24" "unat (off + 32) = manifest_pos bank + 32"
    using manifest_offsets [OF off(2) b, of 1] manifest_offsets [OF off(2) b, of 2] manifest_offsets [OF off(2) b, of 3]
      manifest_offsets [OF off(2) b, of 4] by simp_all
  show ?thesis
    using f p off by (auto simp: read_manifest_def read_mapped_eq o8 decode_manifest_def Let_def)
qed

lemma decode_written:
  assumes "mn_bank mn \<le> 1"
  shows "decode_manifest (manifest_mem mn m) (mn_bank mn) = (if mn_generation mn AND 1 = mn_bank mn then Some mn else None)"
    and "bank \<le> 1 \<Longrightarrow> bank \<noteq> mn_bank mn \<Longrightarrow> decode_manifest (manifest_mem mn m) bank = decode_manifest m bank"
proof -
  show "decode_manifest (manifest_mem mn m) (mn_bank mn) = (if mn_generation mn AND 1 = mn_bank mn then Some mn else None)"
    by (simp add: decode_manifest_def manifest_mem_def Let_def mread_mwrite_disjoint)
  assume b: "bank \<le> 1" "bank \<noteq> mn_bank mn"
  have "unat bank \<le> 1" "unat (mn_bank mn) \<le> 1" "unat bank \<noteq> unat (mn_bank mn)"
    using assms b by (simp_all add: word_le_nat_alt word_unat_eq_iff)
  then have ap: "manifest_pos bank + 40 \<le> manifest_pos (mn_bank mn) \<or> manifest_pos (mn_bank mn) + 40 \<le> manifest_pos bank"
    by (auto simp: manifest_pos_def)
  have e: "mread (manifest_mem mn m) (manifest_pos bank + i) 8 = mread m (manifest_pos bank + i) 8" if "i \<le> 32" for i
    by (rule mread_cong, rule manifest_mem_other) (use ap that in auto)
  from e [of 0] e [of 8] e [of 16] e [of 24] e [of 32]
  show "decode_manifest (manifest_mem mn m) bank = decode_manifest m bank" by (simp add: decode_manifest_def Let_def)
qed

end
