(* ===== verification/Reopen.thy ===== *)
theory Reopen
  imports Manifest
begin

text \<open>
  A clean close and \<open>open_runtime\<close> of src/checkpoint.rs: \<open>sync\<close> writes the heads vector in
  batches, the allocators are sealed, and opening the files again gives a table with the same
  chains.
\<close>

subsection \<open>The heads vector on disk\<close>

lemma mwrite_Nil [simp]: "mwrite a [] m = m"
  by (auto simp: mwrite_def fun_eq_iff)

lemma mwrite_append: "mwrite (a + length bs) cs (mwrite a bs m) = mwrite a (bs @ cs) m"
  by (auto simp: mwrite_def fun_eq_iff nth_append)

lemma mwrite_append': "b = a + length bs \<Longrightarrow> mwrite b cs (mwrite a bs m) = mwrite a (bs @ cs) m"
  using mwrite_append by simp

abbreviation head_bytes :: "u64 list \<Rightarrow> bytes" where "head_bytes xs \<equiv> concat (map u64_le xs)"

lemma length_head_bytes [simp]: "length (head_bytes xs) = 8 * length xs"
  by (induction xs) simp_all

lemma head_bytes_nth:
  "i < length xs \<Longrightarrow> mread (mwrite a (head_bytes xs) m) (a + 8 * i) 8 = u64_le (xs ! i)"
proof (induction xs arbitrary: a i m)
  case (Cons x xs)
  have w: "mwrite a (head_bytes (x # xs)) m = mwrite (a + 8) (head_bytes xs) (mwrite a (u64_le x) m)"
    using mwrite_append [of a "u64_le x" "head_bytes xs" m] by simp
  show ?case
  proof (cases i)
    case 0
    then show ?thesis unfolding w by (simp add: mread_mwrite_disjoint)
  next
    case (Suc j)
    then show ?thesis unfolding w using Cons.IH [of j "a + 8" "mwrite a (u64_le x) m"] Cons.prems
      by (simp add: add.assoc)
  qed
qed simp

lemma heads_length_ge:
  assumes "heads_length n = Ok len"
  shows "65536 + 8 * unat n \<le> unat len"
proof -
  from assms obtain b s r where b: "checked_mul n 8 = Some b" "align_up b FORMAT_PAGE_SIZE = Some s"
    and s: "checked_mul s 3 = Some r" "checked_add HEADS_START r = Some len"
    by (auto simp: heads_length_def bank_size_def rbind_Ok_iff split: Option.bind_splits)
  have p: "is_power_of_two (65536 :: u64)" using is_power_of_two_2p [of 16, where 'a = 64] by simp
  have u: "unat b = unat n * 8" "unat r = unat s * 3" "unat len = 65536 + unat r"
    using checked_mul_unat [OF b(1)] checked_mul_unat [OF s(1)] checked_add_unat [OF s(2)] by (simp_all add: layout_defs)
  have "\<not> 2 ^ 64 \<le> unat b + (unat (65536 :: u64) - 1)" using b(2) align_up_None_iff [of b 65536] p by (auto simp: layout_defs)
  then obtain s' where "align_up b 65536 = Some s'" "unat s' = (unat b + 65535) div 65536 * 65536"
    using align_up_eq [OF p, of b] by auto
  then have "unat b \<le> unat s" using b(2) least_multiple(1) [of 65536 "unat b"] by (simp add: layout_defs)
  then show ?thesis using u by simp
qed

lemma persist_chunk_wp:
  assumes f: "mf_inv (db_heads db)" and fit: "65536 + 8 * (k * HEAD_BATCH + length xs) \<le> flen (db_heads db)"
  shows "wp (persist_chunk (k, xs)) Q E db = Q () (db\<lparr>db_heads := (db_heads db)\<lparr>mem :=
     mwrite (65536 + 8 * (k * HEAD_BATCH)) (head_bytes xs) (mem (db_heads db))\<rparr>\<rparr>)"
proof -
  define n where "n = k * HEAD_BATCH"
  note fit = fit [folded n_def]
  have lt: "65536 + 8 * n < 2 ^ 63" using fit mf_inv_idle [OF f] by simp
  have u: "unat (of_nat n :: u64) = n" by (rule unat_of_nat_u64) (use lt in simp)
  then have m: "checked_mul (of_nat n :: u64) 8 = Some (of_nat n * 8)" "unat (of_nat n * 8 :: u64) = 8 * n"
    using lt by (simp_all add: checked_mul_def unat_mul_nowrap)
  have a: "checked_add HEADS_START (of_nat n * 8) = Some (HEADS_START + of_nat n * 8)"
     "unat (HEADS_START + of_nat n * 8 :: u64) = 65536 + 8 * n"
    using lt m by (simp_all add: checked_add_def layout_defs unat_add_nowrap)
  have c: "copy_in (HEADS_START + of_nat n * 8) (head_bytes xs) (db_heads db) = Some (Inr (), (db_heads db)\<lparr>mem :=
     mwrite (65536 + 8 * n) (head_bytes xs) (mem (db_heads db))\<rparr>)"
    using copy_in_idle [OF f, of "HEADS_START + of_nat n * 8" "head_bytes xs"] a(2) fit by (simp add: algebra_simps)
  show ?thesis
    using lt m a c unfolding n_def [symmetric]
    by (simp add: persist_chunk_def n_def [symmetric] usize_checked_mul_def u64_try_from_def ok_or_def on_heads_def wp_zoom wp_bnd wp_lift) (simp add: wp_def)
qed

lemma persist_chunks_wp:
  "mf_inv (db_heads db) \<Longrightarrow> 65536 + 8 * (k * HEAD_BATCH + length xs) \<le> flen (db_heads db) \<Longrightarrow>
   wp (forM (enumerate k (chunks HEAD_BATCH xs)) persist_chunk)
     (\<lambda>_ t. t = db\<lparr>db_heads := (db_heads db)\<lparr>mem := mwrite (65536 + 8 * (k * HEAD_BATCH)) (head_bytes xs) (mem (db_heads db))\<rparr>\<rparr>)
     (\<lambda>_ _. False) db"
proof (induction xs arbitrary: k db rule: measure_induct_rule [where f = length])
  case (less xs)
  have hb: "0 < HEAD_BATCH" by (simp add: HEAD_BATCH_def)
  show ?case
  proof (cases "xs = []")
    case True
    then show ?thesis by (simp add: chunks.simps)
  next
    case False
    let ?hd = "take HEAD_BATCH xs" and ?tl = "drop HEAD_BATCH xs"
    have ch: "chunks HEAD_BATCH xs = ?hd # chunks HEAD_BATCH ?tl" using False hb by (subst chunks.simps) simp
    have len: "length ?hd + length ?tl = length xs" by simp
    have lt: "length ?tl < length xs" using False hb by simp
    let ?db = "db\<lparr>db_heads := (db_heads db)\<lparr>mem := mwrite (65536 + 8 * (k * HEAD_BATCH)) (head_bytes ?hd) (mem (db_heads db))\<rparr>\<rparr>"
    have inv: "mf_inv (db_heads ?db)"
      using mf_inv_write [OF less.prems(1), of "65536 + 8 * (k * HEAD_BATCH)" "head_bytes ?hd"] less.prems(2) len by simp
    have fit: "65536 + 8 * (Suc k * HEAD_BATCH + length ?tl) \<le> flen (db_heads ?db) \<or> ?tl = []"
      using less.prems(2) by (cases "length xs \<le> HEAD_BATCH") (simp_all add: algebra_simps)
    have mem: "mwrite (65536 + 8 * (Suc k * HEAD_BATCH)) (head_bytes ?tl) (mwrite (65536 + 8 * (k * HEAD_BATCH)) (head_bytes ?hd) m)
       = mwrite (65536 + 8 * (k * HEAD_BATCH)) (head_bytes xs) m" for m
    proof (cases "?tl = []")
      case True
      then show ?thesis by (simp add: mwrite_def fun_eq_iff)
    next
      case False
      then have "length ?hd = HEAD_BATCH" by simp
      then have "65536 + 8 * (Suc k * HEAD_BATCH) = 65536 + 8 * (k * HEAD_BATCH) + length (head_bytes ?hd)"
        by (simp add: algebra_simps del: length_take)
      moreover have "head_bytes ?hd @ head_bytes ?tl = head_bytes xs"
        by (simp flip: concat_append map_append)
      ultimately show ?thesis using mwrite_append' by metis
    qed
    have rest: "wp (forM (enumerate (Suc k) (chunks HEAD_BATCH ?tl)) persist_chunk)
       (\<lambda>_ t. t = db\<lparr>db_heads := (db_heads db)\<lparr>mem := mwrite (65536 + 8 * (k * HEAD_BATCH)) (head_bytes xs) (mem (db_heads db))\<rparr>\<rparr>)
       (\<lambda>_ _. False) ?db"
    proof (cases "?tl = []")
      case True
      then show ?thesis using mem [of "mem (db_heads db)"] by (simp add: chunks.simps)
    next
      case False
      then show ?thesis
        using less.IH [OF lt inv, of "Suc k"] fit mem [of "mem (db_heads db)"] by simp
    qed
    have "65536 + 8 * (k * HEAD_BATCH + length ?hd) \<le> flen (db_heads db)" using less.prems(2) len by simp
    from persist_chunk_wp [OF less.prems(1) this] rest show ?thesis by (simp add: ch wp_bnd)
  qed
qed

lemma persist_heads_eq:
  assumes f: "mf_inv (db_heads db)" "65536 + 8 * length (runtime_heads db) \<le> flen (db_heads db)"
    and r: "1048576 \<le> reserve_limit (db_heads db)"
  shows "persist_runtime_heads db = Some (Inr (), db\<lparr>db_heads := (db_heads db)\<lparr>mem :=
     mwrite 65536 (head_bytes (runtime_heads db)) (mem (db_heads db))\<rparr>\<rparr>)"
proof -
  have "wp persist_runtime_heads (\<lambda>_ t. t = db\<lparr>db_heads := (db_heads db)\<lparr>mem :=
     mwrite 65536 (head_bytes (runtime_heads db)) (mem (db_heads db))\<rparr>\<rparr>) (\<lambda>_ _. False) db"
    using persist_chunks_wp [OF f(1), of 0 "runtime_heads db"] f(2) r
    by (simp add: persist_runtime_heads_def wp_bnd wp_reads db_try_reserve_def try_reserve_def HEAD_BATCH_def)
  then show ?thesis by (auto simp: wp_disj)
qed

lemma rmap_Ok: "(\<And>x. x \<in> set xs \<Longrightarrow> f x = Ok (g x)) \<Longrightarrow> rmap f xs = Ok (map g xs)"
  by (induction xs) simp_all

lemma load_heads_eq:
  assumes f: "mf_inv f" "65536 + 8 * unat n \<le> flen f" and r: "8 \<le> reserve_limit f" "unat n \<le> reserve_limit f"
  shows "create_runtime_heads n f True = Ok (map (\<lambda>b. from_le (mread (mem f) (65536 + 8 * b) 8)) [0..<unat n])"
proof -
  have "rbind (ok_or (checked_mul (of_nat b) 8) (Corrupt ''head offset overflow'')) (\<lambda>bytes.
         rbind (ok_or (checked_add HEADS_START bytes) (Corrupt ''head offset overflow'')) (\<lambda>offset.
         rbind (copy_out f offset 8) (\<lambda>bytes. Ok (from_le bytes)))) = Ok (from_le (mread (mem f) (65536 + 8 * b) 8))"
    if b: "b < unat n" for b
  proof -
    have lt: "65536 + 8 * b + 8 \<le> flen f" "65536 + 8 * b < 2 ^ 63" using b f mf_inv_idle [OF f(1)] by simp_all
    have u: "unat (of_nat b :: u64) = b" by (rule unat_of_nat_u64) (use lt in simp)
    then have m: "unat (of_nat b * 8 :: u64) = 8 * b" "checked_mul (of_nat b :: u64) 8 = Some (of_nat b * 8)"
      using lt by (simp_all add: checked_mul_def unat_mul_nowrap)
    have a: "unat (HEADS_START + of_nat b * 8 :: u64) = 65536 + 8 * b"
       "checked_add HEADS_START (of_nat b * 8 :: u64) = Some (HEADS_START + of_nat b * 8)"
      using lt m by (simp_all add: checked_add_def layout_defs unat_add_nowrap)
    have "copy_out f (HEADS_START + of_nat b * 8) 8 = Ok (mread (mem f) (65536 + 8 * b) 8)"
      using copy_out_idle [OF f(1) r(1), of "HEADS_START + of_nat b * 8"] lt a(1) by simp
    then show ?thesis using m a by simp
  qed
  then show ?thesis
    using r(2) by (simp add: create_runtime_heads_def try_reserve_def) (rule rmap_Ok, simp)
qed

subsection \<open>Closing and reopening the runtime files\<close>

text \<open>The files are those of the configuration: the heads file has the length and the header of
  the configuration, and the allocators its capacities.\<close>

definition sized :: "block_allocator \<Rightarrow> u64 \<Rightarrow> u64 \<Rightarrow> bool" where
  "sized al capacity bs \<longleftrightarrow> al_capacity al = capacity \<and> al_block_size al = bs"

definition placed :: "database \<Rightarrow> bool" where
  "placed db \<longleftrightarrow> (let h = db_heads db; c = db_config db in
     mf_inv h \<and> mapping_length h = flen h \<and> heads_length (bucket_count c) = Ok (file_length_word h)
     \<and> header_at (mem h) c \<and> validate c = Ok ()
     \<and> sized (db_body db) (body_capacity c) (block_size c)
     \<and> (\<forall>bl. db_blobs db = Some bl \<longrightarrow> sized bl (blob_capacity c) (block_size c)))"

lemma placed_step: "placed db \<Longrightarrow> db_step db t \<Longrightarrow> placed t"
  by (cases "db_blobs db"; cases "db_blobs t") (auto simp: placed_def db_step_def Let_def sized_def al_step_def)

text \<open>No system call is going to fail and the buffers can be reserved.\<close>

definition calm :: "database \<Rightarrow> bool" where
  "calm db \<longleftrightarrow> os_results (db_heads db) = [] \<and> 1048576 \<le> reserve_limit (db_heads db)
     \<and> buckets db \<le> reserve_limit (db_heads db) \<and> al_calm (db_body db)
     \<and> (\<forall>bl. db_blobs db = Some bl \<longrightarrow> al_calm bl)"

lemma table_cong:
  assumes "db_config t = db_config s" "runtime_heads t = runtime_heads s" "delete_locks t = delete_locks s"
    "quiescence_poisoned t = quiescence_poisoned s" "db_body t = db_body s" "db_blobs t = db_blobs s"
  shows "table t ch = table s ch"
proof -
  have e: "entries t ch = entries s ch" using assms by (simp add: entries_def)
  have "value_ok t x = value_ok s x" for x by (rule value_ok_cong) (use assms in auto)
  then have "bucket_ok t b es = bucket_ok s b es" for b es
    using assms by (simp add: bucket_ok_def hash_bucket_def key_hash_def)
  moreover have "db_shape t = db_shape s" using assms by (cases "db_blobs s") (simp_all add: db_shape_def)
  ultimately show ?thesis using assms e by (simp add: table_def db_inv_def blob_pages_def unlocked_def)
qed

text \<open>The same bytes under allocators that hold the same live sets.\<close>

lemma table_reopen:
  assumes tab: "table db ch" and b: "al_inv b (node_pages db ch)" "al_ext (db_body db) b"
    and bl: "case db_blobs db of None \<Rightarrow> bl' = None | Some bl \<Rightarrow> \<exists>t. bl' = Some t \<and> al_inv t (blob_pages db ch) \<and> al_ext bl t"
  shows "table (db\<lparr>db_body := b, db_blobs := bl'\<rparr>) ch"
proof -
  have i: "db_inv db ch (node_pages db ch) (blob_pages db ch)" and u: "unlocked db" using tab by (auto simp: table_def)
  have i1: "db_inv (db\<lparr>db_body := b\<rparr>) ch (node_pages db ch) (blob_pages db ch)"
    by (rule db_inv_body [OF i _ b(1)]) (use b(2) in \<open>auto simp: al_ext_step\<close>)
  have "db_inv (db\<lparr>db_body := b, db_blobs := bl'\<rparr>) ch (node_pages db ch) (blob_pages db ch)"
  proof (cases "db_blobs db")
    case None
    then show ?thesis using i1 bl by (cases db) simp
  next
    case (Some x)
    then obtain t where t: "bl' = Some t" "al_inv t (blob_pages db ch)" "al_ext x t" using bl by auto
    have x: "db_blobs (db\<lparr>db_body := b\<rparr>) = Some x" using Some by simp
    have "db_inv (db\<lparr>db_body := b, db_blobs := Some t\<rparr>) ch (node_pages db ch) (blob_pages db ch)"
      by (rule db_inv_blobs [OF i1 x _ t(2)]) (use t(3) in \<open>auto simp: al_ext_step blob_pages_def entries_def\<close>)
    then show ?thesis using t(1) by simp
  qed
  then show ?thesis using u by (simp add: table_def entries_def blob_pages_def unlocked_def)
qed

lemma reopen_heads:
  assumes "mf_inv f" "os_results f = []" "mapping_length f = flen f"
  shows "mf_open Linux (Some (on_disk f)) (file_length_word f) = Ok f" "os_length (on_disk f) = file_length_word f"
proof -
  note i = assms(1) [unfolded mf_inv_def]
  have "validate_mapping_length Linux (file_length_word f) = Ok ()" using i assms by (auto simp: validate_mapping_length_Ok)
  then show "mf_open Linux (Some (on_disk f)) (file_length_word f) = Ok f"
    using i assms(2,3)
    by (cases f) (simp add: mf_open_def mf_map_def mapping_new_def disk_file.defs os_call_def applied)
  show "os_length (on_disk f) = file_length_word f" using i by (simp add: disk_file.defs)
qed

text \<open>What \<open>sync\<close> leaves, file by file.\<close>

lemma db_sync_eq:
  assumes tab: "table db ch" and pl: "placed db" and q: "calm db"
  obtains b b' bl' where
    "db_sync db = Some (Inr (), db\<lparr>db_body := b, db_blobs := bl', db_heads := (db_heads db)\<lparr>mem :=
       mwrite 65536 (head_bytes (runtime_heads db)) (mem (db_heads db))\<rparr>\<rparr>)"
    "al_open Linux (Some (on_disk (al_data b))) (Some (on_disk (al_counts b))) (al_capacity (db_body db)) (al_block_size (db_body db)) = Ok b'"
    "al_inv b' (node_pages db ch)" "al_ext (db_body db) b'" "al_inv b (node_pages db ch)" "al_ext (db_body db) b"
    "case db_blobs db of None \<Rightarrow> bl' = None | Some bl \<Rightarrow> \<exists>t u. bl' = Some t \<and> al_inv t (blob_pages db ch) \<and> al_ext bl t
       \<and> al_open Linux (Some (on_disk (al_data t))) (Some (on_disk (al_counts t))) (al_capacity bl) (al_block_size bl) = Ok u
       \<and> al_inv u (blob_pages db ch) \<and> al_ext bl u"
proof -
  have i: "db_inv db ch (node_pages db ch) (blob_pages db ch)" using tab by (auto simp: table_def)
  have g: "operation_guard db = Ok ()" by (rule guard_ok [OF i])
  have h: "mf_inv (db_heads db)" "heads_length (bucket_count (db_config db)) = Ok (file_length_word (db_heads db))"
    using pl by (simp_all add: placed_def Let_def)
  have fit: "65536 + 8 * length (runtime_heads db) \<le> flen (db_heads db)"
    using heads_length_ge [OF h(2)] db_invD(1) [OF i] by (simp add: db_shape_def)
  have rs: "1048576 \<le> reserve_limit (db_heads db)" "os_results (db_heads db) = []" using q by (auto simp: calm_def)
  let ?h = "(db_heads db)\<lparr>mem := mwrite 65536 (head_bytes (runtime_heads db)) (mem (db_heads db))\<rparr>"
  have hi: "mf_inv ?h" using mf_inv_write [OF h(1), of 65536 "head_bytes (runtime_heads db)"] fit by simp
  have hs: "mf_sync_all ?h = Some (Inr (), ?h)" using mf_sync_quiet [OF hi] rs by simp
  have cb: "al_calm (db_body db)" using q by (simp add: calm_def)
  from al_close_reopen [OF db_invD(2) [OF i] cb] obtain b b' where b: "al_sync_all (db_body db) = Some (Inr (), b)"
    "al_open Linux (Some (on_disk (al_data b))) (Some (on_disk (al_counts b))) (al_capacity (db_body db)) (al_block_size (db_body db)) = Ok b'"
    "al_inv b' (node_pages db ch)" "al_ext (db_body db) b'" "al_inv b (node_pages db ch)" "al_ext (db_body db) b" by metis
  have pers: "persist_runtime_heads (db\<lparr>db_body := x, db_blobs := y\<rparr>) = Some (Inr (), db\<lparr>db_body := x, db_blobs := y, db_heads := ?h\<rparr>)" for x y
    using persist_heads_eq [of "db\<lparr>db_body := x, db_blobs := y\<rparr>"] h(1) fit rs by simp
  show thesis
  proof (cases "db_blobs db")
    case None
    have "db_sync db = Some (Inr (), db\<lparr>db_body := b, db_blobs := None, db_heads := ?h\<rparr>)"
      using g b(1) None hs pers [where x = b and y = None]
      by (cases db) (simp add: db_sync_def applied bnd_def on_body_def on_heads_def zoom_def)
    then show thesis using that b(2-6) None by simp
  next
    case (Some bl)
    then have bi: "al_inv bl (blob_pages db ch)" "al_calm bl"
      using db_invD(3) [OF i] q by (auto simp: blobs_inv_def calm_def)
    from al_close_reopen [OF bi] obtain t u where t: "al_sync_all bl = Some (Inr (), t)"
      "al_open Linux (Some (on_disk (al_data t))) (Some (on_disk (al_counts t))) (al_capacity bl) (al_block_size bl) = Ok u"
      "al_inv u (blob_pages db ch)" "al_ext bl u" "al_inv t (blob_pages db ch)" "al_ext bl t" by metis
    have "db_sync db = Some (Inr (), db\<lparr>db_body := b, db_blobs := Some t, db_heads := ?h\<rparr>)"
      using g b(1) Some hs pers [where x = b and y = "Some t"] t(1)
      by (simp add: db_sync_def applied bnd_def on_body_def on_heads_def on_blobs_def zoom_def)
    then show thesis using that b(2-6) Some t by simp
  qed
qed

lemma open_heads_eq:
  assumes d: "dir_results d = []" "dir_backend d = Linux" "dir_files d Heads_File = Some (on_disk f)"
    and f: "mf_inv f" "os_results f = []" "mapping_length f = flen f" "65536 \<le> flen f" "65536 \<le> reserve_limit f"
    and h: "header_at (mem f) c"
  shows "open_heads d = (case validate c of Some (Inr _) \<Rightarrow> Some (Inr (f, c, file_length_word f), d)
     | Some (Inl e) \<Rightarrow> Some (Inl e, d) | None \<Rightarrow> None)"
proof -
  note ro = reopen_heads [OF f(1-3)]
  have rc: "read_config f = rbind (validate c) (\<lambda>_. Ok c)" by (rule read_config_eq [OF f(1,4,5) h])
  show ?thesis
    using d ro rc
    by (cases "validate c") (auto simp: open_heads_def metadata_len_def dir_open_heads_def dir_call_def bnd_def reads_def
        lift_def ok_def ok_or_def rbind_def split: sum.splits)
qed

text \<open>The files of a dropped database.\<close>

lemma dropped_files:
  "dir_files (drop_database db d) Heads_File = Some (on_disk (db_heads db))"
  "dir_files (drop_database db d) (Runtime Body_File) = Some (on_disk (al_data (db_body db)))"
  "dir_files (drop_database db d) (Runtime Body_Counts) = Some (on_disk (al_counts (db_body db)))"
  "db_blobs db = Some b \<Longrightarrow> dir_files (drop_database db d) (Runtime Blobs_File) = Some (on_disk (al_data b))"
  "db_blobs db = Some b \<Longrightarrow> dir_files (drop_database db d) (Runtime Blobs_Counts) = Some (on_disk (al_counts b))"
  "dir_results (drop_database db d) = dir_results d" "dir_backend (drop_database db d) = dir_backend d"
  by (simp_all add: drop_database_def put_back_def Let_def split: option.splits)

lemma close_open_runtime:
  assumes tab: "table db ch" and pl: "placed db" and q: "calm db" and d: "dir_results d = []" "dir_backend d = Linux"
  obtains t u where "db_close db = Some (Inr (), t)" "open_runtime (drop_database t d) = Some (Inr u, drop_database t d)"
    "table u ch" "placed u" "db_config u = db_config db" "checkpoint_generation u = 0"
    "\<And>x. x < 65536 \<Longrightarrow> mem (db_heads u) x = mem (db_heads db) x"
    "reserve_limit (db_heads u) = reserve_limit (db_heads db)"
proof -
  let ?c = "db_config db" and ?h = "(db_heads db)\<lparr>mem := mwrite 65536 (head_bytes (runtime_heads db)) (mem (db_heads db))\<rparr>"
  obtain b b' bl' where b: "db_sync db = Some (Inr (), db\<lparr>db_body := b, db_blobs := bl', db_heads := ?h\<rparr>)"
    "al_open Linux (Some (on_disk (al_data b))) (Some (on_disk (al_counts b))) (al_capacity (db_body db)) (al_block_size (db_body db)) = Ok b'"
    "al_inv b' (node_pages db ch)" "al_ext (db_body db) b'" "al_inv b (node_pages db ch)" "al_ext (db_body db) b"
    and bl: "case db_blobs db of None \<Rightarrow> bl' = None | Some bl \<Rightarrow> \<exists>t u. bl' = Some t \<and> al_inv t (blob_pages db ch) \<and> al_ext bl t
       \<and> al_open Linux (Some (on_disk (al_data t))) (Some (on_disk (al_counts t))) (al_capacity bl) (al_block_size bl) = Ok u
       \<and> al_inv u (blob_pages db ch) \<and> al_ext bl u"
    by (rule db_sync_eq [OF tab pl q])
  let ?t = "db\<lparr>db_body := b, db_blobs := bl', db_heads := ?h\<rparr>"
  let ?d = "drop_database ?t d"
  have i: "db_inv db ch (node_pages db ch) (blob_pages db ch)" and un: "unlocked db" using tab by (auto simp: table_def)
  note sh = db_invD(1) [OF i]
  have p: "mf_inv (db_heads db)" "mapping_length (db_heads db) = flen (db_heads db)"
    "heads_length (bucket_count ?c) = Ok (file_length_word (db_heads db))" "header_at (mem (db_heads db)) ?c" "validate ?c = Ok ()"
    "sized (db_body db) (body_capacity ?c) (block_size ?c)" "\<And>x. db_blobs db = Some x \<Longrightarrow> sized x (blob_capacity ?c) (block_size ?c)"
    using pl by (simp_all add: placed_def Let_def)
  have q': "os_results ?h = []" "65536 \<le> reserve_limit ?h" "8 \<le> reserve_limit ?h" "buckets db \<le> reserve_limit ?h"
    using q by (simp_all add: calm_def)
  have fit: "65536 + 8 * buckets db \<le> flen ?h" using heads_length_ge [OF p(3)] by simp
  have rl: "length (runtime_heads db) = buckets db" using sh by (simp add: db_shape_def)
  have hi: "mf_inv ?h" using mf_inv_write [OF p(1), of 65536 "head_bytes (runtime_heads db)"] fit rl by simp
  have hh: "header_at (mem ?h) ?c" by (rule header_at_cong [OF _ p(4)]) (simp add: mwrite_def)
  have oh: "open_heads ?d = Some (Inr (?h, ?c, file_length_word ?h), ?d)"
    using open_heads_eq [of ?d ?h ?c] dropped_files(1,6,7) [of ?t d] d hi hh q' p(2,5) fit by simp
  have lh: "create_runtime_heads (bucket_count ?c) ?h True = Ok (runtime_heads db)"
  proof -
    have "map (\<lambda>b. from_le (mread (mem ?h) (65536 + 8 * b) 8)) [0..<buckets db] = runtime_heads db"
      by (rule nth_equalityI) (use rl head_bytes_nth [of _ "runtime_heads db" 65536] in simp_all)
    then show ?thesis using load_heads_eq [OF hi fit q'(3,4)] by simp
  qed
  have lk: "create_delete_locks (bucket_count ?c) (reserve_limit ?h) = Ok (delete_locks db)"
    using q'(4) un by (simp add: create_delete_locks_def try_reserve_def unlocked_def)
  have adv: "exec mf_advise_heads ?h = Ok ?h"
    using hi q'(1) by (simp add: exec_def mf_advise_heads_def applied os_call_def mf_inv_def)
  have ob: "dir_open_allocator ?d (Runtime Body_File) (Runtime Body_Counts) (body_capacity ?c) (block_size ?c) = Ok b'"
    using b(2) p(6) d(2) dropped_files(2,3,7) [of ?t d] by (simp add: dir_open_allocator_def sized_def)
  have "\<exists>o'. (case db_blobs db of None \<Rightarrow> o' = None | Some bl \<Rightarrow> \<exists>u. o' = Some u \<and> al_inv u (blob_pages db ch) \<and> al_ext bl u)
     \<and> bnd (if mode ?c = Map then
            bnd (reads (\<lambda>d. dir_open_allocator d (Runtime Blobs_File) (Runtime Blobs_Counts) (blob_capacity ?c) (block_size ?c)))
              (\<lambda>b. ok (Some b)) else ok None) ok ?d = Some (Inr o', ?d)"
  proof (cases "db_blobs db")
    case None
    then show ?thesis using sh by (simp add: db_shape_def bnd_def ok_def)
  next
    case (Some x)
    then obtain t u where t: "bl' = Some t" "al_inv u (blob_pages db ch)" "al_ext x u"
      "al_open Linux (Some (on_disk (al_data t))) (Some (on_disk (al_counts t))) (al_capacity x) (al_block_size x) = Ok u"
      using bl by auto
    have "dir_open_allocator ?d (Runtime Blobs_File) (Runtime Blobs_Counts) (blob_capacity ?c) (block_size ?c) = Ok u"
      using t(4) p(7) [OF Some] d(2) dropped_files(4,5) [of ?t t d] dropped_files(7) [of ?t d] t(1) by (simp add: dir_open_allocator_def sized_def)
    then show ?thesis using sh Some t(2,3) by (simp add: db_shape_def bnd_def reads_def ok_def)
  qed
  then obtain o' where o': "case db_blobs db of None \<Rightarrow> o' = None | Some bl \<Rightarrow> \<exists>u. o' = Some u \<and> al_inv u (blob_pages db ch) \<and> al_ext bl u"
    and oo: "(if mode ?c = Map then
            bnd (reads (\<lambda>d. dir_open_allocator d (Runtime Blobs_File) (Runtime Blobs_Counts) (blob_capacity ?c) (block_size ?c)))
              (\<lambda>b. ok (Some b)) else ok None) ?d = Some (Inr o', ?d)"
    by (auto simp: bnd_def ok_def split: option.splits sum.splits prod.splits)
  let ?u = "\<lparr>db_config = ?c, db_heads = ?h, runtime_heads = runtime_heads db, delete_locks = delete_locks db,
         db_body = b', db_blobs = o', checkpoint_state = CHECKPOINT_IDLE,
         checkpoint_generation = 0, quiescence_poisoned = False, compaction_state = 0\<rparr>"
  have or: "open_runtime ?d = Some (Inr ?u, ?d)"
    using oh lh lk adv ob oo p(3)
    by (simp add: open_runtime_def check_heads_length_def applied bnd_def ok_def)
  have "table (db\<lparr>db_body := b', db_blobs := o'\<rparr>) ch" by (rule table_reopen [OF tab b(3,4) o'])
  then have tu: "table ?u ch" using table_cong [of ?u "db\<lparr>db_body := b', db_blobs := o'\<rparr>" ch] sh by (simp add: db_shape_def)
  have pu: "placed ?u"
    using p hi hh b(4) o' by (cases "db_blobs db") (auto simp: placed_def Let_def sized_def al_ext_def)
  show thesis by (rule that [of ?t ?u]) (use b(1) or tu pu in \<open>simp_all add: db_close_def mwrite_def\<close>)
qed

end
