(* ===== verification/Checkpoint_Props.thy ===== *)
theory Checkpoint_Props
  imports Reopen
begin

text \<open>
  Properties of src/checkpoint.rs: the round trips of the header, of a manifest and of a closed
  database, the order in which recovery tries the generations, and the adjustment of the body
  capacity of a closed database.
\<close>

subsection \<open>Enlarging the body\<close>

lemma splice_mread:
  "i + length bs \<le> n \<Longrightarrow> splice (mread m 0 n) i bs = mread (mwrite i bs m) 0 n"
  by (rule nth_equalityI) (auto simp: nth_splice mwrite_def)

lemma mwrite_mread:
  "(\<And>x. n \<le> x \<Longrightarrow> m' x = m x) \<Longrightarrow> mwrite 0 (mread m' 0 n) m = m'"
  by (auto simp: mwrite_def fun_eq_iff not_less)

definition capacity_mem :: "u64 \<Rightarrow> (nat \<Rightarrow> u8) \<Rightarrow> nat \<Rightarrow> u8" where
  "capacity_mem n m = (let m1 = mwrite 40 (u64_le n) m in
     mwrite 96 (u64_le (xxh64 (mread m1 0 96) HEADER_CHECKSUM_SEED)) m1)"

lemma write_capacity_eq:
  assumes f: "mf_inv f" "os_results f = []" "65536 \<le> flen f" "65536 \<le> reserve_limit f"
  shows "write_capacity n f = Some (Inr (), f\<lparr>mem := capacity_mem n (mem f)\<rparr>)"
    and "mf_inv (f\<lparr>mem := capacity_mem n (mem f)\<rparr>)"
proof -
  let ?m1 = "mwrite 40 (u64_le n) (mem f)"
  let ?m2 = "capacity_mem n (mem f)"
  have co: "copy_out f 0 65536 = Ok (mread (mem f) 0 65536)" using copy_out_idle [OF f(1,4), of 0] f(3) by simp
  have w1: "write_header_u64 (mread (mem f) 0 65536) 40 n = Ok (mread ?m1 0 65536)"
    by (simp add: write_header_eq splice_mread)
  have w2: "write_header_u64 (mread ?m1 0 65536) 96 (xxh64 (mread ?m1 0 96) HEADER_CHECKSUM_SEED) = Ok (mread ?m2 0 65536)"
    by (simp add: write_header_eq splice_mread capacity_mem_def Let_def)
  have mw: "mwrite 0 (mread ?m2 0 65536) (mem f) = ?m2"
    by (rule mwrite_mread) (simp add: capacity_mem_def Let_def mwrite_def)
  have ci: "copy_in 0 (mread ?m2 0 65536) f = Some (Inr (), f\<lparr>mem := ?m2\<rparr>)"
    using copy_in_idle [OF f(1), of 0 "mread ?m2 0 65536"] f(3) mw by simp
  show inv: "mf_inv (f\<lparr>mem := ?m2\<rparr>)"
    using mf_inv_write [OF f(1), of 0 "mread ?m2 0 65536"] f(3) mw by simp
  show "write_capacity n f = Some (Inr (), f\<lparr>mem := ?m2\<rparr>)"
    using co w1 w2 ci mf_sync_quiet [OF inv] f(2)
    by (simp add: write_capacity_def layout_defs HEADER_CHECKSUM_OFFSET_def header_checksum_mread bnd_def reads_def lift_def)
qed

lemma header_at_capacity: "header_at m c \<Longrightarrow> header_at (capacity_mem n m) (c\<lparr>body_capacity := n\<rparr>)"
  by (simp add: header_at_def capacity_mem_def Let_def header_fields_def mread_mwrite_disjoint)

text \<open>The call on a closed database, once the header and the high-water mark have been read.\<close>

lemma ensure_headroom_eq:
  assumes d: "dir_results d = []" "dir_backend d = Linux" "dir_files d Heads_File = Some (on_disk f)"
    and f: "mf_inv f" "os_results f = []" "mapping_length f = flen f" "65536 \<le> flen f" "65536 \<le> reserve_limit f"
    and h: "header_at (mem f) c" "validate c = Ok ()"
    and n: "headroom \<noteq> 0" "checked_mul (div_ceil headroom (block_size c)) (block_size c) = Some required"
      "read_high_water (dir_files d (Runtime Body_Counts)) = Ok nb" "nb \<le> body_capacity c div block_size c"
      "checked_mul nb (block_size c) = Some used" "checked_sub (body_capacity c) used = Some remaining"
    and need: "remaining < required" "checked_add used required = Some new_capacity"
  defines "f' \<equiv> f\<lparr>mem := capacity_mem new_capacity (mem f)\<rparr>"
  shows "ensure_runtime_body_headroom headroom d = Some (Inr True, put_back Heads_File f' d)"
    and "open_heads (put_back Heads_File f' d) = (case validate (c\<lparr>body_capacity := new_capacity\<rparr>) of
       Some (Inr _) \<Rightarrow> Some (Inr (f', c\<lparr>body_capacity := new_capacity\<rparr>, file_length_word f'), put_back Heads_File f' d)
     | Some (Inl e) \<Rightarrow> Some (Inl e, put_back Heads_File f' d) | None \<Rightarrow> None)"
proof -
  have oh: "open_heads d = Some (Inr (f, c, file_length_word f), d)" using open_heads_eq [OF d f h(1)] h(2) by simp
  note wc = write_capacity_eq [OF f(1,2,4,5), of new_capacity]
  have ng: "\<not> body_capacity c div block_size c < nb" "\<not> required \<le> remaining" using n(4) need(1) by auto
  show "ensure_runtime_body_headroom headroom d = Some (Inr True, put_back Heads_File f' d)"
    using oh n need ng wc(1)
    by (simp add: ensure_runtime_body_headroom_def bnd_def reads_def lift_def ok_or_def scoped_def on_snd_def zoom_def
        modify_def ok_def outcome_def f'_def)
  show "open_heads (put_back Heads_File f' d) = (case validate (c\<lparr>body_capacity := new_capacity\<rparr>) of
       Some (Inr _) \<Rightarrow> Some (Inr (f', c\<lparr>body_capacity := new_capacity\<rparr>, file_length_word f'), put_back Heads_File f' d)
     | Some (Inl e) \<Rightarrow> Some (Inl e, put_back Heads_File f' d) | None \<Rightarrow> None)"
    by (rule open_heads_eq) (use d f wc(2) header_at_capacity [OF h(1)] in \<open>simp_all add: f'_def put_back_def\<close>)
qed

subsection \<open>Created databases\<close>

lemma advise_same: "exec mf_advise_heads f = Ok g \<Longrightarrow> mf_inv f \<Longrightarrow> g = f\<lparr>os_results := os_results g\<rparr>"
  by (auto simp: exec_def mf_advise_heads_def applied mf_inv_def os_call_def split: list.splits option.splits)

lemma create_placed:
  assumes "db_create env c = Ok db"
  shows "placed db" "db_config db = c"
proof -
  from assms obtain len f0 f1 f2 body blobs where v: "validate c = Ok ()" and len: "heads_length (bucket_count c) = Ok len"
    and f0: "mf_create (env_heads env) False len False = Ok f0" and f1: "exec (initialize_header c) f0 = Ok f1"
    and f2: "exec mf_advise_heads f1 = Ok f2"
    and body: "al_create (env_body env) (env_body_counts env) False False (body_capacity c) (block_size c) = Ok body"
    and blobs: "(if mode c = Map then
              rbind (al_create (env_blobs env) (env_blobs_counts env) False False (blob_capacity c) (block_size c)) (\<lambda>b. Ok (Some b))
            else Ok None) = Ok blobs"
    and db: "db_config db = c" "db_heads db = f2" "db_body db = body" "db_blobs db = blobs"
    unfolding db_create_def rbind_Ok_iff by clarsimp
  have m: "mf_inv f0" "file_length_word f0 = len" "mapping_length f0 = unat len"
    using mf_create_with_lengths_Ok [OF f0 [unfolded mf_create_def]] by simp_all
  have ge: "65536 \<le> flen f0" using heads_length_ge [OF len] m(2) by simp
  have rs: "65536 \<le> reserve_limit f0"
    using f1 by (auto simp: exec_def initialize_header_def bnd_def reads_def try_reserve_def layout_defs split: if_splits)
  obtain h where h: "header_page c = Ok h" "length h = 65536"
    "initialize_header c f0 = Some (Inr (), f0\<lparr>mem := mwrite 0 h (mem f0)\<rparr>)"
    by (rule initialize_header_wp [OF m(1) ge rs])
  have e1: "f1 = f0\<lparr>mem := mwrite 0 h (mem f0)\<rparr>" using f1 h(3) by (simp add: exec_def)
  have i1: "mf_inv f1" unfolding e1 by (rule mf_inv_write [OF m(1)]) (use h(2) ge in simp)
  note e2 = advise_same [OF f2 i1]
  have i2: "mf_inv f2" using i1 by (subst e2) (simp add: mf_inv_def)
  have s2: "file_length_word f2 = len" "mapping_length f2 = unat len" "mem f2 = mwrite 0 h (mem f0)"
    by (subst e2, simp add: e1 m)+
  have sb: "sized body (body_capacity c) (block_size c)" using al_create_inv [OF body] by (simp add: sized_def)
  have sl: "blobs = Some x \<Longrightarrow> sized x (blob_capacity c) (block_size c)" for x
    using blobs by (auto simp: rbind_Ok_iff sized_def split: if_splits dest!: al_create_inv)
  show "placed db"
    using i2 s2 len v sb sl header_at_write(1) [OF h(1)] by (simp add: placed_def Let_def db)
  show "db_config db = c" by (rule db(1))
qed

lemma small_placed:
  obtains db where "db_create quiet_create (small_config Map) = Ok db" "stores db (\<lambda>_. [])" "placed db" "calm db"
    "db_config db = small_config Map" "hw (db_body db) = 0" "reserve_limit (db_heads db) = 1048576"
proof -
  obtain db al where db: "db_create quiet_create (small_config Map) = Ok db" "db_config db = small_config Map"
    "al_create quiet_env quiet_env False False 131072 65536 = Ok al" "db_body db = al"
    "db_blobs db = (if Map = Map then Some al else None)" "stores db (\<lambda>_. [])"
    "os_results (db_heads db) = []" "reserve_limit (db_heads db) = 1048576" by (rule small_create [of Map])
  have "calm db" using db quiet_allocator [OF db(3)] by (simp add: calm_def small_config_def)
  then show thesis using that db create_placed(1) [OF db(1)] al_create_inv [OF db(3)] by simp
qed

lemma placedD:
  assumes "placed db"
  shows "mf_inv (db_heads db)" "mapping_length (db_heads db) = flen (db_heads db)" "65536 \<le> flen (db_heads db)"
    "header_at (mem (db_heads db)) (db_config db)" "validate (db_config db) = Ok ()"
proof -
  have p: "mf_inv (db_heads db)" "mapping_length (db_heads db) = flen (db_heads db)"
    "heads_length (bucket_count (db_config db)) = Ok (file_length_word (db_heads db))"
    "header_at (mem (db_heads db)) (db_config db)" "validate (db_config db) = Ok ()"
    using assms by (simp_all add: placed_def Let_def)
  then show "mf_inv (db_heads db)" "mapping_length (db_heads db) = flen (db_heads db)"
    "header_at (mem (db_heads db)) (db_config db)" "validate (db_config db) = Ok ()" by blast+
  show "65536 \<le> flen (db_heads db)" using heads_length_ge [OF p(3)] by simp
qed

subsection \<open>Properties\<close>

text \<open>C33. The header that creation writes is read back as the same configuration, and any run of
  operations that leaves the heads file alone keeps it so.\<close>

theorem header_roundtrip:
  assumes "db_create env c = Ok db" "db_step db t" "65536 \<le> reserve_limit (db_heads t)"
  shows "read_config (db_heads t) = Ok c"
proof -
  note p = placedD [OF placed_step [OF create_placed(1) [OF assms(1)] assms(2)]]
  have "db_config t = c" using create_placed(2) [OF assms(1)] db_step_config [OF assms(2)] by simp
  then show ?thesis using read_config_eq [OF p(1,3) assms(3) p(4)] p(5) by simp
qed

theorem header_roundtrip_witness:
  "\<exists>db. db_create quiet_create (small_config Map) = Ok db \<and> read_config (db_heads db) = Ok (small_config Map)"
proof -
  obtain db where db: "db_create quiet_create (small_config Map) = Ok db" "reserve_limit (db_heads db) = 1048576"
    by (rule small_placed)
  with header_roundtrip [OF db(1), of db] show ?thesis by simp
qed

text \<open>C19. A manifest whose generation has the parity of its bank is read back as it was written, with
  a valid checksum; the manifest of the other bank and every byte outside the manifest's five words
  are untouched.\<close>

theorem manifest_roundtrip:
  assumes "mf_inv f" "65536 \<le> flen f" "8 \<le> reserve_limit f"
    and "mn_bank mn \<le> 1" "mn_generation mn AND 1 = mn_bank mn"
  shows "\<exists>g. write_manifest mn f = Some (Inr (), g) \<and> mf_inv g
     \<and> read_manifest g (mn_bank mn) = Ok (Some mn)
     \<and> read_manifest g (1 - mn_bank mn) = read_manifest f (1 - mn_bank mn)
     \<and> (\<forall>x. x < 128 + 64 * unat (mn_bank mn) \<or> 168 + 64 * unat (mn_bank mn) \<le> x \<longrightarrow> mem g x = mem f x)"
proof -
  let ?g = "f\<lparr>mem := manifest_mem mn (mem f)\<rparr>"
  note w = write_manifest_eq [OF assms(1,2,4)]
  have u: "unat (mn_bank mn) \<le> 1" using assms(4) by (simp add: word_le_nat_alt)
  have ob: "1 - mn_bank mn \<le> 1" "1 - mn_bank mn \<noteq> mn_bank mn"
    using u by (cases "unat (mn_bank mn) = 0"; auto simp: word_le_nat_alt word_unat_eq_iff unat_sub)+
  have g: "mf_inv ?g" "65536 \<le> flen ?g" "8 \<le> reserve_limit ?g" using w(2) assms by simp_all
  have "read_manifest ?g (mn_bank mn) = Ok (Some mn)"
    using read_manifest_eq [OF g assms(4)] decode_written(1) [OF assms(4)] assms(5) by simp
  moreover have "read_manifest ?g (1 - mn_bank mn) = read_manifest f (1 - mn_bank mn)"
    using read_manifest_eq [OF g ob(1)] read_manifest_eq [OF assms(1-3) ob(1)] decode_written(2) [OF assms(4) ob] by simp
  moreover have "mem ?g x = mem f x" if "x < 128 + 64 * unat (mn_bank mn) \<or> 168 + 64 * unat (mn_bank mn) \<le> x" for x
    using manifest_mem_other [of x mn "mem f"] that by (auto simp: manifest_pos_def)
  ultimately show ?thesis using w by blast
qed

definition manifest_2 :: manifest where "manifest_2 = \<lparr>mn_generation = 2, mn_bank = 0, mn_checksum = 7\<rparr>"

theorem manifest_roundtrip_witness:
  "\<exists>db g. db_create quiet_create (small_config Map) = Ok db \<and> write_manifest manifest_2 (db_heads db) = Some (Inr (), g)
     \<and> read_manifest g 0 = Ok (Some manifest_2)"
proof -
  obtain db where db: "db_create quiet_create (small_config Map) = Ok db" "placed db" "reserve_limit (db_heads db) = 1048576"
    by (rule small_placed)
  with manifest_roundtrip [of "db_heads db" manifest_2] placedD [OF db(2)] show ?thesis
    by (auto simp: manifest_2_def)
qed

text \<open>Recovery considers the generation with the larger number first, and considers every valid
  manifest of the heads file.\<close>

lemma newest_first:
  assumes "mf_inv f" "65536 \<le> flen f" "8 \<le> reserve_limit f"
  shows "\<exists>ms. read_manifests f = Ok ms \<and> length ms = 2
     \<and> (\<forall>mn. Some mn \<in> set ms \<longleftrightarrow> (\<exists>bank \<le> 1. read_manifest f bank = Ok (Some mn)))
     \<and> (\<forall>a b. ms = [Some a, Some b] \<longrightarrow> mn_generation b \<le> mn_generation a)"
proof -
  have b1: "bank \<le> 1 \<longleftrightarrow> bank = 0 \<or> bank = 1" for bank :: u64
    by (auto simp: word_le_nat_alt word_unat_eq_iff)
  have r: "read_manifest f 0 = Ok (decode_manifest (mem f) 0)" "read_manifest f 1 = Ok (decode_manifest (mem f) 1)"
    using read_manifest_eq [OF assms] by simp_all
  define x y where xy: "x = decode_manifest (mem f) 0" "y = decode_manifest (mem f) 1"
  have e: "(\<exists>bank \<le> 1. read_manifest f bank = Ok (Some mn)) \<longleftrightarrow> x = Some mn \<or> y = Some mn" for mn
  proof
    assume "\<exists>bank \<le> 1. read_manifest f bank = Ok (Some mn)"
    then obtain bank where "bank = 0 \<or> bank = 1" "read_manifest f bank = Ok (Some mn)" using b1 by blast
    then show "x = Some mn \<or> y = Some mn" using r xy by auto
  next
    assume "x = Some mn \<or> y = Some mn"
    then show "\<exists>bank \<le> 1. read_manifest f bank = Ok (Some mn)" using r xy b1 [of 0] b1 [of 1] by metis
  qed
  have "read_manifests f = (case (x, y) of (Some left, Some right) \<Rightarrow>
         if mn_generation right > mn_generation left then Ok [Some right, Some left] else Ok [x, y] | _ \<Rightarrow> Ok [x, y])"
    using r unfolding xy by (simp add: read_manifests_def)
  then show ?thesis unfolding e
    by (cases x; cases y) (simp_all, auto)
qed

text \<open>C5. Closing a database and opening its runtime files again returns, without an error, a database
  with the same configuration that stores the same values under every key.\<close>

theorem close_reopen_roundtrip:
  assumes "stores db f" "placed db" "calm db" "dir_results d = []" "dir_backend d = Linux"
  shows "\<exists>t u. db_close db = Some (Inr (), t) \<and> open_runtime (drop_database t d) = Some (Inr u, drop_database t d)
     \<and> stores u f \<and> db_config u = db_config db \<and> placed u"
proof -
  from assms(1) obtain ch where tab: "table db ch" and f: "f = versions db ch" by (auto simp: stores_def)
  obtain t u where t: "db_close db = Some (Inr (), t)" "open_runtime (drop_database t d) = Some (Inr u, drop_database t d)"
    "table u ch" "placed u" "db_config u = db_config db"
    by (rule close_open_runtime [OF tab assms(2-5)])
  have "stores u f" using t(3) versions_cong [OF t(5), of ch] unfolding stores_def f by metis
  then show ?thesis using t by blast
qed

definition empty_dir :: directory where
  "empty_dir = \<lparr>dir_files = (\<lambda>_. None), dir_results = [], dir_envs = (\<lambda>_. quiet_env), dir_created = 0, dir_backend = Linux\<rparr>"

theorem close_reopen_roundtrip_witness:
  "\<exists>db t u. db_create quiet_create (small_config Map) = Ok db \<and> db_close db = Some (Inr (), t)
     \<and> open_runtime (drop_database t empty_dir) = Some (Inr u, drop_database t empty_dir) \<and> stores u (\<lambda>_. [])"
proof -
  obtain db where db: "db_create quiet_create (small_config Map) = Ok db" "stores db (\<lambda>_. [])" "placed db" "calm db"
    by (rule small_placed)
  from close_reopen_roundtrip [OF db(2-4), of empty_dir] db(1) show ?thesis by (auto simp: empty_dir_def)
qed



lemma high_water_on_disk:
  assumes inv: "al_inv s L"
  shows "read_high_water (Some (on_disk (al_counts s))) = Ok (load64 (al_counts s) 0)" "unat (load64 (al_counts s) 0) = hw s"
    "hw s * bsz s \<le> unat (al_capacity s)"
proof -
  from inv obtain mk where core: "al_core s L mk" by (auto simp: al_inv_def)
  note a = al_core_parts [OF core]
  note g = al_geom_parts [OF a(1)]
  have lt: "hw s < 2 ^ 32" by (rule hw_lt [OF a(1,2)])
  have le: "hw s \<le> nbl s" "65536 + 2 * hw s \<le> flen (al_counts s)" using a(2) by (auto simp: al_pages_def)
  show u: "unat (load64 (al_counts s) 0) = hw s" by (simp add: hw_def)
  have "os_length (al_counts s) = file_length_word (al_counts s)" using g(2) by (simp add: mf_inv_def)
  moreover have "load64 (al_counts s) 0 AND GROWING_BIT = 0" using lt by (simp add: growing_clear_iff u)
  ultimately show "read_high_water (Some (on_disk (al_counts s))) = Ok (load64 (al_counts s) 0)"
    using le by (simp add: read_high_water_def disk_file.defs load64_def Let_def)
  show "hw s * bsz s \<le> unat (al_capacity s)" using le(1) g(9) by (simp add: mult_le_mono1)
qed

lemma div_ceil_mult:
  assumes "unat b \<noteq> 0" "unat a + unat b < 2 ^ 63"
  obtains r where "checked_mul (div_ceil a b) b = Some r" "unat a \<le> unat r" "unat r < unat a + unat b"
proof -
  have q: "unat (a div b) = unat a div unat b" "unat (a mod b) = unat a mod unat b" by (simp_all add: unat_div unat_mod)
  let ?k = "unat a div unat b + (if unat a mod unat b = 0 then 0 else 1)"
  have "unat a div unat b < 2 ^ 63" using assms(2) div_le_dividend [of "unat a" "unat b"] by linarith
  then have "unat (a div b + 1) = unat a div unat b + 1" using q(1) by (subst unat_add_nowrap) simp_all
  then have k: "unat (div_ceil a b) = ?k"
    using q by (auto simp: div_ceil_def word_unat_eq_iff)
  have b: "unat a \<le> ?k * unat b" "?k * unat b < unat a + unat b"
  proof -
    define Q M where "Q = unat a div unat b" and "M = unat a mod unat b"
    have "Q * unat b + M = unat a" "M < unat b" using assms(1) by (simp_all add: Q_def M_def)
    then show "unat a \<le> ?k * unat b" "?k * unat b < unat a + unat b"
      unfolding Q_def [symmetric] M_def [symmetric] by (auto simp: add_mult_distrib)
  qed
  then have m: "unat (div_ceil a b * b) = ?k * unat b" using assms(2) k by (simp add: unat_mul_nowrap)
  show thesis
    by (rule that [of "div_ceil a b * b"]) (use b m k assms(2) in \<open>simp_all add: checked_mul_def\<close>)
qed

text \<open>C31. \<open>ensure_runtime_body_headroom\<close> does not validate the capacity it persists: a large headroom
  on a closed database answers \<open>true\<close>, and from then on both ways of opening the database fail with
  an invalid configuration.\<close>

theorem headroom_locks_out:
  assumes "stores db f" "placed db" "calm db" "dir_results d = []" "dir_backend d = Linux"
    and "2 ^ 48 \<le> unat headroom" "unat headroom < 2 ^ 62"
  defines "e \<equiv> InvalidConfig ''body capacity exceeds the packed node-pointer range''"
  shows "\<exists>d'. ensure_runtime_body_headroom headroom (drop_database db d) = Some (Inr True, d')
     \<and> open_runtime d' = Some (Inl e, d') \<and> db_open simd d' = Some (Inl e, d')"
proof -
  let ?c = "db_config db" and ?b = "db_body db" and ?d = "drop_database db d"
  from assms(1) obtain ch where tab: "table db ch" by (auto simp: stores_def)
  note inv = db_invD(2) [OF stores_inv(1) [OF tab]] and sh = db_invD(1) [OF stores_inv(1) [OF tab]]
  note p = placedD [OF assms(2)] and hwd = high_water_on_disk [OF inv]
  have sz: "al_capacity ?b = body_capacity ?c" "al_block_size ?b = block_size ?c"
    using assms(2) by (simp_all add: placed_def Let_def sized_def)
  note g = al_geom_parts [OF al_inv_geom [OF inv]]
  have bs: "unat (block_size ?c) \<noteq> 0" "unat (block_size ?c) < 2 ^ 32" using g(5,6) sz by auto
  let ?hw = "load64 (al_counts ?b) 0"
  obtain r where r: "checked_mul (div_ceil headroom (block_size ?c)) (block_size ?c) = Some r" "unat headroom \<le> unat r"
      "unat r < unat headroom + unat (block_size ?c)"
    by (rule div_ceil_mult [of "block_size ?c" headroom]) (use bs assms(7) in auto)
  have cap: "unat (body_capacity ?c) + 65536 < 2 ^ 48" using sh sz by (simp add: db_shape_def)
  have le: "unat ?hw * unat (block_size ?c) \<le> unat (body_capacity ?c)" using hwd(2,3) sz by simp
  then have um: "unat (?hw * block_size ?c) = unat ?hw * unat (block_size ?c)" using cap by (simp add: unat_mul_nowrap)
  have hb: "?hw \<le> body_capacity ?c div block_size ?c"
    using le bs(1) by (simp add: word_le_nat_alt unat_div less_eq_div_iff_mult_less_eq)
  have cm: "checked_mul ?hw (block_size ?c) = Some (?hw * block_size ?c)" using le cap by (simp add: checked_mul_def)
  have cs: "checked_sub (body_capacity ?c) (?hw * block_size ?c) = Some (body_capacity ?c - ?hw * block_size ?c)"
    using le um by (simp add: checked_sub_def word_le_nat_alt)
  have lt: "body_capacity ?c - ?hw * block_size ?c < r"
    using um le r(2) assms(6) cap by (simp add: word_less_nat_alt unat_sub word_le_nat_alt)
  let ?n = "?hw * block_size ?c + r"
  have un: "unat ?n = unat (?hw * block_size ?c) + unat r"
    using um le cap r(3) assms(7) bs(2) by (intro unat_add_nowrap) simp
  have ca: "checked_add (?hw * block_size ?c) r = Some ?n"
    using um le cap r(3) assms(7) bs(2) by (simp add: checked_add_def)
  let ?f = "(db_heads db)\<lparr>mem := capacity_mem ?n (mem (db_heads db))\<rparr>"
  have h0: "headroom \<noteq> 0" using assms(6) by auto
  have q: "os_results (db_heads db) = []" "65536 \<le> reserve_limit (db_heads db)" using assms(3) by (auto simp: calm_def)
  have hw': "read_high_water (dir_files ?d (Runtime Body_Counts)) = Ok ?hw" using hwd(1) dropped_files(3) [of db d] by simp
  have dr: "dir_results ?d = []" "dir_backend ?d = Linux" "dir_files ?d Heads_File = Some (on_disk (db_heads db))"
    using dropped_files(1,6,7) [of db d] assms(4,5) by simp_all
  note en = ensure_headroom_eq [OF dr p(1) q(1) p(2,3) q(2) p(4,5) h0 r(1) hw' hb cm cs lt ca]
  have bad: "validate (?c\<lparr>body_capacity := ?n\<rparr>) = Err e"
  proof -
    have "?n > saturating_sub NODE_POINTER_MASK DATA_START"
      using un r(2) assms(6) by (simp add: saturating_sub_def layout_defs push_bit_eq_mult word_less_nat_alt)
    moreover have "?n \<noteq> 0" using un r(2) assms(6) by auto
    moreover have "bucket_count ?c \<noteq> 0" using validate_capacity(1) [OF p(5)] .
    ultimately show ?thesis by (simp add: validate_def e_def)
  qed
  have oh: "open_heads (put_back Heads_File ?f ?d) = Some (Inl e, put_back Heads_File ?f ?d)" using en(2) bad by simp
  then have "open_runtime (put_back Heads_File ?f ?d) = Some (Inl e, put_back Heads_File ?f ?d)"
    "db_open simd (put_back Heads_File ?f ?d) = Some (Inl e, put_back Heads_File ?f ?d)"
    by (simp_all add: open_runtime_def db_open_def bnd_def)
  then show ?thesis using en(1) by blast
qed

theorem headroom_locks_out_witness:
  "\<exists>db d'. db_create quiet_create (small_config Map) = Ok db
     \<and> ensure_runtime_body_headroom (2 ^ 48) (drop_database db empty_dir) = Some (Inr True, d')
     \<and> open_runtime d' = Some (Inl (InvalidConfig ''body capacity exceeds the packed node-pointer range''), d')"
proof -
  obtain db where db: "db_create quiet_create (small_config Map) = Ok db" "stores db (\<lambda>_. [])" "placed db" "calm db"
    by (rule small_placed)
  from headroom_locks_out [OF db(2-4), of empty_dir "2 ^ 48"] db(1) show ?thesis by (auto simp: empty_dir_def)
qed

lemma bracket_modify:
  assumes "acquire s = Some (Inr g, s')" "bracket acquire (\<lambda>_. on_db (modify h)) m s = Some (r, (t, d'))"
  shows "\<exists>u. t = h u"
proof (cases "m s'")
  case (Some x)
  then show ?thesis
    using assms by (cases x) (auto simp: bracket_def bnd_def attempt_def on_db_def on_fst_def zoom_def modify_def outcome_def)
qed (use assms in \<open>simp add: bracket_def bnd_def attempt_def\<close>)

text \<open>C29. A checkpoint is refused, and nothing changes, while another checkpoint or a compaction is
  active or when the generations are used up; and after any checkpoint that started from the idle
  state, whatever its outcome, the checkpoint state is idle again.\<close>

theorem checkpoint_excluded:
  assumes "\<not> quiescence_poisoned db"
  shows "(checkpoint_state db \<noteq> 0 \<longrightarrow>
       db_checkpoint simd (db, d) = Some (Inl (Busy ''another checkpoint is active''), (db, d)))
   \<and> (checkpoint_state db = 0 \<and> compaction_state db \<noteq> 0 \<longrightarrow>
       db_checkpoint simd (db, d) = Some (Inl (Busy ''compaction is active''), (db, d)))
   \<and> (checkpoint_state db = 0 \<and> compaction_state db = 0 \<and> unat (checkpoint_generation db) = 2 ^ 64 - 1 \<longrightarrow>
       db_checkpoint simd (db, d) = Some (Inl (CapacityExhausted ''checkpoint generation''), (db, d)))
   \<and> (checkpoint_state db = 0 \<longrightarrow> (\<forall>r t d'. db_checkpoint simd (db, d) = Some (r, (t, d')) \<longrightarrow> checkpoint_state t = 0))"
proof (intro conjI impI allI)
  have g: "operation_guard db = Ok ()" using assms by (simp add: operation_guard_def)
  note defs = db_checkpoint_def bracket_def bnd_def reads_def attempt_def on_db_def on_fst_def zoom_def
    cas_checkpoint_state_def CHECKPOINT_IDLE_def modify_def gets_def err_def ok_def outcome_def
  show "db_checkpoint simd (db, d) = Some (Inl (Busy ''another checkpoint is active''), (db, d))" if "checkpoint_state db \<noteq> 0"
    using that g by (simp add: defs)
  show "db_checkpoint simd (db, d) = Some (Inl (Busy ''compaction is active''), (db, d))"
    if "checkpoint_state db = 0 \<and> compaction_state db \<noteq> 0"
    using that g by (cases db) (simp add: defs operation_guard_def)
  show "db_checkpoint simd (db, d) = Some (Inl (CapacityExhausted ''checkpoint generation''), (db, d))"
    if "checkpoint_state db = 0 \<and> compaction_state db = 0 \<and> unat (checkpoint_generation db) = 2 ^ 64 - 1"
    using that g by (cases db) (simp add: defs operation_guard_def lift_def checked_add_def ok_or_def)
  fix r t d' assume z: "checkpoint_state db = 0" and c: "db_checkpoint simd (db, d) = Some (r, (t, d'))"
  let ?acquire = "bnd (on_db (cas_checkpoint_state CHECKPOINT_IDLE CHECKPOINT_BUSY)) (\<lambda>swapped.
          if swapped then ok () else err (Busy ''another checkpoint is active''))"
  have a: "?acquire (db, d) = Some (Inr (), (db\<lparr>checkpoint_state := CHECKPOINT_BUSY\<rparr>, d))"
    using z by (simp add: bnd_def on_db_def on_fst_def zoom_def cas_checkpoint_state_def CHECKPOINT_IDLE_def ok_def)
  have "bnd (reads (\<lambda>(db, _). operation_guard db)) (\<lambda>_. m) (db, d) = m (db, d)" for m :: "(world, u64) prog"
    using g by (simp add: bnd_def reads_def)
  from bracket_modify [OF a c [unfolded db_checkpoint_def this]] show "checkpoint_state t = 0"
    by (auto simp: CHECKPOINT_IDLE_def)
qed

theorem checkpoint_excluded_witness:
  "\<exists>db. db_create quiet_create (small_config Map) = Ok db
     \<and> db_checkpoint Scalar (db\<lparr>compaction_state := 1\<rparr>, empty_dir)
         = Some (Inl (Busy ''compaction is active''), (db\<lparr>compaction_state := 1\<rparr>, empty_dir))"
proof -
  obtain db where db: "db_create quiet_create (small_config Map) = Ok db" "stores db (\<lambda>_. [])" by (rule small_placed)
  have z: "checkpoint_state db = 0" using db(1) by (auto simp: db_create_def rbind_Ok_iff)
  obtain ch where tab: "table db ch" using db(2) by (auto simp: stores_def)
  let ?db = "db\<lparr>compaction_state := 1\<rparr>"
  have "\<not> quiescence_poisoned ?db" using db_invD(1) [OF stores_inv(1) [OF tab]] by (simp add: db_shape_def)
  from checkpoint_excluded [OF this, THEN conjunct2, THEN conjunct1, rule_format] z db(1) show ?thesis by auto
qed

end
