(* ===== verification/Hints_Index.thy ===== *)
theory Hints_Index
  imports Table_Admin
begin

text \<open>
  examples/hintsgen/main.rs, the index: which outputs of a block are indexed and under which key
  and position, which keys a block spends, the per-block counts and their global offsets, and the
  counters and settings of a run.

  Blocks come from the \<open>bitcoin\<close> crate and from \<open>libbitcoinkernel\<close>. A transaction is kept as what
  the source observes of it: \<open>compute_txid\<close>, \<open>is_coinbase\<close>, the previous outputs of its inputs, and
  for each output the script and whether \<open>is_op_return\<close> holds of it. \<open>AnyError\<close> is a box around
  the database's own error, an \<open>io::Error\<close> with a message, or an error of one of those crates.
\<close>

subsection \<open>Constants and errors\<close>

definition OUTPOINT_KEY_SIZE :: usize where "OUTPOINT_KEY_SIZE = 16"
definition OUTPUT_INDEX_SIZE :: usize where "OUTPUT_INDEX_SIZE = 8"
definition MAX_SCRIPT_SIZE :: usize where "MAX_SCRIPT_SIZE = 10000"
definition MAX_ADDER_LEAD_BLOCKS :: u64 where "MAX_ADDER_LEAD_BLOCKS = 4096"
definition UNPROCESSED_COUNT :: u32 where "UNPROCESSED_COUNT = - 1"
definition BIP30_UNSPENDABLE_HEIGHTS :: "u64 list" where "BIP30_UNSPENDABLE_HEIGHTS = [91722, 91812]"
definition DEFAULT_BUCKETS :: u64 where "DEFAULT_BUCKETS = push_bit 20 1"
definition DEFAULT_CAPACITY_GIB :: u64 where "DEFAULT_CAPACITY_GIB = 64"
definition DEFAULT_BLOCK_MIB :: u64 where "DEFAULT_BLOCK_MIB = 1"
definition DEFAULT_RANGE_SIZE :: u64 where "DEFAULT_RANGE_SIZE = 32"
definition POSITION_RUN_VALUE_CAPACITY :: usize where "POSITION_RUN_VALUE_CAPACITY = 2 ^ 20"

definition invalid_input :: "string \<Rightarrow> error" where
  "invalid_input message = Io (OtherIo message)"

definition io_other :: "string \<Rightarrow> error" where
  "io_other message = Io (OtherIo message)"

subsection \<open>Blocks as the program observes them\<close>

datatype chain_type = Mainnet | Testnet | Testnet4 | Signet | Regtest

record tx_out =
  script_pubkey :: bytes
  is_op_return :: bool

record out_point =
  op_txid :: bytes
  op_vout :: u32

record transaction =
  compute_txid :: bytes
  is_coinbase :: bool
  tx_input :: "out_point list"
  tx_output :: "tx_out list"

type_synonym block_data = "transaction list"

text \<open>The active chain: what \<open>at_height\<close>, \<open>read_block_data\<close> and \<open>consensus_encode\<close> yield at a
  height, and \<open>deserialize\<close>.\<close>

record chainstate =
  at_height :: "usize \<Rightarrow> bytes res option"
  deserialize :: "bytes \<Rightarrow> block_data res"

definition read_block :: "chainstate \<Rightarrow> u64 \<Rightarrow> (block_data \<times> u64) res" where
  "read_block chainman height =
     rbind (ok_or (at_height chainman (unat height))
              (invalid_input ''active chain does not contain requested height'')) (\<lambda>entry.
     rbind entry (\<lambda>encoded.
     rbind (ok_or (u64_try_from (length encoded))
              (invalid_input ''serialized block length does not fit u64'')) (\<lambda>len.
     rbind (deserialize chainman encoded) (\<lambda>block. Ok (block, len)))))"

subsection \<open>Keys and positions\<close>

definition outpoint_key :: "out_point \<Rightarrow> bytes" where
  "outpoint_key outpoint = take 12 (op_txid outpoint) @ u32_le (op_vout outpoint)"

definition pack_output_position :: "u32 \<Rightarrow> u32 \<Rightarrow> u64" where
  "pack_output_position block_height block_index =
     push_bit 32 (ucast block_height) OR ucast block_index"

definition unpack_output_position :: "u64 \<Rightarrow> u32 \<times> u32" where
  "unpack_output_position position =
     (let b = u64_le position in (from_le (drop 4 b), from_le (take 4 b)))"

definition should_index_output :: "chain_type \<Rightarrow> u64 \<Rightarrow> usize \<Rightarrow> tx_out \<Rightarrow> bool" where
  "should_index_output network height transaction_index output \<longleftrightarrow>
     height \<noteq> 0
     \<and> \<not> (network = Mainnet \<and> transaction_index = 0 \<and> height \<in> List.set BIP30_UNSPENDABLE_HEIGHTS)
     \<and> length (script_pubkey output) \<le> MAX_SCRIPT_SIZE
     \<and> \<not> is_op_return output"

subsection \<open>Indexing a block\<close>

record indexed_output =
  ix_key :: bytes
  ix_value :: bytes

text \<open>\<open>limit\<close> is the largest vector reservation the process allocator grants.\<close>

definition append_output ::
  "usize \<Rightarrow> u64 \<Rightarrow> chain_type \<Rightarrow> usize \<Rightarrow> bytes \<Rightarrow> u32 \<Rightarrow> usize \<times> tx_out
    \<Rightarrow> u32 \<times> indexed_output list \<Rightarrow> (u32 \<times> indexed_output list) res" where
  "append_output limit height network transaction_index txid block_height = (\<lambda>(vout, output) (eligible_index, indexed).
     if \<not> should_index_output network height transaction_index output then Ok (eligible_index, indexed)
     else
       rbind (if vout < 2 ^ 32 then Ok (word_of_nat vout)
              else Err (invalid_input ''transaction output index exceeds u32'')) (\<lambda>vout.
       rbind (try_reserve limit (length indexed + 1)) (\<lambda>_.
       let indexed = indexed @ [\<lparr>ix_key = outpoint_key \<lparr>op_txid = txid, op_vout = vout\<rparr>,
                                 ix_value = u64_le (pack_output_position block_height eligible_index)\<rparr>] in
       rbind (ok_or (checked_add eligible_index 1) (invalid_input ''eligible output index overflow'')) (\<lambda>eligible_index.
       Ok (eligible_index, indexed)))))"

definition append_eligible_outputs ::
  "usize \<Rightarrow> u64 \<Rightarrow> chain_type \<Rightarrow> usize \<Rightarrow> bytes \<Rightarrow> tx_out list
    \<Rightarrow> u32 \<times> indexed_output list \<Rightarrow> (u32 \<times> indexed_output list) res" where
  "append_eligible_outputs limit height network transaction_index txid outputs state =
     rbind (ok_or (u32_try_from height) (invalid_input ''block height exceeds u32'')) (\<lambda>block_height.
     rfold (append_output limit height network transaction_index txid block_height)
       (enumerate 0 outputs) state)"

definition indexed_outputs :: "usize \<Rightarrow> block_data \<Rightarrow> u64 \<Rightarrow> chain_type \<Rightarrow> indexed_output list res" where
  "indexed_outputs limit block height network =
     rbind (rfold (\<lambda>tx total. ok_or (usize_checked_add total (length (tx_output tx)))
                                (invalid_input ''block output count overflow'')) block 0) (\<lambda>output_capacity.
     rbind (try_reserve limit output_capacity) (\<lambda>_.
     rbind (rfold (\<lambda>(transaction_index, tx).
              append_eligible_outputs limit height network transaction_index (compute_txid tx) (tx_output tx))
            (enumerate 0 block) (0, [])) (\<lambda>(_, outputs).
     Ok outputs)))"

definition append_spent_outpoint_keys :: "usize \<Rightarrow> block_data \<Rightarrow> bytes list \<Rightarrow> bytes list res" where
  "append_spent_outpoint_keys limit block keys =
     rbind (rfold (\<lambda>tx total. if is_coinbase tx then Ok total
                              else ok_or (usize_checked_add total (length (tx_input tx)))
                                     (invalid_input ''block input count overflow'')) block 0) (\<lambda>input_count.
     rbind (try_reserve limit (length keys + input_count)) (\<lambda>_.
     Ok (fold (\<lambda>tx keys. if is_coinbase tx then keys else keys @ map outpoint_key (tx_input tx)) block keys)))"

subsection \<open>Counts and offsets\<close>

definition block_count_slots :: "usize \<Rightarrow> u64 \<Rightarrow> u32 list res" where
  "block_count_slots limit end_height =
     rbind (try_reserve limit (unat end_height)) (\<lambda>_. Ok (replicate (unat end_height) UNPROCESSED_COUNT))"

definition collect_output_counts :: "usize \<Rightarrow> u32 list \<Rightarrow> u32 list res" where
  "collect_output_counts limit slots =
     rbind (try_reserve limit (length slots)) (\<lambda>_.
     rfold (\<lambda>count counts. if count = UNPROCESSED_COUNT
              then Err (io_other ''an output-count slot was never published'')
              else Ok (counts @ [count])) slots [])"

definition fold_output_counts :: "usize \<Rightarrow> u32 list \<Rightarrow> u64 list res" where
  "fold_output_counts limit counts =
     rbind (ok_or (usize_checked_add (length counts) 1) (invalid_input ''block offset vector length overflow'')) (\<lambda>n.
     rbind (try_reserve limit n) (\<lambda>_.
     rfold (\<lambda>count offsets.
        rbind (if offsets = [] then Err (invalid_input ''block offset vector is empty'') else Ok (last offsets)) (\<lambda>old.
        rbind (ok_or (checked_add old (ucast count)) (invalid_input ''global output index overflow'')) (\<lambda>new.
        Ok (offsets @ [new])))) counts [0]))"

subsection \<open>Counters and statistics\<close>

text \<open>The compare-exchange loops of the live-output counter, one thread at a time.\<close>

definition cas_add :: "u64 \<Rightarrow> (u64, unit) prog" where
  "cas_add amount =
     bnd (gets id) (\<lambda>old. loop (\<lambda>old.
       bnd (lift (ok_or (checked_add old amount) (io_other ''live output counter overflow''))) (\<lambda>new.
       bnd (gets id) (\<lambda>actual.
       if actual = old then bnd (modify (\<lambda>_. new)) (\<lambda>_. ok (Return ())) else ok (Continue actual)))) old)"

definition cas_sub :: "u64 \<Rightarrow> (u64, unit) prog" where
  "cas_sub amount =
     bnd (gets id) (\<lambda>old. loop (\<lambda>old.
       bnd (lift (ok_or (checked_sub old amount) (io_other ''live output counter underflow''))) (\<lambda>new.
       bnd (gets id) (\<lambda>actual.
       if actual = old then bnd (modify (\<lambda>_. new)) (\<lambda>_. ok (Return ())) else ok (Continue actual)))) old)"

text \<open>The durations are measurements of the clock, which is outside the model.\<close>

record worker_stats =
  ws_blocks :: u64
  ws_bytes :: u64
  ws_outputs :: u64
  ws_inputs :: u64

definition worker_stats_merge :: "worker_stats \<Rightarrow> worker_stats \<Rightarrow> worker_stats" where
  "worker_stats_merge a b =
     \<lparr>ws_blocks = saturating_add (ws_blocks a) (ws_blocks b),
      ws_bytes = saturating_add (ws_bytes a) (ws_bytes b),
      ws_outputs = saturating_add (ws_outputs a) (ws_outputs b),
      ws_inputs = saturating_add (ws_inputs a) (ws_inputs b)\<rparr>"

record storage_stats =
  st_files :: u64
  st_logical_bytes :: u64
  st_allocated_bytes :: u64

definition storage_stats_merge :: "storage_stats \<Rightarrow> storage_stats \<Rightarrow> storage_stats" where
  "storage_stats_merge a b =
     \<lparr>st_files = saturating_add (st_files a) (st_files b),
      st_logical_bytes = saturating_add (st_logical_bytes a) (st_logical_bytes b),
      st_allocated_bytes = saturating_add (st_allocated_bytes a) (st_allocated_bytes b)\<rparr>"

text \<open>A directory tree as \<open>metadata\<close> and \<open>read_dir\<close> show it: a file with its length and its
  512-byte blocks, or a directory.\<close>

datatype tree_entry = Tree_File u64 u64 | Tree_Dir "tree_entry list"

primrec storage_of :: "tree_entry \<Rightarrow> storage_stats" where
  "storage_of (Tree_File len blocks) =
     \<lparr>st_files = 1, st_logical_bytes = len, st_allocated_bytes = saturating_mul blocks 512\<rparr>"
| "storage_of (Tree_Dir entries) =
     foldl storage_stats_merge \<lparr>st_files = 0, st_logical_bytes = 0, st_allocated_bytes = 0\<rparr>
       (map storage_of entries)"

subsection \<open>Settings\<close>

record arguments =
  ar_data_dir :: string
  ar_blocks_dir :: string
  ar_network :: chain_type
  ar_tip_height :: "u64 option"
  ar_add_threads :: usize
  ar_remove_threads :: usize
  ar_range_size :: u64
  ar_work_dir :: string
  ar_buckets :: u64
  ar_body_capacity :: u64
  ar_database_block_bytes :: u64

definition mebibytes :: "u64 \<Rightarrow> u64 res" where
  "mebibytes v = ok_or (checked_mul v (push_bit 20 1)) (invalid_input ''MiB value overflow'')"

definition gibibytes :: "u64 \<Rightarrow> u64 res" where
  "gibibytes v = ok_or (checked_mul v (push_bit 30 1)) (invalid_input ''GiB value overflow'')"

definition database_config :: "arguments \<Rightarrow> u64 \<Rightarrow> config res" where
  "database_config arguments tip_height =
     (let config = (config_new Map (ar_buckets arguments))
            \<lparr>block_size := ar_database_block_bytes arguments, body_capacity := ar_body_capacity arguments\<rparr> in
      rbind (ok_or (Option.bind (checked_add tip_height 1) (\<lambda>blocks. checked_mul blocks 96))
               (invalid_input ''minimum body capacity overflow'')) (\<lambda>minimum_body.
      if body_capacity config < minimum_body
      then Err (invalid_input ''body capacity is too small for one output per block'')
      else Ok config))"

subsection \<open>Command line\<close>

text \<open>\<open>str::parse::<u64>\<close>: an optional plus sign and at least one decimal digit, with the
  texts of \<open>ParseIntError\<close> it can give.\<close>

primrec parse_digits :: "string \<Rightarrow> nat \<Rightarrow> string + u64" where
  "parse_digits [] acc = Inr (word_of_nat acc)"
| "parse_digits (c # cs) acc =
     (let d = of_char c - 48 :: int in
      if \<not> (0 \<le> d \<and> d \<le> 9) then Inl ''invalid digit found in string''
      else if 10 * acc + nat d \<ge> 2 ^ 64 then Inl ''number too large to fit in target type''
      else parse_digits cs (10 * acc + nat d))"

definition parse_int :: "string \<Rightarrow> string + u64" where
  "parse_int s =
     (if s = [] then Inl ''cannot parse integer from empty string''
      else if s = ''+'' \<or> s = ''-'' then Inl ''invalid digit found in string''
      else if hd s = CHR ''+'' then parse_digits (tl s) 0
      else parse_digits s 0)"

definition parse_u64 :: "string \<Rightarrow> string \<Rightarrow> u64 res" where
  "parse_u64 text name = (case parse_int text of
      Inr n \<Rightarrow> Ok n
    | Inl e \<Rightarrow> Err (invalid_input (name @ '' is not an integer: '' @ e)))"

definition to_ascii_lowercase :: "string \<Rightarrow> string" where
  "to_ascii_lowercase = map (\<lambda>c. let n = of_char c :: nat in
     if 65 \<le> n \<and> n \<le> 90 then char_of (n + 32) else c)"

definition parse_network :: "string \<Rightarrow> chain_type res" where
  "parse_network text =
     (let v = to_ascii_lowercase text in
      if v = ''mainnet'' \<or> v = ''main'' then Ok Mainnet
      else if v = ''testnet'' \<or> v = ''testnet3'' then Ok Testnet
      else if v = ''testnet4'' then Ok Testnet4
      else if v = ''signet'' then Ok Signet
      else if v = ''regtest'' then Ok Regtest
      else Err (invalid_input ''unknown Bitcoin network''))"

definition nth_arg :: "string list \<Rightarrow> usize \<Rightarrow> string option" where
  "nth_arg as i = (if i < length as then Some (as ! i) else None)"

definition optional_u64 :: "string list \<Rightarrow> usize \<Rightarrow> u64 \<Rightarrow> string \<Rightarrow> u64 res" where
  "optional_u64 as index dflt name =
     (case nth_arg as index of None \<Rightarrow> Ok dflt | Some v \<Rightarrow> parse_u64 v name)"

text \<open>\<open>usize\<close> has 64 bits on the supported targets, so the second conversion cannot fail.\<close>

definition optional_usize :: "string list \<Rightarrow> usize \<Rightarrow> usize \<Rightarrow> string \<Rightarrow> usize res" where
  "optional_usize as index dflt name =
     rbind (ok_or (u64_try_from dflt) (invalid_input ''worker default exceeds u64'')) (\<lambda>dflt.
     rbind (optional_u64 as index dflt name) (\<lambda>v. Ok (unat v)))"

text \<open>\<open>std::env::var\<close> gives a variable's text when it is set and valid Unicode.\<close>

definition environment_u64 :: "(string \<rightharpoonup> string) \<Rightarrow> string \<Rightarrow> u64 \<Rightarrow> u64 res" where
  "environment_u64 env name dflt =
     (case env name of None \<Rightarrow> Ok dflt | Some v \<Rightarrow> parse_u64 v name)"

text \<open>\<open>available\<close> is \<open>available_parallelism\<close>, \<open>default_dir\<close> the name built from the process id.\<close>

definition arguments_parse ::
  "string list \<Rightarrow> (string \<rightharpoonup> string) \<Rightarrow> usize option \<Rightarrow> string \<Rightarrow> arguments res" where
  "arguments_parse as env available default_dir =
     (if length as < 2 then Err (invalid_input ''data and blocks directories are required'')
      else
        let available = (case available of None \<Rightarrow> 1 | Some n \<Rightarrow> n);
            default_adders = max ((available + 1) div 2) 1;
            default_removers = max (available - default_adders) 1 in
        rbind (optional_usize as 4 default_adders ''ADD_THREADS'') (\<lambda>add_threads.
        rbind (optional_usize as 5 default_removers ''REMOVE_THREADS'') (\<lambda>remove_threads.
        if add_threads = 0 \<or> remove_threads = 0 then Err (invalid_input ''worker counts must be nonzero'')
        else
          rbind (optional_u64 as 6 DEFAULT_RANGE_SIZE ''RANGE_SIZE'') (\<lambda>range_size.
          if range_size = 0 then Err (invalid_input ''range size must be nonzero'')
          else
            rbind (environment_u64 env ''HINTSGEN_BODY_GIB'' DEFAULT_CAPACITY_GIB) (\<lambda>body_gib.
            rbind (environment_u64 env ''HINTSGEN_BLOCK_MIB'' DEFAULT_BLOCK_MIB) (\<lambda>block_mib.
            rbind (case nth_arg as 2 of None \<Rightarrow> Ok Mainnet | Some network \<Rightarrow> parse_network network) (\<lambda>network.
            rbind (case nth_arg as 3 of None \<Rightarrow> Ok None
                   | Some tip \<Rightarrow> if to_ascii_lowercase tip = ''tip'' then Ok None
                                else rbind (parse_u64 tip ''TIP'') (\<lambda>n. Ok (Some n))) (\<lambda>tip_height.
            rbind (environment_u64 env ''HINTSGEN_BUCKETS'' DEFAULT_BUCKETS) (\<lambda>buckets.
            rbind (gibibytes body_gib) (\<lambda>body.
            rbind (mebibytes block_mib) (\<lambda>block.
            Ok \<lparr>ar_data_dir = as ! 0, ar_blocks_dir = as ! 1, ar_network = network,
                ar_tip_height = tip_height, ar_add_threads = add_threads,
                ar_remove_threads = remove_threads, ar_range_size = range_size,
                ar_work_dir = (case nth_arg as 7 of None \<Rightarrow> default_dir | Some d \<Rightarrow> d),
                ar_buckets = buckets, ar_body_capacity = body,
                ar_database_block_bytes = block\<rparr>)))))))))))"



subsection \<open>Positions\<close>

lemma unat_u32_less: "unat (w :: u32) < 2 ^ 32"
  using unsigned_less [of w] by simp

lemma unat_pack: "unat (pack_output_position h i) = unat h * 2 ^ 32 + unat i"
proof -
  have lt: "unat h < 2 ^ 32" "unat i < 2 ^ 32" by (fact unat_u32_less)+
  have disj: "push_bit 32 (ucast h) AND ucast i = (0 :: u64)"
    by (rule bit_eqI) (auto simp: bit_simps dest: bit_imp_le_length)
  have p: "unat (push_bit 32 (ucast h :: u64)) = unat h * 2 ^ 32"
    using lt by (simp add: unsigned_push_bit_eq unsigned_ucast_eq take_bit_nat_eq_self push_bit_eq_mult [of _ "_ :: nat"])
  have "pack_output_position h i = push_bit 32 (ucast h) + ucast i"
    unfolding pack_output_position_def by (rule disjunctive_add [symmetric]) (metis disj bit_0_eq bit_and_iff bot_apply bot_bool_def)
  then show ?thesis using p lt
    by (simp add: unat_add_nowrap unsigned_ucast_eq take_bit_nat_eq_self)
qed

lemma unpack_pack [simp]: "unpack_output_position (pack_output_position h i) = (h, i)"
proof -
  have "from_le (drop 4 (u64_le (pack_output_position h i))) = h"
    by (rule bit_word_eqI)
      (auto simp: bit_from_le bit_to_le_nth pack_output_position_def bit_simps algebra_simps dest: bit_imp_le_length)
  moreover have "from_le (take 4 (u64_le (pack_output_position h i))) = i"
    by (rule bit_word_eqI)
      (auto simp: bit_from_le bit_to_le_nth pack_output_position_def bit_simps)
  ultimately show ?thesis by (simp add: unpack_output_position_def)
qed

lemma pack_unpack: "(case unpack_output_position p of (h, i) \<Rightarrow> pack_output_position h i) = p"
proof (rule bit_word_eqI)
  fix n
  assume "n < LENGTH(64)"
  then show "bit (case unpack_output_position p of (h, i) \<Rightarrow> pack_output_position h i) n \<longleftrightarrow> bit p n"
    by (cases "n < 32") (auto simp: unpack_output_position_def Let_def pack_output_position_def
      bit_simps bit_from_le bit_to_le_nth not_less)
qed

lemma pack_inject [simp]:
  "pack_output_position h i = pack_output_position h' i' \<longleftrightarrow> h = h' \<and> i = i'"
  by (metis unpack_pack prod.inject)

lemma pack_less:
  "pack_output_position h i < pack_output_position h' i' \<longleftrightarrow> h < h' \<or> h = h' \<and> i < i'"
proof -
  have lt: "unat i < 2 ^ 32" "unat i' < 2 ^ 32" by (fact unat_u32_less)+
  have "unat h * 2 ^ 32 + unat i < unat h' * 2 ^ 32 + unat i' \<longleftrightarrow>
     unat h < unat h' \<or> unat h = unat h' \<and> unat i < unat i'"
    using lt by (cases "unat h" "unat h'" rule: linorder_cases) simp_all
  then show ?thesis by (simp add: word_less_nat_alt unat_pack word_unat_eq_iff)
qed


subsection \<open>The indexed outputs of a block\<close>

text \<open>What is to be indexed: the eligible outputs of the block's transactions, in block order.\<close>

definition eligible :: "chain_type \<Rightarrow> u64 \<Rightarrow> block_data \<Rightarrow> (bytes \<times> usize) list" where
  "eligible network height block =
     concat (map (\<lambda>(ti, tx). map (\<lambda>(vout, _). (compute_txid tx, vout))
        (filter (\<lambda>(_, output). should_index_output network height ti output) (enumerate 0 (tx_output tx))))
      (enumerate 0 block))"

definition indexed_as :: "u64 \<Rightarrow> (bytes \<times> usize) list \<Rightarrow> usize \<Rightarrow> indexed_output list" where
  "indexed_as height es first = map (\<lambda>(i, txid, vout).
     \<lparr>ix_key = outpoint_key \<lparr>op_txid = txid, op_vout = word_of_nat vout\<rparr>,
      ix_value = u64_le (pack_output_position (ucast height) (word_of_nat i))\<rparr>) (enumerate first es)"

lemma indexed_as_append:
  "indexed_as height (es @ es') first = indexed_as height es first @ indexed_as height es' (first + length es)"
  by (simp add: indexed_as_def enumerate_append_eq)

lemma indexed_as_simps [simp]:
  "indexed_as height [] first = []" "length (indexed_as height es first) = length es"
  by (simp_all add: indexed_as_def)

text \<open>The accumulator of the loops: \<open>n\<close> outputs of the block are indexed so far.\<close>

definition index_state :: "u64 \<Rightarrow> (bytes \<times> usize) list \<Rightarrow> u32 \<times> indexed_output list" where
  "index_state height es = (word_of_nat (length es), indexed_as height es 0)"

lemma append_output_Ok:
  assumes "append_output limit height network ti txid (ucast height) (vout, output) (index_state height es) = Ok s"
    and "length es < 2 ^ 32"
  shows "(\<exists>es'. s = index_state height (es @ es') \<and> length (es @ es') < 2 ^ 32 \<and>
     es' = (if should_index_output network height ti output then [(txid, vout)] else []))"
proof (cases "should_index_output network height ti output")
  case True
  have u: "unat (word_of_nat (length es) :: u32) = length es" using assms(2) by (simp add: unsigned_of_nat take_bit_nat_eq_self)
  have one: "indexed_as height [(txid, vout)] (length es) =
      [\<lparr>ix_key = outpoint_key \<lparr>op_txid = txid, op_vout = word_of_nat vout\<rparr>,
        ix_value = u64_le (pack_output_position (ucast height) (word_of_nat (length es)))\<rparr>]"
    by (simp add: indexed_as_def)
  obtain e where e: "checked_add (word_of_nat (length es) :: u32) 1 = Some e"
    and s: "s = (e, indexed_as height es 0 @ indexed_as height [(txid, vout)] (length es))"
    using assms(1) True unfolding append_output_def index_state_def prod.case Let_def one
    by (auto simp: rbind_Ok_iff split: if_splits)
  have "length es + 1 < 2 ^ 32" and "e = word_of_nat (length es + 1)"
    using e u by (auto simp: checked_add_def split: if_splits)
  then show ?thesis using True s by (simp add: index_state_def indexed_as_append)
next
  case False
  then show ?thesis using assms by (simp add: append_output_def index_state_def)
qed

lemma append_outputs_Ok:
  assumes "rfold (append_output limit height network ti txid (ucast height)) (enumerate k outputs) (index_state height es) = Ok s"
    and "length es < 2 ^ 32"
  shows "\<exists>es'. s = index_state height (es @ es') \<and> length (es @ es') < 2 ^ 32 \<and>
     es' = map (\<lambda>(vout, _). (txid, vout))
        (filter (\<lambda>(_, output). should_index_output network height ti output) (enumerate k outputs))"
  using assms
proof (induction outputs arbitrary: k es)
  case Nil
  then show ?case by simp
next
  case (Cons out outputs)
  obtain s' where s': "append_output limit height network ti txid (ucast height) (k, out) (index_state height es) = Ok s'"
    and rest: "rfold (append_output limit height network ti txid (ucast height)) (enumerate (Suc k) outputs) s' = Ok s"
    using Cons.prems(1) by (auto simp: rbind_Ok_iff)
  from append_output_Ok [OF s' Cons.prems(2)] obtain es1 where e1: "s' = index_state height (es @ es1)"
    "length (es @ es1) < 2 ^ 32" "es1 = (if should_index_output network height ti out then [(txid, k)] else [])" by blast
  from Cons.IH [OF rest [unfolded e1(1)] e1(2)] show ?case by (auto simp: e1(3))
qed

lemma append_block_Ok:
  assumes "rfold (\<lambda>(ti, tx). append_eligible_outputs limit height network ti (compute_txid tx) (tx_output tx))
       (enumerate k block) (index_state height es) = Ok s"
    and "length es < 2 ^ 32"
  shows "\<exists>es'. s = index_state height (es @ es') \<and> length (es @ es') < 2 ^ 32 \<and>
     es' = concat (map (\<lambda>(ti, tx). map (\<lambda>(vout, _). (compute_txid tx, vout))
        (filter (\<lambda>(_, output). should_index_output network height ti output) (enumerate 0 (tx_output tx))))
      (enumerate k block))"
  using assms
proof (induction block arbitrary: k es)
  case Nil
  then show ?case by simp
next
  case (Cons tx block)
  obtain s' where s': "rfold (append_output limit height network k (compute_txid tx) (ucast height))
       (enumerate 0 (tx_output tx)) (index_state height es) = Ok s'"
    and rest: "rfold (\<lambda>(ti, tx). append_eligible_outputs limit height network ti (compute_txid tx) (tx_output tx))
       (enumerate (Suc k) block) s' = Ok s"
    using Cons.prems(1) unfolding enumerate_simps rfold.simps rbind_Ok_iff prod.case
      append_eligible_outputs_def [of limit height network k] ok_or_Ok_iff u32_try_from_def
    by (auto split: if_splits)
  from append_outputs_Ok [OF s' Cons.prems(2)] obtain es1 where e1: "s' = index_state height (es @ es1)"
    "length (es @ es1) < 2 ^ 32" "es1 = map (\<lambda>(vout, _). (compute_txid tx, vout))
        (filter (\<lambda>(_, output). should_index_output network height k output) (enumerate 0 (tx_output tx)))" by blast
  from Cons.IH [OF rest [unfolded e1(1)] e1(2)] show ?case by (auto simp: e1(3))
qed

lemma indexed_outputs_Ok:
  assumes "indexed_outputs limit block height network = Ok outputs"
  shows "outputs = indexed_as height (eligible network height block) 0"
    and "length (eligible network height block) < 2 ^ 32"
proof -
  obtain s where s: "rfold (\<lambda>(ti, tx). append_eligible_outputs limit height network ti (compute_txid tx) (tx_output tx))
       (enumerate 0 block) (index_state height []) = Ok s" "outputs = snd s"
    using assms by (auto simp: indexed_outputs_def rbind_Ok_iff index_state_def)
  from append_block_Ok [OF s(1)] have "s = index_state height (eligible network height block) \<and>
      length (eligible network height block) < 2 ^ 32" by (simp add: eligible_def)
  then show "outputs = indexed_as height (eligible network height block) 0"
    and "length (eligible network height block) < 2 ^ 32" using s(2) by (simp_all add: index_state_def)
qed

subsection \<open>Offsets\<close>

definition sum_counts :: "u32 list \<Rightarrow> nat" where
  "sum_counts counts = sum_list (map unat counts)"

lemma fold_output_counts_loop:
  fixes offsets :: "u64 list"
  assumes "offsets \<noteq> []"
  shows "rfold (\<lambda>count offsets.
        rbind (if offsets = [] then Err (invalid_input ''block offset vector is empty'') else Ok (last offsets)) (\<lambda>old.
        rbind (ok_or (checked_add old (ucast count)) (invalid_input ''global output index overflow'')) (\<lambda>new.
        Ok (offsets @ [new])))) counts offsets
    = (if unat (last offsets) + sum_counts counts < 2 ^ 64
       then Ok (offsets @ map (\<lambda>k. last offsets + word_of_nat (sum_counts (take k counts))) [1..<Suc (length counts)])
       else Err (invalid_input ''global output index overflow''))"
  using assms
proof (induction counts arbitrary: offsets)
  case Nil
  have "unat (last offsets) < 2 ^ 64" using unat_u64_less by simp
  then show ?case by (simp add: sum_counts_def)
next
  case (Cons c counts)
  have uc: "unat (ucast c :: u64) = unat c" using unat_u32_less [of c]
    by (simp add: unsigned_ucast_eq take_bit_nat_eq_self)
  have t: "sum_counts (c # counts) = unat c + sum_counts counts" by (simp add: sum_counts_def)
  show ?case
  proof (cases "unat (last offsets) + unat c < 2 ^ 64")
    case False
    then have "checked_add (last offsets) (ucast c) = None" by (simp add: checked_add_def uc)
    then show ?thesis using Cons.prems False t by simp
  next
    case True
    let ?new = "last offsets + ucast c"
    have ca: "checked_add (last offsets) (ucast c) = Some ?new" using True by (simp add: checked_add_def uc)
    have un: "unat ?new = unat (last offsets) + unat c" using True by (simp add: unat_add_nowrap uc)
    have m: "map (\<lambda>k. last offsets + word_of_nat (sum_counts (take k (c # counts)))) [1..<Suc (Suc (length counts))]
      = ?new # map (\<lambda>k. ?new + word_of_nat (sum_counts (take k counts))) [1..<Suc (length counts)]"
      by (rule nth_equalityI) (auto simp: nth_Cons' sum_counts_def of_nat_unat simp del: upt_Suc)
    show ?thesis using Cons.IH [of "offsets @ [?new]"] Cons.prems
      by (simp add: ca un t m add.assoc [where 'a = nat] del: upt_Suc One_nat_def)
  qed
qed

end
