(* ===== verification/Hints_Runs.thy ===== *)
theory Hints_Runs
  imports Hints_Index
begin

text \<open>
  examples/hintsgen/main.rs, the spent positions: the run files the removers collect them in, the
  external merge sort over those files, and the encoding of the outputs that are left.

  The working directory is explicit: the bytes of its files, and the outcomes of the coming file
  operations (\<open>None\<close>: the call succeeds; once the list is used up, calls succeed). A buffered write
  counts as one operation. The \<open>hintsfile\<close> crate is a parameter: the record \<open>hintsfile\<close> holds what
  the builder's \<open>initialize\<close>, \<open>append\<close> (of a compressed index list) and \<open>finish\<close> do.
\<close>

subsection \<open>The working directory\<close>

datatype hints_path = Position_Run_Path usize usize | Sorted_Spent | Sorted_Temporary | Hints_Path

record work_dir =
  wd_files :: "hints_path \<rightharpoonup> bytes"
  wd_results :: "io_error option list"
  wd_limit :: usize

definition wd_call :: "(work_dir, unit) prog" where
  "wd_call d = (case wd_results d of
       [] \<Rightarrow> Some (Inr (), d)
     | None # rest \<Rightarrow> Some (Inr (), d\<lparr>wd_results := rest\<rparr>)
     | Some e # rest \<Rightarrow> Some (Inl (Io e), d\<lparr>wd_results := rest\<rparr>))"

definition wd_reserve :: "usize \<Rightarrow> (work_dir, unit) prog" where
  "wd_reserve n = reads (\<lambda>d. try_reserve (wd_limit d) n)"

definition create_new :: "hints_path \<Rightarrow> (work_dir, unit) prog" where
  "create_new path =
     bnd wd_call (\<lambda>_. bnd (gets wd_files) (\<lambda>files.
     if files path \<noteq> None then err (Io AlreadyExists)
     else modify (\<lambda>d. d\<lparr>wd_files := (wd_files d)(path \<mapsto> [])\<rparr>)))"

text \<open>\<open>create\<close> makes the file when it is missing; \<open>truncate\<close> without it needs the file.\<close>

definition file_create :: "hints_path \<Rightarrow> (work_dir, unit) prog" where
  "file_create path = bnd wd_call (\<lambda>_. modify (\<lambda>d. d\<lparr>wd_files := (wd_files d)(path \<mapsto> [])\<rparr>))"

definition open_truncate :: "hints_path \<Rightarrow> (work_dir, unit) prog" where
  "open_truncate path =
     bnd wd_call (\<lambda>_.
     bnd (reads (\<lambda>d. ok_or (wd_files d path) (Io NotFound))) (\<lambda>_.
     modify (\<lambda>d. d\<lparr>wd_files := (wd_files d)(path \<mapsto> [])\<rparr>)))"

definition open_read :: "hints_path \<Rightarrow> (work_dir, bytes) prog" where
  "open_read path = bnd wd_call (\<lambda>_. reads (\<lambda>d. ok_or (wd_files d path) (Io NotFound)))"

definition write_all :: "hints_path \<Rightarrow> bytes \<Rightarrow> (work_dir, unit) prog" where
  "write_all path bs =
     bnd wd_call (\<lambda>_. modify (\<lambda>d. d\<lparr>wd_files := (wd_files d)(path := map_option (\<lambda>old. old @ bs) (wd_files d path))\<rparr>))"

definition fs_remove :: "hints_path \<Rightarrow> (work_dir, unit) prog" where
  "fs_remove path =
     bnd wd_call (\<lambda>_.
     bnd (reads (\<lambda>d. ok_or (wd_files d path) (Io NotFound))) (\<lambda>_.
     modify (\<lambda>d. d\<lparr>wd_files := (wd_files d)(path := None)\<rparr>)))"

definition fs_rename :: "hints_path \<Rightarrow> hints_path \<Rightarrow> (work_dir, unit) prog" where
  "fs_rename from to =
     bnd wd_call (\<lambda>_.
     bnd (reads (\<lambda>d. ok_or (wd_files d from) (Io NotFound))) (\<lambda>bs.
     modify (\<lambda>d. d\<lparr>wd_files := (wd_files d)(from := None, to \<mapsto> bs)\<rparr>)))"

text \<open>\<open>writer.flush()?; writer.get_ref().sync_data()?\<close>\<close>

definition flush_and_sync :: "(work_dir, unit) prog" where
  "flush_and_sync = bnd wd_call (\<lambda>_. wd_call)"

definition write_values :: "hints_path \<Rightarrow> u64 list \<Rightarrow> (work_dir, unit) prog" where
  "write_values path values = forM values (\<lambda>v. write_all path (u64_le v))"

subsection \<open>Position runs\<close>

record position_run =
  pr_path :: hints_path
  pr_values :: u64

definition write_position_run :: "usize \<Rightarrow> usize \<Rightarrow> u64 list \<Rightarrow> (work_dir, position_run) prog" where
  "write_position_run worker run_index values =
     (let path = Position_Run_Path worker run_index in
      bnd (attempt (bnd (create_new path) (\<lambda>_.
                    bnd (write_values path values) (\<lambda>_. flush_and_sync)))) (\<lambda>result.
      case result of
        Inl e \<Rightarrow> bnd (ignore (fs_remove path)) (\<lambda>_. err e)
      | Inr _ \<Rightarrow>
          bnd (lift (ok_or (u64_try_from (length values))
                 (invalid_input ''position run value count does not fit u64''))) (\<lambda>count.
          ok \<lparr>pr_path = path, pr_values = count\<rparr>)))"

text \<open>\<open>impl Drop for PositionRun\<close>.\<close>

definition position_run_drop :: "position_run \<Rightarrow> (work_dir, unit) prog" where
  "position_run_drop run = ignore (fs_remove (pr_path run))"

record position_run_collector =
  pc_worker :: usize
  pc_next_index :: usize
  pc_values :: "u64 list"
  pc_runs :: "position_run list"

definition collector_new :: "usize \<Rightarrow> (work_dir, position_run_collector) prog" where
  "collector_new worker =
     bnd (wd_reserve POSITION_RUN_VALUE_CAPACITY) (\<lambda>_.
     ok \<lparr>pc_worker = worker, pc_next_index = 0, pc_values = [], pc_runs = []\<rparr>)"

definition collector_flush :: "position_run_collector \<Rightarrow> (work_dir, position_run_collector) prog" where
  "collector_flush c =
     (if pc_values c = [] then ok c
      else
        bnd (lift (ok_or (usize_checked_add (pc_next_index c) 1)
               (invalid_input ''position run index overflow''))) (\<lambda>following_index.
        bnd (wd_reserve (length (pc_runs c) + 1)) (\<lambda>_.
        bnd (write_position_run (pc_worker c) (pc_next_index c) (pc_values c)) (\<lambda>run.
        ok (c\<lparr>pc_values := [], pc_runs := pc_runs c @ [run], pc_next_index := following_index\<rparr>)))))"

definition collector_push :: "u64 \<Rightarrow> position_run_collector \<Rightarrow> (work_dir, position_run_collector) prog" where
  "collector_push position c =
     (let c = c\<lparr>pc_values := pc_values c @ [position]\<rparr> in
      if length (pc_values c) = POSITION_RUN_VALUE_CAPACITY then collector_flush c else ok c)"

definition collector_finish :: "position_run_collector \<Rightarrow> (work_dir, position_run list) prog" where
  "collector_finish c = bnd (collector_flush c) (\<lambda>c. ok (pc_runs c))"

subsection \<open>Reading values\<close>

record value_reader =
  vr_bytes :: bytes
  vr_remaining :: u64

definition open_run :: "position_run \<Rightarrow> (work_dir, value_reader) prog" where
  "open_run run =
     bnd (lift (ok_or (checked_mul (pr_values run) 8) (io_other ''position run length overflow''))) (\<lambda>expected_length.
     bnd (open_read (pr_path run)) (\<lambda>bs.
     bnd wd_call (\<lambda>_.
     if length bs \<noteq> unat expected_length then err (io_other ''position run has an unexpected length'')
     else ok \<lparr>vr_bytes = bs, vr_remaining = pr_values run\<rparr>)))"

definition open_flat :: "hints_path \<Rightarrow> (work_dir, value_reader) prog" where
  "open_flat path =
     bnd (open_read path) (\<lambda>bs.
     bnd wd_call (\<lambda>_.
     if length bs mod 8 \<noteq> 0 then err (io_other ''sorted values contain a partial record'')
     else ok \<lparr>vr_bytes = bs, vr_remaining = word_of_nat (length bs div 8)\<rparr>))"

definition next_value :: "value_reader \<Rightarrow> (work_dir, u64 option \<times> value_reader) prog" where
  "next_value r =
     (if vr_remaining r = 0 then ok (None, r)
      else
        bnd wd_call (\<lambda>_.
        if length (vr_bytes r) < 8 then err (Io UnexpectedEof)
        else ok (Some (from_le (take 8 (vr_bytes r))),
                 r\<lparr>vr_bytes := drop 8 (vr_bytes r), vr_remaining := vr_remaining r - 1\<rparr>)))"

definition read_rest :: "value_reader \<Rightarrow> (work_dir, u64 list) prog" where
  "read_rest r = loop (\<lambda>(values, r).
     bnd (next_value r) (\<lambda>(v, r).
     case v of None \<Rightarrow> ok (Return values) | Some v \<Rightarrow> ok (Continue (values @ [v], r)))) ([], r)"

subsection \<open>Sorting\<close>

definition sort_position_run :: "position_run \<Rightarrow> (work_dir, unit) prog" where
  "sort_position_run run =
     bnd (wd_reserve (unat (pr_values run))) (\<lambda>_.
     bnd (open_run run) (\<lambda>reader.
     bnd (read_rest reader) (\<lambda>values.
     bnd (open_truncate (pr_path run)) (\<lambda>_.
     bnd (write_values (pr_path run) (sort values)) (\<lambda>_. flush_and_sync)))))"

definition sort_position_runs :: "position_run list \<Rightarrow> (work_dir, unit) prog" where
  "sort_position_runs runs = forM runs sort_position_run"

text \<open>\<open>for x in xs\<close> with an accumulator in a program.\<close>

primrec foldM :: "('x \<Rightarrow> 'a \<Rightarrow> ('s, 'a) prog) \<Rightarrow> 'x list \<Rightarrow> 'a \<Rightarrow> ('s, 'a) prog" where
  "foldM f [] a = ok a"
| "foldM f (x # xs) a = bnd (f x a) (foldM f xs)"

text \<open>\<open>BinaryHeap<Reverse<(u64, usize)>>\<close>: the entries in ascending order, the smallest is popped.\<close>

type_synonym heap = "(u64 \<times> usize) list"

definition heap_push :: "u64 \<times> usize \<Rightarrow> heap \<Rightarrow> heap" where
  "heap_push = insort"

fun heap_pop :: "heap \<Rightarrow> ((u64 \<times> usize) \<times> heap) option" where
  "heap_pop [] = None"
| "heap_pop (x # xs) = Some (x, xs)"

definition open_reader :: "position_run \<Rightarrow> value_reader list \<Rightarrow> (work_dir, value_reader list) prog" where
  "open_reader run readers =
     bnd (wd_reserve (length readers + 1)) (\<lambda>_.
     bnd (open_run run) (\<lambda>r. ok (readers @ [r])))"

definition open_readers :: "position_run list \<Rightarrow> (work_dir, value_reader list) prog" where
  "open_readers runs = bnd (wd_reserve (length runs)) (\<lambda>_. foldM open_reader runs [])"

definition fill_step :: "usize \<Rightarrow> heap \<times> value_reader list \<Rightarrow> (work_dir, heap \<times> value_reader list) prog" where
  "fill_step index = (\<lambda>(heap, readers).
     bnd (next_value (readers ! index)) (\<lambda>(v, r).
     let readers = readers[index := r] in
     case v of
       None \<Rightarrow> ok (heap, readers)
     | Some v \<Rightarrow> bnd (wd_reserve (length heap + 1)) (\<lambda>_. ok (heap_push (v, index) heap, readers))))"

definition fill_heap :: "value_reader list \<Rightarrow> (work_dir, heap \<times> value_reader list) prog" where
  "fill_heap readers = foldM fill_step [0..<length readers] ([], readers)"

definition merge_step ::
  "hints_path \<Rightarrow> heap \<times> value_reader list \<times> u64
    \<Rightarrow> (work_dir, (heap \<times> value_reader list \<times> u64, u64) flow) prog" where
  "merge_step path = (\<lambda>(heap, readers, written).
     case heap_pop heap of
       None \<Rightarrow> ok (Return written)
     | Some ((v, reader_index), heap) \<Rightarrow>
         bnd (write_all path (u64_le v)) (\<lambda>_.
         bnd (lift (ok_or (checked_add written 1) (invalid_input ''merged output count overflow''))) (\<lambda>written.
         if \<not> reader_index < length readers then err (io_other ''sort run reader index is out of range'')
         else
           bnd (next_value (readers ! reader_index)) (\<lambda>(next, r).
           let readers = readers[reader_index := r] in
           case next of
             None \<Rightarrow> ok (Continue (heap, readers, written))
           | Some next \<Rightarrow> ok (Continue (heap_push (next, reader_index) heap, readers, written))))))"

definition merge_into :: "hints_path \<Rightarrow> position_run list \<Rightarrow> u64 \<Rightarrow> (work_dir, unit) prog" where
  "merge_into path runs expected_values =
     bnd (open_readers runs) (\<lambda>readers.
     bnd (fill_heap readers) (\<lambda>(heap, readers).
     bnd (loop (merge_step path) (heap, readers, 0)) (\<lambda>written.
     if written \<noteq> expected_values then err (io_other ''external sort lost values'')
     else flush_and_sync)))"

text \<open>\<open>TemporarySortOutput\<close> removes its file when it is dropped before it is committed.\<close>

definition merge_sort_runs :: "hints_path \<Rightarrow> position_run list \<Rightarrow> u64 \<Rightarrow> (work_dir, unit) prog" where
  "merge_sort_runs output_path runs expected_values =
     bnd (create_new Sorted_Temporary) (\<lambda>_.
     catch (bnd (merge_into Sorted_Temporary runs expected_values) (\<lambda>_. fs_rename Sorted_Temporary output_path))
       (\<lambda>e. bnd (ignore (fs_remove Sorted_Temporary)) (\<lambda>_. err e)))"

subsection \<open>Encoding the unspent outputs\<close>

record 'b hintsfile =
  hf_initialize :: "u32 \<Rightarrow> 'b res"
  hf_append :: "u32 list \<Rightarrow> 'b \<Rightarrow> 'b res"
  hf_finish :: "'b \<Rightarrow> bytes res"

text \<open>The variables of the inner loop: the next spent position, its reader, the indices of this
  height and the number of outputs encoded.\<close>

type_synonym encode_vars = "u64 option \<times> value_reader \<times> u32 list \<times> u64"

definition encode_output :: "u32 \<Rightarrow> u32 \<Rightarrow> encode_vars \<Rightarrow> (work_dir, encode_vars) prog" where
  "encode_output height output_index = (\<lambda>(next_spent, reader, indices, encoded_outputs).
     let keep =
       bnd (lift (ok_or (checked_add encoded_outputs 1) (invalid_input ''encoded output count overflow''))) (\<lambda>encoded_outputs.
       ok (next_spent, reader, indices @ [output_index], encoded_outputs)) in
     case next_spent of
       None \<Rightarrow> keep
     | Some position \<Rightarrow>
         (case unpack_output_position position of (position_height, spent_index) \<Rightarrow>
          if position_height < height \<or> position_height = height \<and> spent_index < output_index then
            err (io_other ''sorted spent output positions contain a duplicate or moved backwards'')
          else if position_height = height \<and> spent_index = output_index then
            bnd (next_value reader) (\<lambda>(next_spent, reader). ok (next_spent, reader, indices, encoded_outputs))
          else keep))"

text \<open>\<open>capacity\<close> is what \<open>indices.capacity()\<close> answers when a height is begun.\<close>

definition encode_height ::
  "'b hintsfile \<Rightarrow> (u32 \<Rightarrow> usize) \<Rightarrow> u32 list \<Rightarrow> u32 \<Rightarrow> u64 option \<times> value_reader \<times> 'b \<times> u64
    \<Rightarrow> (work_dir, u64 option \<times> value_reader \<times> 'b \<times> u64) prog" where
  "encode_height hf capacity counts height = (\<lambda>(next_spent, reader, builder, encoded_outputs).
     bnd (if unat height < length counts then ok (counts ! unat height)
          else err (invalid_input ''eligible output count is unavailable'')) (\<lambda>count.
     bnd (if unat count > capacity height then wd_reserve (unat count - capacity height) else ok ()) (\<lambda>_.
     bnd (foldM (encode_output height) (map word_of_nat [0..<unat count]) (next_spent, reader, [], encoded_outputs))
       (\<lambda>(next_spent, reader, indices, encoded_outputs).
     bnd (lift (hf_append hf indices builder)) (\<lambda>builder.
     ok (next_spent, reader, builder, encoded_outputs))))))"

definition encode_unspent_hintsfile ::
  "'b hintsfile \<Rightarrow> (u32 \<Rightarrow> usize) \<Rightarrow> hints_path \<Rightarrow> hints_path \<Rightarrow> u64 \<Rightarrow> u32 list \<Rightarrow> (work_dir, u64) prog" where
  "encode_unspent_hintsfile hf capacity path sorted_spent_path tip_height counts =
     bnd (lift (ok_or (u32_try_from tip_height) (invalid_input ''hintsfile height exceeds u32''))) (\<lambda>stop_height.
     bnd (open_flat sorted_spent_path) (\<lambda>reader.
     bnd (next_value reader) (\<lambda>(next_spent, reader).
     bnd (file_create path) (\<lambda>_.
     bnd (lift (hf_initialize hf stop_height)) (\<lambda>builder.
     bnd (foldM (encode_height hf capacity counts) (map word_of_nat [1..<Suc (unat stop_height)])
            (next_spent, reader, builder, 0)) (\<lambda>(next_spent, reader, builder, encoded_outputs).
     if next_spent \<noteq> None then
       err (io_other ''sorted spent outputs contain a position above the requested tip'')
     else
       bnd (lift (hf_finish hf builder)) (\<lambda>bs.
       bnd (write_all path bs) (\<lambda>_. ok encoded_outputs))))))))"

record hints_stats =
  hi_eligible_outputs :: u64
  hi_unspent_outputs :: u64
  hi_file_bytes :: u64

definition write_hintsfile ::
  "'b hintsfile \<Rightarrow> (u32 \<Rightarrow> usize) \<Rightarrow> position_run list \<Rightarrow> u64 \<Rightarrow> u32 list \<Rightarrow> u64 list \<Rightarrow> hints_path
    \<Rightarrow> (work_dir, hints_stats) prog" where
  "write_hintsfile hf capacity spent_runs tip_height counts offsets path =
     bnd (if offsets = [] then err (invalid_input ''block offsets are empty'') else ok (last offsets)) (\<lambda>eligible_outputs.
     bnd (lift (rfold (\<lambda>run spent. ok_or (checked_add spent (pr_values run)) (invalid_input ''spent output count overflow''))
            spent_runs 0)) (\<lambda>spent_outputs.
     bnd (lift (ok_or (checked_sub eligible_outputs spent_outputs)
            (invalid_input ''spent outputs exceed eligible outputs''))) (\<lambda>unspent_outputs.
     bnd (sort_position_runs spent_runs) (\<lambda>_.
     bnd (merge_sort_runs Sorted_Spent spent_runs spent_outputs) (\<lambda>_.
     bnd (attempt (encode_unspent_hintsfile hf capacity path Sorted_Spent tip_height counts)) (\<lambda>encoded.
     bnd (attempt (fs_remove Sorted_Spent)) (\<lambda>cleanup.
     bnd (case encoded of Inl e \<Rightarrow> err e | Inr n \<Rightarrow> (case cleanup of Inl e \<Rightarrow> err e | Inr _ \<Rightarrow> ok n)) (\<lambda>encoded_outputs.
     if encoded_outputs \<noteq> unspent_outputs then err (io_other ''encoded output count mismatch'')
     else
       bnd wd_call (\<lambda>_. bnd wd_call (\<lambda>_.
       bnd (reads (\<lambda>d. ok_or (wd_files d path) (Io NotFound))) (\<lambda>bs.
       ok \<lparr>hi_eligible_outputs = eligible_outputs, hi_unspent_outputs = unspent_outputs,
           hi_file_bytes = word_of_nat (length bs)\<rparr>)))))))))))"

end
