(* ===== verification/Hints_Sort.thy ===== *)
theory Hints_Sort
  imports Hints_Runs "HOL-Library.Multiset"
begin

text \<open>
  The external sort of the spent positions: reading back what was written, each run sorted in its
  file, and the k-way merge over a priority queue. The queue is an interface (the locale
  \<open>min_queue\<close>); the merge argument is made once against it and used at the model's heap.
\<close>

subsection \<open>A quiet directory\<close>

declare prog_simps [simp] bnd_simps [simp] bnd_reads [simp] lift_simps [simp] outcome_simps [simp]

lemma bnd_assoc: "bnd (bnd m f) g = bnd m (\<lambda>a. bnd (f a) g)"
  by (rule ext) (simp add: bnd_def split: option.splits sum.splits)

lemma wd_call_quiet [simp]: "wd_results d = [] \<Longrightarrow> wd_call d = Some (Inr (), d)"
  by (simp add: wd_call_def)

lemma bnd_wd_call [simp]: "wd_results d = [] \<Longrightarrow> bnd wd_call f d = f () d"
  by (simp add: bnd_def)

lemma bnd_wd_reserve [simp]: "n \<le> wd_limit d \<Longrightarrow> bnd (wd_reserve n) f d = f () d"
  by (simp add: wd_reserve_def try_reserve_def)

abbreviation put_file :: "hints_path \<Rightarrow> bytes \<Rightarrow> work_dir \<Rightarrow> work_dir" where
  "put_file path bs d \<equiv> d\<lparr>wd_files := (wd_files d)(path \<mapsto> bs)\<rparr>"

lemma put_file_twice [simp]: "put_file path b (put_file path a d) = put_file path b d"
  by simp

definition le_values :: "u64 list \<Rightarrow> bytes" where
  "le_values vs = concat (map u64_le vs)"

lemma le_values_simps [simp]:
  "le_values [] = []" "le_values (v # vs) = u64_le v @ le_values vs"
  "le_values (vs @ ws) = le_values vs @ le_values ws" "length (le_values vs) = 8 * length vs"
  by (simp_all add: le_values_def length_concat comp_def sum_list_triv)

lemma bnd_write_all:
  assumes "wd_results d = []" "wd_files d path = Some old"
  shows "bnd (write_all path bs) f d = f () (put_file path (old @ bs) d)"
  using assms by (simp add: write_all_def bnd_assoc)

lemma write_values_quiet:
  assumes "wd_results d = []" "wd_files d path = Some old"
  shows "write_values path vs d = Some (Inr (), put_file path (old @ le_values vs) d)"
  using assms
proof (induction vs arbitrary: d old)
  case Nil
  then show ?case by (simp add: write_values_def map_upd_triv)
next
  case (Cons v vs)
  have "write_values path (v # vs) d = write_values path vs (put_file path (old @ u64_le v) d)"
    using Cons.prems by (simp add: write_values_def bnd_write_all)
  also have "\<dots> = Some (Inr (), put_file path ((old @ u64_le v) @ le_values vs) (put_file path (old @ u64_le v) d))"
    by (rule Cons.IH) (use Cons.prems in simp_all)
  finally show ?case by (simp only: put_file_twice append_assoc le_values_simps)
qed

lemma flush_and_sync_quiet [simp]: "wd_results d = [] \<Longrightarrow> flush_and_sync d = Some (Inr (), d)"
  by (simp add: flush_and_sync_def)

subsection \<open>Readers\<close>

definition holds :: "value_reader \<Rightarrow> u64 list \<Rightarrow> bool" where
  "holds r vs \<longleftrightarrow> vr_bytes r = le_values vs \<and> unat (vr_remaining r) = length vs"

lemma next_value_Nil: "holds r [] \<Longrightarrow> next_value r d = Some (Inr (None, r), d)"
  by (simp add: holds_def next_value_def unat_eq_zero)

lemma next_value_Cons:
  assumes "holds r (v # vs)" "wd_results d = []"
  obtains r' where "holds r' vs" "next_value r d = Some (Inr (Some v, r'), d)"
proof -
  let ?r = "r\<lparr>vr_bytes := drop 8 (vr_bytes r), vr_remaining := vr_remaining r - 1\<rparr>"
  have n0: "vr_remaining r \<noteq> 0" using assms(1) by (auto simp: holds_def)
  then have "unat (vr_remaining r - 1) = length vs" using assms(1)
    by (simp add: holds_def unat_minus_one)
  then have "holds ?r vs" using assms(1) by (simp add: holds_def)
  moreover have "next_value r d = Some (Inr (Some v, ?r), d)"
    using assms n0 by (simp add: next_value_def holds_def)
  ultimately show thesis by (rule that)
qed

lemma read_rest_quiet:
  assumes "holds r vs" "wd_results d = []"
  shows "read_rest r d = Some (Inr vs, d)"
proof -
  have "loop (\<lambda>(values, r). bnd (next_value r) (\<lambda>(v, r).
      case v of None \<Rightarrow> ok (Return values) | Some v \<Rightarrow> ok (Continue (values @ [v], r)))) (acc, r) d
    = Some (Inr (acc @ vs), d)" for acc
    using assms
  proof (induction vs arbitrary: acc r)
    case Nil
    then show ?case by (subst loop.simps) (simp add: bnd_def next_value_Nil)
  next
    case (Cons v vs)
    obtain r' where r': "holds r' vs" "next_value r d = Some (Inr (Some v, r'), d)"
      by (rule next_value_Cons [OF Cons.prems])
    then show ?case using Cons.IH [OF r'(1) Cons.prems(2), of "acc @ [v]"]
      by (subst loop.simps) (simp add: bnd_def)
  qed
  from this [of "[]"] show ?thesis by (simp add: read_rest_def)
qed

subsection \<open>Runs on disk\<close>

definition run_holds :: "work_dir \<Rightarrow> position_run \<Rightarrow> u64 list \<Rightarrow> bool" where
  "run_holds d run vs \<longleftrightarrow> wd_files d (pr_path run) = Some (le_values vs)
     \<and> unat (pr_values run) = length vs \<and> 8 * length vs < 2 ^ 64"

lemma open_run_quiet:
  assumes "run_holds d run vs" "wd_results d = []"
  obtains r where "holds r vs" "open_run run d = Some (Inr r, d)"
proof -
  have cm: "checked_mul (pr_values run) 8 = Some (pr_values run * 8)" "unat (pr_values run * 8) = 8 * length vs"
    using assms(1) by (simp_all add: run_holds_def checked_mul_def unat_mul_nowrap)
  have "holds \<lparr>vr_bytes = le_values vs, vr_remaining = pr_values run\<rparr> vs"
    using assms(1) by (simp add: holds_def run_holds_def)
  moreover have "open_run run d = Some (Inr \<lparr>vr_bytes = le_values vs, vr_remaining = pr_values run\<rparr>, d)"
    using assms cm by (simp add: open_run_def open_read_def run_holds_def bnd_assoc)
  ultimately show thesis by (rule that)
qed

lemma sort_position_run_quiet:
  assumes "run_holds d run vs" "wd_results d = []" "length vs \<le> wd_limit d"
  shows "sort_position_run run d = Some (Inr (), put_file (pr_path run) (le_values (sort vs)) d)"
proof -
  obtain r where r: "holds r vs" "open_run run d = Some (Inr r, d)" by (rule open_run_quiet [OF assms(1,2)])
  have rest: "read_rest r d = Some (Inr vs, d)" by (rule read_rest_quiet [OF r(1) assms(2)])
  have "sort_position_run run d = bnd (open_truncate (pr_path run)) (\<lambda>_.
      bnd (write_values (pr_path run) (sort vs)) (\<lambda>_. flush_and_sync)) d"
    using assms r rest by (simp add: sort_position_run_def run_holds_def bnd_eval)
  also have "\<dots> = bnd (write_values (pr_path run) (sort vs)) (\<lambda>_. flush_and_sync) (put_file (pr_path run) [] d)"
    using assms by (simp add: open_truncate_def bnd_assoc run_holds_def)
  also have "\<dots> = Some (Inr (), put_file (pr_path run) (le_values (sort vs)) d)"
    using assms by (simp add: bnd_eval write_values_quiet)
  finally show ?thesis .
qed


lemma run_holds_other:
  "pr_path run \<noteq> path \<Longrightarrow> run_holds (put_file path bs d) run vs \<longleftrightarrow> run_holds d run vs"
  by (simp add: run_holds_def)

text \<open>The runs of a list, each with its values; their files are distinct and none of them is one of
  the files the hints stage makes.\<close>

definition runs_hold :: "work_dir \<Rightarrow> position_run list \<Rightarrow> u64 list list \<Rightarrow> bool" where
  "runs_hold d runs vss \<longleftrightarrow> list_all2 (run_holds d) runs vss \<and> distinct (map pr_path runs)
     \<and> (\<forall>run \<in> List.set runs. \<exists>w i. pr_path run = Position_Run_Path w i)"

lemma runs_hold_Cons:
  "runs_hold d (run # runs) vss \<longleftrightarrow> (\<exists>vs vss'. vss = vs # vss' \<and> run_holds d run vs \<and> runs_hold d runs vss'
     \<and> pr_path run \<notin> pr_path ` List.set runs \<and> (\<exists>w i. pr_path run = Position_Run_Path w i))"
  by (auto simp: runs_hold_def list_all2_Cons1)

lemma runs_hold_put:
  assumes "path \<notin> pr_path ` List.set runs"
  shows "runs_hold (put_file path bs d) runs vss \<longleftrightarrow> runs_hold d runs vss"
proof -
  have "list_all2 (run_holds (put_file path bs d)) runs vss \<longleftrightarrow> list_all2 (run_holds d) runs vss"
    by (intro list.rel_cong refl run_holds_other) (use assms in auto)
  then show ?thesis by (simp add: runs_hold_def)
qed

lemma sort_position_runs_quiet:
  assumes "runs_hold d runs vss" "wd_results d = []" "\<forall>vs \<in> List.set vss. length vs \<le> wd_limit d"
  obtains d' where "sort_position_runs runs d = Some (Inr (), d')" "runs_hold d' runs (map sort vss)"
    "wd_results d' = []" "wd_limit d' = wd_limit d" "\<And>p. p \<notin> pr_path ` List.set runs \<Longrightarrow> wd_files d' p = wd_files d p"
  using assms
proof (induction runs arbitrary: d vss thesis)
  case Nil
  then show ?case by (simp add: sort_position_runs_def runs_hold_def)
next
  case (Cons run runs)
  obtain vs vss' where v: "vss = vs # vss'" "run_holds d run vs" "runs_hold d runs vss'"
    "pr_path run \<notin> pr_path ` List.set runs" "\<exists>w i. pr_path run = Position_Run_Path w i"
    using Cons.prems(2) by (auto simp: runs_hold_Cons)
  let ?d = "put_file (pr_path run) (le_values (sort vs)) d"
  have step: "sort_position_run run d = Some (Inr (), ?d)"
    using Cons.prems v by (intro sort_position_run_quiet) auto
  have rh: "runs_hold ?d runs vss'" using v by (simp add: runs_hold_put)
  obtain d' where d': "sort_position_runs runs ?d = Some (Inr (), d')" "runs_hold d' runs (map sort vss')"
    "wd_results d' = []" "wd_limit d' = wd_limit ?d"
    "\<And>p. p \<notin> pr_path ` List.set runs \<Longrightarrow> wd_files d' p = wd_files ?d p"
    by (rule Cons.IH [OF _ rh]) (use Cons.prems v in auto)
  show ?case
  proof (rule Cons.prems(1))
    show "sort_position_runs (run # runs) d = Some (Inr (), d')"
      using step d'(1) by (simp add: sort_position_runs_def bnd_eval)
    have "run_holds d' run (sort vs)" using v(2,4) d'(5) [of "pr_path run"] by (simp add: run_holds_def)
    then show "runs_hold d' (run # runs) (map sort vss)" using d'(2) v by (simp add: runs_hold_Cons)
  qed (use d' in auto)
qed

subsection \<open>The priority queue\<close>

locale min_queue =
  fixes push :: "'a::linorder \<Rightarrow> 'q \<Rightarrow> 'q"
    and pop :: "'q \<Rightarrow> ('a \<times> 'q) option"
    and invar :: "'q \<Rightarrow> bool"
    and elems :: "'q \<Rightarrow> 'a multiset"
  assumes pop_None: "invar q \<Longrightarrow> pop q = None \<Longrightarrow> elems q = {#}"
    and pop_Some: "invar q \<Longrightarrow> pop q = Some (x, q') \<Longrightarrow> invar q' \<and> elems q = add_mset x (elems q')"
    and pop_least: "invar q \<Longrightarrow> pop q = Some (x, q') \<Longrightarrow> y \<in># elems q' \<Longrightarrow> x \<le> y"
    and push: "invar q \<Longrightarrow> invar (push x q) \<and> elems (push x q) = add_mset x (elems q)"

interpretation heap: min_queue heap_push heap_pop sorted mset
proof
  fix q :: heap and x q' y
  show "sorted q \<Longrightarrow> heap_pop q = None \<Longrightarrow> mset q = {#}" by (cases q) simp_all
  show "sorted q \<Longrightarrow> heap_pop q = Some (x, q') \<Longrightarrow> sorted q' \<and> mset q = add_mset x (mset q')"
    by (cases q) auto
  show "sorted q \<Longrightarrow> heap_pop q = Some (x, q') \<Longrightarrow> y \<in># mset q' \<Longrightarrow> x \<le> y" by (cases q) auto
  show "sorted q \<Longrightarrow> sorted (heap_push x q) \<and> mset (heap_push x q) = add_mset x (mset q)"
    by (simp add: heap_push_def sorted_insort)
qed

text \<open>A merge in progress: the queue holds the front of every source that is not exhausted, and each
  source is ascending behind its front.\<close>

locale merge_queue = min_queue push pop invar elems
  for push :: "'a::linorder \<times> nat \<Rightarrow> 'q \<Rightarrow> 'q" and pop invar and elems :: "'q \<Rightarrow> ('a \<times> nat) multiset"
begin

definition merging :: "'q \<Rightarrow> 'a list list \<Rightarrow> bool" where
  "merging q rss \<longleftrightarrow> invar q \<and> (\<forall>rs \<in> List.set rss. sorted rs)
     \<and> (\<forall>(v, i) \<in># elems q. i < length rss \<and> (\<forall>x \<in> List.set (rss ! i). v \<le> x))
     \<and> (\<forall>i < length rss. rss ! i \<noteq> [] \<longrightarrow> (\<exists>v. (v, i) \<in># elems q))"

definition pending :: "'q \<Rightarrow> 'a list list \<Rightarrow> 'a multiset" where
  "pending q rss = image_mset fst (elems q) + mset (concat rss)"

lemma merging_done:
  assumes "merging q rss" "pop q = None"
  shows "pending q rss = {#}"
proof -
  have e: "elems q = {#}" using assms pop_None by (simp add: merging_def)
  then have "\<forall>i < length rss. rss ! i = []" using assms(1) by (auto simp: merging_def)
  then have "\<forall>rs \<in> List.set rss. rs = []" by (metis in_set_conv_nth)
  then have "concat rss = []" by simp
  then show ?thesis using e by (simp add: pending_def)
qed

lemma merging_index:
  assumes "merging q rss" "pop q = Some ((v, i), q')"
  shows "i < length rss"
proof -
  have "elems q = add_mset (v, i) (elems q')" using assms pop_Some by (simp add: merging_def)
  then show ?thesis using assms(1) by (simp add: merging_def)
qed

lemma merging_least:
  assumes "merging q rss" "pop q = Some ((v, i), q')" "y \<in># pending q rss"
  shows "v \<le> y"
proof -
  have inv: "invar q" using assms(1) by (simp add: merging_def)
  have le: "v \<le> w" if w: "(w, j) \<in># elems q" for w j
  proof -
    from w consider "(w, j) = (v, i)" | "(w, j) \<in># elems q'" using pop_Some [OF inv assms(2)] by auto
    then show ?thesis
    proof cases
      case 2
      then have "(v, i) \<le> (w, j)" by (rule pop_least [OF inv assms(2)])
      then show ?thesis by (auto simp: less_eq_prod_def)
    qed simp
  qed
  consider w j where "(w, j) \<in># elems q" "y = w" | rs where "rs \<in> List.set rss" "y \<in> List.set rs"
    using assms(3) by (auto simp: pending_def)
  then show ?thesis
  proof cases
    case 1
    then show ?thesis using le by simp
  next
    case 2
    then obtain j where j: "j < length rss" "y \<in> List.set (rss ! j)" by (metis in_set_conv_nth)
    then obtain w where w: "(w, j) \<in># elems q" using assms(1) by (fastforce simp: merging_def)
    then have "w \<le> y" using assms(1) j by (fastforce simp: merging_def)
    then show ?thesis using le [OF w] by simp
  qed
qed

lemma merging_exhausted:
  assumes "merging q rss" "pop q = Some ((v, i), q')" "rss ! i = []"
  shows "merging q' rss" "pending q rss = add_mset v (pending q' rss)"
proof -
  have p: "invar q'" "elems q = add_mset (v, i) (elems q')"
    using assms pop_Some by (auto simp: merging_def)
  have "\<exists>w. (w, j) \<in># elems q'" if "j < length rss" "rss ! j \<noteq> []" for j
    using assms(1,3) that p(2) by (fastforce simp: merging_def)
  then show "merging q' rss" using assms(1) p by (auto simp: merging_def)
  show "pending q rss = add_mset v (pending q' rss)" using p by (simp add: pending_def)
qed

lemma mset_concat_update:
  assumes "i < length rss" "rss ! i = x # xs"
  shows "mset (concat rss) = add_mset x (mset (concat (rss[i := xs])))"
  using assms by (induction rss arbitrary: i) (auto simp: nth_Cons' split: nat.splits)

lemma merging_advance:
  assumes "merging q rss" "pop q = Some ((v, i), q')" "rss ! i = x # xs"
  shows "merging (push (x, i) q') (rss[i := xs])"
    "pending q rss = add_mset v (pending (push (x, i) q') (rss[i := xs]))"
proof -
  have p: "invar q'" "elems q = add_mset (v, i) (elems q')"
    using assms pop_Some by (auto simp: merging_def)
  have i: "i < length rss" by (rule merging_index [OF assms(1,2)])
  then have s: "sorted (x # xs)" using assms(1) nth_mem [OF i] unfolding assms(3) merging_def by blast
  have e: "invar (push (x, i) q')" "elems (push (x, i) q') = add_mset (x, i) (elems q')"
    using push [OF p(1)] by simp_all
  have old: "j < length rss \<and> (\<forall>y \<in> List.set (rss ! j). w \<le> y)" if "(w, j) \<in># elems q'" for w j
    using assms(1) p(2) that by (fastforce simp: merging_def)
  have front: "\<exists>w. (w, j) \<in># elems q'" if "j < length rss" "rss ! j \<noteq> []" "j \<noteq> i" for j
    using assms(1) p(2) that by (fastforce simp: merging_def)
  have sub: "\<forall>y \<in> List.set (rss[i := xs] ! j). w \<le> y" if "(w, j) \<in># elems q'" for w j
    using old [OF that] i assms(3) by (cases "j = i") auto
  have srt: "\<forall>rs \<in> List.set (rss[i := xs]). sorted rs"
    using assms(1) s set_update_subset_insert [of rss i xs] by (auto simp: merging_def)
  show "merging (push (x, i) q') (rss[i := xs])"
    unfolding merging_def using e srt sub old front i s by (auto simp: nth_list_update split: if_splits)
  show "pending q rss = add_mset v (pending (push (x, i) q') (rss[i := xs]))"
    using mset_concat_update [OF i assms(3)] p(2) e(2) by (simp add: pending_def)
qed

text \<open>While the queue is filled: the sources before \<open>k\<close> have their front in the queue.\<close>

definition filling :: "nat \<Rightarrow> 'q \<Rightarrow> 'a list list \<Rightarrow> bool" where
  "filling k q rss \<longleftrightarrow> invar q \<and> (\<forall>rs \<in> List.set rss. sorted rs)
     \<and> (\<forall>(v, i) \<in># elems q. i < k \<and> (\<forall>x \<in> List.set (rss ! i). v \<le> x))
     \<and> (\<forall>i < k. rss ! i \<noteq> [] \<longrightarrow> (\<exists>v. (v, i) \<in># elems q))"

lemma filling_start:
  "invar q \<Longrightarrow> elems q = {#} \<Longrightarrow> \<forall>rs \<in> List.set rss. sorted rs \<Longrightarrow> filling 0 q rss"
  by (simp add: filling_def)

lemma filling_merging: "filling (length rss) q rss \<Longrightarrow> merging q rss"
  by (simp add: filling_def merging_def)

lemma filling_skip: "filling k q rss \<Longrightarrow> rss ! k = [] \<Longrightarrow> filling (Suc k) q rss"
  by (auto simp: filling_def less_Suc_eq)

lemma filling_push:
  assumes "filling k q rss" "k < length rss" "rss ! k = x # xs"
  shows "filling (Suc k) (push (x, k) q) (rss[k := xs])"
    "pending (push (x, k) q) (rss[k := xs]) = pending q rss"
proof -
  have inv: "invar q" and old: "\<forall>(v, i) \<in># elems q. i < k \<and> (\<forall>x \<in> List.set (rss ! i). v \<le> x)"
    and front: "\<forall>i < k. rss ! i \<noteq> [] \<longrightarrow> (\<exists>v. (v, i) \<in># elems q)"
    using assms(1) by (simp_all add: filling_def)
  have e: "invar (push (x, k) q)" "elems (push (x, k) q) = add_mset (x, k) (elems q)"
    using push [OF inv] by simp_all
  have s: "sorted (x # xs)" using assms(1) nth_mem [OF assms(2)] unfolding assms(3) filling_def by blast
  have srt: "\<forall>rs \<in> List.set (rss[k := xs]). sorted rs"
    using assms(1) s set_update_subset_insert [of rss k xs] by (auto simp: filling_def)
  have sub: "i < Suc k \<and> (\<forall>y \<in> List.set (rss[k := xs] ! i). w \<le> y)" if "(w, i) \<in># elems q" for w i
    using old that by auto
  have now: "k < Suc k \<and> (\<forall>y \<in> List.set (rss[k := xs] ! k). x \<le> y)" using s assms(2) by simp
  have fr: "\<exists>w. (w, i) \<in># elems (push (x, k) q)" if "i < Suc k" "rss[k := xs] ! i \<noteq> []" for i
    using front that e(2) by (cases "i = k") auto
  show "filling (Suc k) (push (x, k) q) (rss[k := xs])"
    unfolding filling_def using e srt sub now fr by (auto simp del: nth_list_update_eq)
  show "pending (push (x, k) q) (rss[k := xs]) = pending q rss"
    using mset_concat_update [OF assms(2,3)] e(2) by (simp add: pending_def)
qed

end

interpretation runs: merge_queue heap_push heap_pop sorted mset
  by unfold_locales


subsection \<open>The merge\<close>

lemma sorted_list_of_multiset_least:
  "(\<And>y. y \<in># M \<Longrightarrow> v \<le> y) \<Longrightarrow> sorted_list_of_multiset (add_mset v M) = v # sorted_list_of_multiset M"
  by (simp add: insort_is_Cons)

lemma merge_loop_quiet:
  assumes "runs.merging q rss" "list_all2 holds readers rss" "wd_results d = []"
    "wd_files d path = Some out" "unat written + size (runs.pending q rss) < 2 ^ 64"
  shows "loop (merge_step path) (q, readers, written) d =
    Some (Inr (written + word_of_nat (size (runs.pending q rss))),
      put_file path (out @ le_values (sorted_list_of_multiset (runs.pending q rss))) d)"
  using assms
proof (induction "size (runs.pending q rss)" arbitrary: q rss readers written d out)
  case (0 q rss)
  have "heap_pop q = None"
  proof (cases q)
    case (Cons x xs)
    then show ?thesis using 0 by (simp add: runs.pending_def)
  qed simp
  then show ?case using 0 by (subst loop.simps) (simp add: merge_step_def map_upd_triv)
next
  case (Suc n q rss)
  obtain v i q' where pop: "heap_pop q = Some ((v, i), q')"
    using Suc.hyps(2) runs.merging_done [OF Suc.prems(1)] by (cases "heap_pop q") fastforce+
  let ?d = "put_file path (out @ u64_le v) d"
  have i: "i < length rss" by (rule runs.merging_index [OF Suc.prems(1) pop])
  then have il: "i < length readers" using Suc.prems(2) by (simp add: list_all2_lengthD)
  have hr: "holds (readers ! i) (rss ! i)" using Suc.prems(2) il by (rule list_all2_nthD)
  have w1: "checked_add written 1 = Some (written + 1)" "unat (written + 1) = unat written + 1"
    using Suc.prems(5) Suc.hyps(2) by (simp_all add: checked_add_def unat_add_nowrap)
  have least: "\<And>y. y \<in># runs.pending q rss \<Longrightarrow> v \<le> y" by (rule runs.merging_least [OF Suc.prems(1) pop])
  show ?case
  proof (cases "rss ! i")
    case Nil
    note m = runs.merging_exhausted [OF Suc.prems(1) pop Nil]
    have step: "merge_step path (q, readers, written) d = Some (Inr (Continue (q', readers[i := readers ! i], written + 1)), ?d)"
      using pop hr Nil il Suc.prems(3,4) w1 by (simp add: merge_step_def bnd_write_all bnd_eval next_value_Nil)
    have ih: "loop (merge_step path) (q', readers[i := readers ! i], written + 1) ?d =
      Some (Inr (written + 1 + word_of_nat (size (runs.pending q' rss))),
        put_file path ((out @ u64_le v) @ le_values (sorted_list_of_multiset (runs.pending q' rss))) ?d)"
      by (rule Suc.hyps(1)) (use m Suc.hyps(2) Suc.prems w1 in simp_all)
    have "sorted_list_of_multiset (runs.pending q rss) = v # sorted_list_of_multiset (runs.pending q' rss)"
      unfolding m(2) by (rule sorted_list_of_multiset_least) (use least m(2) in simp)
    then show ?thesis using step ih m(2) by (subst loop.simps) (simp del: fun_upd_apply list_update_id)
  next
    case (Cons x xs)
    note m = runs.merging_advance [OF Suc.prems(1) pop Cons]
    obtain r' where r': "holds r' xs" "next_value (readers ! i) ?d = Some (Inr (Some x, r'), ?d)"
      by (rule next_value_Cons [OF hr [unfolded Cons], of ?d]) (use Suc.prems(3) in simp_all)
    have step: "merge_step path (q, readers, written) d = Some (Inr (Continue (heap_push (x, i) q', readers[i := r'], written + 1)), ?d)"
      using pop r' il Suc.prems(3,4) w1 by (simp add: merge_step_def bnd_write_all bnd_eval)
    have all2: "list_all2 holds (readers[i := r']) (rss[i := xs])"
      using Suc.prems(2) r'(1) by (rule list_all2_update_cong)
    have ih: "loop (merge_step path) (heap_push (x, i) q', readers[i := r'], written + 1) ?d =
      Some (Inr (written + 1 + word_of_nat (size (runs.pending (heap_push (x, i) q') (rss[i := xs])))),
        put_file path ((out @ u64_le v) @ le_values (sorted_list_of_multiset (runs.pending (heap_push (x, i) q') (rss[i := xs])))) ?d)"
      by (rule Suc.hyps(1)) (use m all2 Suc.hyps(2) Suc.prems w1 in simp_all)
    have "sorted_list_of_multiset (runs.pending q rss) = v # sorted_list_of_multiset (runs.pending (heap_push (x, i) q') (rss[i := xs]))"
      unfolding m(2) by (rule sorted_list_of_multiset_least) (use least m(2) in simp)
    then show ?thesis using step ih m(2) by (subst loop.simps) (simp del: fun_upd_apply)
  qed
qed


lemma open_readers_quiet:
  assumes "runs_hold d runs vss" "wd_results d = []" "length runs \<le> wd_limit d"
  obtains readers where "list_all2 holds readers vss" "open_readers runs d = Some (Inr readers, d)"
proof -
  have "\<exists>rs. list_all2 holds rs vss \<and> foldM open_reader runs acc d = Some (Inr (acc @ rs), d)"
    if "runs_hold d runs vss" "length acc + length runs \<le> wd_limit d" for acc
    using that
  proof (induction runs arbitrary: acc vss)
    case Nil
    then show ?case by (simp add: runs_hold_def)
  next
    case (Cons run runs)
    obtain vs vss' where v: "vss = vs # vss'" "run_holds d run vs" "runs_hold d runs vss'"
      using Cons.prems(1) by (auto simp: runs_hold_Cons)
    obtain r where r: "holds r vs" "open_run run d = Some (Inr r, d)"
      by (rule open_run_quiet [OF v(2) assms(2)])
    have "length (acc @ [r]) + length runs \<le> wd_limit d" using Cons.prems(2) by simp
    from Cons.IH [OF v(3) this] obtain rs where "list_all2 holds rs vss'"
      "foldM open_reader runs (acc @ [r]) d = Some (Inr ((acc @ [r]) @ rs), d)" by blast
    moreover have "open_reader run acc d = Some (Inr (acc @ [r]), d)"
      using r(2) Cons.prems(2) by (simp add: open_reader_def bnd_eval)
    ultimately show ?case using r(1) v(1) by (intro exI [of _ "r # rs"]) (simp add: bnd_eval)
  qed
  from this [OF assms(1), of "[]"] assms(3) that show thesis by (auto simp: open_readers_def)
qed

lemma fill_heap_quiet:
  assumes "list_all2 holds readers vss" "\<forall>vs \<in> List.set vss. sorted vs" "wd_results d = []"
    "length readers \<le> wd_limit d"
  obtains q readers' rss where "fill_heap readers d = Some (Inr (q, readers'), d)"
    "runs.merging q rss" "list_all2 holds readers' rss" "runs.pending q rss = mset (concat vss)"
proof -
  have "\<exists>q' rs' rss'. foldM fill_step [k..<n] (q, rs) d = Some (Inr (q', rs'), d) \<and> runs.merging q' rss'
      \<and> list_all2 holds rs' rss' \<and> runs.pending q' rss' = runs.pending q rss"
    if "k \<le> n" "length rs = n" "runs.filling k q rss" "list_all2 holds rs rss" "length q \<le> k" "n \<le> wd_limit d" for k n q rs rss
    using that
  proof (induction "n - k" arbitrary: k q rs rss)
    case 0
    then have "runs.merging q rss" by (intro runs.filling_merging) (simp add: list_all2_lengthD [symmetric])
    then show ?case using 0 by auto
  next
    case (Suc m)
    have k: "k < length rs" "k < length rss" using Suc.hyps(2) Suc.prems by (simp_all add: list_all2_lengthD)
    have up: "[k..<n] = k # [Suc k..<n]" using k Suc.prems(2) by (simp add: upt_conv_Cons)
    have hk: "holds (rs ! k) (rss ! k)" using Suc.prems(4) k(1) by (rule list_all2_nthD)
    show ?case
    proof (cases "rss ! k")
      case Nil
      have "fill_step k (q, rs) d = Some (Inr (q, rs), d)"
        using hk Nil by (simp add: fill_step_def bnd_eval next_value_Nil)
      moreover have "\<exists>q' rs' rss'. foldM fill_step [Suc k..<n] (q, rs) d = Some (Inr (q', rs'), d) \<and> runs.merging q' rss'
        \<and> list_all2 holds rs' rss' \<and> runs.pending q' rss' = runs.pending q rss"
        by (rule Suc.hyps(1)) (use Suc.hyps(2) Suc.prems k runs.filling_skip [OF Suc.prems(3) Nil] in simp_all)
      ultimately show ?thesis unfolding up by (simp add: bnd_eval)
    next
      case (Cons x xs)
      obtain r' where r': "holds r' xs" "next_value (rs ! k) d = Some (Inr (Some x, r'), d)"
        by (rule next_value_Cons [OF hk [unfolded Cons] assms(3)])
      note f = runs.filling_push [OF Suc.prems(3) k(2) Cons]
      have "fill_step k (q, rs) d = Some (Inr (heap_push (x, k) q, rs[k := r']), d)"
        using r' Suc.prems(5,6) k Suc.prems(2) by (simp add: fill_step_def bnd_eval)
      moreover have "\<exists>q' rs' rss'. foldM fill_step [Suc k..<n] (heap_push (x, k) q, rs[k := r']) d = Some (Inr (q', rs'), d)
        \<and> runs.merging q' rss' \<and> list_all2 holds rs' rss' \<and> runs.pending q' rss' = runs.pending (heap_push (x, k) q) (rss[k := xs])"
        by (rule Suc.hyps(1)) (use Suc.hyps(2) Suc.prems k f(1) r'(1) in
          \<open>simp_all add: list_all2_update_cong heap_push_def\<close>)
      ultimately show ?thesis unfolding up f(2) by (simp add: bnd_eval)
    qed
  qed
  from this [of 0 "length readers" readers "[]" vss] assms that show thesis
    by (auto simp: fill_heap_def runs.filling_start runs.pending_def)
qed

lemma merge_into_quiet:
  assumes "runs_hold d runs vss" "\<forall>vs \<in> List.set vss. sorted vs" "wd_results d = []"
    "wd_files d path = Some []" "length runs \<le> wd_limit d" "length (concat vss) < 2 ^ 64"
  shows "merge_into path runs (word_of_nat (length (concat vss))) d =
    Some (Inr (), put_file path (le_values (sort (concat vss))) d)"
proof -
  obtain readers where r: "list_all2 holds readers vss" "open_readers runs d = Some (Inr readers, d)"
    by (rule open_readers_quiet [OF assms(1,3,5)])
  have "length readers = length runs" using r(1) assms(1) unfolding runs_hold_def
    by (metis list_all2_lengthD)
  then obtain q readers' rss where q: "fill_heap readers d = Some (Inr (q, readers'), d)"
    "runs.merging q rss" "list_all2 holds readers' rss" "runs.pending q rss = mset (concat vss)"
    using fill_heap_quiet [OF r(1) assms(2,3)] assms(5) by metis
  have "loop (merge_step path) (q, readers', 0) d =
    Some (Inr (word_of_nat (length (concat vss))), put_file path (le_values (sort (concat vss))) d)"
    using merge_loop_quiet [OF q(2,3) assms(3,4), of 0] assms(6)
    by (simp add: q(4) sorted_list_of_multiset_mset del: mset_concat)
  then show ?thesis using assms(3) r(2) q(1) by (simp add: merge_into_def bnd_eval)
qed

lemma merge_sort_runs_quiet:
  assumes "runs_hold d runs vss" "\<forall>vs \<in> List.set vss. sorted vs" "wd_results d = []"
    "wd_files d Sorted_Temporary = None" "length runs \<le> wd_limit d" "length (concat vss) < 2 ^ 64"
    "output \<noteq> Sorted_Temporary"
  shows "merge_sort_runs output runs (word_of_nat (length (concat vss))) d =
    Some (Inr (), put_file output (le_values (sort (concat vss))) d)"
proof -
  let ?t = "put_file Sorted_Temporary [] d"
  have rh: "runs_hold ?t runs vss"
    using assms(1) by (subst runs_hold_put) (auto simp: runs_hold_def)
  have "merge_into Sorted_Temporary runs (word_of_nat (length (concat vss))) ?t =
      Some (Inr (), put_file Sorted_Temporary (le_values (sort (concat vss))) ?t)"
    by (rule merge_into_quiet [OF rh assms(2)]) (use assms in simp_all)
  moreover have "(wd_files d)(Sorted_Temporary := None) = wd_files d" using assms(4) by auto
  ultimately show ?thesis using assms(3,4,7)
    by (simp add: merge_sort_runs_def create_new_def catch_def bnd_eval bnd_assoc fs_rename_def fun_upd_twist)
qed

text \<open>Both stages: the values of all runs, in ascending order.\<close>

lemma sort_merge_quiet:
  assumes "runs_hold d runs vss" "wd_results d = []" "wd_files d Sorted_Temporary = None"
    "\<forall>vs \<in> List.set vss. length vs \<le> wd_limit d" "length runs \<le> wd_limit d" "length (concat vss) < 2 ^ 64"
  obtains d' where "sort_position_runs runs d = Some (Inr (), d')" "wd_files d' Sorted_Temporary = None"
    "merge_sort_runs Sorted_Spent runs (word_of_nat (length (concat vss))) d' =
       Some (Inr (), put_file Sorted_Spent (le_values (sort (concat vss))) d')"
    "wd_results d' = []" "wd_limit d' = wd_limit d"
proof -
  obtain d1 where d1: "sort_position_runs runs d = Some (Inr (), d1)" "runs_hold d1 runs (map sort vss)"
    "wd_results d1 = []" "wd_limit d1 = wd_limit d" "\<And>p. p \<notin> pr_path ` List.set runs \<Longrightarrow> wd_files d1 p = wd_files d p"
    by (rule sort_position_runs_quiet [OF assms(1,2,4)]) blast
  have same: "mset (concat (map sort vss)) = mset (concat vss)" by (induction vss) simp_all
  then have ss: "sort (concat (map sort vss)) = sort (concat vss)" by (metis sorted_list_of_multiset_mset)
  have ln: "length (concat (map sort vss)) = length (concat vss)" using same by (metis size_mset)
  have "Sorted_Temporary \<notin> pr_path ` List.set runs" using assms(1) unfolding runs_hold_def by fastforce
  then have tmp: "wd_files d1 Sorted_Temporary = None" using d1(5) assms(3) by simp
  have "merge_sort_runs Sorted_Spent runs (word_of_nat (length (concat vss))) d1 =
      Some (Inr (), put_file Sorted_Spent (le_values (sort (concat vss))) d1)"
    using merge_sort_runs_quiet [OF d1(2) _ d1(3) tmp, of Sorted_Spent] assms(5,6) d1(4)
    by (simp add: ss ln del: length_concat fun_upd_apply)
  then show thesis using that d1(1,3,4) tmp by blast
qed

end
