(* ===== verification/Hints_Encode.thy ===== *)
theory Hints_Encode
  imports Hints_Sort
begin

text \<open>
  Collecting the spent positions in runs, and the encoding: at every height the indices appended
  to the hints file are those of the outputs that no spent position names.
\<close>

subsection \<open>Collecting\<close>

definition collecting :: "work_dir \<Rightarrow> position_run_collector \<Rightarrow> u64 list list \<Rightarrow> bool" where
  "collecting d c vss \<longleftrightarrow> runs_hold d (pc_runs c) vss \<and> length (pc_runs c) = pc_next_index c
     \<and> (\<forall>run \<in> List.set (pc_runs c). \<exists>i < pc_next_index c. pr_path run = Position_Run_Path (pc_worker c) i)
     \<and> (\<forall>i \<ge> pc_next_index c. wd_files d (Position_Run_Path (pc_worker c) i) = None)"

definition collected :: "work_dir \<Rightarrow> position_run_collector \<Rightarrow> u64 list list \<Rightarrow> bool" where
  "collected d c vss \<longleftrightarrow> collecting d c vss \<and> length (pc_values c) < POSITION_RUN_VALUE_CAPACITY"

lemma collecting_values [simp]: "collecting d (c\<lparr>pc_values := vs\<rparr>) vss \<longleftrightarrow> collecting d c vss"
  by (simp add: collecting_def)

text \<open>Other workers' files, and the files of the hints stage, are left alone.\<close>

definition same_others :: "usize \<Rightarrow> work_dir \<Rightarrow> work_dir \<Rightarrow> bool" where
  "same_others w d d' \<longleftrightarrow> wd_results d' = [] \<and> wd_limit d' = wd_limit d
     \<and> (\<forall>p. (\<forall>i. p \<noteq> Position_Run_Path w i) \<longrightarrow> wd_files d' p = wd_files d p)"

lemma same_others_trans: "same_others w d d' \<Longrightarrow> same_others w d' d'' \<Longrightarrow> same_others w d d''"
  by (simp add: same_others_def)

lemma create_new_quiet:
  assumes "wd_results d = []" "wd_files d p = None"
  shows "create_new p d = Some (Inr (), put_file p [] d)"
  using assms by (simp add: create_new_def)

lemma write_position_run_quiet:
  assumes "wd_results d = []" "wd_files d (Position_Run_Path w i) = None" "length vs < 2 ^ 64"
  shows "write_position_run w i vs d =
    Some (Inr \<lparr>pr_path = Position_Run_Path w i, pr_values = word_of_nat (length vs)\<rparr>,
      put_file (Position_Run_Path w i) (le_values vs) d)"
proof -
  let ?p = "Position_Run_Path w i"
  have "bnd (create_new ?p) (\<lambda>_. bnd (write_values ?p vs) (\<lambda>_. flush_and_sync)) d =
      Some (Inr (), put_file ?p (le_values vs) d)"
    using assms by (simp add: bnd_eval create_new_quiet write_values_quiet)
  then show ?thesis using assms(3)
    by (simp add: write_position_run_def Let_def bnd_eval(1) [OF attempt_eval] u64_try_from_def)
qed

lemma runs_hold_snoc:
  "runs_hold d (runs @ [run]) (vss @ [vs]) \<longleftrightarrow> runs_hold d runs vss \<and> run_holds d run vs
     \<and> pr_path run \<notin> pr_path ` List.set runs \<and> (\<exists>w i. pr_path run = Position_Run_Path w i)"
proof -
  have "list_all2 (run_holds d) (runs @ [run]) (vss @ [vs]) \<longleftrightarrow> list_all2 (run_holds d) runs vss \<and> run_holds d run vs"
    by (subst list_all2_rev [symmetric]) auto
  then show ?thesis by (auto simp: runs_hold_def)
qed

lemma collector_flush_quiet:
  assumes "collecting d c vss" "length (pc_values c) \<le> POSITION_RUN_VALUE_CAPACITY" "wd_results d = []"
    "pc_next_index c < wd_limit d" "wd_limit d < 2 ^ 64"
  obtains c' d' vss' where "collector_flush c d = Some (Inr c', d')" "collected d' c' vss'"
    "concat vss' = concat vss @ pc_values c" "pc_values c' = []" "pc_worker c' = pc_worker c"
    "same_others (pc_worker c) d d'" "pc_next_index c' \<le> pc_next_index c + 1"
proof (cases "pc_values c = []")
  case True
  have "collector_flush c d = Some (Inr c, d)" using True by (simp add: collector_flush_def)
  moreover have "collected d c vss" using assms True
    by (simp add: collected_def POSITION_RUN_VALUE_CAPACITY_def)
  ultimately show thesis by (rule that) (use True assms in \<open>simp_all add: same_others_def\<close>)
next
  case False
  let ?p = "Position_Run_Path (pc_worker c) (pc_next_index c)"
  let ?run = "\<lparr>pr_path = ?p, pr_values = word_of_nat (length (pc_values c))\<rparr>"
  let ?c = "c\<lparr>pc_values := [], pc_runs := pc_runs c @ [?run], pc_next_index := pc_next_index c + 1\<rparr>"
  let ?d = "put_file ?p (le_values (pc_values c)) d"
  have len: "length (pc_values c) \<le> 2 ^ 20" using assms(2) by (simp add: POSITION_RUN_VALUE_CAPACITY_def)
  then have "write_position_run (pc_worker c) (pc_next_index c) (pc_values c) d = Some (Inr ?run, ?d)"
    using assms by (intro write_position_run_quiet) (auto simp: collecting_def)
  then have "collector_flush c d = Some (Inr ?c, ?d)"
    using False assms by (simp add: collecting_def collector_flush_def usize_checked_add_def bnd_eval)
  moreover have np: "?p \<notin> pr_path ` List.set (pc_runs c)" using assms(1) by (auto simp: collecting_def)
  have "run_holds ?d ?run (pc_values c)" using len by (simp add: run_holds_def unsigned_of_nat take_bit_nat_eq_self)
  then have "collected ?d ?c (vss @ [pc_values c])"
    using assms np by (auto simp: collected_def collecting_def runs_hold_snoc runs_hold_put [OF np]
      POSITION_RUN_VALUE_CAPACITY_def less_Suc_eq)
  ultimately show thesis by (rule that) (use assms in \<open>simp_all add: same_others_def\<close>)
qed

lemma collector_push_quiet:
  assumes "collected d c vss" "wd_results d = []" "pc_next_index c < wd_limit d" "wd_limit d < 2 ^ 64"
  obtains c' d' vss' where "collector_push p c d = Some (Inr c', d')" "collected d' c' vss'"
    "concat vss' @ pc_values c' = concat vss @ pc_values c @ [p]" "pc_worker c' = pc_worker c"
    "same_others (pc_worker c) d d'" "pc_next_index c' \<le> pc_next_index c + 1"
proof -
  let ?c = "c\<lparr>pc_values := pc_values c @ [p]\<rparr>"
  show thesis
  proof (cases "length (pc_values ?c) = POSITION_RUN_VALUE_CAPACITY")
    case True
    have c: "collecting d ?c vss \<and> length (pc_values ?c) \<le> POSITION_RUN_VALUE_CAPACITY"
      and n: "pc_next_index ?c < wd_limit d"
      using assms(1,3) True by (simp_all add: collected_def)
    obtain c' d' vss' where f: "collector_flush ?c d = Some (Inr c', d')" "collected d' c' vss'"
      "concat vss' = concat vss @ pc_values ?c" "pc_values c' = []" "pc_worker c' = pc_worker ?c"
      "same_others (pc_worker ?c) d d'" "pc_next_index c' \<le> pc_next_index ?c + 1"
      by (rule collector_flush_quiet [OF c [THEN conjunct1] c [THEN conjunct2] assms(2) n assms(4)])
    show thesis by (rule that [of c' d' vss']) (use f True in \<open>simp_all add: collector_push_def\<close>)
  next
    case False
    have "collector_push p c d = Some (Inr ?c, d)" using False by (simp add: collector_push_def)
    moreover have "collected d ?c vss" using assms(1) False by (simp add: collected_def)
    ultimately show thesis by (rule that) (use assms in \<open>simp_all add: same_others_def\<close>)
  qed
qed

text \<open>What a worker that pops the positions \<open>ps\<close> and then finishes leaves on disk.\<close>

lemma collect_quiet:
  assumes "collected d c vss" "wd_results d = []" "pc_next_index c + length ps < wd_limit d" "wd_limit d < 2 ^ 64"
  obtains runs d' vss' where "bnd (foldM collector_push ps c) collector_finish d = Some (Inr runs, d')"
    "runs_hold d' runs vss'" "concat vss' = concat vss @ pc_values c @ ps" "same_others (pc_worker c) d d'"
    "\<forall>run \<in> List.set runs. \<exists>i. pr_path run = Position_Run_Path (pc_worker c) i"
    "length runs \<le> pc_next_index c + length ps + 1"
  using assms
proof (induction ps arbitrary: c d vss thesis)
  case Nil
  have c: "collecting d c vss" "length (pc_values c) \<le> POSITION_RUN_VALUE_CAPACITY" and n: "pc_next_index c < wd_limit d"
    using Nil.prems by (simp_all add: collected_def)
  obtain c' d' vss' where f: "collector_flush c d = Some (Inr c', d')" "collected d' c' vss'"
    "concat vss' = concat vss @ pc_values c" "pc_values c' = []" "pc_worker c' = pc_worker c"
    "same_others (pc_worker c) d d'" "pc_next_index c' \<le> pc_next_index c + 1"
    by (rule collector_flush_quiet [OF c Nil.prems(3) n Nil.prems(5)])
  show ?case
  proof (rule Nil.prems(1) [of "pc_runs c'" d' vss'])
    show "bnd (foldM collector_push [] c) collector_finish d = Some (Inr (pc_runs c'), d')"
      using f(1) by (simp add: collector_finish_def bnd_eval)
    show "\<forall>run \<in> List.set (pc_runs c'). \<exists>i. pr_path run = Position_Run_Path (pc_worker c) i"
      using f(2,5) by (auto simp: collected_def collecting_def)
    show "length (pc_runs c') \<le> pc_next_index c + length [] + 1"
      using f(2,7) by (simp add: collected_def collecting_def)
  qed (use f in \<open>simp_all add: collected_def collecting_def\<close>)
next
  case (Cons p ps)
  have n: "pc_next_index c < wd_limit d" using Cons.prems(4) by simp
  obtain c' d' vss' where f: "collector_push p c d = Some (Inr c', d')" "collected d' c' vss'"
    "concat vss' @ pc_values c' = concat vss @ pc_values c @ [p]" "pc_worker c' = pc_worker c"
    "same_others (pc_worker c) d d'" "pc_next_index c' \<le> pc_next_index c + 1"
    by (rule collector_push_quiet [OF Cons.prems(2,3) n Cons.prems(5)])
  have q: "wd_results d' = []" "wd_limit d' = wd_limit d" using f(5) by (simp_all add: same_others_def)
  have n': "pc_next_index c' + length ps < wd_limit d'" and l': "wd_limit d' < 2 ^ 64"
    using Cons.prems(4,5) f(6) q(2) by simp_all
  obtain runs d'' vss'' where r: "bnd (foldM collector_push ps c') collector_finish d' = Some (Inr runs, d'')"
    "runs_hold d'' runs vss''" "concat vss'' = concat vss' @ pc_values c' @ ps" "same_others (pc_worker c') d' d''"
    "\<forall>run \<in> List.set runs. \<exists>i. pr_path run = Position_Run_Path (pc_worker c') i"
    "length runs \<le> pc_next_index c' + length ps + 1"
    by (rule Cons.IH [OF _ f(2) q(1) n' l'])
  show ?case
  proof (rule Cons.prems(1) [of runs d'' vss''])
    show "bnd (foldM collector_push (p # ps) c) collector_finish d = Some (Inr runs, d'')"
      using f(1) r(1) by (simp add: bnd_assoc bnd_eval)
    have "concat vss'' = (concat vss' @ pc_values c') @ ps" using r(3) by simp
    then show "concat vss'' = concat vss @ pc_values c @ p # ps" unfolding f(3) by simp
    show "same_others (pc_worker c) d d''" using same_others_trans [OF f(5)] r(4) f(4) by simp
  qed (use r f in auto)
qed


subsection \<open>Encoding\<close>

definition unspent_at :: "u32 list \<Rightarrow> u64 list \<Rightarrow> u32 \<Rightarrow> u32 list" where
  "unspent_at counts spent h =
     filter (\<lambda>i. pack_output_position h i \<notin> List.set spent) (map word_of_nat [0..<unat (counts ! unat h)])"

definition heights :: "u32 \<Rightarrow> u32 list" where
  "heights stop = map word_of_nat [1..<Suc (unat stop)]"

definition position_height :: "u64 \<Rightarrow> u32" where
  "position_height p = fst (unpack_output_position p)"

definition valid_position :: "u32 \<Rightarrow> u32 list \<Rightarrow> u64 \<Rightarrow> bool" where
  "valid_position stop counts p \<longleftrightarrow> (case unpack_output_position p of (h, i) \<Rightarrow>
     1 \<le> h \<and> h \<le> stop \<and> unat h < length counts \<and> i < counts ! unat h)"

text \<open>The spent positions that are still ahead: one is already read, the others are in the reader.\<close>

definition ahead :: "u64 option \<Rightarrow> value_reader \<Rightarrow> u64 list \<Rightarrow> bool" where
  "ahead next_spent r ss \<longleftrightarrow> (case ss of [] \<Rightarrow> next_spent = None | s # ss' \<Rightarrow> next_spent = Some s \<and> holds r ss')"

lemma ahead_next:
  assumes "holds r ss" "wd_results d = []"
  obtains ns r' where "next_value r d = Some (Inr (ns, r'), d)" "ahead ns r' ss"
proof (cases ss)
  case Nil
  show thesis by (rule that [of None r]) (use assms Nil in \<open>simp_all add: next_value_Nil ahead_def\<close>)
next
  case (Cons s ss')
  obtain r' where "holds r' ss'" "next_value r d = Some (Inr (Some s, r'), d)"
    by (rule next_value_Cons [OF assms(1) [unfolded Cons] assms(2)])
  then show thesis by (intro that [of "Some s" r']) (simp_all add: Cons ahead_def)
qed

lemma encode_output_quiet:
  assumes "ahead ns r ss" "wd_results d = []" "sorted_wrt (<) ss"
    "\<forall>p \<in> List.set ss. pack_output_position h i \<le> p" "unat encoded + 1 < 2 ^ 64"
  obtains ns' r' where "encode_output h i (ns, r, indices, encoded) d =
      Some (Inr (if pack_output_position h i \<in> List.set ss then (ns', r', indices, encoded)
                 else (ns', r', indices @ [i], encoded + 1)), d)"
    "ahead ns' r' (filter (\<lambda>p. pack_output_position h i < p) ss)"
proof (cases ss)
  case Nil
  show thesis
    by (rule that [of ns r]) (use assms Nil in \<open>simp_all add: encode_output_def ahead_def checked_add_def\<close>)
next
  case (Cons p ss')
  obtain ph pi where u: "unpack_output_position p = (ph, pi)" by (cases "unpack_output_position p")
  have p: "p = pack_output_position ph pi" using pack_unpack [of p] u by simp
  have ns: "ns = Some p" "holds r ss'" using assms(1) Cons by (simp_all add: ahead_def)
  have gt: "\<forall>q \<in> List.set ss'. p < q" using assms(3) Cons by simp
  have le: "pack_output_position h i \<le> p" using assms(4) Cons by simp
  have fwd: "\<not> (ph < h \<or> ph = h \<and> pi < i)" using le unfolding p by (simp add: pack_less not_less [symmetric])
  show thesis
  proof (cases "p = pack_output_position h i")
    case True
    obtain ns' r' where n: "next_value r d = Some (Inr (ns', r'), d)" "ahead ns' r' ss'"
      by (rule ahead_next [OF ns(2) assms(2)])
    have "filter (\<lambda>q. pack_output_position h i < q) ss = ss'"
      using gt Cons True by (auto intro: filter_True)
    then show thesis using n u fwd True Cons ns p
      by (intro that [of ns' r']) (simp_all add: encode_output_def bnd_eval)
  next
    case False
    then have lt: "pack_output_position h i < p" using le by simp
    then have notin: "pack_output_position h i \<notin> List.set ss" using gt Cons by auto
    have ne: "\<not> (ph = h \<and> pi = i)" using False p by auto
    have "filter (\<lambda>q. pack_output_position h i < q) ss = ss"
      using gt lt Cons by (auto intro!: filter_True)
    then show thesis using u fwd ne ns(1) notin assms(1,5)
      by (intro that [of ns r]) (auto simp: encode_output_def checked_add_def)
  qed
qed

lemma pack_Suc:
  assumes "Suc k < 2 ^ 32"
  shows "pack_output_position h (word_of_nat k) < p \<longleftrightarrow> pack_output_position h (word_of_nat (Suc k)) \<le> p"
proof -
  have "unat (word_of_nat k :: u32) = k" "unat (word_of_nat (Suc k) :: u32) = Suc k"
    using assms by (simp_all add: unsigned_of_nat take_bit_nat_eq_self del: of_nat_Suc)
  then show ?thesis by (simp add: word_less_nat_alt word_le_nat_alt unat_pack del: of_nat_Suc) arith
qed

lemma encode_outputs_quiet:
  assumes "k \<le> n" "n < 2 ^ 32" "ahead ns r ss" "wd_results d = []" "sorted_wrt (<) ss"
    "\<forall>p \<in> List.set ss. pack_output_position h (word_of_nat k) \<le> p" "unat encoded + (n - k) < 2 ^ 64"
  shows "\<exists>ns' r'. foldM (encode_output h) (map word_of_nat [k..<n]) (ns, r, indices, encoded) d =
      Some (Inr (ns', r', indices @ filter (\<lambda>i. pack_output_position h i \<notin> List.set ss) (map word_of_nat [k..<n]),
        encoded + word_of_nat (length (filter (\<lambda>i. pack_output_position h i \<notin> List.set ss) (map word_of_nat [k..<n])))), d)
    \<and> ahead ns' r' (filter (\<lambda>p. pack_output_position h (word_of_nat n) \<le> p) ss)"
  using assms
proof (induction "n - k" arbitrary: k ns r ss indices encoded)
  case 0
  then have "filter (\<lambda>p. pack_output_position h (word_of_nat n) \<le> p) ss = ss" by (auto intro: filter_True)
  then show ?case using 0 by auto
next
  case (Suc m)
  let ?i = "word_of_nat k :: u32"
  let ?ss = "filter (\<lambda>p. pack_output_position h ?i < p) ss"
  have k: "k < n" using Suc.hyps(2) by simp
  then have up: "[k..<n] = k # [Suc k..<n]" by (simp add: upt_conv_Cons)
  have Sk: "Suc k < 2 ^ 32" using k Suc.prems(2) by linarith
  have e1: "unat encoded + 1 < 2 ^ 64" using k Suc.prems(7) by linarith
  obtain ns1 r1 where s: "encode_output h ?i (ns, r, indices, encoded) d =
      Some (Inr (if pack_output_position h ?i \<in> List.set ss then (ns1, r1, indices, encoded)
                 else (ns1, r1, indices @ [?i], encoded + 1)), d)" "ahead ns1 r1 ?ss"
    by (rule encode_output_quiet [OF Suc.prems(3,4,5,6) e1, of indices])
  define ix en where "ix = (if pack_output_position h ?i \<in> List.set ss then indices else indices @ [?i])"
    and "en = (if pack_output_position h ?i \<in> List.set ss then encoded else encoded + 1)"
  have s1: "encode_output h ?i (ns, r, indices, encoded) d = Some (Inr (ns1, r1, ix, en), d)"
    using s(1) by (simp add: ix_def en_def)
  have ue: "unat en + (n - Suc k) < 2 ^ 64"
    using Suc.prems(7) k e1 by (auto simp: en_def unat_add_nowrap)
  have above: "pack_output_position h ?i < pack_output_position h (word_of_nat j)" if "Suc k \<le> j" "j < n" for j
  proof -
    have "unat ?i = k" "unat (word_of_nat j :: u32) = j"
      using that Suc.prems(2) by (simp_all add: unsigned_of_nat take_bit_nat_eq_self)
    then have "?i < word_of_nat j" using that by (simp add: word_less_nat_alt)
    then show ?thesis by (simp add: pack_less)
  qed
  have same: "filter (\<lambda>i. pack_output_position h i \<notin> List.set ?ss) (map word_of_nat [Suc k..<n])
    = filter (\<lambda>i. pack_output_position h i \<notin> List.set ss) (map word_of_nat [Suc k..<n])"
    by (rule filter_cong) (use above in auto)
  have rest: "filter (\<lambda>p. pack_output_position h (word_of_nat n) \<le> p) ?ss
    = filter (\<lambda>p. pack_output_position h (word_of_nat n) \<le> p) ss"
  proof -
    have "pack_output_position h ?i < pack_output_position h (word_of_nat n)"
      using k Suc.prems(2) by (simp add: word_less_nat_alt unat_pack unsigned_of_nat take_bit_nat_eq_self)
    then show ?thesis by (auto intro: filter_cong)
  qed
  have pre: "\<forall>p \<in> List.set ?ss. pack_output_position h (word_of_nat (Suc k)) \<le> p"
    using pack_Suc [OF Sk] by simp
  have srt: "sorted_wrt (<) ?ss" using Suc.prems(5) by (rule sorted_wrt_filter)
  have "n - Suc k = m" using Suc.hyps(2) by simp
  from Suc.hyps(1) [OF this [symmetric] _ Suc.prems(2) s(2) Suc.prems(4) srt pre ue, of ix, unfolded same rest] k
  obtain ns' r' where ih: "foldM (encode_output h) (map word_of_nat [Suc k..<n]) (ns1, r1, ix, en) d =
      Some (Inr (ns', r', ix @ filter (\<lambda>i. pack_output_position h i \<notin> List.set ss) (map word_of_nat [Suc k..<n]),
        en + word_of_nat (length (filter (\<lambda>i. pack_output_position h i \<notin> List.set ss) (map word_of_nat [Suc k..<n])))), d)"
    "ahead ns' r' (filter (\<lambda>p. pack_output_position h (word_of_nat n) \<le> p) ss)" by auto
  have "foldM (encode_output h) (map word_of_nat [k..<n]) (ns, r, indices, encoded) d
      = foldM (encode_output h) (map word_of_nat [Suc k..<n]) (ns1, r1, ix, en) d"
    unfolding up using s1 by (simp add: bnd_eval)
  then show ?case unfolding ih(1)
    using ih(2) by (intro exI [of _ ns'] exI [of _ r']) (simp add: up ix_def en_def)
qed


lemma position_height_pack [simp]: "position_height (pack_output_position h i) = h"
  by (simp add: position_height_def)

lemma pack_zero_le: "pack_output_position h 0 \<le> p \<longleftrightarrow> h \<le> position_height p"
proof -
  obtain ph pi where u: "unpack_output_position p = (ph, pi)" by (cases "unpack_output_position p")
  have p: "p = pack_output_position ph pi" using pack_unpack [of p] u by simp
  show ?thesis unfolding p by (auto simp: pack_less not_less [symmetric])
qed

text \<open>Past the last output of a height, the valid positions are those of greater heights.\<close>

lemma past_height:
  assumes "valid_position stop counts p"
  shows "pack_output_position h (counts ! unat h) \<le> p \<longleftrightarrow> h < position_height p"
proof -
  obtain ph pi where u: "unpack_output_position p = (ph, pi)" by (cases "unpack_output_position p")
  have p: "p = pack_output_position ph pi" using pack_unpack [of p] u by simp
  have "pi < counts ! unat ph" using assms u by (simp add: valid_position_def)
  then show ?thesis unfolding p
    by (cases ph h rule: linorder_cases) (auto simp: pack_less not_less [symmetric])
qed

lemma valid_height: "valid_position stop counts p \<Longrightarrow> position_height p \<le> stop"
  by (auto simp: valid_position_def position_height_def split: prod.splits)

lemma unspent_at_filter:
  "h \<le> g \<Longrightarrow> unspent_at counts (filter (\<lambda>p. h \<le> position_height p) ss) g = unspent_at counts ss g"
  unfolding unspent_at_def by (intro filter_cong) auto

lemma length_unspent_at: "length (unspent_at counts ss h) \<le> unat (counts ! unat h)"
  unfolding unspent_at_def using length_filter_le [of _ "map word_of_nat [0..<unat (counts ! unat h)]"] by simp

lemma encode_height_quiet:
  assumes "ahead ns r ss" "wd_results d = []" "sorted_wrt (<) ss" "unat h < length counts"
    "\<forall>p \<in> List.set ss. valid_position stop counts p \<and> h \<le> position_height p"
    "unat encoded + unat (counts ! unat h) < 2 ^ 64" "unat (counts ! unat h) \<le> wd_limit d"
    "hf_append hf (unspent_at counts ss h) b = Ok b'"
  obtains ns' r' where "encode_height hf capacity counts h (ns, r, b, encoded) d =
      Some (Inr (ns', r', b', encoded + word_of_nat (length (unspent_at counts ss h))), d)"
    "ahead ns' r' (filter (\<lambda>p. h < position_height p) ss)"
proof -
  let ?n = "unat (counts ! unat h)"
  have n: "?n < 2 ^ 32" by (rule unat_u32_less)
  have pre: "\<forall>p \<in> List.set ss. pack_output_position h (word_of_nat 0) \<le> p"
    using assms(5) by (simp add: pack_zero_le)
  have rest: "filter (\<lambda>p. pack_output_position h (word_of_nat ?n) \<le> p) ss = filter (\<lambda>p. h < position_height p) ss"
    using assms(5) by (intro filter_cong refl) (simp add: past_height [of stop])
  from encode_outputs_quiet [OF _ n assms(1,2,3) pre, of encoded "[]"] assms(6)
  obtain ns' r' where f: "foldM (encode_output h) (map word_of_nat [0..<?n]) (ns, r, [], encoded) d =
      Some (Inr (ns', r', unspent_at counts ss h, encoded + word_of_nat (length (unspent_at counts ss h))), d)"
    "ahead ns' r' (filter (\<lambda>p. h < position_height p) ss)"
    unfolding rest by (auto simp: unspent_at_def)
  have "encode_height hf capacity counts h (ns, r, b, encoded) d =
      Some (Inr (ns', r', b', encoded + word_of_nat (length (unspent_at counts ss h))), d)"
    using assms(4,7,8) f(1) by (simp add: encode_height_def bnd_eval)
  then show thesis using f(2) by (rule that)
qed

definition unspent_count :: "u32 list \<Rightarrow> u64 list \<Rightarrow> u32 list \<Rightarrow> nat" where
  "unspent_count counts ss hs = sum_list (map (\<lambda>h. length (unspent_at counts ss h)) hs)"

lemma encode_heights_quiet:
  assumes "k \<le> Suc n" "n < 2 ^ 32" "ahead ns r (filter (\<lambda>p. word_of_nat k \<le> position_height p) ss)"
    "wd_results d = []" "sorted_wrt (<) ss" "n < length counts"
    "\<forall>p \<in> List.set ss. valid_position (word_of_nat n) counts p" "k < 2 ^ 32"
    "unat encoded + sum_list (map (\<lambda>h. unat (counts ! h)) [k..<Suc n]) < 2 ^ 64"
    "\<forall>h < length counts. unat (counts ! h) \<le> wd_limit d"
    "rfold (hf_append hf) (map (unspent_at counts ss) (map word_of_nat [k..<Suc n])) b = Ok b'"
  shows "\<exists>r'. foldM (encode_height hf capacity counts) (map word_of_nat [k..<Suc n]) (ns, r, b, encoded) d =
      Some (Inr (None, r', b', encoded + word_of_nat (unspent_count counts ss (map word_of_nat [k..<Suc n]))), d)"
  using assms
proof (induction "Suc n - k" arbitrary: k ns r b encoded)
  case 0
  then have k: "k = Suc n" by simp
  have "filter (\<lambda>p. word_of_nat k \<le> position_height p) ss = []"
    using 0 unfolding k by (auto simp: filter_empty_conv word_le_nat_alt unsigned_of_nat take_bit_nat_eq_self
      simp del: of_nat_Suc dest!: bspec valid_height)
  then show ?case using 0 k by (auto simp: ahead_def unspent_count_def)
next
  case (Suc m)
  let ?h = "word_of_nat k :: u32"
  let ?ss = "filter (\<lambda>p. ?h \<le> position_height p) ss"
  have k: "k \<le> n" using Suc.hyps(2) by simp
  have up: "[k..<Suc n] = k # [Suc k..<Suc n]" using k by (simp add: upt_conv_Cons del: upt_Suc)
  have uh: "unat ?h = k" using Suc.prems(8) by (simp add: unsigned_of_nat take_bit_nat_eq_self)
  have un: "unspent_at counts ?ss ?h = unspent_at counts ss ?h" by (rule unspent_at_filter) simp
  obtain b1 where b1: "hf_append hf (unspent_at counts ss ?h) b = Ok b1"
    "rfold (hf_append hf) (map (unspent_at counts ss) (map word_of_nat [Suc k..<Suc n])) b1 = Ok b'"
    using Suc.prems(11) unfolding up by (auto simp: rbind_Ok_iff simp del: upt_Suc)
  have en: "unat encoded + unat (counts ! unat ?h) + sum_list (map (\<lambda>h. unat (counts ! h)) [Suc k..<Suc n]) < 2 ^ 64"
    using Suc.prems(9) unfolding up uh by (simp add: ac_simps del: upt_Suc)
  obtain ns1 r1 where s: "encode_height hf capacity counts ?h (ns, r, b, encoded) d =
      Some (Inr (ns1, r1, b1, encoded + word_of_nat (length (unspent_at counts ss ?h))), d)"
    "ahead ns1 r1 (filter (\<lambda>p. ?h < position_height p) ?ss)"
    by (rule encode_height_quiet [of ns r ?ss d ?h counts "word_of_nat n" encoded hf b b1 capacity, unfolded un])
      (use Suc.prems k uh b1 en in \<open>auto intro: sorted_wrt_filter\<close>)
  have len: "length (unspent_at counts ss ?h) \<le> unat (counts ! unat ?h)" by (rule length_unspent_at)
  then have ue: "unat (encoded + word_of_nat (length (unspent_at counts ss ?h))) = unat encoded + length (unspent_at counts ss ?h)"
    using en by (subst unat_add_nowrap) (simp_all add: unsigned_of_nat take_bit_nat_eq_self)
  show ?case
  proof (cases "k = n")
    case True
    have "filter (\<lambda>p. ?h < position_height p) ?ss = []"
      using Suc.prems(7) True by (auto simp: filter_empty_conv not_less dest!: bspec valid_height)
    then have "ns1 = None" using s(2) by (simp add: ahead_def)
    then show ?thesis using s(1) b1(2) True by (auto simp: bnd_eval unspent_count_def)
  next
    case False
    have Sk: "Suc k < 2 ^ 32" using False k Suc.prems(2) by simp
    have "filter (\<lambda>p. ?h < position_height p) ?ss = filter (\<lambda>p. word_of_nat (Suc k) \<le> position_height p) ss"
    proof -
      have "?h < g \<longleftrightarrow> word_of_nat (Suc k) \<le> g" for g :: u32
        using Sk uh by (simp add: word_less_nat_alt word_le_nat_alt unsigned_of_nat take_bit_nat_eq_self Suc_le_eq del: of_nat_Suc)
      then show ?thesis by (auto intro: filter_cong simp del: of_nat_Suc dest: less_imp_le)
    qed
    note a = s(2) [unfolded this]
    have "\<exists>r'. foldM (encode_height hf capacity counts) (map word_of_nat [Suc k..<Suc n])
        (ns1, r1, b1, encoded + word_of_nat (length (unspent_at counts ss ?h))) d =
      Some (Inr (None, r', b', encoded + word_of_nat (length (unspent_at counts ss ?h))
        + word_of_nat (unspent_count counts ss (map word_of_nat [Suc k..<Suc n]))), d)"
      by (rule Suc.hyps(1) [OF _ _ Suc.prems(2) a Suc.prems(4-7) Sk _ Suc.prems(10) b1(2)])
        (use Suc.hyps(2) k ue len en False in \<open>simp_all del: upt_Suc\<close>)
    then show ?thesis using s(1) unfolding up
      by (simp add: bnd_eval unspent_count_def add.assoc del: upt_Suc)
  qed
qed


lemma unat_nat_u32 [simp]: "n < 2 ^ 32 \<Longrightarrow> unat (word_of_nat n :: u32) = n"
  by (simp add: unsigned_of_nat take_bit_nat_eq_self)

lemma inj_on_u32: "n \<le> 2 ^ 32 \<Longrightarrow> inj_on (word_of_nat :: nat \<Rightarrow> u32) {k..<n}"
  by (rule inj_onI) (metis atLeastLessThan_iff order_less_le_trans unat_nat_u32)

lemma valid_height_pos: "valid_position stop counts p \<Longrightarrow> 1 \<le> position_height p"
  by (auto simp: valid_position_def position_height_def split: prod.splits)

lemma encode_unspent_quiet:
  assumes "wd_results d = []" "wd_files d sorted_path = Some (le_values ss)" "length ss < 2 ^ 64"
    "sorted_wrt (<) ss" "n < 2 ^ 32" "n < length counts"
    "\<forall>p \<in> List.set ss. valid_position (word_of_nat n) counts p" "sum_counts counts < 2 ^ 64"
    "\<forall>h < length counts. unat (counts ! h) \<le> wd_limit d"
    "hf_initialize hf (word_of_nat n) = Ok b0"
    "rfold (hf_append hf) (map (unspent_at counts ss) (heights (word_of_nat n))) b0 = Ok b1"
    "hf_finish hf b1 = Ok bs"
  shows "encode_unspent_hintsfile hf capacity path sorted_path (word_of_nat n) counts d =
    Some (Inr (word_of_nat (unspent_count counts ss (heights (word_of_nat n)))), put_file path bs d)"
proof -
  have un: "unat (word_of_nat n :: u32) = n" "unat (word_of_nat n :: u64) = n" "ucast (word_of_nat n :: u64) = (word_of_nat n :: u32)"
    using assms(5) by (simp_all add: unsigned_of_nat take_bit_nat_eq_self unsigned_ucast_eq)
  have hs: "heights (word_of_nat n) = map word_of_nat [1..<Suc n]" by (simp add: heights_def un)
  let ?r = "\<lparr>vr_bytes = le_values ss, vr_remaining = word_of_nat (length ss)\<rparr>"
  have op: "open_flat sorted_path d = Some (Inr ?r, d)"
    using assms(1,2) by (simp add: open_flat_def open_read_def bnd_assoc)
  have "holds ?r ss" using assms(3) by (simp add: holds_def unsigned_of_nat take_bit_nat_eq_self)
  then obtain ns r where nv: "next_value ?r d = Some (Inr (ns, r), d)" "ahead ns r ss"
    by (rule ahead_next [OF _ assms(1)])
  let ?d = "put_file path [] d"
  have all: "filter (\<lambda>p. word_of_nat 1 \<le> position_height p) ss = ss"
    using assms(7) valid_height_pos by (auto intro!: filter_True)
  have "map (\<lambda>h. unat (counts ! h)) [0..<length counts] = map unat counts" by (rule nth_equalityI) simp_all
  then have "sum_list (map (\<lambda>h. unat (counts ! h)) [0..<length counts]) = sum_counts counts"
    unfolding sum_counts_def by (rule arg_cong)
  moreover have "sum_list (map (\<lambda>h. unat (counts ! h)) [1..<Suc n]) \<le> sum_list (map (\<lambda>h. unat (counts ! h)) [0..<length counts])"
    unfolding interv_sum_list_conv_sum_set_nat using assms(6) by (intro sum_mono2) auto
  ultimately have sum: "sum_list (map (\<lambda>h. unat (counts ! h)) [1..<Suc n]) < 2 ^ 64"
    using assms(8) by linarith
  have "\<exists>r'. foldM (encode_height hf capacity counts) (map word_of_nat [1..<Suc n]) (ns, r, b0, 0) ?d =
      Some (Inr (None, r', b1, 0 + word_of_nat (unspent_count counts ss (map word_of_nat [1..<Suc n]))), ?d)"
    by (rule encode_heights_quiet [OF _ assms(5)]) (use assms nv(2) all hs sum in simp_all)
  then obtain r' where f: "foldM (encode_height hf capacity counts) (map word_of_nat [1..<Suc n]) (ns, r, b0, 0) ?d =
      Some (Inr (None, r', b1, word_of_nat (unspent_count counts ss (map word_of_nat [1..<Suc n]))), ?d)" by auto
  have fc: "file_create path d = Some (Inr (), ?d)" using assms(1) by (simp add: file_create_def)
  have w: "bnd (write_all path bs) (\<lambda>_. ok x) ?d = Some (Inr x, put_file path bs d)" for x :: u64
    using assms(1) by (subst bnd_write_all [of _ _ "[]"]) (simp_all del: fun_upd_apply, simp)
  show ?thesis unfolding encode_unspent_hintsfile_def hs
    using assms(1,5,10,12) op nv(1) fc f w un by (simp add: bnd_eval del: upt_Suc)
qed

subsection \<open>Counting\<close>

lemma count_at_height:
  assumes "distinct ss" "\<forall>p \<in> List.set ss. valid_position stop counts p" 
  shows "length (unspent_at counts ss h) + length (filter (\<lambda>p. position_height p = h) ss) = unat (counts ! unat h)"
proof -
  let ?c = "unat (counts ! unat h)" and ?ix = "map word_of_nat [0..<unat (counts ! unat h)] :: u32 list"
  let ?in = "\<lambda>i. pack_output_position h i \<in> List.set ss"
  have c: "?c < 2 ^ 32" by (rule unat_u32_less)
  have dist: "distinct ?ix" using inj_on_u32 [of ?c 0] c by (simp add: distinct_map)
  have mem: "i \<in> List.set ?ix \<longleftrightarrow> i < counts ! unat h" for i
  proof -
    have "(\<exists>k \<in> {0..<?c}. i = word_of_nat k) \<longleftrightarrow> unat i < ?c"
    proof
      assume "\<exists>k \<in> {0..<?c}. i = word_of_nat k"
      then show "unat i < ?c" using c by auto
    qed (auto intro: bexI [of _ "unat i"])
    then show ?thesis by (simp add: word_less_nat_alt image_iff)
  qed
  have "pack_output_position h ` List.set (filter ?in ?ix) = List.set (filter (\<lambda>p. position_height p = h) ss)"
  proof (intro set_eqI iffI)
    fix p assume "p \<in> List.set (filter (\<lambda>p. position_height p = h) ss)"
    then have p: "p \<in> List.set ss" "position_height p = h" by simp_all
    obtain pi where u: "unpack_output_position p = (h, pi)" using p(2) by (cases "unpack_output_position p") (simp add: position_height_def)
    have "p = pack_output_position h pi" using pack_unpack [of p] u by simp
    moreover have "pi < counts ! unat h" using assms(2) p(1) u by (auto simp: valid_position_def dest!: bspec)
    ultimately show "p \<in> pack_output_position h ` List.set (filter ?in ?ix)" using p(1) mem by auto
  qed auto
  then have "card (List.set (filter ?in ?ix)) = card (List.set (filter (\<lambda>p. position_height p = h) ss))"
    using card_image [of "pack_output_position h" "List.set (filter ?in ?ix)"] by (simp add: inj_on_def)
  then have "length (filter ?in ?ix) = length (filter (\<lambda>p. position_height p = h) ss)"
    using distinct_card [OF distinct_filter [OF dist, of ?in]] distinct_card [OF distinct_filter [OF assms(1)]] by metis
  moreover have "length (filter ?in ?ix) + length (filter (\<lambda>i. \<not> ?in i) ?ix) = ?c"
    using sum_length_filter_compl [of ?in ?ix] by simp
  ultimately show ?thesis by (simp add: unspent_at_def)
qed

lemma sum_by_height:
  assumes "distinct hs" "\<forall>p \<in> List.set ss. position_height p \<in> List.set hs"
  shows "sum_list (map (\<lambda>h. length (filter (\<lambda>p. position_height p = h) ss)) hs) = length ss"
  using assms(2)
proof (induction ss)
  case (Cons p ss)
  have "sum_list (map (\<lambda>h. length (filter (\<lambda>p. position_height p = h) (p # ss))) hs)
    = sum_list (map (\<lambda>h. (if position_height p = h then 1 else 0)) hs)
      + sum_list (map (\<lambda>h. length (filter (\<lambda>p. position_height p = h) ss)) hs)"
    by (subst sum_list_addf [symmetric]) (rule arg_cong [of _ _ sum_list], simp)
  moreover have "sum_list (map (\<lambda>h. (if position_height p = h then 1 else 0)) hs) = (1 :: nat)"
    using assms(1) Cons.prems by (simp add: sum_list_distinct_conv_sum_set)
  ultimately show ?case using Cons by simp
qed simp

lemma set_heights: "h \<in> List.set (heights stop) \<longleftrightarrow> 1 \<le> h \<and> h \<le> stop"
proof -
  have "h \<in> List.set (heights stop) \<longleftrightarrow> (\<exists>k. 1 \<le> k \<and> k \<le> unat stop \<and> h = word_of_nat k)"
    by (auto simp: heights_def)
  also have "\<dots> \<longleftrightarrow> 1 \<le> unat h \<and> unat h \<le> unat stop"
    using unat_u32_less [of stop] by (auto intro!: exI [of _ "unat h"])
  finally show ?thesis by (simp add: word_le_nat_alt)
qed

lemma distinct_heights: "distinct (heights stop)"
  using inj_on_u32 [of "Suc (unat stop)" 1] unat_u32_less [of stop]
  unfolding heights_def distinct_map set_upt by (simp del: upt_Suc)

lemma unspent_count_eq:
  assumes "distinct ss" "\<forall>p \<in> List.set ss. valid_position stop counts p" 
  shows "unspent_count counts ss (heights stop) + length ss = sum_list (map (\<lambda>h. unat (counts ! unat h)) (heights stop))"
proof -
  have "\<forall>p \<in> List.set ss. position_height p \<in> List.set (heights stop)"
    using assms(2) valid_height valid_height_pos by (simp add: set_heights) blast
  then have "length ss = sum_list (map (\<lambda>h. length (filter (\<lambda>p. position_height p = h) ss)) (heights stop))"
    using sum_by_height [OF distinct_heights] by simp
  then have "unspent_count counts ss (heights stop) + length ss = sum_list (map (\<lambda>h. length (unspent_at counts ss h)
      + length (filter (\<lambda>p. position_height p = h) ss)) (heights stop))"
    by (simp add: unspent_count_def sum_list_addf)
  then show ?thesis using count_at_height [OF assms] by simp
qed


subsection \<open>The whole hints stage\<close>

lemma bnd_attempt: "m s = Some (r, t) \<Longrightarrow> bnd (attempt m) f s = f r t"
  by (simp add: bnd_def attempt_def)

lemma fold_output_counts_Ok:
  assumes "fold_output_counts limit counts = Ok offsets"
  shows "length offsets = Suc (length counts)" "sum_counts counts < 2 ^ 64"
    "\<forall>k \<le> length counts. unat (offsets ! k) = sum_counts (take k counts)"
proof -
  have r: "rfold (\<lambda>count offsets.
        rbind (if offsets = [] then Err (invalid_input ''block offset vector is empty'') else Ok (last offsets)) (\<lambda>old.
        rbind (ok_or (checked_add old (ucast count)) (invalid_input ''global output index overflow'')) (\<lambda>new.
        Ok (offsets @ [new])))) counts [0] = Ok offsets"
    using assms unfolding fold_output_counts_def by (auto simp: rbind_Ok_iff)
  have s: "sum_counts counts < 2 ^ 64"
    and o: "offsets = 0 # map (\<lambda>k. word_of_nat (sum_counts (take k counts))) [1..<Suc (length counts)]"
    using r [unfolded fold_output_counts_loop [of "[0]", OF list.distinct(2)]]
    by (simp_all del: upt_Suc One_nat_def split: if_splits)
  show "length offsets = Suc (length counts)" by (simp add: o del: upt_Suc)
  show "sum_counts counts < 2 ^ 64" by (rule s)
  show "\<forall>k \<le> length counts. unat (offsets ! k) = sum_counts (take k counts)"
  proof (intro allI impI)
    fix k assume k: "k \<le> length counts"
    have "sum_counts (take k counts) \<le> sum_counts counts"
      using append_take_drop_id [of k counts] unfolding sum_counts_def
      by (metis le_add1 map_append sum_list_append)
    then have "sum_counts (take k counts) < 2 ^ 64" using s by simp
    then show "unat (offsets ! k) = sum_counts (take k counts)"
      using k by (cases k) (simp_all add: o sum_counts_def unsigned_of_nat take_bit_nat_eq_self del: upt_Suc)
  qed
qed

lemma last_offset:
  assumes "fold_output_counts limit counts = Ok offsets"
  shows "offsets \<noteq> []" "last offsets = word_of_nat (sum_counts counts)"
proof -
  note f = fold_output_counts_Ok [OF assms]
  show ne: "offsets \<noteq> []" using f(1) by auto
  have "unat (last offsets) = sum_counts counts" using f(1) f(3) [rule_format, of "length counts"] ne by (simp add: last_conv_nth)
  then show "last offsets = word_of_nat (sum_counts counts)" by (metis of_nat_unat ucast_id)
qed

lemma spent_total:
  assumes "runs_hold d runs vss" "unat a + length (concat vss) < 2 ^ 64"
  shows "rfold (\<lambda>run spent. ok_or (checked_add spent (pr_values run)) e) runs a = Ok (a + word_of_nat (length (concat vss)))"
  using assms
proof (induction runs arbitrary: a vss)
  case Nil
  then show ?case by (simp add: runs_hold_def)
next
  case (Cons run runs)
  obtain vs vss' where v: "vss = vs # vss'" "run_holds d run vs" "runs_hold d runs vss'"
    using Cons.prems(1) by (auto simp: runs_hold_Cons)
  have pv: "unat (pr_values run) = length vs" "pr_values run = word_of_nat (length vs)"
    using v(2) by (auto simp: run_holds_def) (metis of_nat_unat ucast_id)
  have "unat (a + pr_values run) = unat a + length vs"
    using Cons.prems(2) v(1) pv(1) by (subst unat_add_nowrap) simp_all
  then show ?case using Cons.IH [OF v(3), of "a + pr_values run"] Cons.prems(2) v(1) pv
    by (simp add: checked_add_def add.assoc)
qed

lemma sum_over_heights:
  assumes "length counts = Suc n" "counts ! 0 = 0" "n < 2 ^ 32"
  shows "sum_list (map (\<lambda>h. unat (counts ! unat h)) (heights (word_of_nat n))) = sum_counts counts"
proof -
  have "map (\<lambda>h. unat (counts ! unat h)) (heights (word_of_nat n)) = map (\<lambda>k. unat (counts ! k)) [1..<Suc n]"
    using assms(3) by (auto simp: heights_def simp del: upt_Suc)
  also have "\<dots> = map unat (tl counts)"
    by (rule nth_equalityI) (use assms(1) in \<open>simp_all add: nth_tl del: upt_Suc\<close>)
  finally show ?thesis using assms(1,2) by (cases counts) (simp_all add: sum_counts_def)
qed

lemma unspent_at_cong: "List.set ss = List.set ss' \<Longrightarrow> unspent_at counts ss = unspent_at counts ss'"
  by (rule ext) (simp add: unspent_at_def)

lemma write_hintsfile_quiet:
  assumes "runs_hold d runs vss" "wd_results d = []" "wd_files d Sorted_Temporary = None"
    "distinct (concat vss)" "\<forall>p \<in> List.set (concat vss). valid_position (word_of_nat n) counts p"
    "n < 2 ^ 32" "length counts = Suc n" "counts ! 0 = 0" "fold_output_counts limit counts = Ok offsets"
    "\<forall>vs \<in> List.set vss. length vs \<le> wd_limit d" "length runs \<le> wd_limit d"
    "\<forall>h < length counts. unat (counts ! h) \<le> wd_limit d"
    "hf_initialize hf (word_of_nat n) = Ok b0"
    "rfold (hf_append hf) (map (unspent_at counts (concat vss)) (heights (word_of_nat n))) b0 = Ok b1"
    "hf_finish hf b1 = Ok bs"
  obtains d' where "write_hintsfile hf capacity runs (word_of_nat n) counts offsets Hints_Path d =
      Some (Inr \<lparr>hi_eligible_outputs = word_of_nat (sum_counts counts),
                 hi_unspent_outputs = word_of_nat (sum_counts counts - length (concat vss)),
                 hi_file_bytes = word_of_nat (length bs)\<rparr>, d')"
    "wd_files d' Hints_Path = Some bs" "wd_files d' Sorted_Spent = None" "length (concat vss) \<le> sum_counts counts"
proof -
  let ?spent = "concat vss" and ?stop = "word_of_nat n :: u32"
  have total: "unspent_count counts ?spent (heights ?stop) + length ?spent = sum_counts counts"
    using unspent_count_eq [OF assms(4,5)] sum_over_heights [OF assms(7,8,6)] by simp
  have sum: "sum_counts counts < 2 ^ 64" by (rule fold_output_counts_Ok(2) [OF assms(9)])
  have len: "length ?spent \<le> sum_counts counts" using total by simp
  note off = last_offset [OF assms(9)]
  have el: "unat (word_of_nat (sum_counts counts) :: u64) = sum_counts counts"
    and sp: "unat (word_of_nat (length ?spent) :: u64) = length ?spent"
    using sum len by (simp_all add: unsigned_of_nat take_bit_nat_eq_self)
  have tot: "rfold (\<lambda>run spent. ok_or (checked_add spent (pr_values run)) (invalid_input ''spent output count overflow''))
       runs 0 = Ok (word_of_nat (length ?spent))"
    using spent_total [OF assms(1), of 0] sum len by simp
  have sub: "checked_sub (word_of_nat (sum_counts counts)) (word_of_nat (length ?spent)) =
      Some (word_of_nat (sum_counts counts - length ?spent) :: u64)"
    using el sp len by (simp add: checked_sub_def word_le_nat_alt of_nat_diff)
  obtain d1 where d1: "sort_position_runs runs d = Some (Inr (), d1)" "wd_files d1 Sorted_Temporary = None"
    "merge_sort_runs Sorted_Spent runs (word_of_nat (length ?spent)) d1 =
       Some (Inr (), put_file Sorted_Spent (le_values (sort ?spent)) d1)"
    "wd_results d1 = []" "wd_limit d1 = wd_limit d"
    by (rule sort_merge_quiet [OF assms(1-3,10,11)]) (use sum len in simp)
  let ?d2 = "put_file Sorted_Spent (le_values (sort ?spent)) d1"
  have strict: "sorted_wrt (<) (sort ?spent)" using assms(4) by (simp add: strict_sorted_iff)
  have un: "unspent_at counts (sort ?spent) = unspent_at counts ?spent" by (rule unspent_at_cong) simp
  have uc: "unspent_count counts (sort ?spent) (heights ?stop) = sum_counts counts - length ?spent"
    using total by (simp add: unspent_count_def un)
  let ?d3 = "put_file Hints_Path bs ?d2"
  have enc: "encode_unspent_hintsfile hf capacity Hints_Path Sorted_Spent (word_of_nat n) counts ?d2 =
      Some (Inr (word_of_nat (sum_counts counts - length ?spent)), ?d3)"
    unfolding uc [symmetric]
    by (rule encode_unspent_quiet [OF _ _ _ strict assms(6) _ _ sum _ assms(13)])
      (use assms d1(4,5) sum len un in simp_all)
  let ?d4 = "?d3\<lparr>wd_files := (wd_files ?d3)(Sorted_Spent := None)\<rparr>"
  have rm: "fs_remove Sorted_Spent ?d3 = Some (Inr (), ?d4)" using d1(4) by (simp add: fs_remove_def)
  have "write_hintsfile hf capacity runs (word_of_nat n) counts offsets Hints_Path d =
      Some (Inr \<lparr>hi_eligible_outputs = word_of_nat (sum_counts counts),
                 hi_unspent_outputs = word_of_nat (sum_counts counts - length ?spent),
                 hi_file_bytes = word_of_nat (length bs)\<rparr>, ?d4)"
    using off tot sub d1(1,3,4) enc rm
    by (simp add: write_hintsfile_def bnd_attempt bnd_eval del: fun_upd_apply) simp
  then show thesis by (rule that) (use len in simp_all)
qed

end
