(* ===== verification/Hints_Workers.thy ===== *)
theory Hints_Workers
  imports Hints_Runs Table_Batch
begin

text \<open>
  examples/hintsgen/main.rs, the worker threads: the range allocators, the published progress, and
  the adder and remover loops as interleaved steps.

  Every thread has a program counter at the accesses other threads can observe: the load and the
  compare-exchange of a claim, each slot that \<open>minimum_adder\<close> reads, every publication, the work on
  a block or a range. One step of one thread runs from one such point to the next; a state's
  successors are the steps of all threads, so every interleaving is a run. A thread that waits on
  the condition variable has no step (\<open>None\<close>) until its condition holds or the workers are aborted.
  The database work of a step is done at once; the table's own operations are modelled one at a time
  elsewhere.
\<close>

subsection \<open>Range allocators\<close>

record range_allocator =
  ra_next :: u64
  ra_end :: u64
  ra_size :: u64

definition range_allocator_new :: "u64 \<Rightarrow> u64 \<Rightarrow> range_allocator res" where
  "range_allocator_new end_height range_size =
     (if range_size = 0 then Err (invalid_input ''range size must be nonzero'')
      else Ok \<lparr>ra_next = 0, ra_end = end_height, ra_size = range_size\<rparr>)"

text \<open>The two halves of a round of \<open>claim_up_to\<close>: what the loaded start gives, and the exchange.\<close>

definition claim_load :: "u64 \<Rightarrow> range_allocator \<Rightarrow> (u64 \<times> u64) option" where
  "claim_load limit ra =
     (let limit = min limit (ra_end ra); start = ra_next ra in
      if start \<ge> limit then None
      else let stop = min (saturating_add start (ra_size ra)) (ra_end ra) in
        if stop > limit then None else Some (start, stop))"

definition claim_exchange :: "u64 \<Rightarrow> u64 \<Rightarrow> (range_allocator, bool) prog" where
  "claim_exchange start stop ra =
     (if ra_next ra = start then Some (Inr True, ra\<lparr>ra_next := stop\<rparr>) else Some (Inr False, ra))"

definition claim_up_to :: "u64 \<Rightarrow> (range_allocator, (u64 \<times> u64) option) prog" where
  "claim_up_to limit = loop (\<lambda>_.
     bnd (gets (claim_load limit)) (\<lambda>r. case r of
       None \<Rightarrow> ok (Return None)
     | Some (start, stop) \<Rightarrow>
         bnd (claim_exchange start stop) (\<lambda>swapped.
         ok (if swapped then Return (Some (start, stop)) else Continue ())))) ()"

definition claim :: "(range_allocator, (u64 \<times> u64) option) prog" where
  "claim = bnd (gets ra_end) claim_up_to"

definition next_height :: "range_allocator \<Rightarrow> u64" where
  "next_height ra = ra_next ra"

definition next_range_end :: "range_allocator \<Rightarrow> u64" where
  "next_range_end ra = min (saturating_add (next_height ra) (ra_size ra)) (ra_end ra)"

definition is_finished :: "range_allocator \<Rightarrow> bool" where
  "is_finished ra \<longleftrightarrow> next_height ra \<ge> ra_end ra"

subsection \<open>Published progress\<close>

text \<open>\<open>wp_poisoned\<close> is the mutex's poison flag.\<close>

record worker_progress =
  wp_adders :: "u64 list"
  wp_removers :: "u64 list"
  wp_poisoned :: bool
  wp_aborted :: u64
  wp_end :: u64

definition progress_slots :: "usize \<Rightarrow> usize \<Rightarrow> u64 list res" where
  "progress_slots limit workers = rbind (try_reserve limit workers) (\<lambda>_. Ok (replicate workers 0))"

definition worker_progress_new :: "usize \<Rightarrow> usize \<Rightarrow> usize \<Rightarrow> u64 \<Rightarrow> worker_progress res" where
  "worker_progress_new limit adders removers end_height =
     (if adders = 0 \<or> removers = 0 then Err (invalid_input ''worker progress sets must be nonempty'')
      else
        rbind (progress_slots limit adders) (\<lambda>a.
        rbind (progress_slots limit removers) (\<lambda>r.
        Ok \<lparr>wp_adders = a, wp_removers = r, wp_poisoned = False, wp_aborted = 0, wp_end = end_height\<rparr>)))"

definition publish :: "u64 list \<Rightarrow> usize \<Rightarrow> u64 \<Rightarrow> string \<Rightarrow> worker_progress \<Rightarrow> u64 list res" where
  "publish slots worker completed kind p =
     (if wp_poisoned p then Err (io_other ''worker progress mutex is poisoned'')
      else if \<not> worker < length slots then Err (io_other (kind @ '' progress index is out of range''))
      else rloop (\<lambda>old.
        if completed < old \<or> completed > wp_end p then Err (io_other (kind @ '' progress is not monotonic''))
        else if slots ! worker = old then Ok (Return (slots[worker := completed]))
        else Ok (Continue (slots ! worker))) (slots ! worker))"

definition publish_adder :: "usize \<Rightarrow> u64 \<Rightarrow> (worker_progress, unit) prog" where
  "publish_adder worker completed =
     bnd (reads (\<lambda>p. publish (wp_adders p) worker completed ''adder'' p)) (\<lambda>slots.
     modify (\<lambda>p. p\<lparr>wp_adders := slots\<rparr>))"

definition publish_remover :: "usize \<Rightarrow> u64 \<Rightarrow> (worker_progress, unit) prog" where
  "publish_remover worker completed =
     bnd (reads (\<lambda>p. publish (wp_removers p) worker completed ''remover'' p)) (\<lambda>slots.
     modify (\<lambda>p. p\<lparr>wp_removers := slots\<rparr>))"

definition finish_adder :: "usize \<Rightarrow> (worker_progress, unit) prog" where
  "finish_adder worker = bnd (gets wp_end) (publish_adder worker)"

definition finish_remover :: "usize \<Rightarrow> (worker_progress, unit) prog" where
  "finish_remover worker = bnd (gets wp_end) (publish_remover worker)"

definition minimum_progress :: "u64 list \<Rightarrow> u64 \<Rightarrow> u64" where
  "minimum_progress heights end_height = fold (\<lambda>h m. min m h) heights end_height"

definition minimum_adder :: "worker_progress \<Rightarrow> u64" where
  "minimum_adder p = minimum_progress (wp_adders p) (wp_end p)"

definition minimum_remover :: "worker_progress \<Rightarrow> u64" where
  "minimum_remover p = minimum_progress (wp_removers p) (wp_end p)"

definition adder_can_process :: "worker_progress \<Rightarrow> u64 \<Rightarrow> u64 \<Rightarrow> bool" where
  "adder_can_process p height maximum_lead \<longleftrightarrow> height < saturating_add (minimum_remover p) maximum_lead"

definition check_abort :: "worker_progress \<Rightarrow> unit res" where
  "check_abort p = (if wp_aborted p = 0 then Ok () else Err (io_other ''load workers aborted''))"

text \<open>\<open>None\<close>: the thread sleeps on the condition variable in this state.\<close>

definition wait_until :: "(worker_progress \<Rightarrow> bool) \<Rightarrow> worker_progress \<Rightarrow> unit res" where
  "wait_until ready p =
     (if wp_poisoned p then Err (io_other ''worker progress mutex is poisoned'')
      else rbind (check_abort p) (\<lambda>_. if ready p then Ok () else None))"

definition wait_for_additions :: "u64 \<Rightarrow> worker_progress \<Rightarrow> unit res" where
  "wait_for_additions required = wait_until (\<lambda>p. minimum_adder p \<ge> required)"

definition wait_for_remover_window :: "u64 \<Rightarrow> u64 \<Rightarrow> worker_progress \<Rightarrow> unit res" where
  "wait_for_remover_window height maximum_lead = wait_until (\<lambda>p. adder_can_process p height maximum_lead)"

definition progress_abort :: "worker_progress \<Rightarrow> worker_progress" where
  "progress_abort p =
     (if wp_poisoned p then p else if wp_aborted p = 0 then p\<lparr>wp_aborted := 1\<rparr> else p)"

subsection \<open>The work on a block and on a range\<close>

record index_store =
  is_db :: database
  is_counts :: "u32 list"
  is_live :: u64
  is_dir :: work_dir

definition on_db :: "(database, 'a) prog \<Rightarrow> (index_store, 'a) prog" where
  "on_db = zoom is_db (\<lambda>db st. st\<lparr>is_db := db\<rparr>)"

definition on_live :: "(u64, 'a) prog \<Rightarrow> (index_store, 'a) prog" where
  "on_live = zoom is_live (\<lambda>n st. st\<lparr>is_live := n\<rparr>)"

definition on_dir :: "(work_dir, 'a) prog \<Rightarrow> (index_store, 'a) prog" where
  "on_dir = zoom is_dir (\<lambda>d st. st\<lparr>is_dir := d\<rparr>)"

text \<open>The settings of a run that do not change: the chain, the network, the instruction set, the
  reservation limit.\<close>

record run_env =
  re_chain :: chainstate
  re_network :: chain_type
  re_simd :: simd
  re_limit :: usize

definition exchange_count :: "u64 \<Rightarrow> u32 \<Rightarrow> (index_store, unit) prog" where
  "exchange_count height count =
     bnd (gets is_counts) (\<lambda>counts.
     if \<not> unat height < length counts then err (invalid_input ''block count slot is out of range'')
     else if counts ! unat height \<noteq> UNPROCESSED_COUNT then err (io_other ''block outputs were indexed twice'')
     else modify (\<lambda>st. st\<lparr>is_counts := counts[unat height := count]\<rparr>))"

definition add_block :: "run_env \<Rightarrow> u64 \<Rightarrow> worker_stats \<Rightarrow> (index_store, worker_stats) prog" where
  "add_block env height stats =
     bnd (lift (read_block (re_chain env) height)) (\<lambda>(block, bytes).
     let stats = stats\<lparr>ws_bytes := saturating_add (ws_bytes stats) bytes\<rparr> in
     bnd (lift (indexed_outputs (re_limit env) block height (re_network env))) (\<lambda>outputs.
     bnd (on_db (reads write_only)) (\<lambda>_.
     bnd (on_db (writer_put_batch (re_simd env) (map (\<lambda>o'. (ix_key o', ix_value o')) outputs))) (\<lambda>inserted.
     if inserted \<noteq> length outputs then err (io_other ''batch insert count mismatch'')
     else
       bnd (if length outputs < 2 ^ 32 then ok (word_of_nat (length outputs))
            else err (invalid_input ''eligible output count exceeds u32'')) (\<lambda>count.
       bnd (exchange_count height count) (\<lambda>_.
       bnd (lift (ok_or (u64_try_from inserted) (invalid_input ''insert count does not fit u64''))) (\<lambda>amount.
       bnd (on_live (cas_add amount)) (\<lambda>_.
       ok (stats\<lparr>ws_blocks := saturating_add (ws_blocks stats) 1,
                 ws_outputs := saturating_add (ws_outputs stats) (ucast count)\<rparr>)))))))))"

definition missing_input :: "(u64 \<times> usize \<times> usize) list \<Rightarrow> usize \<Rightarrow> error" where
  "missing_input input_ranges input =
     (case find (\<lambda>(_, input_start, input_end). input_start \<le> input \<and> input < input_end) input_ranges of
        None \<Rightarrow> Corrupt ''missing input index is outside its range''
      | Some _ \<Rightarrow> io_other ''missing spent outpoint'')"

definition pop_spent_positions ::
  "run_env \<Rightarrow> bytes list \<Rightarrow> (u64 \<times> usize \<times> usize) list \<Rightarrow> position_run_collector
    \<Rightarrow> (index_store, u64 \<times> position_run_collector) prog" where
  "pop_spent_positions env keys input_ranges collector =
     bnd (on_db (db_batch_pop (re_simd env) keys)) (\<lambda>popped.
     bnd (foldM (\<lambda>(input, v) collector. case v of
            None \<Rightarrow> err (missing_input input_ranges input)
          | Some v \<Rightarrow>
              if length v \<noteq> OUTPUT_INDEX_SIZE then err (Corrupt ''stored output position has the wrong width'')
              else on_dir (collector_push (from_le v) collector)) (enumerate 0 popped) collector) (\<lambda>collector.
     bnd (lift (ok_or (u64_try_from (length keys)) (invalid_input ''popped input count does not fit u64''))) (\<lambda>count.
     ok (count, collector))))"

definition read_inputs ::
  "run_env \<Rightarrow> u64 \<Rightarrow> bytes list \<times> (u64 \<times> usize \<times> usize) list \<times> worker_stats
    \<Rightarrow> (bytes list \<times> (u64 \<times> usize \<times> usize) list \<times> worker_stats) res" where
  "read_inputs env height = (\<lambda>(keys, input_ranges, stats).
     rbind (read_block (re_chain env) height) (\<lambda>(block, bytes).
     rbind (append_spent_outpoint_keys (re_limit env) block keys) (\<lambda>keys'.
     Ok (keys', input_ranges @ [(height, length keys, length keys')],
         stats\<lparr>ws_bytes := saturating_add (ws_bytes stats) bytes,
               ws_blocks := saturating_add (ws_blocks stats) 1\<rparr>))))"

definition remove_range ::
  "run_env \<Rightarrow> u64 \<Rightarrow> u64 \<Rightarrow> worker_stats \<times> position_run_collector
    \<Rightarrow> (index_store, worker_stats \<times> position_run_collector) prog" where
  "remove_range env start stop = (\<lambda>(stats, collector).
     bnd (lift (rfold (read_inputs env) (map word_of_nat [unat start..<unat stop]) ([], [], stats)))
       (\<lambda>(keys, input_ranges, stats).
     bnd (pop_spent_positions env keys input_ranges collector) (\<lambda>(count, collector).
     bnd (on_live (cas_sub count)) (\<lambda>_.
     ok (stats\<lparr>ws_inputs := saturating_add (ws_inputs stats) count\<rparr>, collector)))))"

subsection \<open>Threads\<close>

datatype adder_pc =
    A_Claim | A_Exchange u64 u64 | A_Begin u64 u64 | A_Wait u64 u64 | A_Index u64 u64
  | A_Publish u64 u64 | A_Finish | A_Done | A_Aborting error | A_Failed error

datatype remover_pc =
    R_Start | R_Check | R_Scan usize u64 | R_Claim u64 | R_Exchange u64 u64 u64 | R_Begin u64 u64 | R_Pop u64 u64
  | R_Publish u64 u64 | R_Idle | R_Next | R_Announce u64 | R_Required | R_Wait u64
  | R_Flush | R_Finish | R_Done | R_Aborting error | R_Failed error

text \<open>What the threads do to the store: opening a collector, adding the block at a height, removing the inputs of a range,
  closing the collector. The locals of a thread are the state these pass on.\<close>

record ('st, 'a, 'r) worker_code =
  wc_start :: "usize \<Rightarrow> ('st, 'r) prog"
  wc_add :: "u64 \<Rightarrow> 'a \<Rightarrow> ('st, 'a) prog"
  wc_remove :: "u64 \<Rightarrow> u64 \<Rightarrow> 'r \<Rightarrow> ('st, 'r) prog"
  wc_flush :: "'r \<Rightarrow> ('st, 'r) prog"

text \<open>The state all threads share, with the history of the work done (newest first).\<close>

datatype work_event = Added u64 | Removed u64 u64

record ('st, 'a, 'r) hints_state =
  hs_add_ranges :: range_allocator
  hs_remove_ranges :: range_allocator
  hs_progress :: worker_progress
  hs_store :: 'st
  hs_adders :: "(adder_pc \<times> 'a) list"
  hs_removers :: "(remover_pc \<times> 'r) list"
  hs_log :: "work_event list"

abbreviation set_adder where
  "set_adder w pc s \<equiv> s\<lparr>hs_adders := (hs_adders s)[w := (pc, snd (hs_adders s ! w))]\<rparr>"

abbreviation set_remover where
  "set_remover w pc s \<equiv> s\<lparr>hs_removers := (hs_removers s)[w := (pc, snd (hs_removers s ! w))]\<rparr>"

text \<open>Run a call on the shared progress; its error takes the thread to its abort.\<close>

definition adder_call ::
  "usize \<Rightarrow> (worker_progress, unit) prog \<Rightarrow> adder_pc \<Rightarrow> ('st, 'a, 'r) hints_state \<Rightarrow> ('st, 'a, 'r) hints_state option" where
  "adder_call w m pc s = (case m (hs_progress s) of
      None \<Rightarrow> None
    | Some (Inl e, p) \<Rightarrow> Some (set_adder w (A_Aborting e) (s\<lparr>hs_progress := p\<rparr>))
    | Some (Inr _, p) \<Rightarrow> Some (set_adder w pc (s\<lparr>hs_progress := p\<rparr>)))"

definition remover_call ::
  "usize \<Rightarrow> (worker_progress, unit) prog \<Rightarrow> remover_pc \<Rightarrow> ('st, 'a, 'r) hints_state \<Rightarrow> ('st, 'a, 'r) hints_state option" where
  "remover_call w m pc s = (case m (hs_progress s) of
      None \<Rightarrow> None
    | Some (Inl e, p) \<Rightarrow> Some (set_remover w (R_Aborting e) (s\<lparr>hs_progress := p\<rparr>))
    | Some (Inr _, p) \<Rightarrow> Some (set_remover w pc (s\<lparr>hs_progress := p\<rparr>)))"

fun adder_step ::
  "('st, 'a, 'r) worker_code \<Rightarrow> u64 \<Rightarrow> usize \<Rightarrow> adder_pc \<Rightarrow> ('st, 'a, 'r) hints_state \<Rightarrow> ('st, 'a, 'r) hints_state option" where
  "adder_step code lead w A_Claim s =
     (case claim_load (ra_end (hs_add_ranges s)) (hs_add_ranges s) of
        None \<Rightarrow> Some (set_adder w A_Finish s)
      | Some (start, stop) \<Rightarrow> Some (set_adder w (A_Exchange start stop) s))"
| "adder_step code lead w (A_Exchange start stop) s =
     (case claim_exchange start stop (hs_add_ranges s) of
        Some (Inr True, ra) \<Rightarrow> Some (set_adder w (A_Begin start stop) (s\<lparr>hs_add_ranges := ra\<rparr>))
      | _ \<Rightarrow> Some (set_adder w A_Claim s))"
| "adder_step code lead w (A_Begin start stop) s =
     adder_call w (bnd (reads check_abort) (\<lambda>_. publish_adder w start)) (A_Wait start stop) s"
| "adder_step code lead w (A_Wait height stop) s =
     (if \<not> height < stop then Some (set_adder w A_Claim s)
      else adder_call w (bnd (reads (wait_for_remover_window height lead)) (\<lambda>_. reads check_abort)) (A_Index height stop) s)"
| "adder_step code lead w (A_Index height stop) s =
     (case wc_add code height (snd (hs_adders s ! w)) (hs_store s) of
        None \<Rightarrow> None
      | Some (Inl e, st) \<Rightarrow> Some (set_adder w (A_Aborting e) (s\<lparr>hs_store := st\<rparr>))
      | Some (Inr a, st) \<Rightarrow> Some (s\<lparr>hs_store := st, hs_adders := (hs_adders s)[w := (A_Publish height stop, a)],
                                  hs_log := Added height # hs_log s\<rparr>))"
| "adder_step code lead w (A_Publish height stop) s =
     (case checked_add height 1 of
        None \<Rightarrow> Some (set_adder w (A_Aborting (invalid_input ''adder progress overflow'')) s)
      | Some completed \<Rightarrow> adder_call w (publish_adder w completed) (A_Wait completed stop) s)"
| "adder_step code lead w A_Finish s = adder_call w (finish_adder w) A_Done s"
| "adder_step code lead w (A_Aborting e) s =
     Some (set_adder w (A_Failed e) (s\<lparr>hs_progress := progress_abort (hs_progress s)\<rparr>))"
| "adder_step code lead w A_Done s = None"
| "adder_step code lead w (A_Failed e) s = None"

fun remover_step ::
  "('st, 'a, 'r) worker_code \<Rightarrow> usize \<Rightarrow> remover_pc \<Rightarrow> ('st, 'a, 'r) hints_state \<Rightarrow> ('st, 'a, 'r) hints_state option" where
  "remover_step code w R_Start s =
     (case wc_start code w (hs_store s) of
        None \<Rightarrow> None
      | Some (Inl e, st) \<Rightarrow> Some (set_remover w (R_Aborting e) (s\<lparr>hs_store := st\<rparr>))
      | Some (Inr r, st) \<Rightarrow> Some (s\<lparr>hs_store := st, hs_removers := (hs_removers s)[w := (R_Check, r)]\<rparr>))"
| "remover_step code w R_Check s =
     remover_call w (reads check_abort) (R_Scan 0 (wp_end (hs_progress s))) s"
| "remover_step code w (R_Scan i minimum) s =
     Some (set_remover w
       (if i < length (wp_adders (hs_progress s))
        then R_Scan (Suc i) (min minimum (wp_adders (hs_progress s) ! i))
        else R_Claim minimum) s)"
| "remover_step code w (R_Claim safe_height) s =
     Some (set_remover w (case claim_load safe_height (hs_remove_ranges s) of
        None \<Rightarrow> R_Idle | Some (start, stop) \<Rightarrow> R_Exchange safe_height start stop) s)"
| "remover_step code w (R_Exchange safe_height start stop) s =
     (case claim_exchange start stop (hs_remove_ranges s) of
        Some (Inr True, ra) \<Rightarrow> Some (set_remover w (R_Begin start stop) (s\<lparr>hs_remove_ranges := ra\<rparr>))
      | _ \<Rightarrow> Some (set_remover w (R_Claim safe_height) s))"
| "remover_step code w (R_Begin start stop) s =
     remover_call w (publish_remover w start) (R_Pop start stop) s"
| "remover_step code w (R_Pop start stop) s =
     (case wc_remove code start stop (snd (hs_removers s ! w)) (hs_store s) of
        None \<Rightarrow> None
      | Some (Inl e, st) \<Rightarrow> Some (set_remover w (R_Aborting e) (s\<lparr>hs_store := st\<rparr>))
      | Some (Inr r, st) \<Rightarrow> Some (s\<lparr>hs_store := st, hs_removers := (hs_removers s)[w := (R_Publish start stop, r)],
                                  hs_log := Removed start stop # hs_log s\<rparr>))"
| "remover_step code w (R_Publish start stop) s =
     remover_call w (publish_remover w stop) R_Check s"
| "remover_step code w R_Idle s =
     Some (set_remover w (if is_finished (hs_remove_ranges s) then R_Flush else R_Next) s)"
| "remover_step code w R_Next s =
     Some (set_remover w (R_Announce (next_height (hs_remove_ranges s))) s)"
| "remover_step code w (R_Announce height) s =
     remover_call w (publish_remover w height) R_Required s"
| "remover_step code w R_Required s =
     Some (set_remover w (R_Wait (next_range_end (hs_remove_ranges s))) s)"
| "remover_step code w (R_Wait required) s =
     (if minimum_adder (hs_progress s) < required
      then remover_call w (reads (wait_for_additions required)) R_Check s
      else Some (set_remover w R_Check s))"
| "remover_step code w R_Flush s =
     (case wc_flush code (snd (hs_removers s ! w)) (hs_store s) of
        None \<Rightarrow> None
      | Some (Inl e, st) \<Rightarrow> Some (set_remover w (R_Aborting e) (s\<lparr>hs_store := st\<rparr>))
      | Some (Inr r, st) \<Rightarrow> Some (s\<lparr>hs_store := st, hs_removers := (hs_removers s)[w := (R_Finish, r)]\<rparr>))"
| "remover_step code w R_Finish s = remover_call w (finish_remover w) R_Done s"
| "remover_step code w (R_Aborting e) s =
     Some (set_remover w (R_Failed e) (s\<lparr>hs_progress := progress_abort (hs_progress s)\<rparr>))"
| "remover_step code w R_Done s = None"
| "remover_step code w (R_Failed e) s = None"


text \<open>The loops of \<open>add_worker\<close> and \<open>remove_worker\<close> with the source's work.\<close>

definition zero_stats :: worker_stats where
  "zero_stats = \<lparr>ws_blocks = 0, ws_bytes = 0, ws_outputs = 0, ws_inputs = 0\<rparr>"

definition hintsgen_code ::
  "run_env \<Rightarrow> (index_store, worker_stats, worker_stats \<times> position_run_collector) worker_code" where
  "hintsgen_code env =
     \<lparr>wc_start = (\<lambda>w. bnd (on_dir (collector_new w)) (\<lambda>c. ok (zero_stats, c))),
      wc_add = add_block env,
      wc_remove = remove_range env,
      wc_flush = (\<lambda>(stats, c). bnd (on_dir (collector_flush c)) (\<lambda>c. ok (stats, c)))\<rparr>"

text \<open>One step of one thread, and the states a run can be in.\<close>

inductive hints_step ::
  "('st, 'a, 'r) worker_code \<Rightarrow> u64 \<Rightarrow> ('st, 'a, 'r) hints_state \<Rightarrow> ('st, 'a, 'r) hints_state \<Rightarrow> bool"
  for code lead where
  adder: "w < length (hs_adders s) \<Longrightarrow> adder_step code lead w (fst (hs_adders s ! w)) s = Some t
    \<Longrightarrow> hints_step code lead s t"
| remover: "w < length (hs_removers s) \<Longrightarrow> remover_step code w (fst (hs_removers s ! w)) s = Some t
    \<Longrightarrow> hints_step code lead s t"

definition hints_start ::
  "range_allocator \<Rightarrow> range_allocator \<Rightarrow> worker_progress \<Rightarrow> 'st \<Rightarrow> 'a \<Rightarrow> 'r \<Rightarrow> ('st, 'a, 'r) hints_state" where
  "hints_start add_ranges remove_ranges progress st a r =
     \<lparr>hs_add_ranges = add_ranges, hs_remove_ranges = remove_ranges, hs_progress = progress, hs_store = st,
      hs_adders = map (\<lambda>_. (A_Claim, a)) (wp_adders progress),
      hs_removers = map (\<lambda>_. (R_Start, r)) (wp_removers progress), hs_log = []\<rparr>"

text \<open>The set-up of \<open>run\<close>: allocators over the same heights and fresh progress.\<close>

definition hints_init ::
  "usize \<Rightarrow> usize \<Rightarrow> usize \<Rightarrow> u64 \<Rightarrow> u64 \<Rightarrow> 'st \<Rightarrow> 'a \<Rightarrow> 'r \<Rightarrow> ('st, 'a, 'r) hints_state res" where
  "hints_init limit adders removers end_height range_size st a r =
     rbind (range_allocator_new end_height range_size) (\<lambda>add_ranges.
     rbind (range_allocator_new end_height range_size) (\<lambda>remove_ranges.
     rbind (worker_progress_new limit adders removers end_height) (\<lambda>progress.
     Ok (hints_start add_ranges remove_ranges progress st a r))))"

inductive hints_reachable for code lead s0 where
  start: "hints_reachable code lead s0 s0"
| step: "hints_reachable code lead s0 s \<Longrightarrow> hints_step code lead s t \<Longrightarrow> hints_reachable code lead s0 t"

end
