(* ===== verification/Hints_Progress.thy ===== *)
theory Hints_Progress
  imports Hints_Workers
begin

text \<open>
  The invariant of the worker threads over every interleaving: who owns which heights, what the
  published progress promises, and that inputs are removed only below heights that are all added.
\<close>

declare prog_simps [simp] bnd_simps [simp] bnd_reads [simp] reads_eval [simp]

subsection \<open>Ledgers\<close>

text \<open>The heights below the frontier are done, or pending with a thread; what two threads own is
  disjoint, and disjoint from what is done.\<close>

definition ledger :: "u64 \<Rightarrow> (nat \<Rightarrow> u64 set) \<Rightarrow> (nat \<Rightarrow> u64 set) \<Rightarrow> u64 set \<Rightarrow> bool" where
  "ledger N own pend fin \<longleftrightarrow> (\<forall>h < N. h \<in> fin \<or> (\<exists>w. h \<in> pend w)) \<and> fin \<subseteq> {..<N}
     \<and> (\<forall>w. own w \<subseteq> {..<N} \<and> own w \<inter> fin = {}) \<and> (\<forall>w w'. w \<noteq> w' \<longrightarrow> own w \<inter> own w' = {})"

lemma ledger_cover: "ledger N own pend fin \<Longrightarrow> h < N \<Longrightarrow> \<exists>v. h \<in> fin \<or> h \<in> pend v"
  unfolding ledger_def by blast

lemma ledger_claim:
  assumes "ledger N own pend fin" "own w = {}" "pend w = {}" "N \<le> M"
  shows "ledger M (own(w := {N..<M})) (pend(w := {N..<M})) fin"
proof -
  have "h \<in> fin \<or> (\<exists>v. h \<in> (pend(w := {N..<M})) v)" if "h < M" for h
  proof (cases "h < N")
    case True
    then obtain v where "h \<in> fin \<or> h \<in> pend v" using ledger_cover [OF assms(1)] by blast
    then show ?thesis using assms(3) by (cases "v = w") auto
  next
    case False
    then show ?thesis using that by (intro disjI2 exI [of _ w]) simp
  qed
  moreover have "own v \<inter> {N..<M} = {}" "fin \<inter> {N..<M} = {}" for v
    using assms(1) by (fastforce simp: ledger_def)+
  ultimately show ?thesis using assms by (fastforce simp: ledger_def)
qed

lemma ledger_done:
  assumes "ledger N own pend fin" "X \<subseteq> own w" "pend w \<subseteq> own w"
  shows "ledger N (own(w := own w - X)) (pend(w := pend w - X)) (fin \<union> X)"
proof -
  have "h \<in> fin \<union> X \<or> (\<exists>v. h \<in> (pend(w := pend w - X)) v)" if lt: "h < N" for h
  proof -
    obtain v where "h \<in> fin \<or> h \<in> pend v" using ledger_cover [OF assms(1) lt] by blast
    then show ?thesis by (cases "v = w") auto
  qed
  moreover have "(own(w := own w - X)) v \<inter> (fin \<union> X) = {}" for v
    using assms(1,2) by (cases "v = w") (auto simp: ledger_def, blast)
  moreover have "(own(w := own w - X)) v \<inter> (own(w := own w - X)) v' = {}" if "v \<noteq> v'" for v v'
  proof -
    have "own v \<inter> own v' = {}" using assms(1) that unfolding ledger_def by blast
    then show ?thesis by auto
  qed
  moreover have "X \<subseteq> {..<N}" using assms(1,2) unfolding ledger_def by blast
  ultimately show ?thesis using assms(1) by (auto simp: ledger_def)
qed

lemma ledger_weaken:
  assumes "ledger N own pend fin" "O' \<subseteq> own w" "pend w \<subseteq> P'"
  shows "ledger N (own(w := O')) (pend(w := P')) fin"
proof -
  have "h \<in> fin \<or> (\<exists>v. h \<in> (pend(w := P')) v)" if lt: "h < N" for h
  proof -
    obtain v where "h \<in> fin \<or> h \<in> pend v" using ledger_cover [OF assms(1) lt] by blast
    then show ?thesis using assms(3) by (cases "v = w") auto
  qed
  then show ?thesis using assms(1,2) by (auto simp: ledger_def) blast+
qed

lemma ledger_keep:
  "ledger N own pend fin \<Longrightarrow> own w = O' \<Longrightarrow> pend w = P' \<Longrightarrow> ledger N (own(w := O')) (pend(w := P')) fin"
  by (rule ledger_weaken) simp_all

subsection \<open>The history\<close>

definition added :: "work_event list \<Rightarrow> u64 set" where
  "added l = {h. Added h \<in> List.set l}"

definition removed :: "work_event list \<Rightarrow> u64 set" where
  "removed l = (\<Union>(a, b) \<in> {(a, b). Removed a b \<in> List.set l}. {a..<b})"

lemma added_simps [simp]:
  "added [] = {}" "added (Added h # l) = insert h (added l)" "added (Removed a b # l) = added l"
  by (auto simp: added_def)

lemma removed_simps [simp]:
  "removed [] = {}" "removed (Added h # l) = removed l" "removed (Removed a b # l) = {a..<b} \<union> removed l"
  by (auto simp: removed_def)

text \<open>No height is added twice or removed twice, and when a range is removed every height below its
  end has been added.\<close>

fun log_ok :: "work_event list \<Rightarrow> bool" where
  "log_ok [] \<longleftrightarrow> True"
| "log_ok (Added h # l) \<longleftrightarrow> h \<notin> added l \<and> log_ok l"
| "log_ok (Removed a b # l) \<longleftrightarrow> {..<b} \<subseteq> added l \<and> {a..<b} \<inter> removed l = {} \<and> log_ok l"

subsection \<open>Threads\<close>

fun adder_own :: "adder_pc \<Rightarrow> u64 set" where
  "adder_own (A_Begin start stop) = {start..<stop}"
| "adder_own (A_Wait height stop) = {height..<stop}"
| "adder_own (A_Index height stop) = {height..<stop}"
| "adder_own (A_Publish height stop) = {height + 1..<stop}"
| "adder_own _ = {}"

fun adder_failed :: "adder_pc \<Rightarrow> bool" where
  "adder_failed (A_Aborting e) = True"
| "adder_failed (A_Failed e) = True"
| "adder_failed _ = False"

definition adder_pend :: "u64 \<Rightarrow> adder_pc \<Rightarrow> u64 set" where
  "adder_pend v pc = (if adder_failed pc then {v..} else adder_own pc)"

text \<open>\<open>A\<close> is the frontier of the adders' ranges, \<open>E\<close> the end, \<open>v\<close> the thread's published height.\<close>

fun adder_ok :: "u64 \<Rightarrow> u64 \<Rightarrow> u64 \<Rightarrow> adder_pc \<Rightarrow> bool" where
  "adder_ok A E v (A_Exchange start stop) \<longleftrightarrow> v \<le> A \<and> start < stop \<and> stop \<le> E"
| "adder_ok A E v (A_Begin start stop) \<longleftrightarrow> v \<le> start \<and> start < stop \<and> stop \<le> A"
| "adder_ok A E v (A_Wait height stop) \<longleftrightarrow> v = height \<and> height \<le> stop \<and> stop \<le> A"
| "adder_ok A E v (A_Index height stop) \<longleftrightarrow> v = height \<and> height < stop \<and> stop \<le> A"
| "adder_ok A E v (A_Publish height stop) \<longleftrightarrow> v = height \<and> height < stop \<and> stop \<le> A"
| "adder_ok A E v A_Finish \<longleftrightarrow> v \<le> A \<and> A = E"
| "adder_ok A E v A_Done \<longleftrightarrow> v = E \<and> A = E"
| "adder_ok A E v _ \<longleftrightarrow> v \<le> A"

fun remover_own :: "remover_pc \<Rightarrow> u64 set" where
  "remover_own (R_Begin start stop) = {start..<stop}"
| "remover_own (R_Pop start stop) = {start..<stop}"
| "remover_own _ = {}"

fun remover_failed :: "remover_pc \<Rightarrow> bool" where
  "remover_failed (R_Aborting e) = True"
| "remover_failed (R_Failed e) = True"
| "remover_failed _ = False"

definition remover_pend :: "remover_pc \<Rightarrow> u64 set" where
  "remover_pend pc = (if remover_failed pc then UNIV else remover_own pc)"

text \<open>\<open>below m vs\<close>: every adder has published at least \<open>m\<close>.\<close>

definition below :: "u64 \<Rightarrow> u64 list \<Rightarrow> bool" where
  "below m vs \<longleftrightarrow> (\<forall>v \<in> List.set vs. m \<le> v)"

lemma below_mono:
  assumes "below m vs" "list_all2 (\<le>) vs vs'"
  shows "below m vs'"
  unfolding below_def
proof
  fix v assume "v \<in> List.set vs'"
  then obtain i where i: "i < length vs'" "v = vs' ! i" by (metis in_set_conv_nth)
  have "vs ! i \<le> vs' ! i" and "i < length vs" using assms(2) i by (auto simp: list_all2_conv_all_nth)
  then show "m \<le> v" using assms(1) i(2) by (metis below_def nth_mem order_trans)
qed

fun remover_ok :: "u64 \<Rightarrow> u64 \<Rightarrow> u64 list \<Rightarrow> u64 \<Rightarrow> remover_pc \<Rightarrow> bool" where
  "remover_ok R E vs r (R_Scan i m) \<longleftrightarrow> r \<le> R \<and> m \<le> E \<and> below m (take i vs)"
| "remover_ok R E vs r (R_Claim m) \<longleftrightarrow> r \<le> R \<and> m \<le> E \<and> below m vs"
| "remover_ok R E vs r (R_Exchange m start stop) \<longleftrightarrow>
     r \<le> R \<and> m \<le> E \<and> below m vs \<and> start < stop \<and> stop \<le> m"
| "remover_ok R E vs r (R_Begin start stop) \<longleftrightarrow> r \<le> start \<and> start < stop \<and> stop \<le> R \<and> below stop vs"
| "remover_ok R E vs r (R_Pop start stop) \<longleftrightarrow> r = start \<and> start < stop \<and> stop \<le> R \<and> below stop vs"
| "remover_ok R E vs r (R_Publish start stop) \<longleftrightarrow> r = start \<and> start < stop \<and> stop \<le> R"
| "remover_ok R E vs r (R_Announce h) \<longleftrightarrow> r \<le> h \<and> h \<le> R"
| "remover_ok R E vs r R_Flush \<longleftrightarrow> r \<le> R \<and> R = E"
| "remover_ok R E vs r R_Finish \<longleftrightarrow> r \<le> R \<and> R = E"
| "remover_ok R E vs r R_Done \<longleftrightarrow> r = E \<and> R = E"
| "remover_ok R E vs r _ \<longleftrightarrow> r \<le> R"

lemma adder_ok_mono: "adder_ok A E v pc \<Longrightarrow> A \<le> A' \<Longrightarrow> A' \<le> E \<Longrightarrow> adder_ok A' E v pc"
  by (cases pc) auto

lemma remover_ok_mono:
  assumes "remover_ok R E vs r pc" "R \<le> R'" "R' \<le> E" "list_all2 (\<le>) vs vs'"
  shows "remover_ok R' E vs' r pc"
proof -
  note up = below_mono [OF _ assms(4)] and up' = below_mono [OF _ list_all2_takeI [OF assms(4)]]
  show ?thesis using assms(1-3) up up' by (cases pc) auto
qed

lemma unat_Suc_u64: "h < e \<Longrightarrow> unat (h + 1) = unat h + 1" for h e :: u64
  using unat_u64_less [of e] by (subst unat_add_nowrap) (simp_all add: word_less_nat_alt del: unat_u64_less)

lemma less_Suc_u64: "h < e \<Longrightarrow> h < h + 1 \<and> h + 1 \<le> e" for h e :: u64
  using unat_Suc_u64 [of h e] by (simp add: word_less_nat_alt word_le_nat_alt)

lemma adder_pend_ge: "adder_ok A E v pc \<Longrightarrow> h \<in> adder_pend v pc \<Longrightarrow> v \<le> h"
  by (cases pc) (auto simp: adder_pend_def dest: less_Suc_u64 order_trans)

lemma adder_ok_le: "adder_ok A E v pc \<Longrightarrow> v \<le> A"
  by (cases pc) auto

lemma remover_ok_le: "remover_ok R E vs r pc \<Longrightarrow> r \<le> R"
  by (cases pc) auto

subsection \<open>The invariant\<close>

abbreviation adder_pcs where "adder_pcs s \<equiv> map fst (hs_adders s)"
abbreviation remover_pcs where "remover_pcs s \<equiv> map fst (hs_removers s)"

definition thread_sets :: "(nat \<Rightarrow> u64 set) \<Rightarrow> nat \<Rightarrow> nat \<Rightarrow> u64 set" where
  "thread_sets f n = (\<lambda>w. if w < n then f w else {})"

definition adders_own where
  "adders_own s = thread_sets (\<lambda>w. adder_own (adder_pcs s ! w)) (length (hs_adders s))"

definition adders_pend where
  "adders_pend s = thread_sets (\<lambda>w. adder_pend (wp_adders (hs_progress s) ! w) (adder_pcs s ! w)) (length (hs_adders s))"

definition removers_own where
  "removers_own s = thread_sets (\<lambda>w. remover_own (remover_pcs s ! w)) (length (hs_removers s))"

definition removers_pend where
  "removers_pend s = thread_sets (\<lambda>w. remover_pend (remover_pcs s ! w)) (length (hs_removers s))"

definition hints_inv :: "u64 \<Rightarrow> u64 \<Rightarrow> ('st, 'a, 'r) hints_state \<Rightarrow> bool" where
  "hints_inv E sz s \<longleftrightarrow>
     ra_end (hs_add_ranges s) = E \<and> ra_end (hs_remove_ranges s) = E \<and> wp_end (hs_progress s) = E
     \<and> ra_size (hs_add_ranges s) = sz \<and> ra_size (hs_remove_ranges s) = sz
     \<and> ra_next (hs_add_ranges s) \<le> E \<and> ra_next (hs_remove_ranges s) \<le> E
     \<and> \<not> wp_poisoned (hs_progress s)
     \<and> list_all2 (adder_ok (ra_next (hs_add_ranges s)) E) (wp_adders (hs_progress s)) (adder_pcs s)
     \<and> list_all2 (remover_ok (ra_next (hs_remove_ranges s)) E (wp_adders (hs_progress s)))
         (wp_removers (hs_progress s)) (remover_pcs s)
     \<and> ledger (ra_next (hs_add_ranges s)) (adders_own s) (adders_pend s) (added (hs_log s))
     \<and> ledger (ra_next (hs_remove_ranges s)) (removers_own s) (removers_pend s) (removed (hs_log s))
     \<and> log_ok (hs_log s)"

text \<open>The published minimum is a promise: every height below it has been added.\<close>

lemma below_added:
  assumes inv: "hints_inv E sz s" and m: "below m (wp_adders (hs_progress s))" and ne: "hs_adders s \<noteq> []"
  shows "{..<m} \<subseteq> added (hs_log s)"
proof
  fix h assume h: "h \<in> {..<m}"
  let ?vs = "wp_adders (hs_progress s)" and ?A = "ra_next (hs_add_ranges s)"
  have ok: "list_all2 (adder_ok ?A E) ?vs (adder_pcs s)" and led: "ledger ?A (adders_own s) (adders_pend s) (added (hs_log s))"
    using inv by (simp_all add: hints_inv_def)
  have len: "length ?vs = length (hs_adders s)" using ok by (auto dest: list_all2_lengthD)
  have lt: "h < ?vs ! w" if "w < length (hs_adders s)" for w
    using m h that len nth_mem [of w ?vs] by (auto simp: below_def intro: less_le_trans)
  have okw: "adder_ok ?A E (?vs ! w) (adder_pcs s ! w)" if "w < length (hs_adders s)" for w
    using list_all2_nthD [OF ok, of w] that len by simp
  have "h < ?A" using lt [of 0] adder_ok_le [OF okw, of 0] ne by (auto intro: less_le_trans)
  then obtain w where "h \<in> added (hs_log s) \<or> h \<in> adders_pend s w" using ledger_cover [OF led] by blast
  moreover have False if "h \<in> adders_pend s w"
  proof -
    have w: "w < length (hs_adders s)" and p: "h \<in> adder_pend (?vs ! w) (adder_pcs s ! w)"
      using that by (simp_all add: adders_pend_def thread_sets_def split: if_splits)
    show False using adder_pend_ge [OF okw [OF w] p] lt [OF w] by simp
  qed
  ultimately show "h \<in> added (hs_log s)" by blast
qed

subsection \<open>Steps that touch one thread\<close>

lemma thread_sets_update:
  "w < n \<Longrightarrow> (\<And>v. v \<noteq> w \<Longrightarrow> v < n \<Longrightarrow> f v = g v) \<Longrightarrow> thread_sets f n = (thread_sets g n)(w := f w)"
  by (auto simp: thread_sets_def fun_eq_iff)

lemma list_all2_update_other:
  assumes "list_all2 P xs ys" "\<And>x y. P x y \<Longrightarrow> Q x y" "Q x y"
  shows "list_all2 Q (xs[i := x]) (ys[i := y])"
proof -
  have "list_all2 Q xs ys" using assms(1,2) by (rule list_all2_mono)
  then show ?thesis using assms(3) by (rule list_all2_update_cong)
qed

lemma list_le_update:
  fixes xs :: "'a::order list"
  assumes "xs ! w \<le> v"
  shows "list_all2 (\<le>) xs (xs[w := v])"
proof (rule list_all2_all_nthI)
  fix i assume "i < length xs"
  then show "xs ! i \<le> xs[w := v] ! i" using assms by (cases "i = w") simp_all
qed simp

lemma adder_update:
  assumes inv: "hints_inv E sz s" and w: "w < length (hs_adders s)"
    and t: "t = s\<lparr>hs_add_ranges := (hs_add_ranges s)\<lparr>ra_next := A\<rparr>,
        hs_progress := (hs_progress s)\<lparr>wp_adders := (wp_adders (hs_progress s))[w := v], wp_aborted := ab\<rparr>,
        hs_store := st, hs_adders := (hs_adders s)[w := (pc, a)], hs_log := l\<rparr>"
    and A: "ra_next (hs_add_ranges s) \<le> A" "A \<le> E" and v: "wp_adders (hs_progress s) ! w \<le> v"
    and ok: "adder_ok A E v pc"
    and led: "ledger A ((adders_own s)(w := adder_own pc)) ((adders_pend s)(w := adder_pend v pc)) (added l)"
    and l: "l = hs_log s \<or> (\<exists>h. l = Added h # hs_log s \<and> h \<notin> added (hs_log s))"
  shows "hints_inv E sz t"
proof -
  let ?vs = "wp_adders (hs_progress s)"
  have aok: "list_all2 (adder_ok (ra_next (hs_add_ranges s)) E) ?vs (adder_pcs s)"
    and rok: "list_all2 (remover_ok (ra_next (hs_remove_ranges s)) E ?vs) (wp_removers (hs_progress s)) (remover_pcs s)"
    and RE: "ra_next (hs_remove_ranges s) \<le> E"
    using inv by (simp_all add: hints_inv_def)
  have len: "length ?vs = length (hs_adders s)" using aok by (auto dest: list_all2_lengthD)
  have "list_all2 (adder_ok A E) (?vs[w := v]) ((adder_pcs s)[w := pc])"
    by (rule list_all2_update_other [of "adder_ok (ra_next (hs_add_ranges s)) E"])
      (use aok ok adder_ok_mono [OF _ A] in auto)
  moreover have "list_all2 (\<le>) ?vs (?vs[w := v])"
    using v by (rule list_le_update)
  then have "list_all2 (remover_ok (ra_next (hs_remove_ranges s)) E (?vs[w := v])) (wp_removers (hs_progress s)) (remover_pcs s)"
    using list_all2_mono [OF rok] remover_ok_mono [OF _ order_refl RE] by blast
  moreover have "adders_own t = (adders_own s)(w := adder_own pc)"
    unfolding adders_own_def t using w by (subst thread_sets_update [where w = w and g = "\<lambda>w. adder_own (adder_pcs s ! w)"]) (simp_all add: map_update)
  moreover have "adders_pend t = (adders_pend s)(w := adder_pend v pc)"
    unfolding adders_pend_def t using w len
    by (subst thread_sets_update [where w = w and g = "\<lambda>w. adder_pend (?vs ! w) (adder_pcs s ! w)"]) (simp_all add: map_update)
  moreover have "removers_own t = removers_own s" "removers_pend t = removers_pend s"
    by (simp_all add: removers_own_def removers_pend_def t)
  moreover have "log_ok l" "removed l = removed (hs_log s)" using l inv by (auto simp: hints_inv_def)
  ultimately show ?thesis using inv led A by (simp add: hints_inv_def t map_update)
qed

lemma remover_update:
  assumes inv: "hints_inv E sz s" and w: "w < length (hs_removers s)"
    and t: "t = s\<lparr>hs_remove_ranges := (hs_remove_ranges s)\<lparr>ra_next := R\<rparr>,
        hs_progress := (hs_progress s)\<lparr>wp_removers := (wp_removers (hs_progress s))[w := r], wp_aborted := ab\<rparr>,
        hs_store := st, hs_removers := (hs_removers s)[w := (pc, x)], hs_log := l\<rparr>"
    and R: "ra_next (hs_remove_ranges s) \<le> R" "R \<le> E"
    and ok: "remover_ok R E (wp_adders (hs_progress s)) r pc"
    and led: "ledger R ((removers_own s)(w := remover_own pc)) ((removers_pend s)(w := remover_pend pc)) (removed l)"
    and l: "l = hs_log s \<or> (\<exists>a b. l = Removed a b # hs_log s \<and> {..<b} \<subseteq> added (hs_log s) \<and> {a..<b} \<inter> removed (hs_log s) = {})"
  shows "hints_inv E sz t"
proof -
  let ?vs = "wp_adders (hs_progress s)" and ?rs = "wp_removers (hs_progress s)"
  have rok: "list_all2 (remover_ok (ra_next (hs_remove_ranges s)) E ?vs) ?rs (remover_pcs s)"
    using inv by (simp add: hints_inv_def)
  have "list_all2 (\<le>) ?vs ?vs" by (simp add: list_all2_refl)
  then have "list_all2 (remover_ok R E ?vs) (?rs[w := r]) ((remover_pcs s)[w := pc])"
    by (intro list_all2_update_other [of "remover_ok (ra_next (hs_remove_ranges s)) E ?vs"])
      (use rok ok remover_ok_mono [OF _ R] in auto)
  moreover have "removers_own t = (removers_own s)(w := remover_own pc)"
    unfolding removers_own_def t using w by (subst thread_sets_update [where w = w and g = "\<lambda>w. remover_own (remover_pcs s ! w)"]) (simp_all add: map_update)
  moreover have "removers_pend t = (removers_pend s)(w := remover_pend pc)"
    unfolding removers_pend_def t using w by (subst thread_sets_update [where w = w and g = "\<lambda>w. remover_pend (remover_pcs s ! w)"]) (simp_all add: map_update)
  moreover have "adders_own t = adders_own s" "adders_pend t = adders_pend s"
    by (simp_all add: adders_own_def adders_pend_def t)
  moreover have "log_ok l" "added l = added (hs_log s)" using l inv by (auto simp: hints_inv_def)
  ultimately show ?thesis using inv led R by (simp add: hints_inv_def t map_update)
qed

subsection \<open>Calls\<close>

lemma publish_eq:
  assumes "\<not> wp_poisoned p" "w < length slots"
  shows "publish slots w h kind p =
    (if h < slots ! w \<or> wp_end p < h then Err (io_other (kind @ '' progress is not monotonic'')) else Ok (slots[w := h]))"
  using assms by (simp add: publish_def rloop.simps)

lemma claim_load_Some:
  assumes "claim_load limit ra = Some (start, stop)" "ra_size ra \<noteq> 0"
  shows "start = ra_next ra" "start < stop" "stop \<le> ra_end ra" "stop \<le> limit"
    "stop = next_range_end ra"
proof -
  have s: "start = ra_next ra" "ra_next ra < min limit (ra_end ra)" and e: "stop = min (saturating_add (ra_next ra) (ra_size ra)) (ra_end ra)"
    "stop \<le> min limit (ra_end ra)"
    using assms(1) by (auto simp: claim_load_def Let_def not_le not_less min_def split: if_splits)
  have "unat (ra_size ra) \<noteq> 0" using assms(2) by (simp add: unat_eq_zero)
  then have "ra_next ra < saturating_add (ra_next ra) (ra_size ra)"
  proof (cases "unat (ra_next ra) + unat (ra_size ra) < 2 ^ 64")
    case True
    then show ?thesis using \<open>unat (ra_size ra) \<noteq> 0\<close> by (simp add: saturating_add_def word_less_nat_alt unat_add_nowrap)
  next
    case False
    have "ra_next ra < - 1" using s(2) word_n1_ge [of limit] by (auto intro: less_le_trans)
    then show ?thesis using False by (simp add: saturating_add_def)
  qed
  then show "start = ra_next ra" "start < stop" "stop \<le> ra_end ra" "stop \<le> limit" "stop = next_range_end ra"
    using s e by (simp_all add: next_range_end_def next_height_def)
qed


lemma publish_adder_eq:
  assumes "\<not> wp_poisoned p" "w < length (wp_adders p)"
  shows "publish_adder w h p =
    (if h < wp_adders p ! w \<or> wp_end p < h then Some (Inl (io_other (''adder'' @ '' progress is not monotonic'')), p)
     else Some (Inr (), p\<lparr>wp_adders := (wp_adders p)[w := h]\<rparr>))"
  using assms by (simp add: publish_adder_def publish_eq)

lemma publish_remover_eq:
  assumes "\<not> wp_poisoned p" "w < length (wp_removers p)"
  shows "publish_remover w h p =
    (if h < wp_removers p ! w \<or> wp_end p < h then Some (Inl (io_other (''remover'' @ '' progress is not monotonic'')), p)
     else Some (Inr (), p\<lparr>wp_removers := (wp_removers p)[w := h]\<rparr>))"
  using assms by (simp add: publish_remover_def publish_eq)

subsection \<open>Adders keep the invariant\<close>

lemma adder_facts:
  assumes "hints_inv E sz s" "w < length (hs_adders s)"
  shows "w < length (wp_adders (hs_progress s))" "\<not> wp_poisoned (hs_progress s)" "wp_end (hs_progress s) = E"
    "adder_ok (ra_next (hs_add_ranges s)) E (wp_adders (hs_progress s) ! w) (fst (hs_adders s ! w))"
    "adders_own s w = adder_own (fst (hs_adders s ! w))"
    "adders_pend s w = adder_pend (wp_adders (hs_progress s) ! w) (fst (hs_adders s ! w))"
proof -
  have ok: "list_all2 (adder_ok (ra_next (hs_add_ranges s)) E) (wp_adders (hs_progress s)) (adder_pcs s)"
    using assms(1) by (simp add: hints_inv_def)
  show "w < length (wp_adders (hs_progress s))" using list_all2_lengthD [OF ok] assms(2) by simp
  then show "adder_ok (ra_next (hs_add_ranges s)) E (wp_adders (hs_progress s) ! w) (fst (hs_adders s ! w))"
    using list_all2_nthD [OF ok] assms(2) by fastforce
qed (use assms in \<open>simp_all add: hints_inv_def adders_own_def adders_pend_def thread_sets_def\<close>)

text \<open>A move of one thread that publishes nothing and gives up nothing but heights it has lost.\<close>

lemma adder_move:
  assumes inv: "hints_inv E sz s" and w: "w < length (hs_adders s)"
    and ok: "adder_ok (ra_next (hs_add_ranges s)) E (wp_adders (hs_progress s) ! w) pc"
    and own: "adder_own pc \<subseteq> adder_own (fst (hs_adders s ! w))"
    and pend: "adder_pend (wp_adders (hs_progress s) ! w) (fst (hs_adders s ! w)) \<subseteq> adder_pend (wp_adders (hs_progress s) ! w) pc"
  shows "hints_inv E sz (s\<lparr>hs_progress := (hs_progress s)\<lparr>wp_aborted := ab\<rparr>, hs_store := st, hs_adders := (hs_adders s)[w := (pc, a)]\<rparr>)"
proof (rule adder_update [OF inv w _ order_refl _ order_refl ok, where ab = ab and st = st and a = a])
  note f = adder_facts [OF inv w]
  show "ledger (ra_next (hs_add_ranges s)) ((adders_own s)(w := adder_own pc))
      ((adders_pend s)(w := adder_pend (wp_adders (hs_progress s) ! w) pc)) (added (hs_log s))"
    by (rule ledger_weaken) (use inv own pend f(5,6) in \<open>simp_all add: hints_inv_def\<close>)
qed (use inv in \<open>simp_all add: hints_inv_def\<close>)

lemma adder_fail:
  assumes inv: "hints_inv E sz s" and w: "w < length (hs_adders s)"
  shows "hints_inv E sz (s\<lparr>hs_store := st, hs_adders := (hs_adders s)[w := (A_Aborting e, a)]\<rparr>)"
proof -
  note f = adder_facts [OF inv w]
  have "hints_inv E sz (s\<lparr>hs_progress := (hs_progress s)\<lparr>wp_aborted := wp_aborted (hs_progress s)\<rparr>, hs_store := st,
      hs_adders := (hs_adders s)[w := (A_Aborting e, a)]\<rparr>)"
    by (rule adder_move [OF inv w]) (use adder_ok_le [OF f(4)] adder_pend_ge [OF f(4)] in \<open>auto simp: adder_pend_def [of _ "A_Aborting e"]\<close>)
  then show ?thesis by simp
qed

lemma adder_publishes:
  assumes inv: "hints_inv E sz s" and w: "w < length (hs_adders s)"
    and v: "wp_adders (hs_progress s) ! w \<le> v"
    and ok: "adder_ok (ra_next (hs_add_ranges s)) E v pc"
    and own: "adder_own pc = adder_own (fst (hs_adders s ! w))" "\<not> adder_failed pc" "\<not> adder_failed (fst (hs_adders s ! w))"
  shows "hints_inv E sz (s\<lparr>hs_progress := (hs_progress s)\<lparr>wp_adders := (wp_adders (hs_progress s))[w := v]\<rparr>,
    hs_adders := (hs_adders s)[w := (pc, a)]\<rparr>)"
proof (rule adder_update [OF inv w _ order_refl _ v ok, where ab = "wp_aborted (hs_progress s)" and st = "hs_store s" and a = a])
  note f = adder_facts [OF inv w]
  show "ledger (ra_next (hs_add_ranges s)) ((adders_own s)(w := adder_own pc))
      ((adders_pend s)(w := adder_pend v pc)) (added (hs_log s))"
    by (rule ledger_keep) (use inv own f(5,6) in \<open>simp_all add: hints_inv_def adder_pend_def\<close>)
qed (use inv in \<open>simp_all add: hints_inv_def\<close>)

lemma adder_call_inv:
  assumes inv: "hints_inv E sz s" and w: "w < length (hs_adders s)"
    and t: "adder_call w (bnd (reads g) (\<lambda>_. publish_adder w v)) pc s = Some t"
    and ok: "v \<le> E \<Longrightarrow> wp_adders (hs_progress s) ! w \<le> v \<Longrightarrow> adder_ok (ra_next (hs_add_ranges s)) E v pc"
    and own: "adder_own pc = adder_own (fst (hs_adders s ! w))" "\<not> adder_failed pc" "\<not> adder_failed (fst (hs_adders s ! w))"
  shows "hints_inv E sz t"
proof -
  note f = adder_facts [OF inv w]
  consider e where "t = set_adder w (A_Aborting e) s"
    | "v \<le> E" "wp_adders (hs_progress s) ! w \<le> v"
      "t = set_adder w pc (s\<lparr>hs_progress := (hs_progress s)\<lparr>wp_adders := (wp_adders (hs_progress s))[w := v]\<rparr>\<rparr>)"
    using t f(1-3) by (auto simp: adder_call_def publish_adder_eq split: option.splits sum.splits if_splits)
  then show ?thesis
  proof cases
    case 1
    then show ?thesis using adder_fail [OF inv w, where st = "hs_store s"] by simp
  next
    case 2
    then show ?thesis using adder_publishes [OF inv w 2(2) ok [OF 2(1,2)] own] by simp
  qed
qed

lemma adder_claim_inv:
  assumes inv: "hints_inv E sz s" and sz: "sz \<noteq> 0" and w: "w < length (hs_adders s)"
    and pc: "fst (hs_adders s ! w) = A_Claim" and t: "adder_step code lead w A_Claim s = Some t"
  shows "hints_inv E sz t"
proof -
  note f = adder_facts [OF inv w]
  note move = adder_move [OF inv w, where ab = "wp_aborted (hs_progress s)" and st = "hs_store s", simplified]
  have ends: "ra_end (hs_add_ranges s) = E" "ra_size (hs_add_ranges s) = sz" "ra_next (hs_add_ranges s) \<le> E"
    using inv by (simp_all add: hints_inv_def)
  show ?thesis
  proof (cases "claim_load E (hs_add_ranges s)")
    case None
    have "ra_next (hs_add_ranges s) = E"
      using None ends by (auto simp: claim_load_def Let_def not_le min_def split: if_splits)
    then have "hints_inv E sz (set_adder w A_Finish s)"
      by (intro move) (use pc f(4) in \<open>simp_all add: adder_pend_def\<close>)
    then show ?thesis using t None ends by simp
  next
    case (Some r)
    obtain start stop where r: "r = (start, stop)" by (cases r)
    have "start < stop" "stop \<le> E"
      using claim_load_Some [of E "hs_add_ranges s" start stop] Some r ends sz by simp_all
    then have "hints_inv E sz (set_adder w (A_Exchange start stop) s)"
      by (intro move) (use pc f(4) in \<open>simp_all add: adder_pend_def\<close>)
    then show ?thesis using t Some r ends by simp
  qed
qed

lemma adder_exchange_inv:
  assumes inv: "hints_inv E sz s" and w: "w < length (hs_adders s)"
    and pc: "fst (hs_adders s ! w) = A_Exchange start stop" "ra_next (hs_add_ranges s) = start"
  shows "hints_inv E sz (s\<lparr>hs_add_ranges := (hs_add_ranges s)\<lparr>ra_next := stop\<rparr>,
    hs_adders := (hs_adders s)[w := (A_Begin start stop, a)]\<rparr>)"
proof (rule adder_update [OF inv w, where v = "wp_adders (hs_progress s) ! w" and ab = "wp_aborted (hs_progress s)"
      and A = stop and st = "hs_store s"])
  note f = adder_facts [OF inv w]
  show "ledger stop ((adders_own s)(w := adder_own (A_Begin start stop)))
    ((adders_pend s)(w := adder_pend (wp_adders (hs_progress s) ! w) (A_Begin start stop))) (added (hs_log s))"
    using ledger_claim [of "ra_next (hs_add_ranges s)" "adders_own s" "adders_pend s" "added (hs_log s)" w stop]
      inv f pc by (simp add: hints_inv_def adder_pend_def less_imp_le)
qed (use adder_facts(4) [OF inv w] pc in \<open>auto simp: less_imp_le\<close>)

lemma range_minus_first: "h < e \<Longrightarrow> {h..<e} - {h} = {h + 1..<e}" for h e :: u64
proof (intro set_eqI iffI)
  fix x assume "h < e" "x \<in> {h..<e} - {h}"
  then have "h < x" "x < e" by auto
  then show "x \<in> {h + 1..<e}" using less_Suc_u64 [of h x] by simp
next
  fix x assume "h < e" "x \<in> {h + 1..<e}"
  then show "x \<in> {h..<e} - {h}" using less_Suc_u64 [of h e] by auto
qed

lemma adder_index_inv:
  assumes inv: "hints_inv E sz s" and w: "w < length (hs_adders s)"
    and pc: "fst (hs_adders s ! w) = A_Index height stop"
  shows "hints_inv E sz (s\<lparr>hs_store := st, hs_adders := (hs_adders s)[w := (A_Publish height stop, a)],
    hs_log := Added height # hs_log s\<rparr>)"
proof (rule adder_update [OF inv w, where v = "wp_adders (hs_progress s) ! w" and ab = "wp_aborted (hs_progress s)"
      and A = "ra_next (hs_add_ranges s)"])
  note f = adder_facts [OF inv w]
  have own: "adders_own s w = {height..<stop}" "adders_pend s w = {height..<stop}"
    using f(5,6) pc by (simp_all add: adder_pend_def)
  have ok: "height < stop" using f(4) pc by simp
  have led: "ledger (ra_next (hs_add_ranges s)) (adders_own s) (adders_pend s) (added (hs_log s))"
    using inv by (simp add: hints_inv_def)
  then have "adders_own s w \<inter> added (hs_log s) = {}" unfolding ledger_def by blast
  then have "height \<notin> added (hs_log s)" using own(1) ok by auto
  then show "Added height # hs_log s = hs_log s \<or> (\<exists>h. Added height # hs_log s = Added h # hs_log s \<and> h \<notin> added (hs_log s))"
    by blast
  show "ledger (ra_next (hs_add_ranges s)) ((adders_own s)(w := adder_own (A_Publish height stop)))
    ((adders_pend s)(w := adder_pend (wp_adders (hs_progress s) ! w) (A_Publish height stop))) (added (Added height # hs_log s))"
    using ledger_done [OF led, of "{height}" w] own ok by (simp add: range_minus_first [OF ok] adder_pend_def)
qed (use adder_facts(4) [OF inv w] pc inv in \<open>auto simp: hints_inv_def\<close>)

lemma adder_publish_inv:
  assumes inv: "hints_inv E sz s" and w: "w < length (hs_adders s)"
    and pc: "fst (hs_adders s ! w) = A_Publish height stop"
    and t: "adder_step code lead w (A_Publish height stop) s = Some t"
  shows "hints_inv E sz t"
proof -
  have ok: "wp_adders (hs_progress s) ! w = height" "height < stop" "stop \<le> ra_next (hs_add_ranges s)"
    using adder_facts(4) [OF inv w] pc by simp_all
  have ca: "checked_add height 1 = Some (height + 1)"
    using ok(2) unat_u64_less [of stop] by (simp add: checked_add_def word_less_nat_alt del: unat_u64_less)
  show ?thesis
    by (rule adder_call_inv [OF inv w, of "\<lambda>_. Ok ()" "height + 1" "A_Wait (height + 1) stop"])
      (use t pc ca ok less_Suc_u64 [OF ok(2)] in \<open>auto simp: bnd_def adder_call_def\<close>)
qed

lemma adder_step_inv:
  assumes inv: "hints_inv E sz s" and sz: "sz \<noteq> 0" and w: "w < length (hs_adders s)"
    and t: "adder_step code lead w (fst (hs_adders s ! w)) s = Some t"
  shows "hints_inv E sz t"
proof (cases "fst (hs_adders s ! w)")
  note f = adder_facts [OF inv w]
  note move = adder_move [OF inv w, where ab = "wp_aborted (hs_progress s)" and st = "hs_store s", simplified]
  note fail = adder_fail [OF inv w]
  {
    case A_Claim
    then show ?thesis using adder_claim_inv [OF inv sz w] t by simp
  next
    case (A_Exchange start stop)
    then show ?thesis using t f(4) adder_exchange_inv [OF inv w A_Exchange] move [of A_Claim]
      by (cases "ra_next (hs_add_ranges s) = start") (auto simp: claim_exchange_def adder_pend_def)
  next
    case (A_Begin start stop)
    show ?thesis
      by (rule adder_call_inv [OF inv w, of check_abort start "A_Wait start stop"]) (use t A_Begin f(4) in auto)
  next
    case (A_Wait height stop)
    show ?thesis
    proof (cases "height < stop")
      case True
      then have "(\<exists>e. t = set_adder w (A_Aborting e) s) \<or> t = set_adder w (A_Index height stop) s"
        using t A_Wait by (auto simp: adder_call_def split: option.splits sum.splits)
      then show ?thesis using fail [where st = "hs_store s"] True A_Wait f(4)
        by (auto simp: adder_pend_def intro!: move)
    next
      case False
      then show ?thesis using t A_Wait f(4) by (auto simp: adder_pend_def intro!: move)
    qed
  next
    case (A_Index height stop)
    then show ?thesis using t fail adder_index_inv [OF inv w A_Index] by (auto split: option.splits sum.splits)
  next
    case (A_Publish height stop)
    then show ?thesis using adder_publish_inv [OF inv w] t by simp
  next
    case A_Finish
    show ?thesis
      by (rule adder_call_inv [OF inv w, of "\<lambda>_. Ok ()" E A_Done])
        (use t A_Finish f in \<open>auto simp: bnd_def adder_call_def finish_adder_def\<close>)
  next
    case (A_Aborting e)
    have "hints_inv E sz (s\<lparr>hs_progress := (hs_progress s)\<lparr>wp_aborted := ab\<rparr>, hs_store := hs_store s,
        hs_adders := (hs_adders s)[w := (A_Failed e, a)]\<rparr>)" for ab a
      by (rule adder_move [OF inv w]) (use f(4) A_Aborting in \<open>auto simp: adder_pend_def\<close>)
    from this [where ab = 1] this [where ab = "wp_aborted (hs_progress s)"] show ?thesis using t A_Aborting f(2)
      by (auto simp: progress_abort_def)
  }
qed (use t in simp_all)

subsection \<open>Removers keep the invariant\<close>

lemma remover_facts:
  assumes "hints_inv E sz s" "w < length (hs_removers s)"
  shows "w < length (wp_removers (hs_progress s))" "\<not> wp_poisoned (hs_progress s)" "wp_end (hs_progress s) = E"
    "remover_ok (ra_next (hs_remove_ranges s)) E (wp_adders (hs_progress s)) (wp_removers (hs_progress s) ! w) (fst (hs_removers s ! w))"
    "removers_own s w = remover_own (fst (hs_removers s ! w))"
    "removers_pend s w = remover_pend (fst (hs_removers s ! w))"
proof -
  have ok: "list_all2 (remover_ok (ra_next (hs_remove_ranges s)) E (wp_adders (hs_progress s))) (wp_removers (hs_progress s)) (remover_pcs s)"
    using assms(1) by (simp add: hints_inv_def)
  show "w < length (wp_removers (hs_progress s))" using list_all2_lengthD [OF ok] assms(2) by simp
  then show "remover_ok (ra_next (hs_remove_ranges s)) E (wp_adders (hs_progress s)) (wp_removers (hs_progress s) ! w) (fst (hs_removers s ! w))"
    using list_all2_nthD [OF ok] assms(2) by fastforce
qed (use assms in \<open>simp_all add: hints_inv_def removers_own_def removers_pend_def thread_sets_def\<close>)

text \<open>A move of one remover: it may publish, and it owns and has pending what it had.\<close>

lemma remover_move:
  assumes inv: "hints_inv E sz s" and w: "w < length (hs_removers s)"
    and ok: "remover_ok (ra_next (hs_remove_ranges s)) E (wp_adders (hs_progress s)) r pc"
    and own: "remover_own pc \<subseteq> remover_own (fst (hs_removers s ! w))"
    and pend: "remover_pend (fst (hs_removers s ! w)) \<subseteq> remover_pend pc"
  shows "hints_inv E sz (s\<lparr>hs_progress := (hs_progress s)\<lparr>wp_removers := (wp_removers (hs_progress s))[w := r], wp_aborted := ab\<rparr>,
    hs_store := st, hs_removers := (hs_removers s)[w := (pc, x)]\<rparr>)"
proof (rule remover_update [OF inv w _ order_refl _ ok, where ab = ab and st = st and x = x])
  note f = remover_facts [OF inv w]
  show "ledger (ra_next (hs_remove_ranges s)) ((removers_own s)(w := remover_own pc))
      ((removers_pend s)(w := remover_pend pc)) (removed (hs_log s))"
    by (rule ledger_weaken) (use inv own pend f(5,6) in \<open>simp_all add: hints_inv_def\<close>)
qed (use inv in \<open>simp_all add: hints_inv_def\<close>)

lemma remover_stays:
  assumes inv: "hints_inv E sz s" and w: "w < length (hs_removers s)"
    and ok: "remover_ok (ra_next (hs_remove_ranges s)) E (wp_adders (hs_progress s)) (wp_removers (hs_progress s) ! w) pc"
    and own: "remover_own pc \<subseteq> remover_own (fst (hs_removers s ! w))"
    and pend: "remover_pend (fst (hs_removers s ! w)) \<subseteq> remover_pend pc"
  shows "hints_inv E sz (s\<lparr>hs_store := st, hs_removers := (hs_removers s)[w := (pc, x)]\<rparr>)"
  using remover_move [OF inv w ok own pend, where ab = "wp_aborted (hs_progress s)" and st = st and x = x] by simp

lemma remover_fail:
  assumes inv: "hints_inv E sz s" and w: "w < length (hs_removers s)"
  shows "hints_inv E sz (s\<lparr>hs_store := st, hs_removers := (hs_removers s)[w := (R_Aborting e, x)]\<rparr>)"
  by (rule remover_stays [OF inv w]) (use remover_ok_le [OF remover_facts(4) [OF inv w]] in \<open>auto simp: remover_pend_def [of "R_Aborting e"]\<close>)

lemma remover_call_inv:
  assumes inv: "hints_inv E sz s" and w: "w < length (hs_removers s)"
    and t: "remover_call w (publish_remover w v) pc s = Some t"
    and ok: "v \<le> E \<Longrightarrow> remover_ok (ra_next (hs_remove_ranges s)) E (wp_adders (hs_progress s)) v pc"
    and own: "remover_own pc = remover_own (fst (hs_removers s ! w))" "\<not> remover_failed (fst (hs_removers s ! w))" "\<not> remover_failed pc"
  shows "hints_inv E sz t"
proof -
  note f = remover_facts [OF inv w]
  consider e where "t = set_remover w (R_Aborting e) s"
    | "v \<le> E" "t = set_remover w pc (s\<lparr>hs_progress := (hs_progress s)\<lparr>wp_removers := (wp_removers (hs_progress s))[w := v]\<rparr>\<rparr>)"
    using t f(1-3) by (auto simp: remover_call_def publish_remover_eq split: if_splits)
  then show ?thesis
  proof cases
    case 1
    then show ?thesis using remover_fail [OF inv w, where st = "hs_store s"] by simp
  next
    case 2
    then show ?thesis
      using remover_move [OF inv w ok [OF 2(1)], where ab = "wp_aborted (hs_progress s)" and st = "hs_store s"] own
      by (simp add: remover_pend_def)
  qed
qed

lemma remover_reads_inv:
  assumes inv: "hints_inv E sz s" and w: "w < length (hs_removers s)"
    and t: "remover_call w (reads g) pc s = Some t"
    and ok: "remover_ok (ra_next (hs_remove_ranges s)) E (wp_adders (hs_progress s)) (wp_removers (hs_progress s) ! w) pc"
    and own: "remover_own pc = remover_own (fst (hs_removers s ! w))" "\<not> remover_failed (fst (hs_removers s ! w))" "\<not> remover_failed pc"
  shows "hints_inv E sz t"
proof -
  have "(\<exists>e. t = set_remover w (R_Aborting e) s) \<or> t = set_remover w pc s"
    using t by (auto simp: remover_call_def split: option.splits sum.splits)
  then show ?thesis
  proof
    assume "\<exists>e. t = set_remover w (R_Aborting e) s"
    then show ?thesis using remover_fail [OF inv w, where st = "hs_store s"] by auto
  next
    assume "t = set_remover w pc s"
    then show ?thesis using remover_stays [OF inv w ok, where st = "hs_store s"] own by (simp add: remover_pend_def)
  qed
qed

lemma below_take_Suc: "i < length vs \<Longrightarrow> below m (take i vs) \<Longrightarrow> below (min m (vs ! i)) (take (Suc i) vs)"
  by (auto simp: below_def take_Suc_conv_app_nth min.coboundedI1)

lemma remover_exchange_inv:
  assumes inv: "hints_inv E sz s" and w: "w < length (hs_removers s)"
    and pc: "fst (hs_removers s ! w) = R_Exchange m start stop" "ra_next (hs_remove_ranges s) = start"
  shows "hints_inv E sz (s\<lparr>hs_remove_ranges := (hs_remove_ranges s)\<lparr>ra_next := stop\<rparr>,
    hs_removers := (hs_removers s)[w := (R_Begin start stop, x)]\<rparr>)"
proof (rule remover_update [OF inv w, where r = "wp_removers (hs_progress s) ! w" and ab = "wp_aborted (hs_progress s)"
      and R = stop and st = "hs_store s"])
  note f = remover_facts [OF inv w]
  show "ledger stop ((removers_own s)(w := remover_own (R_Begin start stop)))
      ((removers_pend s)(w := remover_pend (R_Begin start stop))) (removed (hs_log s))"
    using ledger_claim [of "ra_next (hs_remove_ranges s)" "removers_own s" "removers_pend s" "removed (hs_log s)" w stop]
      inv f pc by (simp add: hints_inv_def remover_pend_def less_imp_le)
  show "remover_ok stop E (wp_adders (hs_progress s)) (wp_removers (hs_progress s) ! w) (R_Begin start stop)"
    using f(4) pc by (auto simp: below_def intro: order_trans)
qed (use remover_facts(4) [OF inv w] pc in auto)

lemma remover_pop_inv:
  assumes inv: "hints_inv E sz s" and w: "w < length (hs_removers s)" and ne: "hs_adders s \<noteq> []"
    and pc: "fst (hs_removers s ! w) = R_Pop start stop"
  shows "hints_inv E sz (s\<lparr>hs_store := st, hs_removers := (hs_removers s)[w := (R_Publish start stop, x)],
    hs_log := Removed start stop # hs_log s\<rparr>)"
proof -
  note f = remover_facts [OF inv w]
  have own: "removers_own s w = {start..<stop}" "removers_pend s w = {start..<stop}"
    using f(5,6) pc by (simp_all add: remover_pend_def)
  have led: "ledger (ra_next (hs_remove_ranges s)) (removers_own s) (removers_pend s) (removed (hs_log s))"
    and RE: "ra_next (hs_remove_ranges s) \<le> E" using inv by (simp_all add: hints_inv_def)
  have new: "{start..<stop} \<inter> removed (hs_log s) = {}" using led own(1) unfolding ledger_def by metis
  have add: "{..<stop} \<subseteq> added (hs_log s)" using below_added [OF inv _ ne] f(4) pc by simp
  show ?thesis
  proof (rule remover_update [OF inv w, where r = "wp_removers (hs_progress s) ! w" and ab = "wp_aborted (hs_progress s)"
        and R = "ra_next (hs_remove_ranges s)"])
    show "ledger (ra_next (hs_remove_ranges s)) ((removers_own s)(w := remover_own (R_Publish start stop)))
        ((removers_pend s)(w := remover_pend (R_Publish start stop))) (removed (Removed start stop # hs_log s))"
      using ledger_done [OF led, of "{start..<stop}" w] own by (simp add: remover_pend_def Un_commute)
    show "Removed start stop # hs_log s = hs_log s \<or> (\<exists>a b. Removed start stop # hs_log s = Removed a b # hs_log s
        \<and> {..<b} \<subseteq> added (hs_log s) \<and> {a..<b} \<inter> removed (hs_log s) = {})"
      using new add by blast
  qed (use f(4) pc RE in auto)
qed

lemma remover_step_inv:
  assumes inv: "hints_inv E sz s" and sz: "sz \<noteq> 0" and w: "w < length (hs_removers s)" and ne: "hs_adders s \<noteq> []"
    and t: "remover_step code w (fst (hs_removers s ! w)) s = Some t"
  shows "hints_inv E sz t"
proof -
  note f = remover_facts [OF inv w]
  note stays = remover_stays [OF inv w, where st = "hs_store s", simplified]
  have ends: "ra_end (hs_remove_ranges s) = E" "ra_size (hs_remove_ranges s) = sz" "ra_next (hs_remove_ranges s) \<le> E"
    using inv by (simp_all add: hints_inv_def)
  show ?thesis
  proof (cases "fst (hs_removers s ! w)")
    case R_Start
    then show ?thesis using t f(4) remover_fail [OF inv w] remover_stays [OF inv w, of R_Check]
      by (auto simp: remover_pend_def split: option.splits sum.splits)
  next
    case R_Check
    show ?thesis by (rule remover_reads_inv [OF inv w, of check_abort "R_Scan 0 E"])
      (use t R_Check f in \<open>auto simp: below_def\<close>)
  next
    case (R_Scan i m)
    show ?thesis
    proof (cases "i < length (wp_adders (hs_progress s))")
      case True
      then show ?thesis using t R_Scan f(4) stays [of "R_Scan (Suc i) (min m (wp_adders (hs_progress s) ! i))"] below_take_Suc
        by (auto simp: remover_pend_def min.coboundedI1)
    next
      case False
      then show ?thesis using t R_Scan f(4) stays [of "R_Claim m"] by (auto simp: remover_pend_def)
    qed
  next
    case (R_Claim m)
    show ?thesis
    proof (cases "claim_load m (hs_remove_ranges s)")
      case None
      then show ?thesis using t R_Claim f(4) stays [of R_Idle] by (auto simp: remover_pend_def)
    next
      case (Some r)
      obtain start stop where r: "r = (start, stop)" by (cases r)
      have "start < stop" "stop \<le> m"
        using claim_load_Some [of m "hs_remove_ranges s" start stop] Some r ends sz by simp_all
      then show ?thesis using t R_Claim Some r f(4) stays [of "R_Exchange m start stop"] by (auto simp: remover_pend_def)
    qed
  next
    case (R_Exchange m start stop)
    show ?thesis
    proof (cases "ra_next (hs_remove_ranges s) = start")
      case True
      then show ?thesis using t R_Exchange remover_exchange_inv [OF inv w R_Exchange] by (auto simp: claim_exchange_def)
    next
      case False
      then show ?thesis using t R_Exchange f(4) stays [of "R_Claim m"] by (auto simp: claim_exchange_def remover_pend_def)
    qed
  next
    case (R_Begin start stop)
    show ?thesis by (rule remover_call_inv [OF inv w, of start "R_Pop start stop"]) (use t R_Begin f(4) in auto)
  next
    case (R_Pop start stop)
    then show ?thesis using t remover_fail [OF inv w] remover_pop_inv [OF inv w ne R_Pop]
      by (auto split: option.splits sum.splits)
  next
    case (R_Publish start stop)
    show ?thesis by (rule remover_call_inv [OF inv w, of stop R_Check]) (use t R_Publish f(4) in auto)
  next
    case R_Idle
    show ?thesis
    proof (cases "is_finished (hs_remove_ranges s)")
      case True
      then have "ra_next (hs_remove_ranges s) = E" using ends by (simp add: is_finished_def next_height_def)
      then show ?thesis using t R_Idle True f(4) stays [of R_Flush] by (auto simp: remover_pend_def)
    next
      case False
      then show ?thesis using t R_Idle f(4) stays [of R_Next] by (auto simp: remover_pend_def)
    qed
  next
    case R_Next
    then show ?thesis using t f(4) stays [of "R_Announce (ra_next (hs_remove_ranges s))"]
      by (auto simp: remover_pend_def next_height_def)
  next
    case (R_Announce h)
    show ?thesis by (rule remover_call_inv [OF inv w, of h R_Required]) (use t R_Announce f(4) in auto)
  next
    case R_Required
    then show ?thesis using t f(4) stays [of "R_Wait (next_range_end (hs_remove_ranges s))"] by (auto simp: remover_pend_def)
  next
    case (R_Wait required)
    show ?thesis
    proof (cases "minimum_adder (hs_progress s) < required")
      case True
      show ?thesis by (rule remover_reads_inv [OF inv w, of "wait_for_additions required" R_Check])
        (use t R_Wait True f in auto)
    next
      case False
      then show ?thesis using t R_Wait f(4) stays [of R_Check] by (auto simp: remover_pend_def)
    qed
  next
    case R_Flush
    then show ?thesis using t f(4) remover_fail [OF inv w] remover_stays [OF inv w, of R_Finish]
      by (auto simp: remover_pend_def split: option.splits sum.splits)
  next
    case R_Finish
    show ?thesis by (rule remover_call_inv [OF inv w, of E R_Done])
      (use t R_Finish f in \<open>auto simp: finish_remover_def remover_call_def\<close>)
  next
    case (R_Aborting e)
    have "hints_inv E sz (s\<lparr>hs_progress := (hs_progress s)\<lparr>wp_aborted := ab\<rparr>, hs_removers := (hs_removers s)[w := (R_Failed e, x)]\<rparr>)" for ab x
      using remover_move [OF inv w, of "wp_removers (hs_progress s) ! w" "R_Failed e", where ab = ab and st = "hs_store s" and x = x] f(4) R_Aborting
      by (simp add: remover_pend_def)
    from this [where ab = 1] this [where ab = "wp_aborted (hs_progress s)"] show ?thesis using t R_Aborting f(2)
      by (auto simp: progress_abort_def)
  next
    case R_Done
    then show ?thesis using t by simp
  next
    case (R_Failed e)
    then show ?thesis using t by simp
  qed
qed


subsection \<open>Every reachable state\<close>

lemma step_lengths:
  "adder_step code lead w pc s = Some t \<Longrightarrow> length (hs_adders t) = length (hs_adders s) \<and> length (hs_removers t) = length (hs_removers s)"
  "remover_step code w pc' s = Some t \<Longrightarrow> length (hs_adders t) = length (hs_adders s) \<and> length (hs_removers t) = length (hs_removers s)"
  by (cases pc; auto simp: adder_call_def split: option.splits sum.splits prod.splits if_splits bool.splits)
    (cases pc'; auto simp: remover_call_def split: option.splits sum.splits prod.splits if_splits bool.splits)

lemma hints_init_Ok:
  assumes "hints_init limit na nr E sz st a r = Ok s"
  shows "na \<noteq> 0" "nr \<noteq> 0" "sz \<noteq> 0" "hints_inv E sz s" "length (hs_adders s) = na" "length (hs_removers s) = nr"
    "wp_aborted (hs_progress s) = 0" "hs_log s = []"
    "\<forall>w < na. fst (hs_adders s ! w) = A_Claim" "\<forall>w < nr. fst (hs_removers s ! w) = R_Start"
proof -
  have ne: "na \<noteq> 0" "nr \<noteq> 0" "sz \<noteq> 0"
    and s: "s = hints_start \<lparr>ra_next = 0, ra_end = E, ra_size = sz\<rparr> \<lparr>ra_next = 0, ra_end = E, ra_size = sz\<rparr>
      \<lparr>wp_adders = replicate na 0, wp_removers = replicate nr 0, wp_poisoned = False, wp_aborted = 0, wp_end = E\<rparr> st a r"
    using assms by (auto simp: hints_init_def range_allocator_new_def worker_progress_new_def progress_slots_def
      rbind_Ok_iff split: if_splits)
  show "na \<noteq> 0" "nr \<noteq> 0" "sz \<noteq> 0" by (fact ne)+
  have own: "adders_own s = (\<lambda>_. {})" "adders_pend s = (\<lambda>_. {})" "removers_own s = (\<lambda>_. {})" "removers_pend s = (\<lambda>_. {})"
    by (auto simp: s hints_start_def adders_own_def adders_pend_def removers_own_def removers_pend_def
      thread_sets_def adder_pend_def remover_pend_def fun_eq_iff)
  show "hints_inv E sz s"
    unfolding hints_inv_def own
    by (auto simp: s hints_start_def ledger_def list_all2_conv_all_nth)
  show "length (hs_adders s) = na" "length (hs_removers s) = nr" "wp_aborted (hs_progress s) = 0" "hs_log s = []"
    "\<forall>w < na. fst (hs_adders s ! w) = A_Claim" "\<forall>w < nr. fst (hs_removers s ! w) = R_Start"
    by (simp_all add: s hints_start_def)
qed

lemma hints_reachable_inv:
  assumes "hints_init limit na nr E sz st a r = Ok s0" "hints_reachable code lead s0 s"
  shows "hints_inv E sz s" "length (hs_adders s) = na" "length (hs_removers s) = nr"
proof -
  note i = hints_init_Ok [OF assms(1)]
  have "hints_inv E sz s \<and> length (hs_adders s) = na \<and> length (hs_removers s) = nr"
    using assms(2)
  proof (induction rule: hints_reachable.induct)
    case start
    then show ?case using i by simp
  next
    case (step s t)
    then have "hs_adders s \<noteq> []" using i(1) by auto
    with step.hyps(2) show ?case
    proof cases
      case (adder w)
      then show ?thesis using adder_step_inv [OF _ i(3)] step_lengths(1) step.IH by metis
    next
      case (remover w)
      then show ?thesis using remover_step_inv [OF _ i(3)] step_lengths(2) step.IH \<open>hs_adders s \<noteq> []\<close> by metis
    qed
  qed
  then show "hints_inv E sz s" "length (hs_adders s) = na" "length (hs_removers s) = nr" by simp_all
qed

end
