(* ===== verification/Hints_Live.thy ===== *)
theory Hints_Live
  imports Hints_Progress
begin

text \<open>
  Waiting: when the work on blocks and ranges itself succeeds, no thread fails; with one remover and
  ranges no longer than the adders' lead some thread can always move; with two removers there is an
  interleaving in which all threads wait for each other.
\<close>

subsection \<open>The published minima\<close>

lemma minimum_progress_Cons: "minimum_progress (v # vs) e = minimum_progress vs (min e v)"
  by (simp add: minimum_progress_def)

lemma minimum_progress_le: "minimum_progress vs e \<le> e"
proof (induction vs arbitrary: e)
  case (Cons v vs)
  have "minimum_progress vs (min e v) \<le> min e v" by (rule Cons.IH)
  then show ?case by (simp add: minimum_progress_Cons)
qed (simp add: minimum_progress_def)

lemma minimum_progress_attained: "minimum_progress vs e = e \<or> minimum_progress vs e \<in> List.set vs"
proof (induction vs arbitrary: e)
  case (Cons v vs)
  from Cons.IH [of "min e v"] show ?case by (auto simp: minimum_progress_Cons min_def split: if_splits)
qed (simp add: minimum_progress_def)

subsection \<open>Work that succeeds\<close>

definition code_total :: "('st, 'a, 'r) worker_code \<Rightarrow> bool" where
  "code_total code \<longleftrightarrow>
     (\<forall>w st. \<exists>r st'. wc_start code w st = Some (Inr r, st'))
     \<and> (\<forall>h a st. \<exists>a' st'. wc_add code h a st = Some (Inr a', st'))
     \<and> (\<forall>x y r st. \<exists>r' st'. wc_remove code x y r st = Some (Inr r', st'))
     \<and> (\<forall>r st. \<exists>r' st'. wc_flush code r st = Some (Inr r', st'))"

definition healthy :: "('st, 'a, 'r) hints_state \<Rightarrow> bool" where
  "healthy s \<longleftrightarrow> wp_aborted (hs_progress s) = 0 \<and> list_all (\<lambda>x. \<not> adder_failed (fst x)) (hs_adders s)
     \<and> list_all (\<lambda>x. \<not> remover_failed (fst x)) (hs_removers s)"

lemma list_all_update: "list_all P xs \<Longrightarrow> P x \<Longrightarrow> list_all P (xs[i := x])"
  by (auto simp: list_all_iff dest!: subsetD [OF set_update_subset_insert])

lemma adder_publish_ok:
  assumes inv: "hints_inv E sz s" and w: "w < length (hs_adders s)"
    and v: "wp_adders (hs_progress s) ! w \<le> v" "v \<le> E"
  shows "adder_call w (publish_adder w v) pc s =
    Some (set_adder w pc (s\<lparr>hs_progress := (hs_progress s)\<lparr>wp_adders := (wp_adders (hs_progress s))[w := v]\<rparr>\<rparr>))"
  using adder_facts [OF inv w] v by (simp add: adder_call_def publish_adder_eq)

lemma remover_publish_ok:
  assumes inv: "hints_inv E sz s" and w: "w < length (hs_removers s)"
    and v: "wp_removers (hs_progress s) ! w \<le> v" "v \<le> E"
  shows "remover_call w (publish_remover w v) pc s =
    Some (set_remover w pc (s\<lparr>hs_progress := (hs_progress s)\<lparr>wp_removers := (wp_removers (hs_progress s))[w := v]\<rparr>\<rparr>))"
  using remover_facts [OF inv w] v by (simp add: remover_call_def publish_remover_eq)

lemma adder_step_healthy:
  assumes inv: "hints_inv E sz s" and w: "w < length (hs_adders s)" and h: "healthy s" and code: "code_total code"
    and t: "adder_step code lead w (fst (hs_adders s ! w)) s = Some t"
  shows "healthy t"
proof -
  note f = adder_facts [OF inv w]
  have AE: "ra_next (hs_add_ranges s) \<le> E" using inv by (simp add: hints_inv_def)
  have ab: "check_abort (hs_progress s) = Ok ()" using h by (simp add: healthy_def check_abort_def)
  have "\<not> adder_failed (fst (hs_adders s ! w))" using h w by (simp add: healthy_def list_all_length)
  then show ?thesis
  proof (cases "fst (hs_adders s ! w)")
    case A_Claim
    then show ?thesis using t h by (auto simp: healthy_def split: option.splits intro!: list_all_update)
  next
    case (A_Exchange start stop)
    then show ?thesis using t h by (auto simp: healthy_def claim_exchange_def split: if_splits intro!: list_all_update)
  next
    case (A_Begin start stop)
    have "adder_call w (bnd (reads check_abort) (\<lambda>_. publish_adder w start)) (A_Wait start stop) s
        = adder_call w (publish_adder w start) (A_Wait start stop) s"
      using ab by (simp add: adder_call_def)
    then show ?thesis using t A_Begin f(4) AE h adder_publish_ok [OF inv w, of start "A_Wait start stop"]
      by (auto simp: healthy_def intro!: list_all_update)
  next
    case (A_Wait height stop)
    then show ?thesis using t h ab f(2) by (auto simp: healthy_def adder_call_def wait_for_remover_window_def
      wait_until_def split: if_splits intro!: list_all_update)
  next
    case (A_Index height stop)
    obtain a' st' where "wc_add code height (snd (hs_adders s ! w)) (hs_store s) = Some (Inr a', st')"
      using code by (meson code_total_def)
    then show ?thesis using t A_Index h by (auto simp: healthy_def intro!: list_all_update)
  next
    case (A_Publish height stop)
    have ok: "wp_adders (hs_progress s) ! w = height" "height < stop" "stop \<le> ra_next (hs_add_ranges s)"
      using f(4) A_Publish by simp_all
    have "checked_add height 1 = Some (height + 1)"
      using ok(2) unat_u64_less [of stop] by (simp add: checked_add_def word_less_nat_alt del: unat_u64_less)
    moreover have "wp_adders (hs_progress s) ! w \<le> height + 1" "height + 1 \<le> E"
      using less_Suc_u64 [OF ok(2)] ok AE by auto
    ultimately show ?thesis using t A_Publish h adder_publish_ok [OF inv w, of "height + 1"]
      by (auto simp: healthy_def intro!: list_all_update)
  next
    case A_Finish
    then show ?thesis using t f AE h adder_publish_ok [OF inv w, of E A_Done]
      by (auto simp: healthy_def finish_adder_def adder_call_def intro!: list_all_update)
  qed (use t in simp_all)
qed

lemma remover_step_healthy:
  assumes inv: "hints_inv E sz s" and w: "w < length (hs_removers s)" and h: "healthy s" and code: "code_total code"
    and t: "remover_step code w (fst (hs_removers s ! w)) s = Some t"
  shows "healthy t"
proof -
  note f = remover_facts [OF inv w]
  have RE: "ra_next (hs_remove_ranges s) \<le> E" using inv by (simp add: hints_inv_def)
  have ab: "check_abort (hs_progress s) = Ok ()" using h by (simp add: healthy_def check_abort_def)
  have "\<not> remover_failed (fst (hs_removers s ! w))" using h w by (simp add: healthy_def list_all_length)
  then show ?thesis
  proof (cases "fst (hs_removers s ! w)")
    case R_Start
    obtain r st' where "wc_start code w (hs_store s) = Some (Inr r, st')" using code by (meson code_total_def)
    then show ?thesis using t R_Start h by (auto simp: healthy_def intro!: list_all_update)
  next
    case R_Check
    then show ?thesis using t h ab by (auto simp: healthy_def remover_call_def intro!: list_all_update)
  next
    case (R_Scan i m)
    then show ?thesis using t h by (auto simp: healthy_def intro!: list_all_update)
  next
    case (R_Claim m)
    then show ?thesis using t h by (auto simp: healthy_def split: option.splits intro!: list_all_update)
  next
    case (R_Exchange m start stop)
    then show ?thesis using t h by (auto simp: healthy_def claim_exchange_def split: if_splits intro!: list_all_update)
  next
    case (R_Begin start stop)
    then show ?thesis using t f(4) RE h remover_publish_ok [OF inv w, of start "R_Pop start stop"]
      by (auto simp: healthy_def intro!: list_all_update)
  next
    case (R_Pop start stop)
    obtain r st' where "wc_remove code start stop (snd (hs_removers s ! w)) (hs_store s) = Some (Inr r, st')"
      using code by (meson code_total_def)
    then show ?thesis using t R_Pop h by (auto simp: healthy_def intro!: list_all_update)
  next
    case (R_Publish start stop)
    then show ?thesis using t f(4) RE h remover_publish_ok [OF inv w, of stop R_Check] by (auto simp: healthy_def intro!: list_all_update)
  next
    case (R_Announce height)
    then show ?thesis using t f(4) RE h remover_publish_ok [OF inv w, of height R_Required] by (auto simp: healthy_def intro!: list_all_update)
  next
    case (R_Wait required)
    then show ?thesis using t h ab f(2) by (auto simp: healthy_def remover_call_def wait_for_additions_def
      wait_until_def split: if_splits intro!: list_all_update)
  next
    case R_Flush
    obtain r st' where "wc_flush code (snd (hs_removers s ! w)) (hs_store s) = Some (Inr r, st')"
      using code by (meson code_total_def)
    then show ?thesis using t R_Flush h by (auto simp: healthy_def intro!: list_all_update)
  next
    case R_Finish
    then show ?thesis using t f RE h remover_publish_ok [OF inv w, of E R_Done]
      by (auto simp: healthy_def finish_remover_def remover_call_def intro!: list_all_update)
  qed (use t h in \<open>auto simp: healthy_def intro!: list_all_update\<close>)
qed

lemma hints_reachable_healthy:
  assumes init: "hints_init limit na nr E sz st a r = Ok s0" and "hints_reachable code lead s0 s" and code: "code_total code"
  shows "healthy s"
  using assms(2)
proof (induction rule: hints_reachable.induct)
  case start
  note i = hints_init_Ok [OF init]
  have "\<forall>w < na. \<not> adder_failed (fst (hs_adders s0 ! w))" "\<forall>w < nr. \<not> remover_failed (fst (hs_removers s0 ! w))"
    using i(9,10) by simp_all
  then show ?case using i(5-7) by (simp add: healthy_def list_all_length)
next
  case (step s t)
  note inv = hints_reachable_inv(1) [OF init step.hyps(1)]
  from step.hyps(2) show ?case
    using adder_step_healthy [OF inv _ step.IH code] remover_step_healthy [OF inv _ step.IH code] by cases
qed


subsection \<open>One remover\<close>

text \<open>A remover that is alone announces the frontier it then waits beyond.\<close>

definition alone :: "('st, 'a, 'r) hints_state \<Rightarrow> bool" where
  "alone s \<longleftrightarrow> (case fst (hs_removers s ! 0) of
      R_Announce h \<Rightarrow> h = ra_next (hs_remove_ranges s)
    | R_Required \<Rightarrow> wp_removers (hs_progress s) ! 0 = ra_next (hs_remove_ranges s)
    | R_Wait q \<Rightarrow> wp_removers (hs_progress s) ! 0 = ra_next (hs_remove_ranges s) \<and> q = next_range_end (hs_remove_ranges s)
    | _ \<Rightarrow> True)"

lemma publish_adder_frame: "publish_adder w v p = Some (r, p') \<Longrightarrow> wp_removers p' = wp_removers p"
  by (auto simp: publish_adder_def split: option.splits sum.splits)

lemma adder_call_frame:
  assumes "adder_call w m pc s = Some t" "\<And>r p'. m (hs_progress s) = Some (r, p') \<Longrightarrow> wp_removers p' = wp_removers (hs_progress s)"
  shows "hs_removers t = hs_removers s \<and> hs_remove_ranges t = hs_remove_ranges s
    \<and> wp_removers (hs_progress t) = wp_removers (hs_progress s)"
  using assms by (auto simp: adder_call_def split: option.splits sum.splits)

lemma adder_step_frame:
  assumes "adder_step code lead w pc s = Some t"
  shows "hs_removers t = hs_removers s \<and> hs_remove_ranges t = hs_remove_ranges s
    \<and> wp_removers (hs_progress t) = wp_removers (hs_progress s)"
proof (cases pc)
  case (A_Begin start stop)
  show ?thesis by (rule adder_call_frame [OF assms [unfolded A_Begin adder_step.simps]])
    (auto split: option.splits sum.splits dest: publish_adder_frame)
next
  case (A_Wait height stop)
  then show ?thesis using assms by (auto split: if_splits option.splits sum.splits dest!: adder_call_frame)
next
  case (A_Publish height stop)
  then show ?thesis using assms by (auto split: option.splits dest!: adder_call_frame dest: publish_adder_frame)
next
  case A_Finish
  show ?thesis by (rule adder_call_frame [OF assms [unfolded A_Finish adder_step.simps]])
    (auto simp: finish_adder_def dest: publish_adder_frame)
qed (use assms in \<open>auto simp: progress_abort_def claim_exchange_def split: option.splits sum.splits if_splits\<close>)

lemma remover_step_alone:
  assumes inv: "hints_inv E sz s" and n: "length (hs_removers s) = 1" and a: "alone s"
    and t: "remover_step code 0 (fst (hs_removers s ! 0)) s = Some t"
  shows "alone t"
proof -
  have w: "0 < length (hs_removers s)" using n by simp
  note f = remover_facts [OF inv w]
  show ?thesis
  proof (cases "fst (hs_removers s ! 0)")
    case R_Next
    then show ?thesis using t w by (auto simp: alone_def next_height_def)
  next
    case (R_Announce h)
    then show ?thesis using t a w f by (auto simp: alone_def remover_call_def publish_remover_eq split: if_splits)
  next
    case R_Required
    then show ?thesis using t a w by (auto simp: alone_def)
  qed (use t w in \<open>auto simp: alone_def remover_call_def finish_remover_def split: option.splits sum.splits prod.splits if_splits bool.splits\<close>)
qed

lemma hints_reachable_alone:
  assumes init: "hints_init limit na 1 E sz st a r = Ok s0" and "hints_reachable code lead s0 s"
  shows "alone s"
  using assms(2)
proof (induction rule: hints_reachable.induct)
  case start
  then show ?case using hints_init_Ok(10) [OF init] by (simp add: alone_def)
next
  case (step s t)
  note inv = hints_reachable_inv [OF init step.hyps(1)]
  from step.hyps(2) show ?case
  proof cases
    case (adder w)
    then show ?thesis using adder_step_frame step.IH by (fastforce simp: alone_def split: remover_pc.splits)
  next
    case (remover w)
    then show ?thesis using remover_step_alone [OF inv(1) inv(3) step.IH] inv(3) by simp
  qed
qed

text \<open>Where a thread can be without a step.\<close>

lemma adder_blocked:
  assumes inv: "hints_inv E sz s" and w: "w < length (hs_adders s)" and h: "healthy s" and code: "code_total code"
    and b: "adder_step code lead w (fst (hs_adders s ! w)) s = None"
  shows "fst (hs_adders s ! w) = A_Done \<or> (\<exists>height stop. fst (hs_adders s ! w) = A_Wait height stop \<and> height < stop
    \<and> saturating_add (minimum_remover (hs_progress s)) lead \<le> height)"
proof -
  note f = adder_facts [OF inv w]
  have nf: "\<not> adder_failed (fst (hs_adders s ! w))" using h w by (simp add: healthy_def list_all_length)
  have ab: "check_abort (hs_progress s) = Ok ()" using h by (simp add: healthy_def check_abort_def)
  obtain a' st' where add: "\<And>h. \<exists>a' st'. wc_add code h (snd (hs_adders s ! w)) (hs_store s) = Some (Inr a', st')"
    using code by (meson code_total_def)
  show ?thesis
  proof (cases "fst (hs_adders s ! w)")
    case (A_Index height stop)
    then show ?thesis using b add [of height] by auto
  next
    case (A_Wait height stop)
    then show ?thesis using b f(2) ab by (auto simp: adder_call_def wait_for_remover_window_def wait_until_def
      adder_can_process_def not_less split: if_splits option.splits)
  qed (use b nf f ab in \<open>auto simp: adder_call_def publish_adder_eq finish_adder_def claim_exchange_def
    split: option.splits if_splits\<close>)
qed

lemma remover_blocked:
  assumes inv: "hints_inv E sz s" and w: "w < length (hs_removers s)" and h: "healthy s" and code: "code_total code"
    and b: "remover_step code w (fst (hs_removers s ! w)) s = None"
  shows "fst (hs_removers s ! w) = R_Done \<or>
    (\<exists>q. fst (hs_removers s ! w) = R_Wait q \<and> minimum_adder (hs_progress s) < q)"
proof -
  note f = remover_facts [OF inv w]
  have nf: "\<not> remover_failed (fst (hs_removers s ! w))" using h w by (simp add: healthy_def list_all_length)
  have ab: "check_abort (hs_progress s) = Ok ()" using h by (simp add: healthy_def check_abort_def)
  show ?thesis
  proof (cases "fst (hs_removers s ! w)")
    case R_Start
    obtain r st' where "wc_start code w (hs_store s) = Some (Inr r, st')" using code by (meson code_total_def)
    then show ?thesis using b R_Start by simp
  next
    case (R_Pop start stop)
    obtain r st' where "wc_remove code start stop (snd (hs_removers s ! w)) (hs_store s) = Some (Inr r, st')"
      using code by (meson code_total_def)
    then show ?thesis using b R_Pop by simp
  next
    case R_Flush
    obtain r st' where "wc_flush code (snd (hs_removers s ! w)) (hs_store s) = Some (Inr r, st')"
      using code by (meson code_total_def)
    then show ?thesis using b R_Flush by simp
  qed (use b nf f ab in \<open>auto simp: remover_call_def publish_remover_eq finish_remover_def claim_exchange_def
    split: option.splits if_splits\<close>)
qed

lemma saturating_add_mono: "a \<le> b \<Longrightarrow> saturating_add c a \<le> saturating_add c b" for a b c :: u64
  by (auto simp: saturating_add_def word_le_nat_alt unat_add_nowrap)

lemma saturating_add_ge: "a \<le> saturating_add a b" for a b :: u64
  using word_n1_ge [of a] by (auto simp: saturating_add_def word_le_nat_alt unat_add_nowrap)

lemma saturating_add_gt:
  fixes a b e :: u64
  assumes "b \<noteq> 0" "a < e"
  shows "a < saturating_add a b"
proof (cases "unat a + unat b < 2 ^ 64")
  case True
  have "unat b \<noteq> 0" using assms(1) by (simp add: unat_eq_zero)
  then show ?thesis using True by (simp add: saturating_add_def word_less_nat_alt unat_add_nowrap)
next
  case False
  have "a < - 1" using assms(2) word_n1_ge [of e] by (auto intro: less_le_trans)
  then show ?thesis using False by (simp add: saturating_add_def)
qed

text \<open>With one remover and ranges within the lead, threads that are all blocked are all done.\<close>

lemma one_remover_progress:
  assumes init: "hints_init limit na 1 E sz st a r = Ok s0" and reach: "hints_reachable code lead s0 s"
    and code: "code_total code" and lead: "sz \<le> lead" and stuck: "\<And>t. \<not> hints_step code lead s t"
  shows "(\<forall>w < na. fst (hs_adders s ! w) = A_Done) \<and> fst (hs_removers s ! 0) = R_Done"
proof -
  note inv = hints_reachable_inv [OF init reach]
  note h = hints_reachable_healthy [OF init reach code]
  let ?vs = "wp_adders (hs_progress s)" and ?rs = "wp_removers (hs_progress s)" and ?R = "ra_next (hs_remove_ranges s)"
  have E: "ra_end (hs_remove_ranges s) = E" "ra_size (hs_remove_ranges s) = sz" "wp_end (hs_progress s) = E"
    "ra_next (hs_add_ranges s) \<le> E" "?R \<le> E"
    using inv(1) by (simp_all add: hints_inv_def)
  have w0: "0 < length (hs_removers s)" using inv(3) by simp
  note rf = remover_facts [OF inv(1) w0]
  obtain x where rs: "?rs = [x]"
  proof -
    have "length ?rs = length (remover_pcs s)" using inv(1) list_all2_lengthD unfolding hints_inv_def by blast
    then have "length ?rs = 1" using inv(3) by simp
    then show thesis using that by (metis length_0_conv length_Suc_conv One_nat_def)
  qed
  have minR: "minimum_remover (hs_progress s) = min E x" by (simp add: minimum_remover_def minimum_progress_def rs E)
  have ablk: "fst (hs_adders s ! w) = A_Done \<or> (\<exists>height stop. fst (hs_adders s ! w) = A_Wait height stop \<and> height < stop
      \<and> saturating_add (minimum_remover (hs_progress s)) lead \<le> height)" if "w < na" for w
    using adder_blocked [OF inv(1) _ h code] stuck hints_step.adder that inv(2) by (metis not_None_eq)
  have rblk: "fst (hs_removers s ! 0) = R_Done \<or> (\<exists>q. fst (hs_removers s ! 0) = R_Wait q \<and> minimum_adder (hs_progress s) < q)"
    using remover_blocked [OF inv(1) w0 h code] stuck hints_step.remover w0 by (metis not_None_eq)
  have heights: "height < E" if "w < na" "fst (hs_adders s ! w) = A_Wait height stop" "height < stop" for w height stop
    using adder_facts(4) [OF inv(1)] that inv(2) E(4) by fastforce
  from rblk show ?thesis
  proof
    assume d: "fst (hs_removers s ! 0) = R_Done"
    then have "x = E" using rf(4) rs by simp
    then have "E \<le> saturating_add (minimum_remover (hs_progress s)) lead" by (simp add: minR saturating_add_ge)
    then show ?thesis using ablk heights d by (meson leD order_trans)
  next
    assume "\<exists>q. fst (hs_removers s ! 0) = R_Wait q \<and> minimum_adder (hs_progress s) < q"
    then obtain q where q: "fst (hs_removers s ! 0) = R_Wait q" "minimum_adder (hs_progress s) < q" by blast
    have al: "x = ?R" "q = next_range_end (hs_remove_ranges s)"
      using hints_reachable_alone [OF init reach] q(1) rs by (simp_all add: alone_def)
    have qle: "q \<le> saturating_add ?R sz" "q \<le> E" using al(2) E by (simp_all add: next_range_end_def next_height_def)
    have mR: "minimum_remover (hs_progress s) = ?R" using minR al(1) E(5) by simp
    have "minimum_adder (hs_progress s) \<noteq> E" using q(2) qle(2) by auto
    then have "minimum_adder (hs_progress s) \<in> List.set ?vs"
      using minimum_progress_attained [of ?vs E] by (simp add: minimum_adder_def E)
    then obtain w where w: "w < na" "?vs ! w = minimum_adder (hs_progress s)"
      using inv(1,2) by (metis (no_types, lifting) hints_inv_def in_set_conv_nth length_map list_all2_lengthD)
    have ok: "adder_ok (ra_next (hs_add_ranges s)) E (?vs ! w) (fst (hs_adders s ! w))"
      using adder_facts(4) [OF inv(1)] w(1) inv(2) by simp
    from ablk [OF w(1)] have False
    proof
      assume "fst (hs_adders s ! w) = A_Done"
      then show False using ok w(2) \<open>minimum_adder (hs_progress s) \<noteq> E\<close> by simp
    next
      assume "\<exists>height stop. fst (hs_adders s ! w) = A_Wait height stop \<and> height < stop
        \<and> saturating_add (minimum_remover (hs_progress s)) lead \<le> height"
      then obtain height where "saturating_add ?R lead \<le> height" "height = minimum_adder (hs_progress s)"
        using ok w(2) mR by auto
      then show False using q(2) qle(1) saturating_add_mono [OF lead, of ?R] by (meson leD order_trans)
    qed
    then show ?thesis ..
  qed
qed

subsection \<open>Two removers: an interleaving that deadlocks\<close>

text \<open>What a state of a run with one adder looks like: the frontiers, the published heights, and
  where the threads are.\<close>

definition shape :: "u64 \<Rightarrow> u64 \<Rightarrow> u64 \<Rightarrow> u64 \<Rightarrow> u64 \<Rightarrow> u64 list \<Rightarrow> adder_pc \<Rightarrow> remover_pc list \<Rightarrow> ('st, 'a, 'r) hints_state \<Rightarrow> bool" where
  "shape E sz A R v rs pa ps s \<longleftrightarrow>
     hs_add_ranges s = \<lparr>ra_next = A, ra_end = E, ra_size = sz\<rparr>
     \<and> hs_remove_ranges s = \<lparr>ra_next = R, ra_end = E, ra_size = sz\<rparr>
     \<and> hs_progress s = \<lparr>wp_adders = [v], wp_removers = rs, wp_poisoned = False, wp_aborted = 0, wp_end = E\<rparr>
     \<and> map fst (hs_adders s) = [pa] \<and> map fst (hs_removers s) = ps"

definition leads ::
  "('st, 'a, 'r) worker_code \<Rightarrow> u64 \<Rightarrow> (('st, 'a, 'r) hints_state \<Rightarrow> bool) \<Rightarrow> (('st, 'a, 'r) hints_state \<Rightarrow> bool) \<Rightarrow> bool" where
  "leads code lead P Q \<longleftrightarrow> (\<forall>s. P s \<longrightarrow> (\<exists>t. (hints_step code lead)\<^sup>*\<^sup>* s t \<and> Q t))"

lemma leads_refl: "leads code lead P P"
  by (auto simp: leads_def)

lemma leads_trans [trans]: "leads code lead P Q \<Longrightarrow> leads code lead Q R \<Longrightarrow> leads code lead P R"
  unfolding leads_def by (meson rtranclp_trans)

lemma leads_adder:
  fixes code :: "('st, 'a, 'r) worker_code"
  assumes "\<And>s. shape E sz A R v rs pa ps s \<Longrightarrow> \<exists>t. adder_step code lead 0 pa s = Some t \<and> Q t"
  shows "leads code lead (shape E sz A R v rs pa ps) Q"
  unfolding leads_def
proof (intro allI impI)
  fix s :: "('st, 'a, 'r) hints_state" assume sh: "shape E sz A R v rs pa ps s"
  then obtain t where t: "adder_step code lead 0 pa s = Some t" "Q t" using assms by blast
  have "0 < length (hs_adders s)" "fst (hs_adders s ! 0) = pa"
    using sh by (auto simp: shape_def map_eq_Cons_conv)
  then have "hints_step code lead s t" using t(1) by (intro hints_step.adder) auto
  then show "\<exists>t. (hints_step code lead)\<^sup>*\<^sup>* s t \<and> Q t" using t(2) by blast
qed

lemma leads_remover:
  fixes code :: "('st, 'a, 'r) worker_code"
  assumes "\<And>s. shape E sz A R v rs pa ps s \<Longrightarrow> \<exists>t. remover_step code w (ps ! w) s = Some t \<and> Q t" "w < length ps"
  shows "leads code lead (shape E sz A R v rs pa ps) Q"
  unfolding leads_def
proof (intro allI impI)
  fix s :: "('st, 'a, 'r) hints_state" assume sh: "shape E sz A R v rs pa ps s"
  then obtain t where t: "remover_step code w (ps ! w) s = Some t" "Q t" using assms by blast
  have "w < length (hs_removers s)" "fst (hs_removers s ! w) = ps ! w"
    using sh assms(2) by (auto simp: shape_def)
  then have "hints_step code lead s t" using t(1) by (intro hints_step.remover) auto
  then show "\<exists>t. (hints_step code lead)\<^sup>*\<^sup>* s t \<and> Q t" using t(2) by blast
qed

lemmas shape_simps = shape_def map_eq_Cons_conv claim_exchange_def adder_call_def remover_call_def check_abort_def
  publish_adder_eq publish_remover_eq map_update

lemma adder_claims:
  assumes "A < E" "B = min (saturating_add A sz) E" "v \<le> A"
  shows "leads code lead (shape E sz A R v rs A_Claim ps) (shape E sz B R A rs (A_Wait A B) ps)"
proof -
  have "leads code lead (shape E sz A R v rs A_Claim ps) (shape E sz A R v rs (A_Exchange A B) ps)"
    by (rule leads_adder) (use assms in \<open>auto simp: shape_simps claim_load_def Let_def not_le\<close>)
  also have "leads code lead \<dots> (shape E sz B R v rs (A_Begin A B) ps)"
    by (rule leads_adder) (auto simp: shape_simps)
  also have "leads code lead \<dots> (shape E sz B R A rs (A_Wait A B) ps)"
    by (rule leads_adder) (use assms in \<open>auto simp: shape_simps\<close>)
  finally show ?thesis .
qed

lemma adder_adds:
  assumes "h < B" "B \<le> E" "h < saturating_add (minimum_progress rs E) lead" "code_total code"
  shows "leads code lead (shape E sz A R h rs (A_Wait h B) ps) (shape E sz A R (h + 1) rs (A_Wait (h + 1) B) ps)"
proof -
  have lt: "h < h + 1" "h + 1 \<le> B" using less_Suc_u64 [OF assms(1)] by auto
  have ca: "checked_add h 1 = Some (h + 1)"
    using assms(1) unat_u64_less [of B] by (simp add: checked_add_def word_less_nat_alt del: unat_u64_less)
  have "leads code lead (shape E sz A R h rs (A_Wait h B) ps) (shape E sz A R h rs (A_Index h B) ps)"
    by (rule leads_adder) (use assms in \<open>auto simp: shape_simps wait_for_remover_window_def wait_until_def
      adder_can_process_def minimum_remover_def\<close>)
  also have "leads code lead \<dots> (shape E sz A R h rs (A_Publish h B) ps)"
  proof (rule leads_adder)
    fix s :: "('a, 'b, 'c) hints_state" assume "shape E sz A R h rs (A_Index h B) ps s"
    moreover obtain a' st' where "wc_add code h (snd (hs_adders s ! 0)) (hs_store s) = Some (Inr a', st')"
      using assms(4) by (meson code_total_def)
    ultimately show "\<exists>t. adder_step code lead 0 (A_Index h B) s = Some t \<and> shape E sz A R h rs (A_Publish h B) ps t"
      by (auto simp: shape_simps)
  qed
  also have "leads code lead \<dots> (shape E sz A R (h + 1) rs (A_Wait (h + 1) B) ps)"
    by (rule leads_adder) (use assms lt ca in \<open>auto simp: shape_simps\<close>)
  finally show ?thesis .
qed

lemma adder_adds_range:
  assumes "h \<le> B" "B \<le> E" "B \<le> saturating_add (minimum_progress rs E) lead" "code_total code"
  shows "leads code lead (shape E sz A R h rs (A_Wait h B) ps) (shape E sz A R B rs A_Claim ps)"
  using assms(1)
proof (induction "unat B - unat h" arbitrary: h)
  case 0
  then have "h = B" by (simp add: word_le_nat_alt word_unat_eq_iff)
  then show ?case by (intro leads_adder) (auto simp: shape_simps)
next
  case (Suc n)
  then have lt: "h < B" by (simp add: word_less_nat_alt)
  then have "n = unat B - unat (h + 1)" "h + 1 \<le> B" using Suc.hyps(2) less_Suc_u64 [OF lt] unat_Suc_u64 [OF lt] by simp_all
  then have "leads code lead (shape E sz A R (h + 1) rs (A_Wait (h + 1) B) ps) (shape E sz A R B rs A_Claim ps)"
    by (rule Suc.hyps(1))
  then show ?case
    by (rule leads_trans [OF adder_adds [OF lt assms(2) order_less_le_trans [OF lt assms(3)] assms(4)]])
qed

text \<open>A remover that checks, and claims, removes and publishes one range.\<close>

lemma remover_scans:
  assumes "w < length ps" "ps ! w = R_Check" "v \<le> E"
  shows "leads code lead (shape E sz A R v rs pa ps) (shape E sz A R v rs pa (ps[w := R_Claim v]))"
proof -
  have "leads code lead (shape E sz A R v rs pa ps) (shape E sz A R v rs pa (ps[w := R_Scan 0 E]))"
    by (rule leads_remover [of _ _ _ _ _ _ _ _ _ w]) (use assms in \<open>auto simp: shape_simps\<close>)
  also have "leads code lead \<dots> (shape E sz A R v rs pa (ps[w := R_Scan 1 v]))"
    by (rule leads_remover [of _ _ _ _ _ _ _ _ _ w]) (use assms in \<open>auto simp: shape_simps\<close>)
  also have "leads code lead \<dots> (shape E sz A R v rs pa (ps[w := R_Claim v]))"
    by (rule leads_remover [of _ _ _ _ _ _ _ _ _ w]) (use assms in \<open>auto simp: shape_simps\<close>)
  finally show ?thesis .
qed

lemma remover_removes:
  assumes "w < length ps" "ps ! w = R_Claim v" "R < B" "B = min (saturating_add R sz) E" "B \<le> v" "v \<le> E"
    "length rs = length ps" "rs ! w \<le> R" "code_total code"
  shows "leads code lead (shape E sz A R v rs pa ps) (shape E sz A B v (rs[w := B]) pa (ps[w := R_Check]))"
proof -
  have "\<not> v \<le> R" using assms(3,5) by (meson leD order_less_le_trans)
  moreover have "min v E = v" using assms(6) by (simp add: min_absorb1)
  ultimately have cl: "claim_load v \<lparr>ra_next = R, ra_end = E, ra_size = sz\<rparr> = Some (R, B)"
    using assms(4,5) by (simp add: claim_load_def Let_def not_less min_le_iff_disj)
  have "leads code lead (shape E sz A R v rs pa ps) (shape E sz A R v rs pa (ps[w := R_Exchange v R B]))"
    by (rule leads_remover [of _ _ _ _ _ _ _ _ _ w]) (use assms cl in \<open>auto simp: shape_simps\<close>)
  also have "leads code lead \<dots> (shape E sz A B v rs pa (ps[w := R_Begin R B]))"
    by (rule leads_remover [of _ _ _ _ _ _ _ _ _ w]) (use assms in \<open>auto simp: shape_simps\<close>)
  also have "leads code lead \<dots> (shape E sz A B v (rs[w := R]) pa (ps[w := R_Pop R B]))"
    by (rule leads_remover [of _ _ _ _ _ _ _ _ _ w]) (use assms in \<open>auto simp: shape_simps\<close>)
  also have "leads code lead \<dots> (shape E sz A B v (rs[w := R]) pa (ps[w := R_Publish R B]))"
  proof (rule leads_remover [of _ _ _ _ _ _ _ _ _ w])
    fix s :: "('a, 'b, 'c) hints_state" assume "shape E sz A B v (rs[w := R]) pa (ps[w := R_Pop R B]) s"
    moreover obtain r' st' where "wc_remove code R B (snd (hs_removers s ! w)) (hs_store s) = Some (Inr r', st')"
      using assms(9) by (meson code_total_def)
    ultimately show "\<exists>t. remover_step code w (ps[w := R_Pop R B] ! w) s = Some t \<and>
        shape E sz A B v (rs[w := R]) pa (ps[w := R_Publish R B]) t"
      using assms(1) by (auto simp: shape_simps)
  qed (use assms in simp)
  also have "leads code lead \<dots> (shape E sz A B v (rs[w := B]) pa (ps[w := R_Check]))"
    by (rule leads_remover [of _ _ _ _ _ _ _ _ _ w])
      (use assms(1,5-7) less_imp_le [OF assms(3)] in \<open>auto simp: shape_simps\<close>)
  finally show ?thesis .
qed

text \<open>A remover that finds nothing safe to claim announces the frontier.\<close>

lemma remover_announces:
  assumes "w < length ps" "ps ! w = R_Claim v" "v \<le> R" "R < E" "length rs = length ps" "rs ! w \<le> R"
  shows "leads code lead (shape E sz A R v rs pa ps) (shape E sz A R v (rs[w := R]) pa (ps[w := R_Required]))"
proof -
  have "leads code lead (shape E sz A R v rs pa ps) (shape E sz A R v rs pa (ps[w := R_Idle]))"
    by (rule leads_remover [of _ _ _ _ _ _ _ _ _ w])
      (use assms in \<open>auto simp: shape_simps claim_load_def Let_def min_def\<close>)
  also have "leads code lead \<dots> (shape E sz A R v rs pa (ps[w := R_Next]))"
    by (rule leads_remover [of _ _ _ _ _ _ _ _ _ w]) (use assms in \<open>auto simp: shape_simps is_finished_def next_height_def\<close>)
  also have "leads code lead \<dots> (shape E sz A R v rs pa (ps[w := R_Announce R]))"
    by (rule leads_remover [of _ _ _ _ _ _ _ _ _ w]) (use assms in \<open>auto simp: shape_simps next_height_def\<close>)
  also have "leads code lead \<dots> (shape E sz A R v (rs[w := R]) pa (ps[w := R_Required]))"
    by (rule leads_remover [of _ _ _ _ _ _ _ _ _ w]) (use assms in \<open>auto simp: shape_simps\<close>)
  finally show ?thesis .
qed


text \<open>One round with the second remover asleep between its announcement and its requirement.\<close>

lemma deadlock_round:
  assumes "unat k + unat sz \<le> unat lead" "sz \<noteq> 0" "lead < E" "code_total code"
  shows "leads code lead (shape E sz k k k [k, 0] A_Claim [R_Check, R_Required])
    (shape E sz (k + sz) (k + sz) (k + sz) [k + sz, 0] A_Claim [R_Check, R_Required])"
proof -
  let ?B = "k + sz"
  have l64: "unat k + unat sz < 2 ^ 64" using assms(1) unat_u64_less [of lead] by (simp del: unat_u64_less)
  have uB: "unat ?B = unat k + unat sz" using l64 by (simp add: unat_add_nowrap)
  have "unat sz \<noteq> 0" using assms(2) by (simp add: unat_eq_zero)
  then have B: "k < ?B" "?B \<le> lead" "?B \<le> E" "k < E"
    using assms(1,3) uB by (simp_all add: word_less_nat_alt word_le_nat_alt)
  have eB: "?B = min (saturating_add k sz) E" using l64 B(3) by (simp add: saturating_add_def min_absorb1)
  have win: "saturating_add (minimum_progress [k, 0] E) lead = lead"
    by (simp add: minimum_progress_def saturating_add_def)
  have "leads code lead (shape E sz k k k [k, 0] A_Claim [R_Check, R_Required])
      (shape E sz ?B k k [k, 0] (A_Wait k ?B) [R_Check, R_Required])"
    by (rule adder_claims [OF B(4) eB]) simp
  also have "leads code lead \<dots> (shape E sz ?B k ?B [k, 0] A_Claim [R_Check, R_Required])"
    by (rule adder_adds_range) (use B win assms(4) in simp_all)
  also have "leads code lead \<dots> (shape E sz ?B k ?B [k, 0] A_Claim [R_Claim ?B, R_Required])"
    using remover_scans [of 0 "[R_Check, R_Required]" ?B E code lead] B by simp
  also have "leads code lead \<dots> (shape E sz ?B ?B ?B [?B, 0] A_Claim [R_Check, R_Required])"
    using remover_removes [of 0 "[R_Claim ?B, R_Required]" ?B k ?B sz E "[k, 0]" code lead ?B] B eB assms(4) by simp
  finally show ?thesis .
qed

lemma deadlock_rounds:
  assumes "n * unat sz \<le> unat lead" "sz \<noteq> 0" "lead < E" "code_total code"
  shows "leads code lead (shape E sz 0 0 0 [0, 0] A_Claim [R_Check, R_Required])
    (shape E sz (word_of_nat n * sz) (word_of_nat n * sz) (word_of_nat n * sz) [word_of_nat n * sz, 0] A_Claim [R_Check, R_Required])"
  using assms(1)
proof (induction n)
  case 0
  then show ?case by (simp add: leads_refl)
next
  case (Suc n)
  let ?k = "word_of_nat n * sz"
  have "unat (word_of_nat (n * unat sz) :: u64) \<le> n * unat sz" by (simp add: unsigned_of_nat take_bit_nat_less_eq_self del: of_nat_mult)
  then have "unat ?k \<le> n * unat sz" by simp
  then have "leads code lead (shape E sz ?k ?k ?k [?k, 0] A_Claim [R_Check, R_Required])
    (shape E sz (?k + sz) (?k + sz) (?k + sz) [?k + sz, 0] A_Claim [R_Check, R_Required])"
    using Suc.prems by (intro deadlock_round assms) simp
  moreover have "?k + sz = word_of_nat (Suc n) * sz" by (simp add: algebra_simps)
  ultimately show ?case using Suc.IH Suc.prems leads_trans by fastforce
qed


text \<open>From the start to the first round: the second remover announces height 0 and goes to sleep.\<close>

lemma deadlock_start:
  assumes "0 < E" "code_total code"
  shows "leads code lead (shape E sz 0 0 0 [0, 0] A_Claim [R_Start, R_Start])
    (shape E sz 0 0 0 [0, 0] A_Claim [R_Check, R_Required])"
proof -
  have start: "leads code lead (shape E sz 0 0 0 rs A_Claim ps) (shape E sz 0 0 0 rs A_Claim (ps[w := R_Check]))"
    if "w < length ps" "ps ! w = R_Start" for w rs ps
  proof (rule leads_remover [OF _ that(1)])
    fix s :: "('a, 'b, 'c) hints_state" assume "shape E sz 0 0 0 rs A_Claim ps s"
    moreover obtain r' st' where "wc_start code w (hs_store s) = Some (Inr r', st')"
      using assms(2) by (meson code_total_def)
    ultimately show "\<exists>t. remover_step code w (ps ! w) s = Some t \<and> shape E sz 0 0 0 rs A_Claim (ps[w := R_Check]) t"
      using that by (auto simp: shape_simps)
  qed
  have "leads code lead (shape E sz 0 0 0 [0, 0] A_Claim [R_Start, R_Start]) (shape E sz 0 0 0 [0, 0] A_Claim [R_Check, R_Start])"
    using start [of 0 "[R_Start, R_Start]"] by simp
  also have "leads code lead \<dots> (shape E sz 0 0 0 [0, 0] A_Claim [R_Check, R_Check])"
    using start [of 1 "[R_Check, R_Start]"] by simp
  also have "leads code lead \<dots> (shape E sz 0 0 0 [0, 0] A_Claim [R_Check, R_Claim 0])"
    using remover_scans [of 1 "[R_Check, R_Check]" 0 E code lead] by simp
  also have "leads code lead \<dots> (shape E sz 0 0 0 [0, 0] A_Claim [R_Check, R_Required])"
    using remover_announces [of 1 "[R_Check, R_Claim 0]" 0 0 E "[0, 0]" code lead] assms(1) by simp
  finally show ?thesis .
qed

text \<open>The end: the adder waits for the removers' window, both removers for the adder.\<close>

lemma deadlock_end:
  assumes "lead < E" "B = min (saturating_add lead sz) E"
  shows "leads code lead (shape E sz lead lead lead [lead, 0] A_Claim [R_Check, R_Required])
    (shape E sz B lead lead [lead, 0] (A_Wait lead B) [R_Wait B, R_Wait B])"
proof -
  have req: "leads code lead (shape E sz B lead lead rs pa ps) (shape E sz B lead lead rs pa (ps[w := R_Wait B]))"
    if "w < length ps" "ps ! w = R_Required" for w rs pa ps
    by (rule leads_remover [OF _ that(1)])
      (use assms that in \<open>auto simp: shape_simps next_range_end_def next_height_def\<close>)
  have "leads code lead (shape E sz lead lead lead [lead, 0] A_Claim [R_Check, R_Required])
      (shape E sz B lead lead [lead, 0] (A_Wait lead B) [R_Check, R_Required])"
    by (rule adder_claims [OF assms]) simp
  also have "leads code lead \<dots> (shape E sz B lead lead [lead, 0] (A_Wait lead B) [R_Claim lead, R_Required])"
    using remover_scans [of 0 "[R_Check, R_Required]" lead E code lead] assms(1) by simp
  also have "leads code lead \<dots> (shape E sz B lead lead [lead, 0] (A_Wait lead B) [R_Required, R_Required])"
    using remover_announces [of 0 "[R_Claim lead, R_Required]" lead lead E "[lead, 0]" code lead] assms(1) by simp
  also have "leads code lead \<dots> (shape E sz B lead lead [lead, 0] (A_Wait lead B) [R_Wait B, R_Required])"
    using req [of 0 "[R_Required, R_Required]"] by simp
  also have "leads code lead \<dots> (shape E sz B lead lead [lead, 0] (A_Wait lead B) [R_Wait B, R_Wait B])"
    using req [of 1 "[R_Wait B, R_Required]"] by simp
  finally show ?thesis .
qed

lemma deadlock_stuck:
  assumes "shape E sz B lead lead [lead, 0] (A_Wait lead B) [R_Wait B, R_Wait B] s" "lead < B" "lead < E"
  shows "\<not> hints_step code lead s t"
proof
  have win: "saturating_add (minimum_progress [lead, 0] E) lead = lead"
    by (simp add: minimum_progress_def saturating_add_def)
  have minA: "minimum_progress [lead] E = lead" using assms(3) by (simp add: minimum_progress_def min_absorb2)
  assume "hints_step code lead s t"
  then show False
  proof cases
    case (adder w)
    then show False using assms win
      by (auto simp: shape_simps wait_for_remover_window_def wait_until_def adder_can_process_def minimum_remover_def)
  next
    case (remover w)
    have "remover_pcs s = [R_Wait B, R_Wait B]" using assms(1) by (simp add: shape_def)
    then have "fst (hs_removers s ! w) = R_Wait B" using remover(1) by (auto simp: map_eq_Cons_conv less_Suc_eq)
    then show False using remover(2) assms minA iffD2 [OF not_le assms(2)]
      by (auto simp: shape_simps wait_for_additions_def wait_until_def minimum_adder_def)
  qed
qed

lemma reachable_rtranclp: "(hints_step code lead)\<^sup>*\<^sup>* s t \<Longrightarrow> hints_reachable code lead s t"
  by (induction rule: rtranclp_induct) (auto intro: hints_reachable.intros)

lemma two_removers_deadlock:
  assumes init: "hints_init limit 1 2 E sz st a r = Ok s0" and code: "code_total code"
    and lead: "unat sz dvd unat lead" "lead < E"
  shows "\<exists>s. hints_reachable code lead s0 s \<and> (\<forall>t. \<not> hints_step code lead s t)
    \<and> (\<exists>height stop. fst (hs_adders s ! 0) = A_Wait height stop \<and> height < stop)
    \<and> (\<forall>w < 2. \<exists>q. fst (hs_removers s ! w) = R_Wait q)"
proof -
  have sz: "sz \<noteq> 0" by (rule hints_init_Ok(3) [OF init])
  let ?B = "min (saturating_add lead sz) E"
  obtain n where n: "n * unat sz = unat lead" using lead(1) by (metis dvdE mult.commute)
  have nl: "word_of_nat n * sz = lead"
    by (metis n of_nat_mult of_nat_unat ucast_id)
  have "lead < saturating_add lead sz" by (rule saturating_add_gt [OF sz lead(2)])
  then have B: "lead < ?B" using lead(2) by simp
  have "shape E sz 0 0 0 [0, 0] A_Claim [R_Start, R_Start] s0"
    using init by (auto simp: hints_init_def range_allocator_new_def worker_progress_new_def progress_slots_def
      rbind_Ok_iff hints_start_def shape_def numeral_2_eq_2 split: if_splits)
  moreover have "leads code lead (shape E sz 0 0 0 [0, 0] A_Claim [R_Start, R_Start])
      (shape E sz ?B lead lead [lead, 0] (A_Wait lead ?B) [R_Wait ?B, R_Wait ?B])"
  proof -
    have "leads code lead (shape E sz 0 0 0 [0, 0] A_Claim [R_Start, R_Start])
        (shape E sz 0 0 0 [0, 0] A_Claim [R_Check, R_Required])"
      by (rule deadlock_start [OF _ code]) (rule order_le_less_trans [OF _ lead(2)], simp)
    also have "leads code lead \<dots> (shape E sz lead lead lead [lead, 0] A_Claim [R_Check, R_Required])"
      using deadlock_rounds [OF _ sz lead(2) code, of n] n nl by simp
    also have "leads code lead \<dots> (shape E sz ?B lead lead [lead, 0] (A_Wait lead ?B) [R_Wait ?B, R_Wait ?B])"
      by (rule deadlock_end [OF lead(2) refl])
    finally show ?thesis .
  qed
  ultimately obtain s where s: "(hints_step code lead)\<^sup>*\<^sup>* s0 s"
    "shape E sz ?B lead lead [lead, 0] (A_Wait lead ?B) [R_Wait ?B, R_Wait ?B] s"
    unfolding leads_def by blast
  have pcs: "adder_pcs s = [A_Wait lead ?B]" "remover_pcs s = [R_Wait ?B, R_Wait ?B]" using s(2) by (simp_all add: shape_def)
  show ?thesis
  proof (intro exI [of _ s] conjI allI impI)
    show "hints_reachable code lead s0 s" by (rule reachable_rtranclp [OF s(1)])
    show "\<not> hints_step code lead s t" for t by (rule deadlock_stuck [OF s(2) B lead(2)])
    show "\<exists>height stop. fst (hs_adders s ! 0) = A_Wait height stop \<and> height < stop"
      using pcs(1) B by (auto simp: map_eq_Cons_conv)
    show "\<exists>q. fst (hs_removers s ! w) = R_Wait q" if "w < 2" for w
      using pcs(2) that by (auto simp: map_eq_Cons_conv less_2_cases_iff)
  qed
qed

end
