(* ===== verification/Hints_Finish.thy ===== *)
theory Hints_Finish
  imports Hints_Live
begin

text \<open>
  Completion: threads that are all done have added and removed every height; and with one remover
  every step brings the workers closer to that, so a run cannot go on forever.
\<close>

subsection \<open>What done threads leave\<close>

lemma done_added:
  assumes inv: "hints_inv E sz s" and d: "\<forall>w < length (hs_adders s). fst (hs_adders s ! w) = A_Done" and ne: "hs_adders s \<noteq> []"
  shows "added (hs_log s) = {..<E}"
proof -
  have led: "ledger (ra_next (hs_add_ranges s)) (adders_own s) (adders_pend s) (added (hs_log s))"
    using inv by (simp add: hints_inv_def)
  have "adders_pend s w = {}" for w using d by (simp add: adders_pend_def thread_sets_def adder_pend_def)
  moreover have "ra_next (hs_add_ranges s) = E" using adder_facts(4) [OF inv, of 0] d ne by simp
  ultimately show ?thesis using led by (auto simp: ledger_def)
qed

lemma done_removed:
  assumes inv: "hints_inv E sz s" and d: "\<forall>w < length (hs_removers s). fst (hs_removers s ! w) = R_Done" and ne: "hs_removers s \<noteq> []"
  shows "removed (hs_log s) = {..<E}"
proof -
  have led: "ledger (ra_next (hs_remove_ranges s)) (removers_own s) (removers_pend s) (removed (hs_log s))"
    using inv by (simp add: hints_inv_def)
  have "removers_pend s w = {}" for w using d by (simp add: removers_pend_def thread_sets_def remover_pend_def)
  moreover have "ra_next (hs_remove_ranges s) = E" using remover_facts(4) [OF inv, of 0] d ne by simp
  ultimately show ?thesis using led by (auto simp: ledger_def)
qed

subsection \<open>Adders\<close>

text \<open>What an adder has left to do in its range; an exchange that lost its race goes back to the claim.\<close>

fun adder_weight :: "u64 \<Rightarrow> adder_pc \<Rightarrow> nat" where
  "adder_weight A A_Claim = 2"
| "adder_weight A (A_Exchange start stop) = (if start = A then 1 else 3)"
| "adder_weight A (A_Begin start stop) = 4 + 3 * (unat stop - unat start)"
| "adder_weight A (A_Wait height stop) = 3 + 3 * (unat stop - unat height)"
| "adder_weight A (A_Index height stop) = 2 + 3 * (unat stop - unat height)"
| "adder_weight A (A_Publish height stop) = 1 + 3 * (unat stop - unat height)"
| "adder_weight A A_Finish = 1"
| "adder_weight A _ = 0"

lemma claim_load_range: "claim_load m ra = Some (start, stop) \<Longrightarrow> start = ra_next ra \<and> stop \<le> ra_end ra"
  by (auto simp: claim_load_def Let_def split: if_splits)

lemma adder_step_weight:
  assumes inv: "hints_inv E sz s" and w: "w < length (hs_adders s)" and h: "healthy t"
    and t: "adder_step code lead w (fst (hs_adders s ! w)) s = Some t"
  shows "ra_next (hs_add_ranges s) < ra_next (hs_add_ranges t)
    \<or> ra_next (hs_add_ranges t) = ra_next (hs_add_ranges s)
      \<and> adder_pcs t = (adder_pcs s)[w := fst (hs_adders t ! w)]
      \<and> adder_weight (ra_next (hs_add_ranges s)) (fst (hs_adders t ! w))
          < adder_weight (ra_next (hs_add_ranges s)) (fst (hs_adders s ! w))"
proof -
  note f = adder_facts [OF inv w]
  have nf: "\<not> adder_failed (fst (hs_adders t ! w))" if "length (hs_adders t) = length (hs_adders s)"
    using h w that by (simp add: healthy_def list_all_length)
  show ?thesis
  proof (cases "fst (hs_adders s ! w)")
    case A_Claim
    then show ?thesis using t w by (auto simp: map_update dest!: claim_load_range split: option.splits)
  next
    case (A_Exchange start stop)
    then show ?thesis using t f(4) w by (auto simp: map_update claim_exchange_def split: if_splits)
  next
    case (A_Begin start stop)
    then show ?thesis using t nf w by (auto simp: map_update adder_call_def split: option.splits sum.splits)
  next
    case (A_Wait height stop)
    then show ?thesis using t nf w by (auto simp: map_update adder_call_def split: if_splits option.splits sum.splits)
  next
    case (A_Index height stop)
    then show ?thesis using t nf w by (auto simp: map_update split: option.splits sum.splits)
  next
    case (A_Publish height stop)
    have lt: "height < stop" using f(4) A_Publish by simp
    have "unat (height + 1) = Suc (unat height)" "unat height < unat stop"
      using unat_Suc_u64 [OF lt] lt by (simp_all add: word_less_nat_alt)
    then show ?thesis using t A_Publish nf w
      by (auto simp: map_update adder_call_def checked_add_def split: if_splits option.splits sum.splits)
  next
    case A_Finish
    then show ?thesis using t nf w by (auto simp: map_update adder_call_def split: option.splits sum.splits)
  qed (use t nf w in \<open>auto simp: map_update\<close>)
qed

subsection \<open>One remover\<close>

text \<open>\<open>seen N vs pc\<close>: whatever the remover has read and will read of the published heights is at least
  \<open>N\<close>, the end of the next range. It then claims that range; otherwise it goes round once more.\<close>

fun seen :: "u64 \<Rightarrow> u64 list \<Rightarrow> remover_pc \<Rightarrow> bool" where
  "seen N vs (R_Scan i m) \<longleftrightarrow> N \<le> m \<and> below N (drop i vs)"
| "seen N vs (R_Claim m) \<longleftrightarrow> N \<le> m"
| "seen N vs _ \<longleftrightarrow> below N vs"

fun remover_rank :: "bool \<Rightarrow> u64 \<Rightarrow> nat \<Rightarrow> bool \<Rightarrow> remover_pc \<Rightarrow> nat" where
  "remover_rank fin R L good R_Start = 25 + 2 * L"
| "remover_rank fin R L good (R_Begin start stop) = 24 + 2 * L"
| "remover_rank fin R L good (R_Pop start stop) = 23 + 2 * L"
| "remover_rank fin R L good (R_Publish start stop) = 22 + 2 * L"
| "remover_rank fin R L good R_Check = (if good then 8 + L else 21 + 2 * L)"
| "remover_rank fin R L good (R_Scan i m) = (if good then 7 + (L - i) else 20 + L + (L - i))"
| "remover_rank fin R L good (R_Claim m) = (if good then 6 else 19 + L)"
| "remover_rank fin R L good (R_Exchange m start stop) = (if start = R then 5 else 20 + L)"
| "remover_rank fin R L good R_Idle = (if fin then 4 else 18 + L)"
| "remover_rank fin R L good R_Next = 17 + L"
| "remover_rank fin R L good (R_Announce h) = 16 + L"
| "remover_rank fin R L good R_Required = 15 + L"
| "remover_rank fin R L good (R_Wait q) = 14 + L"
| "remover_rank fin R L good R_Flush = 3"
| "remover_rank fin R L good R_Finish = 2"
| "remover_rank fin R L good _ = 0"

definition remover_weight :: "('st, 'a, 'r) hints_state \<Rightarrow> nat" where
  "remover_weight s =
     (let ra = hs_remove_ranges s; vs = wp_adders (hs_progress s); pc = fst (hs_removers s ! 0) in
      remover_rank (is_finished ra) (ra_next ra) (length vs) (seen (next_range_end ra) vs pc) pc)"

lemma below_minimum: "below N (wp_adders p) \<longleftrightarrow> N \<le> minimum_adder p" if "N \<le> wp_end p"
proof -
  have "N \<le> minimum_progress vs e \<longleftrightarrow> N \<le> e \<and> below N vs" for vs and e :: u64
    by (induction vs arbitrary: e) (auto simp: minimum_progress_Cons below_def minimum_progress_def [of "[]"])
  then show ?thesis using that by (simp add: minimum_adder_def)
qed

lemma claim_load_seen:
  assumes "next_range_end ra \<le> m" "ra_size ra \<noteq> 0" "ra_next ra < ra_end ra"
  shows "claim_load m ra = Some (ra_next ra, next_range_end ra)"
proof -
  let ?n = "saturating_add (ra_next ra) (ra_size ra)"
  have "ra_next ra < ?n"
    using assms(2,3) by (rule saturating_add_gt)
  then have "ra_next ra < next_range_end ra" using assms(3) by (simp add: next_range_end_def next_height_def)
  moreover have "next_range_end ra \<le> ra_end ra" by (simp add: next_range_end_def)
  ultimately have "\<not> min m (ra_end ra) \<le> ra_next ra" "\<not> next_range_end ra > min m (ra_end ra)"
    using assms(1) by (auto simp: min_le_iff_disj min_less_iff_disj)
  then show ?thesis by (simp add: claim_load_def Let_def next_range_end_def next_height_def)
qed

lemma publish_remover_frame: "publish_remover w v p = Some (r, p') \<Longrightarrow> wp_adders p' = wp_adders p"
  by (auto simp: publish_remover_def split: option.splits sum.splits)

lemma remover_step_weight:
  assumes inv: "hints_inv E sz s" and n: "length (hs_removers s) = 1" and h: "healthy t" and a: "alone s" and sz: "sz \<noteq> 0"
    and t: "remover_step code 0 (fst (hs_removers s ! 0)) s = Some t"
  shows "ra_next (hs_remove_ranges s) < ra_next (hs_remove_ranges t)
    \<or> ra_next (hs_remove_ranges t) = ra_next (hs_remove_ranges s) \<and> remover_weight t < remover_weight s"
proof -
  have w: "0 < length (hs_removers s)" using n by simp
  note f = remover_facts [OF inv w]
  let ?ra = "hs_remove_ranges s" and ?vs = "wp_adders (hs_progress s)"
  have E: "ra_end ?ra = E" "ra_size ?ra = sz" "ra_next ?ra \<le> E" "wp_end (hs_progress s) = E"
    using inv by (simp_all add: hints_inv_def)
  have N: "next_range_end ?ra \<le> E" using E(1) by (simp add: next_range_end_def)
  have nf: "\<not> remover_failed (fst (hs_removers t ! 0))" if "length (hs_removers t) = length (hs_removers s)"
    using h w that by (simp add: healthy_def list_all_length)
  show ?thesis
  proof (cases "fst (hs_removers s ! 0)")
    case R_Check
    then show ?thesis using t w N nf E(4)
      by (auto simp: remover_weight_def Let_def remover_call_def split: option.splits sum.splits)
  next
    case (R_Scan i m)
    have "drop i ?vs = ?vs ! i # drop (Suc i) ?vs" if "i < length ?vs" using that by (simp add: Cons_nth_drop_Suc)
    then show ?thesis using t w R_Scan by (auto simp: remover_weight_def Let_def below_def)
  next
    case (R_Claim m)
    show ?thesis
    proof (cases "is_finished ?ra")
      case True
      then have "claim_load m ?ra = None" using E by (simp add: claim_load_def is_finished_def next_height_def Let_def)
      then show ?thesis using t w R_Claim True by (auto simp: remover_weight_def Let_def)
    next
      case False
      then have "ra_next ?ra < ra_end ?ra" by (simp add: is_finished_def next_height_def not_le)
      then have "claim_load m ?ra = Some (ra_next ?ra, next_range_end ?ra)" if "next_range_end ?ra \<le> m"
        using claim_load_seen that sz E(2) by blast
      then show ?thesis using t w R_Claim False 
        by (auto simp: remover_weight_def Let_def split: option.splits dest!: claim_load_range)
    qed
  next
    case (R_Exchange m start stop)
    then show ?thesis using t w f(4) by (auto simp: remover_weight_def Let_def claim_exchange_def split: if_splits)
  next
    case R_Idle
    then show ?thesis using t w by (auto simp: remover_weight_def Let_def)
  next
    case (R_Wait q)
    have q: "q = next_range_end ?ra" using a R_Wait by (simp add: alone_def)
    have "minimum_adder (hs_progress s) \<ge> q" if "fst (hs_removers t ! 0) = R_Check"
      using t R_Wait that w f(2) nf by (auto simp: remover_call_def wait_for_additions_def wait_until_def check_abort_def split: if_splits)
    then show ?thesis using t w R_Wait nf q below_minimum [of q "hs_progress s"] N E(4)
      by (auto simp: remover_weight_def Let_def remover_call_def split: if_splits option.splits sum.splits)
  qed (use t w nf in \<open>auto simp: remover_weight_def Let_def remover_call_def finish_remover_def
    split: option.splits sum.splits dest!: publish_remover_frame\<close>)
qed

lemma remover_step_frame:
  assumes "remover_step code w pc s = Some t"
  shows "hs_adders t = hs_adders s \<and> hs_add_ranges t = hs_add_ranges s"
  using assms by (cases pc) (auto simp: remover_call_def claim_exchange_def progress_abort_def
    split: option.splits sum.splits prod.splits if_splits bool.splits)

subsection \<open>The measure of a run\<close>

definition work_left :: "u64 \<Rightarrow> ('st, 'a, 'r) hints_state \<Rightarrow> nat \<times> nat \<times> nat \<times> nat" where
  "work_left E s =
     (unat E - unat (ra_next (hs_add_ranges s)),
      sum_list (map (adder_weight (ra_next (hs_add_ranges s))) (adder_pcs s)),
      unat E - unat (ra_next (hs_remove_ranges s)), remover_weight s)"

abbreviation work_order :: "((nat \<times> nat \<times> nat \<times> nat) \<times> (nat \<times> nat \<times> nat \<times> nat)) set" where
  "work_order \<equiv> less_than <*lex*> less_than <*lex*> less_than <*lex*> less_than"

lemma sum_list_less: "w < length xs \<Longrightarrow> f y < f (xs ! w) \<Longrightarrow> sum_list (map f (xs[w := y])) < sum_list (map f xs)"
  for f :: "'x \<Rightarrow> nat"
  by (induction xs arbitrary: w) (auto simp: less_Suc_eq_0_disj)

lemma unat_left: "a < b \<Longrightarrow> b \<le> e \<Longrightarrow> unat e - unat b < unat e - unat a" for a b e :: u64
  by (simp add: word_less_nat_alt word_le_nat_alt)

lemma step_work_left:
  assumes init: "hints_init limit na 1 E sz st a r = Ok s0" and reach: "hints_reachable code lead s0 s"
    and code: "code_total code" and step: "hints_step code lead s t"
  shows "(work_left E t, work_left E s) \<in> work_order"
proof -
  have reach': "hints_reachable code lead s0 t" using reach step by (rule hints_reachable.step)
  note inv = hints_reachable_inv [OF init reach] and inv' = hints_reachable_inv(1) [OF init reach']
  note h = hints_reachable_healthy [OF init reach' code]
  have le: "ra_next (hs_add_ranges t) \<le> E" "ra_next (hs_remove_ranges t) \<le> E" using inv' by (simp_all add: hints_inv_def)
  from step show ?thesis
  proof cases
    case (adder w)
    from adder_step_weight [OF inv(1) adder(1) h adder(2)] show ?thesis
      using le unat_left sum_list_less [of w "adder_pcs s"] adder(1) by (auto simp: work_left_def simp del: map_map)
  next
    case (remover w)
    then have w: "w = 0" using inv(3) by simp
    from remover_step_weight [OF inv(1,3) h hints_reachable_alone [OF init reach] hints_init_Ok(3) [OF init] remover(2) [unfolded w]]
    show ?thesis using le unat_left remover_step_frame [OF remover(2)] by (auto simp: work_left_def)
  qed
qed

text \<open>A run with one remover is finite.\<close>

lemma one_remover_finite:
  assumes init: "hints_init limit na 1 E sz st a r = Ok s0" and code: "code_total code"
  shows "\<not> (\<exists>f. f 0 = s0 \<and> (\<forall>n. hints_step code lead (f n) (f (Suc n))))"
proof
  assume "\<exists>f. f 0 = s0 \<and> (\<forall>n. hints_step code lead (f n) (f (Suc n)))"
  then obtain f where f: "f 0 = s0" "\<And>n. hints_step code lead (f n) (f (Suc n))" by blast
  have "hints_reachable code lead s0 (f n)" for n
    by (induction n) (use f in \<open>auto intro: hints_reachable.intros\<close>)
  then have "\<forall>n. (work_left E (f (Suc n)), work_left E (f n)) \<in> work_order"
    using step_work_left [OF init _ code f(2)] by blast
  then have "\<exists>g. \<forall>n. (g (Suc n), g n) \<in> work_order" by (intro exI [of _ "\<lambda>n. work_left E (f n)"])
  moreover have "wf work_order" by (intro wf_lex_prod wf_less_than)
  ultimately show False unfolding wf_iff_no_infinite_down_chain by blast
qed

lemma one_remover_end:
  assumes init: "hints_init limit na 1 E sz st a r = Ok s0" and code: "code_total code"
  obtains s where "hints_reachable code lead s0 s" "\<And>t. \<not> hints_step code lead s t"
proof -
  let ?R = "{s. hints_reachable code lead s0 s}"
  have "wf work_order" by (intro wf_lex_prod wf_less_than)
  moreover have "work_left E s0 \<in> work_left E ` ?R" by (auto intro: hints_reachable.start)
  ultimately obtain z where z: "z \<in> work_left E ` ?R" "\<And>y. (y, z) \<in> work_order \<Longrightarrow> y \<notin> work_left E ` ?R"
    by (rule wfE_min) blast
  then obtain s where s: "hints_reachable code lead s0 s" "z = work_left E s" by blast
  have "\<not> hints_step code lead s t" for t
    using z(2) [unfolded s(2), of "work_left E t"] step_work_left [OF init s(1) code, of t] hints_reachable.step [OF s(1), of t] by blast
  then show thesis using that s(1) by blast
qed

end
