(* ===== verification/Hints_Run.thy ===== *)
theory Hints_Run
  imports Hints_Workers
begin

text \<open>
  examples/hintsgen/main.rs, \<open>run\<close> around the worker threads: the heights to process, the store the
  threads start from, what the joined threads hand over, and the stages after the join. The kernel's
  import of the block files, the log lines and the report are outside the model.
\<close>

definition COMPACTION_MIN_PAGE_LOAD :: u16 where "COMPACTION_MIN_PAGE_LOAD = 8192"

text \<open>The tip and the end of the heights, from the active chain's height.\<close>

definition run_heights :: "arguments \<Rightarrow> int \<Rightarrow> (u64 \<times> u64) res" where
  "run_heights arguments chain_height =
     (if chain_height < 0 then Err (invalid_input ''active chain has a negative height'')
      else
        let chain_height = word_of_int chain_height;
            tip_height = (case ar_tip_height arguments of None \<Rightarrow> chain_height | Some h \<Rightarrow> h) in
        if tip_height > chain_height then Err (invalid_input ''requested tip is above the active chain tip'')
        else
          rbind (ok_or (checked_add tip_height 1) (invalid_input ''tip height overflow'')) (\<lambda>end_height.
          Ok (tip_height, end_height)))"

text \<open>The threads' start: the count slots, the database and the shared progress.\<close>

definition run_start ::
  "arguments \<Rightarrow> create_env \<Rightarrow> usize \<Rightarrow> work_dir \<Rightarrow> u64 \<Rightarrow> u64 \<Rightarrow> position_run_collector
    \<Rightarrow> (index_store, worker_stats, worker_stats \<times> position_run_collector) hints_state res" where
  "run_start arguments env limit dir tip_height end_height collector =
     rbind (block_count_slots limit end_height) (\<lambda>block_slots.
     rbind (database_config arguments tip_height) (\<lambda>config.
     rbind (db_create env config) (\<lambda>database.
     hints_init limit (ar_add_threads arguments) (ar_remove_threads arguments) end_height (ar_range_size arguments)
       \<lparr>is_db = database, is_counts = block_slots, is_live = 0, is_dir = dir\<rparr> zero_stats (zero_stats, collector))))"

text \<open>Joining the threads; \<open>None\<close> while one of them is still running.\<close>

definition join_adder :: "adder_pc \<times> worker_stats \<Rightarrow> worker_stats \<Rightarrow> worker_stats res" where
  "join_adder = (\<lambda>(pc, stats) adder_stats. case pc of
      A_Done \<Rightarrow> Ok (worker_stats_merge adder_stats stats)
    | A_Failed e \<Rightarrow> Err e
    | _ \<Rightarrow> None)"

definition join_remover ::
  "usize \<Rightarrow> remover_pc \<times> worker_stats \<times> position_run_collector \<Rightarrow> worker_stats \<times> position_run list
    \<Rightarrow> (worker_stats \<times> position_run list) res" where
  "join_remover limit = (\<lambda>(pc, stats, collector) (remover_stats, spent_runs). case pc of
      R_Done \<Rightarrow>
        rbind (try_reserve limit (length spent_runs + length (pc_runs collector))) (\<lambda>_.
        Ok (worker_stats_merge remover_stats stats, spent_runs @ pc_runs collector))
    | R_Failed e \<Rightarrow> Err e
    | _ \<Rightarrow> None)"

definition run_join ::
  "usize \<Rightarrow> (index_store, worker_stats, worker_stats \<times> position_run_collector) hints_state
    \<Rightarrow> (worker_stats \<times> worker_stats \<times> position_run list) res" where
  "run_join limit s =
     rbind (rfold join_adder (hs_adders s) zero_stats) (\<lambda>adder_stats.
     rbind (rfold (join_remover limit) (hs_removers s) (zero_stats, [])) (\<lambda>(remover_stats, spent_runs).
     Ok (adder_stats, remover_stats, spent_runs)))"

text \<open>The stages after the join.\<close>

definition run_finish ::
  "'b hintsfile \<Rightarrow> (u32 \<Rightarrow> usize) \<Rightarrow> run_env \<Rightarrow> u64 \<Rightarrow> position_run list \<Rightarrow> (index_store, hints_stats) prog" where
  "run_finish hf capacity env tip_height spent_runs =
     bnd (reads (\<lambda>st. collect_output_counts (re_limit env) (is_counts st))) (\<lambda>counts.
     bnd (lift (fold_output_counts (re_limit env) counts)) (\<lambda>offsets.
     bnd (gets is_live) (\<lambda>live.
     bnd (on_db (db_compact (re_simd env) COMPACTION_MIN_PAGE_LOAD)) (\<lambda>compaction.
     bnd (on_db db_close) (\<lambda>_.
     bnd (on_dir (write_hintsfile hf capacity spent_runs tip_height counts offsets Hints_Path)) (\<lambda>hints.
     if live \<noteq> hi_unspent_outputs hints then err (io_other ''live output count mismatch'')
     else
       bnd (on_dir (forM spent_runs position_run_drop)) (\<lambda>_. ok hints)))))))"

subsection \<open>What a successful run has checked\<close>

lemma collect_output_counts_Ok:
  assumes "collect_output_counts limit slots = Ok counts"
  shows "counts = slots \<and> UNPROCESSED_COUNT \<notin> List.set slots"
proof -
  have "UNPROCESSED_COUNT \<notin> List.set slots \<and> counts = acc @ slots"
    if "rfold (\<lambda>count counts. if count = UNPROCESSED_COUNT then Err (io_other ''an output-count slot was never published'')
          else Ok (counts @ [count])) slots acc = Ok counts" for acc
    using that by (induction slots arbitrary: acc) (fastforce simp: rbind_Ok_iff split: if_splits)+
  then show ?thesis using assms by (auto simp: collect_output_counts_def rbind_Ok_iff)
qed

end
