(* ===== verification/Hints_Props.thy ===== *)
theory Hints_Props
  imports Hints_Encode Hints_Finish Hints_Run
begin

text \<open>
  The properties of examples/hintsgen/main.rs: what a block contributes to the index, the external
  sort and the hints file, and the worker threads over every interleaving.
\<close>

subsection \<open>The index\<close>

lemma indexed_as_nth:
  assumes "i < length es"
  shows "indexed_as height es 0 ! i =
    \<lparr>ix_key = outpoint_key \<lparr>op_txid = fst (es ! i), op_vout = word_of_nat (snd (es ! i))\<rparr>,
     ix_value = u64_le (pack_output_position (ucast height) (word_of_nat i))\<rparr>"
  using assms by (simp add: indexed_as_def nth_enumerate_eq case_prod_beta)

lemma eligible_txids:
  "(txid, vout) \<in> List.set (eligible network height block) \<Longrightarrow> \<exists>tx \<in> List.set block. txid = compute_txid tx"
  by (auto simp: eligible_def in_set_enumerate_eq)

text \<open>C24. The entries of a block are the outputs that are to be indexed, in block order: each key is
  accepted by the database, each value is eight bytes and unpacks to the height and the rank of the
  output among the entries, and the number of entries fits the 32-bit count slot.\<close>

theorem indexed_outputs_typed:
  assumes "indexed_outputs limit block height network = Ok outputs"
    and "\<forall>tx \<in> List.set block. length (compute_txid tx) = 32" and "unat height < 2 ^ 32"
  shows "length outputs = length (eligible network height block) \<and> length outputs < 2 ^ 32
    \<and> (\<forall>i < length outputs.
        ix_key (outputs ! i) = outpoint_key \<lparr>op_txid = fst (eligible network height block ! i),
                                              op_vout = word_of_nat (snd (eligible network height block ! i))\<rparr>
        \<and> validate_key (ix_key (outputs ! i)) = Ok ()
        \<and> length (ix_value (outputs ! i)) = OUTPUT_INDEX_SIZE
        \<and> unpack_output_position (from_le (ix_value (outputs ! i))) = (ucast height, word_of_nat i))"
proof -
  let ?es = "eligible network height block"
  note o = indexed_outputs_Ok [OF assms(1)]
  have "length (outpoint_key \<lparr>op_txid = fst (?es ! i), op_vout = v\<rparr>) = KEY_SIZE" if "i < length ?es" for i v
  proof -
    have "length (fst (?es ! i)) = 32"
      using eligible_txids [of "fst (?es ! i)" "snd (?es ! i)" network height block] nth_mem [OF that] assms(2) by auto
    then show ?thesis by (simp add: outpoint_key_def KEY_SIZE_def)
  qed
  then show ?thesis using o by (auto simp: indexed_as_nth validate_key_def OUTPUT_INDEX_SIZE_def)
qed

lemma indexed_outputs_typed_witness:
  "\<exists>outputs. indexed_outputs 10 [\<lparr>compute_txid = replicate 32 7, is_coinbase = True, tx_input = [],
      tx_output = [\<lparr>script_pubkey = [1], is_op_return = False\<rparr>, \<lparr>script_pubkey = [2], is_op_return = True\<rparr>,
                   \<lparr>script_pubkey = [3], is_op_return = False\<rparr>]\<rparr>] 5 Regtest = Ok outputs
    \<and> length outputs = 2 \<and> validate_key (ix_key (outputs ! 1)) = Ok ()
    \<and> unpack_output_position (from_le (ix_value (outputs ! 1))) = (5, 1)"
proof -
  let ?b = "[\<lparr>compute_txid = replicate 32 7, is_coinbase = True, tx_input = [],
      tx_output = [\<lparr>script_pubkey = [1], is_op_return = False\<rparr>, \<lparr>script_pubkey = [2], is_op_return = True\<rparr>,
                   \<lparr>script_pubkey = [3], is_op_return = False\<rparr>]\<rparr>]"
  have e: "length (eligible Regtest 5 ?b) = 2" by code_simp
  obtain outputs where r: "indexed_outputs 10 ?b 5 Regtest = Ok outputs"
    by (simp add: indexed_outputs_def append_eligible_outputs_def append_output_def should_index_output_def
      usize_checked_add_def try_reserve_def u32_try_from_def MAX_SCRIPT_SIZE_def checked_add_def)
  have hyps: "\<forall>tx \<in> List.set ?b. length (compute_txid tx) = 32" "unat (5 :: u64) < 2 ^ 32" by simp_all
  note t = indexed_outputs_typed [OF r hyps]
  have l: "length outputs = 2" using t [THEN conjunct1] e by simp
  have "validate_key (ix_key (outputs ! 1)) = Ok () \<and> unpack_output_position (from_le (ix_value (outputs ! 1))) = (5, 1)"
    using t [THEN conjunct2, THEN conjunct2, rule_format, of 1, THEN conjunct2] l by simp
  then show ?thesis using r l by blast
qed

text \<open>C39. Packing a height and an output index is a bijection with the 64-bit positions and orders them
  by height, then index.\<close>

theorem position_roundtrip:
  "unpack_output_position (pack_output_position h i) = (h, i)
   \<and> (case unpack_output_position p of (h', i') \<Rightarrow> pack_output_position h' i') = p
   \<and> (pack_output_position h i < pack_output_position h' i' \<longleftrightarrow> h < h' \<or> h = h' \<and> i < i')"
  using pack_unpack [of p] by (simp add: pack_less)

subsection \<open>The hints file\<close>

text \<open>C23. The external sort: sorting every run and merging them leaves exactly the values of all runs, in
  ascending order, and removes its temporary file.\<close>

theorem external_sort_correct:
  assumes "runs_hold d runs vss" and "wd_results d = []" and "wd_files d Sorted_Temporary = None"
    and "\<forall>vs \<in> List.set vss. length vs \<le> wd_limit d" and "length runs \<le> wd_limit d"
    and "length (concat vss) < 2 ^ 64"
  shows "\<exists>d'. bnd (sort_position_runs runs) (\<lambda>_.
      merge_sort_runs Sorted_Spent runs (word_of_nat (length (concat vss)))) d = Some (Inr (), d')
    \<and> wd_files d' Sorted_Spent = Some (le_values (sort (concat vss))) \<and> wd_files d' Sorted_Temporary = None"
proof -
  obtain d1 where "sort_position_runs runs d = Some (Inr (), d1)" "wd_files d1 Sorted_Temporary = None"
    "merge_sort_runs Sorted_Spent runs (word_of_nat (length (concat vss))) d1 =
       Some (Inr (), put_file Sorted_Spent (le_values (sort (concat vss))) d1)"
    by (rule sort_merge_quiet [OF assms])
  then show ?thesis by (simp add: bnd_eval)
qed

lemma external_sort_correct_witness:
  "\<exists>d'. bnd (sort_position_runs [\<lparr>pr_path = Position_Run_Path 0 0, pr_values = 2\<rparr>, \<lparr>pr_path = Position_Run_Path 1 0, pr_values = 1\<rparr>])
      (\<lambda>_. merge_sort_runs Sorted_Spent
        [\<lparr>pr_path = Position_Run_Path 0 0, pr_values = 2\<rparr>, \<lparr>pr_path = Position_Run_Path 1 0, pr_values = 1\<rparr>] 3)
      \<lparr>wd_files = [Position_Run_Path 0 0 \<mapsto> le_values [9, 2], Position_Run_Path 1 0 \<mapsto> le_values [5]],
       wd_results = [], wd_limit = 10\<rparr> = Some (Inr (), d')
    \<and> wd_files d' Sorted_Spent = Some (le_values [2, 5, 9]) \<and> wd_files d' Sorted_Temporary = None"
proof -
  let ?d = "\<lparr>wd_files = [Position_Run_Path 0 0 \<mapsto> le_values [9, 2], Position_Run_Path 1 0 \<mapsto> le_values [5]],
       wd_results = [], wd_limit = 10\<rparr>"
  let ?runs = "[\<lparr>pr_path = Position_Run_Path 0 0, pr_values = 2\<rparr>, \<lparr>pr_path = Position_Run_Path 1 0, pr_values = 1\<rparr>]"
  have "runs_hold ?d ?runs [[9, 2], [5]]" by (simp add: runs_hold_def run_holds_def del: le_values_simps(1-3))
  from external_sort_correct [OF this] show ?thesis by (simp del: le_values_simps)
qed


text \<open>What the joined removers leave: every remover pushes the positions it popped and finishes its
  collector, and the runs are gathered in the order of the workers.\<close>

definition collect_worker :: "usize \<times> u64 list \<Rightarrow> position_run list \<Rightarrow> (work_dir, position_run list) prog" where
  "collect_worker = (\<lambda>(worker, positions) spent_runs.
     bnd (collector_new worker) (\<lambda>c.
     bnd (bnd (foldM collector_push positions c) collector_finish) (\<lambda>runs.
     bnd (wd_reserve (length runs)) (\<lambda>_. ok (spent_runs @ runs)))))"

definition collect_runs :: "u64 list list \<Rightarrow> (work_dir, position_run list) prog" where
  "collect_runs positions = foldM collect_worker (enumerate 0 positions) []"

definition no_runs_from :: "usize \<Rightarrow> work_dir \<Rightarrow> bool" where
  "no_runs_from w d \<longleftrightarrow> (\<forall>v \<ge> w. \<forall>i. wd_files d (Position_Run_Path v i) = None)"

lemma runs_hold_append:
  assumes "runs_hold d runs vss" "runs_hold d runs' vss'" "pr_path ` List.set runs \<inter> pr_path ` List.set runs' = {}"
  shows "runs_hold d (runs @ runs') (vss @ vss')"
  using assms by (auto simp: runs_hold_def intro: list_all2_appendI)

lemma runs_hold_same:
  assumes "runs_hold d runs vss" "same_others w d d'" "\<forall>run \<in> List.set runs. \<exists>v < w. \<exists>i. pr_path run = Position_Run_Path v i"
  shows "runs_hold d' runs vss"
proof -
  have "run_holds d' run vs" if "run \<in> List.set runs" "run_holds d run vs" for run vs
    using assms(2,3) that by (fastforce simp: run_holds_def same_others_def)
  then show ?thesis using assms(1) unfolding runs_hold_def by (metis (no_types, lifting) list.rel_mono_strong)
qed

lemma collect_worker_quiet:
  assumes "runs_hold d spent_runs vss" "wd_results d = []" "no_runs_from w d"
    "\<forall>run \<in> List.set spent_runs. \<exists>v < w. \<exists>i. pr_path run = Position_Run_Path v i"
    "POSITION_RUN_VALUE_CAPACITY + length ps < wd_limit d" "wd_limit d < 2 ^ 64"
  obtains runs d' vss' where "collect_worker (w, ps) spent_runs d = Some (Inr runs, d')" "runs_hold d' runs vss'"
    "concat vss' = concat vss @ ps" "wd_results d' = []" "wd_limit d' = wd_limit d" "no_runs_from (Suc w) d'"
    "\<forall>run \<in> List.set runs. \<exists>v < Suc w. \<exists>i. pr_path run = Position_Run_Path v i"
    "wd_files d' Sorted_Temporary = wd_files d Sorted_Temporary" "length runs \<le> length spent_runs + length ps + 1"
proof -
  let ?c = "\<lparr>pc_worker = w, pc_next_index = 0, pc_values = [], pc_runs = []\<rparr>"
  have cap: "0 < POSITION_RUN_VALUE_CAPACITY" by (simp add: POSITION_RUN_VALUE_CAPACITY_def)
  have c: "collected d ?c []" using assms(3)
    by (auto simp: collected_def collecting_def runs_hold_def no_runs_from_def cap)
  have lim: "pc_next_index ?c + length ps < wd_limit d" using assms(5) by simp
  obtain runs d' vss' where r: "bnd (foldM collector_push ps ?c) collector_finish d = Some (Inr runs, d')"
    "runs_hold d' runs vss'" "concat vss' = concat [] @ pc_values ?c @ ps" "same_others (pc_worker ?c) d d'"
    "\<forall>run \<in> List.set runs. \<exists>i. pr_path run = Position_Run_Path (pc_worker ?c) i"
    "length runs \<le> pc_next_index ?c + length ps + 1"
    by (rule collect_quiet [OF c assms(2) lim assms(6)])
  have same: "same_others w d d'" using r(4) by simp
  have q: "wd_results d' = []" "wd_limit d' = wd_limit d" using same by (simp_all add: same_others_def)
  have new: "bnd (collector_new w) f d = f ?c d" for f :: "_ \<Rightarrow> (work_dir, position_run list) prog"
    using assms(5) by (simp add: collector_new_def wd_reserve_def try_reserve_def bnd_assoc bnd_eval)
  have res: "length runs \<le> wd_limit d'" using r(6) assms(5) q(2) cap by simp
  have "collect_worker (w, ps) spent_runs d = Some (Inr (spent_runs @ runs), d')"
    unfolding collect_worker_def prod.case new using r(1) res by (simp add: bnd_eval wd_reserve_def try_reserve_def)
  moreover have "runs_hold d' (spent_runs @ runs) (vss @ vss')"
    by (rule runs_hold_append [OF runs_hold_same [OF assms(1) same assms(4)] r(2)]) (use assms(4) r(5) in fastforce)
  moreover have "concat (vss @ vss') = concat vss @ ps" using r(3) by simp
  moreover note q
  moreover have "no_runs_from (Suc w) d'" using assms(3) same by (auto simp: no_runs_from_def same_others_def)
  moreover have "\<forall>run \<in> List.set (spent_runs @ runs). \<exists>v < Suc w. \<exists>i. pr_path run = Position_Run_Path v i"
    using assms(4) r(5) by (auto simp: less_Suc_eq)
  moreover have "wd_files d' Sorted_Temporary = wd_files d Sorted_Temporary" using same by (simp add: same_others_def)
  moreover have "length (spent_runs @ runs) \<le> length spent_runs + length ps + 1" using r(6) by simp
  ultimately show thesis by (rule that)
qed

lemma collect_workers_quiet:
  assumes "runs_hold d spent_runs vss" "wd_results d = []" "no_runs_from w d"
    "\<forall>run \<in> List.set spent_runs. \<exists>v < w. \<exists>i. pr_path run = Position_Run_Path v i"
    "POSITION_RUN_VALUE_CAPACITY + length (concat positions) < wd_limit d" "wd_limit d < 2 ^ 64"
  obtains runs d' vss' where "foldM collect_worker (enumerate w positions) spent_runs d = Some (Inr runs, d')"
    "runs_hold d' runs vss'" "concat vss' = concat vss @ concat positions" "wd_results d' = []"
    "wd_limit d' = wd_limit d" "wd_files d' Sorted_Temporary = wd_files d Sorted_Temporary"
    "length runs \<le> length spent_runs + length (concat positions) + length positions"
  using assms
proof (induction positions arbitrary: w spent_runs d vss thesis)
  case Nil
  show ?case by (rule Nil.prems(1) [of spent_runs d vss]) (use Nil.prems in simp_all)
next
  case (Cons ps positions)
  have lim: "POSITION_RUN_VALUE_CAPACITY + length ps < wd_limit d" using Cons.prems(6) by simp
  obtain runs d' vss' where r: "collect_worker (w, ps) spent_runs d = Some (Inr runs, d')" "runs_hold d' runs vss'"
    "concat vss' = concat vss @ ps" "wd_results d' = []" "wd_limit d' = wd_limit d" "no_runs_from (Suc w) d'"
    "\<forall>run \<in> List.set runs. \<exists>v < Suc w. \<exists>i. pr_path run = Position_Run_Path v i"
    "wd_files d' Sorted_Temporary = wd_files d Sorted_Temporary" "length runs \<le> length spent_runs + length ps + 1"
    by (rule collect_worker_quiet [OF Cons.prems(2-5) lim Cons.prems(7)])
  have lim': "POSITION_RUN_VALUE_CAPACITY + length (concat positions) < wd_limit d'" "wd_limit d' < 2 ^ 64"
    using Cons.prems(6,7) r(5) by simp_all
  obtain runs' d'' vss'' where r': "foldM collect_worker (enumerate (Suc w) positions) runs d' = Some (Inr runs', d'')"
    "runs_hold d'' runs' vss''" "concat vss'' = concat vss' @ concat positions" "wd_results d'' = []"
    "wd_limit d'' = wd_limit d'" "wd_files d'' Sorted_Temporary = wd_files d' Sorted_Temporary"
    "length runs' \<le> length runs + length (concat positions) + length positions"
    by (rule Cons.IH [OF _ r(2,4,6,7) lim'])
  show ?case
    by (rule Cons.prems(1) [of runs' d'' vss'']) (use r r' in \<open>simp_all add: bnd_eval\<close>)
qed

text \<open>C16. The hints file: from the positions the removers popped, the collected, sorted and merged runs
  give a file that is the encoding of, at every height in order, the indices of exactly the outputs
  whose position no remover popped; the reported counts are the numbers of outputs and of unspent
  outputs. The encoder is that of the hintsfile crate: any builder that accepts these indices.\<close>

theorem hints_file_correct:
  assumes "wd_results d = []" and "\<forall>w i. wd_files d (Position_Run_Path w i) = None" and "wd_files d Sorted_Temporary = None"
    and "distinct (concat positions)" and "\<forall>p \<in> List.set (concat positions). valid_position (word_of_nat tip) counts p"
    and "tip < 2 ^ 32" and "length counts = Suc tip" and "counts ! 0 = 0"
    and "fold_output_counts limit counts = Ok offsets"
    and "POSITION_RUN_VALUE_CAPACITY + length (concat positions) + length positions < wd_limit d" and "wd_limit d < 2 ^ 64"
    and "\<forall>h < length counts. unat (counts ! h) \<le> wd_limit d"
    and "hf_initialize hf (word_of_nat tip) = Ok b0"
    and "rfold (hf_append hf) (map (unspent_at counts (concat positions)) (heights (word_of_nat tip))) b0 = Ok b1"
    and "hf_finish hf b1 = Ok bs"
  shows "\<exists>d'. bnd (collect_runs positions) (\<lambda>runs.
        write_hintsfile hf capacity runs (word_of_nat tip) counts offsets Hints_Path) d =
      Some (Inr \<lparr>hi_eligible_outputs = word_of_nat (sum_counts counts),
                 hi_unspent_outputs = word_of_nat (sum_counts counts - length (concat positions)),
                 hi_file_bytes = word_of_nat (length bs)\<rparr>, d')
    \<and> wd_files d' Hints_Path = Some bs \<and> wd_files d' Sorted_Spent = None
    \<and> length (concat positions) \<le> sum_counts counts"
proof -
  have hyps: "runs_hold d [] []" "no_runs_from 0 d"
    "\<forall>run \<in> List.set []. \<exists>v < 0. \<exists>i. pr_path run = Position_Run_Path v i"
    "POSITION_RUN_VALUE_CAPACITY + length (concat positions) < wd_limit d"
    using assms(2,10) by (simp_all add: runs_hold_def no_runs_from_def)
  obtain runs d1 vss where r: "foldM collect_worker (enumerate 0 positions) [] d = Some (Inr runs, d1)"
    "runs_hold d1 runs vss" "concat vss = concat [] @ concat positions" "wd_results d1 = []"
    "wd_limit d1 = wd_limit d" "wd_files d1 Sorted_Temporary = wd_files d Sorted_Temporary"
    "length runs \<le> length ([] :: position_run list) + length (concat positions) + length positions"
    by (rule collect_workers_quiet [OF hyps(1) assms(1) hyps(2-4) assms(11)])
  have cat: "concat vss = concat positions" using r(3) by simp
  have small: "\<forall>vs \<in> List.set vss. length vs \<le> wd_limit d1"
  proof
    fix vs assume "vs \<in> List.set vss"
    then have "length vs \<le> length (concat vss)" by (auto simp: length_concat intro: member_le_sum_list)
    then show "length vs \<le> wd_limit d1" using cat assms(10) r(5) by simp
  qed
  have tmp: "wd_files d1 Sorted_Temporary = None" using r(6) assms(3) by simp
  have lim: "length runs \<le> wd_limit d1" "\<forall>h < length counts. unat (counts ! h) \<le> wd_limit d1"
    using r(5,7) assms(10,12) by simp_all
  obtain d' where "write_hintsfile hf capacity runs (word_of_nat tip) counts offsets Hints_Path d1 =
      Some (Inr \<lparr>hi_eligible_outputs = word_of_nat (sum_counts counts),
                 hi_unspent_outputs = word_of_nat (sum_counts counts - length (concat vss)),
                 hi_file_bytes = word_of_nat (length bs)\<rparr>, d')"
    "wd_files d' Hints_Path = Some bs" "wd_files d' Sorted_Spent = None" "length (concat vss) \<le> sum_counts counts"
    by (rule write_hintsfile_quiet [OF r(2,4) tmp assms(4,5) [folded cat] assms(6-9) small lim assms(13,14) [folded cat] assms(15)])
  then show ?thesis using r(1) unfolding cat by (simp add: collect_runs_def bnd_eval del: length_concat)
qed

lemma hints_file_correct_witness:
  "\<exists>d'. bnd (collect_runs [[pack_output_position 2 0], [pack_output_position 1 1]]) (\<lambda>runs.
        write_hintsfile \<lparr>hf_initialize = (\<lambda>_. Ok []), hf_append = (\<lambda>xs b. Ok (b @ xs)), hf_finish = (\<lambda>b. Ok (map ucast b))\<rparr>
          (\<lambda>_. 0) runs 2 [0, 2, 1] [0, 0, 2, 3] Hints_Path)
        \<lparr>wd_files = Map.empty, wd_results = [], wd_limit = 2 ^ 21\<rparr> =
      Some (Inr \<lparr>hi_eligible_outputs = 3, hi_unspent_outputs = 1, hi_file_bytes = 1\<rparr>, d')
    \<and> wd_files d' Hints_Path = Some [0]"
proof -
  let ?ps = "[[pack_output_position 2 0], [pack_output_position 1 1]]" and ?counts = "[0, 2, 1] :: u32 list"
  have v: "valid_position 2 ?counts (pack_output_position 2 0)" "valid_position 2 ?counts (pack_output_position 1 1)"
    by (simp_all add: valid_position_def)
  have u: "map (unspent_at ?counts (concat ?ps)) (heights 2) = [[0], []]"
    by (simp add: unspent_at_def heights_def upt_rec)
  have o: "fold_output_counts 10 ?counts = Ok [0, 0, 2, 3]"
    by (simp add: fold_output_counts_def usize_checked_add_def try_reserve_def checked_add_def)
  have "\<exists>d'. bnd (collect_runs ?ps) (\<lambda>runs.
        write_hintsfile \<lparr>hf_initialize = (\<lambda>_. Ok []), hf_append = (\<lambda>xs b. Ok (b @ xs)), hf_finish = (\<lambda>b. Ok (map ucast b))\<rparr>
          (\<lambda>_. 0) runs (word_of_nat 2) ?counts [0, 0, 2, 3] Hints_Path)
        \<lparr>wd_files = Map.empty, wd_results = [], wd_limit = 2 ^ 21\<rparr> =
      Some (Inr \<lparr>hi_eligible_outputs = word_of_nat (sum_counts ?counts),
                 hi_unspent_outputs = word_of_nat (sum_counts ?counts - length (concat ?ps)),
                 hi_file_bytes = word_of_nat (length ([0] :: bytes))\<rparr>, d')
    \<and> wd_files d' Hints_Path = Some [0] \<and> wd_files d' Sorted_Spent = None \<and> length (concat ?ps) \<le> sum_counts ?counts"
    by (rule hints_file_correct [where limit = 10 and ?b0.0 = "[]" and ?b1.0 = "[0]"])
      (use v u o in \<open>simp_all add: POSITION_RUN_VALUE_CAPACITY_def All_less_Suc\<close>)
  then show ?thesis by (simp add: sum_counts_def) blast
qed

subsection \<open>The workers\<close>

text \<open>Threads whose work always succeeds.\<close>

definition idle_code :: "(unit, unit, unit) worker_code" where
  "idle_code = \<lparr>wc_start = (\<lambda>_. ok ()), wc_add = (\<lambda>_ _. ok ()), wc_remove = (\<lambda>_ _ _. ok ()), wc_flush = (\<lambda>_. ok ())\<rparr>"

lemma idle_code_total: "code_total idle_code"
  by (simp add: code_total_def idle_code_def ok_def)

text \<open>C15. In every state any interleaving of the adders and removers can reach, no block has been
  added twice, no input range removed twice, and whenever a range was removed every block below its
  end had been added; when all threads are done every block has been added and removed.\<close>

theorem workers_safe:
  assumes "hints_init limit na nr E sz st a r = Ok s0" and "hints_reachable code lead s0 s"
  shows "log_ok (hs_log s)
    \<and> ((\<forall>w < na. fst (hs_adders s ! w) = A_Done) \<longrightarrow> added (hs_log s) = {..<E})
    \<and> ((\<forall>w < nr. fst (hs_removers s ! w) = R_Done) \<longrightarrow> removed (hs_log s) = {..<E})"
proof -
  note i = hints_init_Ok(1,2) [OF assms(1)] and inv = hints_reachable_inv [OF assms]
  have "hs_adders s \<noteq> []" "hs_removers s \<noteq> []" using i inv(2,3) by auto
  then show ?thesis using done_added [OF inv(1)] done_removed [OF inv(1)] inv by (auto simp: hints_inv_def)
qed

lemma start_idle:
  "hints_init 10 1 nr E 32 () () () = Ok (hints_start \<lparr>ra_next = 0, ra_end = E, ra_size = 32\<rparr> \<lparr>ra_next = 0, ra_end = E, ra_size = 32\<rparr>
     \<lparr>wp_adders = [0], wp_removers = replicate nr 0, wp_poisoned = False, wp_aborted = 0, wp_end = E\<rparr> () () ())"
  if "0 < nr" "nr < 10"
  using that by (simp add: hints_init_def range_allocator_new_def worker_progress_new_def progress_slots_def try_reserve_def)

lemma workers_safe_witness:
  "\<exists>s0 s. hints_init 10 1 1 5000 32 () () () = Ok s0 \<and> hints_reachable idle_code 4096 s0 s
    \<and> log_ok (hs_log s) \<and> added (hs_log s) = {..<5000} \<and> removed (hs_log s) = {..<5000}"
proof -
  obtain s0 where init: "hints_init 10 1 1 5000 32 () () () = Ok s0" using start_idle [of 1 5000] by simp
  obtain s where s: "hints_reachable idle_code 4096 s0 s" "\<And>t. \<not> hints_step idle_code 4096 s t"
    by (rule one_remover_end [OF init idle_code_total, where lead = 4096]) blast
  have "(\<forall>w < 1. fst (hs_adders s ! w) = A_Done) \<and> fst (hs_removers s ! 0) = R_Done"
    by (rule one_remover_progress [OF init s(1) idle_code_total]) (use s(2) in simp_all)
  then show ?thesis using workers_safe [OF init s(1)] init s(1) by auto
qed



text \<open>C25. With two removers there is an interleaving after which no thread can ever move although work
  is left: the adder waits for a remover whose announced height is stale, and both removers wait for
  the adder. It needs only that the range length divides the lead of 4096 blocks, as the default of 32
  does, and a chain longer than that.\<close>

theorem two_removers_can_deadlock:
  assumes "hints_init limit 1 2 E sz st a r = Ok s0" and "code_total code"
    and "unat sz dvd 4096" and "4096 < E"
  shows "\<exists>s. hints_reachable code MAX_ADDER_LEAD_BLOCKS s0 s \<and> (\<forall>t. \<not> hints_step code MAX_ADDER_LEAD_BLOCKS s t)
    \<and> (\<exists>height stop. fst (hs_adders s ! 0) = A_Wait height stop \<and> height < stop)
    \<and> (\<forall>w < 2. \<exists>q. fst (hs_removers s ! w) = R_Wait q)"
  by (rule two_removers_deadlock [OF assms(1,2)]) (use assms(3,4) in \<open>simp_all add: MAX_ADDER_LEAD_BLOCKS_def\<close>)

lemma two_removers_can_deadlock_witness:
  "\<exists>s0 s. hints_init 10 1 2 5000 32 () () () = Ok s0 \<and> hints_reachable idle_code MAX_ADDER_LEAD_BLOCKS s0 s
    \<and> (\<forall>t. \<not> hints_step idle_code MAX_ADDER_LEAD_BLOCKS s t)"
proof -
  obtain s0 where init: "hints_init 10 1 2 5000 32 () () () = Ok s0" using start_idle [of 2 5000] by simp
  have "unat (32 :: u64) dvd 4096" "(4096 :: u64) < 5000" by simp_all
  from two_removers_can_deadlock [OF init idle_code_total this] init show ?thesis by blast
qed

end
