(* ===== verification/Table_Fetch.thy ===== *)
theory Table_Fetch
  imports Table_Map Table_Batch
begin

text \<open>
  The read batches of src/table.rs: preparing a batch hashes every key to its bucket and groups the
  keys by bucket; \<open>batch_fetch\<close> visits each bucket once and answers what \<open>get\<close> answers for each key.
\<close>

subsection \<open>Preparing keys\<close>

definition prep_key :: "database \<Rightarrow> usize \<times> bytes \<Rightarrow> prepared_key" where
  "prep_key db = (\<lambda>(order, key).
     \<lparr>pk_key = key, pk_hash = key_hash db key, pk_bucket = key_bucket db key, pk_order = order\<rparr>)"

lemma prep_key_sel [simp]:
  "pk_key (prep_key db (i, k)) = k" "pk_hash (prep_key db (i, k)) = key_hash db k"
  "pk_bucket (prep_key db (i, k)) = key_bucket db k" "pk_order (prep_key db (i, k)) = i"
  by (simp_all add: prep_key_def)

lemma hash_prepared_keys_eq:
  assumes "\<forall>e \<in> set es. length (pk_key e) < 2 ^ 63"
  shows "hash_prepared_keys avx2 (db_config db) es =
    map (\<lambda>e. e\<lparr>pk_hash := key_hash db (pk_key e), pk_bucket := key_bucket db (pk_key e)\<rparr>) es"
  using assms
  by (induction avx2 "db_config db" es rule: hash_prepared_keys.induct)
    (simp_all add: batch4_eq set_pk_hash_def key_hash_def hash_bucket_def del: xxh64_batch4.simps)

lemma prepare_loop:
  assumes "\<forall>k \<in> set keys. length k = 16" "length acc + length keys \<le> reserve_limit (db_heads db)"
  shows "rfold (\<lambda>(order, key) prepared.
         rbind (validate_key key) (\<lambda>_.
         rbind (db_try_reserve db (length prepared + 1)) (\<lambda>_.
         Ok (prepared @ [\<lparr>pk_key = key, pk_hash = 0, pk_bucket = 0, pk_order = order\<rparr>])))) (enumerate n keys) acc =
    Ok (acc @ map (\<lambda>(i, k). \<lparr>pk_key = k, pk_hash = 0, pk_bucket = 0, pk_order = i\<rparr>) (enumerate n keys))"
  using assms
  by (induction keys arbitrary: n acc)
    (simp_all add: validate_key_def KEY_SIZE_def db_try_reserve_def try_reserve_def)

text \<open>The entries of a batch, in the order the buckets are visited.\<close>

definition batch_order :: "database \<Rightarrow> bytes list \<Rightarrow> prepared_key list" where
  "batch_order db keys = sort_key (\<lambda>e. (pk_bucket e, pk_hash e, pk_order e)) (map (prep_key db) (enumerate 0 keys))"

lemma prepare_keys_eq:
  assumes "\<forall>k \<in> set keys. length k = 16" "length keys \<le> reserve_limit (db_heads db)"
  shows "prepare_keys simd db keys = Ok (batch_order db keys)"
proof -
  let ?raw = "map (\<lambda>(i, k). \<lparr>pk_key = k, pk_hash = 0, pk_bucket = 0, pk_order = i\<rparr>) (enumerate 0 keys)"
  have "\<forall>e \<in> set ?raw. length (pk_key e) < 2 ^ 63"
    using assms(1) by (auto simp: in_set_enumerate_eq)
  then have "hash_prepared_keys (simd = Avx2) (db_config db) ?raw = map (prep_key db) (enumerate 0 keys)"
    by (simp add: hash_prepared_keys_eq prep_key_def case_prod_beta)
  then show ?thesis using assms prepare_loop [of keys "[]" db 0]
    by (simp add: prepare_keys_def db_try_reserve_def try_reserve_def batch_order_def)
qed

lemma batch_order_mem:
  "e \<in> set (batch_order db keys) \<longleftrightarrow> (\<exists>i < length keys. e = prep_key db (i, keys ! i))"
  by (auto simp: batch_order_def in_set_enumerate_eq)

lemma batch_order_simps [simp]: "length (batch_order db keys) = length keys"
  "distinct (map pk_order (batch_order db keys))"
proof -
  show "length (batch_order db keys) = length keys" by (simp add: batch_order_def)
  have "map pk_order (map (prep_key db) (enumerate 0 keys)) = [0..<length keys]"
    by (rule nth_equalityI) (simp_all add: nth_enumerate_eq)
  then have "distinct (map pk_order (map (prep_key db) (enumerate 0 keys)))" by (metis distinct_upt)
  then show "distinct (map pk_order (batch_order db keys))" by (simp add: batch_order_def distinct_map del: map_map)
qed

subsection \<open>Slices\<close>

lemma slices_concat: "concat (map snd (bucket_slices bucket es)) = es"
  by (induction bucket es rule: bucket_slices.induct) simp_all

lemma slices_bucket: "(b, part) \<in> set (bucket_slices bucket es) \<Longrightarrow> e \<in> set part \<Longrightarrow> bucket e = b"
  by (induction bucket es rule: bucket_slices.induct) (auto dest: set_takeWhileD)

lemma slices_split:
  assumes "(b, part) \<in> set (bucket_slices bucket es)"
  obtains xs ys where "es = xs @ part @ ys" "part \<noteq> []"
proof -
  have "part \<noteq> []" using assms by (induction bucket es rule: bucket_slices.induct) auto
  moreover obtain xs ys where "bucket_slices bucket es = xs @ (b, part) # ys" using assms by (meson split_list)
  then have "es = concat (map snd xs) @ part @ concat (map snd ys)" using slices_concat [of bucket es] by simp
  ultimately show thesis using that by blast
qed

text \<open>In a part sorted by hash, the entries with one hash are a contiguous run.\<close>

lemma hash_run:
  assumes "sorted (map g es)"
  shows "takeWhile (\<lambda>e. g e = h) (dropWhile (\<lambda>e. g e < h) es) = filter (\<lambda>e. g e = h) es"
  using assms
proof (induction es)
  case (Cons e es)
  show ?case
  proof (cases "g e = h")
    case True
    have "dropWhile (\<lambda>e. g e < h) es = es" using Cons.prems True by (cases es) auto
    then show ?thesis using Cons True by simp
  next
    case False
    have "filter (\<lambda>e. g e = h) es = []" if "h < g e" using Cons.prems that by (auto simp: filter_empty_conv)
    then show ?thesis using Cons False by (cases "g e < h") auto
  qed
qed simp


subsection \<open>Fetching a bucket\<close>

abbreviation newest_word :: "bytes \<Rightarrow> entry list \<Rightarrow> u64 option" where
  "newest_word key es \<equiv> map_option en_word (lookup_entry key es)"

lemma lookup_entry_simps [simp]:
  "lookup_entry key [] = None"
  "lookup_entry key (e # es) = (if en_key e = key then Some e else lookup_entry key es)"
  by (simp_all add: lookup_entry_def)

lemma lookup_append [simp]:
  "lookup_entry key (xs @ ys) = (case lookup_entry key xs of None \<Rightarrow> lookup_entry key ys | Some e \<Rightarrow> Some e)"
  by (induction xs) simp_all

lemma fetch_fold:
  assumes "distinct (map pk_order es)" "\<forall>x \<in> set es. pk_order x < length results"
    "length (filter (\<lambda>x. results ! pk_order x = None \<and> pk_key x = node_key n) es) \<le> m"
  shows "\<exists>results'. rfold (fetch_match n) es (results, m) =
      Ok (results', m - length (filter (\<lambda>x. results ! pk_order x = None \<and> pk_key x = node_key n) es))
    \<and> length results' = length results
    \<and> (\<forall>x \<in> set es. results' ! pk_order x =
         (if results ! pk_order x = None \<and> pk_key x = node_key n then Some (node_value n) else results ! pk_order x))
    \<and> (\<forall>i. i \<notin> pk_order ` set es \<longrightarrow> results' ! i = results ! i)"
  using assms
proof (induction es arbitrary: results m)
  case (Cons x es)
  let ?hit = "results ! pk_order x = None \<and> pk_key x = node_key n"
  define r1 where "r1 = (if ?hit then results[pk_order x := Some (node_value n)] else results)"
  have other: "r1 ! i = results ! i" if "i \<noteq> pk_order x" for i using that by (simp add: r1_def)
  have at: "r1 ! pk_order x = (if ?hit then Some (node_value n) else results ! pk_order x)"
    using Cons.prems(2) by (simp add: r1_def)
  have ne: "pk_order y \<noteq> pk_order x" if "y \<in> set es" for y using Cons.prems(1) that by (metis distinct.simps(2) image_eqI list.simps(9) set_map)
  have cnt: "filter (\<lambda>x. r1 ! pk_order x = None \<and> pk_key x = node_key n) es =
      filter (\<lambda>x. results ! pk_order x = None \<and> pk_key x = node_key n) es"
    by (rule filter_cong) (use ne other in auto)
  have step: "fetch_match n x (results, m) = Ok (r1, if ?hit then m - 1 else m)"
    using Cons.prems(2,3) by (auto simp: fetch_match_def r1_def)
  have "\<exists>results'. rfold (fetch_match n) es (r1, if ?hit then m - 1 else m) =
      Ok (results', (if ?hit then m - 1 else m) - length (filter (\<lambda>x. r1 ! pk_order x = None \<and> pk_key x = node_key n) es))
    \<and> length results' = length r1
    \<and> (\<forall>x \<in> set es. results' ! pk_order x =
         (if r1 ! pk_order x = None \<and> pk_key x = node_key n then Some (node_value n) else r1 ! pk_order x))
    \<and> (\<forall>i. i \<notin> pk_order ` set es \<longrightarrow> results' ! i = r1 ! i)"
    by (rule Cons.IH) (use Cons.prems cnt in \<open>auto simp: r1_def\<close>)
  then obtain r2 where r2: "rfold (fetch_match n) es (r1, if ?hit then m - 1 else m) =
      Ok (r2, (if ?hit then m - 1 else m) - length (filter (\<lambda>x. results ! pk_order x = None \<and> pk_key x = node_key n) es))"
    "length r2 = length r1"
    "\<forall>x \<in> set es. r2 ! pk_order x =
         (if r1 ! pk_order x = None \<and> pk_key x = node_key n then Some (node_value n) else r1 ! pk_order x)"
    "\<forall>i. i \<notin> pk_order ` set es \<longrightarrow> r2 ! i = r1 ! i" unfolding cnt by blast
  have "pk_order x \<notin> pk_order ` set es" using ne by (metis imageE)
  then have "r2 ! pk_order x = r1 ! pk_order x" using r2(4) by blast
  moreover have "r1 ! pk_order y = results ! pk_order y" if "y \<in> set es" for y using other ne that by blast
  moreover have "length r1 = length results" by (simp add: r1_def)
  moreover have "rfold (fetch_match n) (x # es) (results, m) =
      Ok (r2, m - length (filter (\<lambda>x. results ! pk_order x = None \<and> pk_key x = node_key n) (x # es)))"
    using step r2(1) by simp
  ultimately show ?case using r2(2-4) at other by (intro exI [of _ r2]) simp
qed simp

text \<open>After the prefix \<open>pre\<close> of the chain, the results of the part are what the prefix has; the others
  are still those of \<open>base\<close>.\<close>

definition fetched :: "prepared_key list \<Rightarrow> entry list \<Rightarrow> u64 option list \<Rightarrow> u64 option list \<Rightarrow> bool" where
  "fetched part pre base results \<longleftrightarrow> length results = length base
     \<and> (\<forall>x \<in> set part. results ! pk_order x = newest_word (pk_key x) pre)
     \<and> (\<forall>i. i \<notin> pk_order ` set part \<longrightarrow> results ! i = base ! i)"

definition missing :: "prepared_key list \<Rightarrow> entry list \<Rightarrow> nat" where
  "missing part pre = length (filter (\<lambda>x. lookup_entry (pk_key x) pre = None) part)"

definition batch_part :: "database \<Rightarrow> u64 \<Rightarrow> prepared_key list \<Rightarrow> nat \<Rightarrow> bool" where
  "batch_part db bk part len \<longleftrightarrow> (\<forall>x \<in> set part. pk_hash x = key_hash db (pk_key x) \<and> pk_order x < len \<and> key_bucket db (pk_key x) = bk)
     \<and> distinct (map pk_order part) \<and> sorted (map pk_hash part)"

lemma missing_snoc:
  "missing part (pre @ [e]) = missing part pre - length (filter (\<lambda>x. lookup_entry (pk_key x) pre = None \<and> pk_key x = en_key e) part)"
  "length (filter (\<lambda>x. lookup_entry (pk_key x) pre = None \<and> pk_key x = en_key e) part) \<le> missing part pre"
proof -
  have "missing part pre = missing part (pre @ [e]) + length (filter (\<lambda>x. lookup_entry (pk_key x) pre = None \<and> pk_key x = en_key e) part)"
    unfolding missing_def by (induction part) (auto split: option.splits)
  then show "missing part (pre @ [e]) = missing part pre - length (filter (\<lambda>x. lookup_entry (pk_key x) pre = None \<and> pk_key x = en_key e) part)"
    "length (filter (\<lambda>x. lookup_entry (pk_key x) pre = None \<and> pk_key x = en_key e) part) \<le> missing part pre" by simp_all
qed

lemma fetch_node:
  assumes bp: "batch_part db bk part (length base)" and f: "fetched part pre base results"
  obtains results' where "rfold (fetch_match (node_of e nxt))
      (takeWhile (\<lambda>x. pk_hash x = key_hash db (en_key e)) (dropWhile (\<lambda>x. pk_hash x < key_hash db (en_key e)) part))
      (results, missing part pre) = Ok (results', missing part (pre @ [e]))" "fetched part (pre @ [e]) base results'"
proof -
  let ?es = "filter (\<lambda>x. pk_hash x = key_hash db (en_key e)) part"
  have run: "takeWhile (\<lambda>x. pk_hash x = key_hash db (en_key e)) (dropWhile (\<lambda>x. pk_hash x < key_hash db (en_key e)) part) = ?es"
    using bp by (intro hash_run) (simp add: batch_part_def)
  have res: "results ! pk_order x = None \<longleftrightarrow> lookup_entry (pk_key x) pre = None" if "x \<in> set part" for x
    using f that by (simp add: fetched_def)
  have hits: "filter (\<lambda>x. results ! pk_order x = None \<and> pk_key x = node_key (node_of e nxt)) ?es =
      filter (\<lambda>x. lookup_entry (pk_key x) pre = None \<and> pk_key x = en_key e) part"
    unfolding filter_filter
    by (rule filter_cong) (use res bp in \<open>auto simp: node_of_def batch_part_def\<close>)
  have "\<exists>results'. rfold (fetch_match (node_of e nxt)) ?es (results, missing part pre) =
      Ok (results', missing part pre - length (filter (\<lambda>x. results ! pk_order x = None \<and> pk_key x = node_key (node_of e nxt)) ?es))
    \<and> length results' = length results
    \<and> (\<forall>x \<in> set ?es. results' ! pk_order x =
         (if results ! pk_order x = None \<and> pk_key x = node_key (node_of e nxt) then Some (node_value (node_of e nxt)) else results ! pk_order x))
    \<and> (\<forall>i. i \<notin> pk_order ` set ?es \<longrightarrow> results' ! i = results ! i)"
  proof (rule fetch_fold)
    show "distinct (map pk_order ?es)" using bp by (simp add: batch_part_def distinct_map_filter)
    show "\<forall>x \<in> set ?es. pk_order x < length results" using bp f by (simp add: batch_part_def fetched_def)
    show "length (filter (\<lambda>x. results ! pk_order x = None \<and> pk_key x = node_key (node_of e nxt)) ?es) \<le> missing part pre"
      unfolding hits by (rule missing_snoc(2))
  qed
  then obtain r where r: "rfold (fetch_match (node_of e nxt)) ?es (results, missing part pre) = Ok (r, missing part (pre @ [e]))"
    "length r = length results"
    "\<forall>x \<in> set ?es. r ! pk_order x =
         (if results ! pk_order x = None \<and> pk_key x = en_key e then Some (en_word e) else results ! pk_order x)"
    "\<forall>i. i \<notin> pk_order ` set ?es \<longrightarrow> r ! i = results ! i"
    unfolding hits missing_snoc(1) [symmetric] by (auto simp: node_of_def)
  have inj: "x = y" if "x \<in> set part" "y \<in> set part" "pk_order x = pk_order y" for x y
    using bp that by (auto simp: batch_part_def distinct_map inj_on_def)
  have "r ! pk_order x = newest_word (pk_key x) (pre @ [e])" if x: "x \<in> set part" for x
  proof (cases "x \<in> set ?es")
    case True
    then show ?thesis using r(3) res [OF x] f x by (auto simp: fetched_def split: option.splits)
  next
    case False
    then have "pk_key x \<noteq> en_key e" using bp x by (auto simp: batch_part_def)
    moreover have "pk_order x \<notin> pk_order ` set ?es" using False inj x by auto
    ultimately show ?thesis using r(4) f x by (auto simp: fetched_def split: option.splits)
  qed
  moreover have "r ! i = base ! i" if "i \<notin> pk_order ` set part" for i
    using r(4) f that by (auto simp: fetched_def)
  ultimately have "fetched part (pre @ [e]) base r" using r(2) f by (simp add: fetched_def)
  then show thesis using that r(1) run by simp
qed

lemma fetched_all:
  assumes "fetched part pre base results" "missing part pre = 0"
  shows "fetched part (pre @ post) base results"
proof -
  have "lookup_entry (pk_key x) pre \<noteq> None" if "x \<in> set part" for x
    using assms(2) that by (auto simp: missing_def filter_empty_conv)
  then show ?thesis using assms(1) by (fastforce simp: fetched_def split: option.splits)
qed

lemma fetch_chain:
  assumes inv: "db_inv db ch L B" and b: "unat bk < buckets db" and bp: "batch_part db bk part (length base)"
  shows "ch (unat bk) = pre @ post \<Longrightarrow> fetched part pre base results \<Longrightarrow>
    \<exists>results'. rloop (fetch_step db bk part (first_offset (ch (unat bk))))
        (link_after bk pre, first_offset post, missing part pre, results) = Ok (True, results')
      \<and> fetched part (ch (unat bk)) base results'"
proof (induction post arbitrary: pre results)
  case Nil
  have "rloop (fetch_step db bk part (first_offset (ch (unat bk))))
      (link_after bk pre, first_offset [], missing part pre, results) = Ok (True, results)"
    by (rule rloop_step(2)) (simp add: fetch_step_def read_head_eq [OF inv b])
  then show ?case using Nil by auto
next
  case (Cons e es)
  have nz: "alloc_offset (en_node e) \<noteq> 0" using first_offset_small(2) [OF inv b Cons.prems(1)] by simp
  note rd = read_entry [OF inv b Cons.prems(1)] and lv = link_value_eq [OF inv b Cons.prems(1)]
  obtain r where r: "rfold (fetch_match (node_of e (first_offset es)))
      (takeWhile (\<lambda>x. pk_hash x = key_hash db (en_key e)) (dropWhile (\<lambda>x. pk_hash x < key_hash db (en_key e)) part))
      (results, missing part pre) = Ok (r, missing part (pre @ [e]))" "fetched part (pre @ [e]) base r"
    by (rule fetch_node [OF bp Cons.prems(2)])
  have k: "node_key (node_of e (first_offset es)) = en_key e" "node_next (node_of e (first_offset es)) = first_offset es"
    by (simp_all add: node_of_def)
  show ?case
  proof (cases "missing part (pre @ [e]) = 0")
    case True
    have "rloop (fetch_step db bk part (first_offset (ch (unat bk))))
        (link_after bk pre, first_offset (e # es), missing part pre, results) = Ok (True, r)"
      by (rule rloop_step(2)) (use nz rd lv r(1) k True in \<open>simp add: fetch_step_def Let_def read_head_eq [OF inv b]\<close>)
    then show ?thesis using fetched_all [OF r(2) True, of es] Cons.prems(1) by auto
  next
    case False
    have "rloop (fetch_step db bk part (first_offset (ch (unat bk))))
        (link_after bk pre, first_offset (e # es), missing part pre, results) =
      rloop (fetch_step db bk part (first_offset (ch (unat bk))))
        (link_after bk (pre @ [e]), first_offset es, missing part (pre @ [e]), r)"
      by (rule rloop_step(3)) (use nz rd lv r(1) k False in \<open>simp add: fetch_step_def Let_def\<close>)
    then show ?thesis using Cons.IH [of "pre @ [e]" r] Cons.prems(1) r(2) by simp
  qed
qed

lemma reset_loop:
  assumes "\<forall>x \<in> set part. pk_order x < length results"
  shows "\<exists>r. rfold (\<lambda>e results. set_at results (pk_order e) None msg) part results = Ok r \<and> length r = length results
    \<and> (\<forall>i. r ! i = (if i \<in> pk_order ` set part then None else results ! i))"
  using assms
proof (induction part arbitrary: results)
  case (Cons x part)
  from Cons.IH [of "results[pk_order x := None]"] Cons.prems show ?case
    by (auto simp: set_at_def nth_list_update)
qed simp

lemma fetch_bucket_batch_eq:
  assumes inv: "db_inv db ch L B" and b: "unat bk < buckets db" and bp: "batch_part db bk part (length base)"
  obtains results where "fetch_bucket_batch db bk part base = Ok results" "fetched part (ch (unat bk)) base results"
proof -
  obtain r0 where r0: "rfold (\<lambda>e results. set_at results (pk_order e) None ''batch-fetch result index is out of range'') part base = Ok r0"
    "length r0 = length base" "\<forall>i. r0 ! i = (if i \<in> pk_order ` set part then None else base ! i)"
    using reset_loop [of part base] bp unfolding batch_part_def by blast
  have "fetched part [] base r0" using r0(2,3) by (auto simp: fetched_def)
  from fetch_chain [OF inv b bp, of "[]" "ch (unat bk)", OF _ this] obtain results where
    r: "rloop (fetch_step db bk part (first_offset (ch (unat bk)))) (Head bk, first_offset (ch (unat bk)), length part, r0) = Ok (True, results)"
    "fetched part (ch (unat bk)) base results" by (auto simp: missing_def)
  have "fetch_bucket_batch db bk part base = Ok results"
    unfolding fetch_bucket_batch_def
    by (rule rloop_step(2)) (use r0(1) r(1) link_value_eq [OF inv b, of "[]"] in simp)
  then show thesis using that r(2) by blast
qed

subsection \<open>The whole batch\<close>

lemma fetch_slices:
  assumes inv: "db_inv db ch L B"
    and parts: "\<forall>(b, part) \<in> set parts. unat b < buckets db \<and> batch_part db b part (length base)"
    and dis: "distinct (map pk_order (concat (map snd parts)))"
  shows "\<exists>results. rfold (\<lambda>(bucket, part). fetch_bucket_batch db bucket part) parts base = Ok results
    \<and> length results = length base
    \<and> (\<forall>x \<in> set (concat (map snd parts)). results ! pk_order x = newest_word (pk_key x) (ch (unat (key_bucket db (pk_key x)))))
    \<and> (\<forall>i. i \<notin> pk_order ` set (concat (map snd parts)) \<longrightarrow> results ! i = base ! i)"
  using parts dis
proof (induction parts arbitrary: base)
  case (Cons p parts)
  obtain b part where p: "p = (b, part)" by (cases p)
  have bp: "unat b < buckets db" "batch_part db b part (length base)" using Cons.prems(1) p by auto
  obtain r where r: "fetch_bucket_batch db b part base = Ok r" "fetched part (ch (unat b)) base r"
    by (rule fetch_bucket_batch_eq [OF inv bp])
  have l: "length r = length base" using r(2) by (simp add: fetched_def)
  have "\<exists>results. rfold (\<lambda>(bucket, part). fetch_bucket_batch db bucket part) parts r = Ok results
    \<and> length results = length r
    \<and> (\<forall>x \<in> set (concat (map snd parts)). results ! pk_order x = newest_word (pk_key x) (ch (unat (key_bucket db (pk_key x)))))
    \<and> (\<forall>i. i \<notin> pk_order ` set (concat (map snd parts)) \<longrightarrow> results ! i = r ! i)"
    by (rule Cons.IH) (use Cons.prems l p in auto)
  then obtain q where q: "rfold (\<lambda>(bucket, part). fetch_bucket_batch db bucket part) parts r = Ok q" "length q = length r"
    "\<forall>x \<in> set (concat (map snd parts)). q ! pk_order x = newest_word (pk_key x) (ch (unat (key_bucket db (pk_key x))))"
    "\<forall>i. i \<notin> pk_order ` set (concat (map snd parts)) \<longrightarrow> q ! i = r ! i" by blast
  have "q ! pk_order x = newest_word (pk_key x) (ch (unat (key_bucket db (pk_key x))))" if x: "x \<in> set part" for x
  proof -
    have "pk_order x \<in> pk_order ` set part" using x by blast
    then have "pk_order x \<notin> pk_order ` set (concat (map snd parts))" using Cons.prems(2) p by auto
    then show ?thesis using q(4) r(2) x bp(2) by (simp add: fetched_def batch_part_def)
  qed
  moreover have "q ! i = base ! i" if "i \<notin> pk_order ` set (concat (map snd (p # parts)))" for i
  proof -
    have "i \<notin> pk_order ` set part" "i \<notin> pk_order ` set (concat (map snd parts))" using that p by (auto simp: image_Un)
    then show ?thesis using q(4) r(2) by (simp add: fetched_def)
  qed
  ultimately show ?case using q r(1) l p by (intro exI [of _ q]) auto
qed simp

lemma batch_parts:
  assumes shape: "db_shape db" and m: "(b, part) \<in> set (bucket_slices pk_bucket (batch_order db keys))"
  shows "unat b < buckets db \<and> batch_part db b part (length keys)"
proof -
  obtain xs ys where sp: "batch_order db keys = xs @ part @ ys" "part \<noteq> []" by (rule slices_split [OF m])
  have mem: "\<exists>i < length keys. x = prep_key db (i, keys ! i)" if "x \<in> set part" for x
    using that batch_order_mem [of x db keys] sp(1) by simp
  have bk: "pk_bucket x = b" if "x \<in> set part" for x by (rule slices_bucket [OF m that])
  have "sorted (map (\<lambda>e. (pk_bucket e, pk_hash e, pk_order e)) (batch_order db keys))" by (simp add: batch_order_def)
  then have so: "sorted (map (\<lambda>e. (pk_bucket e, pk_hash e, pk_order e)) part)" by (simp add: sp(1) sorted_append)
  have "sorted (map pk_hash part)"
    unfolding sorted_iff_nth_mono
  proof (intro allI impI)
    fix i j assume ij: "i \<le> j" "j < length (map pk_hash part)"
    then have "(pk_bucket (part ! i), pk_hash (part ! i), pk_order (part ! i)) \<le> (pk_bucket (part ! j), pk_hash (part ! j), pk_order (part ! j))"
      using sorted_nth_mono [OF so, of i j] by simp
    then show "map pk_hash part ! i \<le> map pk_hash part ! j" using bk ij by (auto simp: less_eq_prod_def)
  qed
  moreover have "distinct (map pk_order part)" using batch_order_simps(2) [of db keys] by (simp add: sp(1) del: batch_order_simps)
  moreover have "unat b < buckets db" using sp(2) bk mem key_bucket_lt [OF shape] by (cases part) fastforce+
  ultimately show ?thesis using mem bk by (fastforce simp: batch_part_def)
qed

text \<open>The words of the newest entries, in the order of the keys.\<close>

lemma fetch_words:
  assumes inv: "db_inv db ch L B"
  shows "rfold (\<lambda>(bucket, part). fetch_bucket_batch db bucket part) (bucket_slices pk_bucket (batch_order db keys))
      (replicate (length keys) None) = Ok (map (\<lambda>k. newest_word k (ch (unat (key_bucket db k)))) keys)"
proof -
  let ?parts = "bucket_slices pk_bucket (batch_order db keys)"
  have "\<exists>results. rfold (\<lambda>(bucket, part). fetch_bucket_batch db bucket part) ?parts (replicate (length keys) None) = Ok results
    \<and> length results = length (replicate (length keys) (None :: u64 option))
    \<and> (\<forall>x \<in> set (concat (map snd ?parts)). results ! pk_order x = newest_word (pk_key x) (ch (unat (key_bucket db (pk_key x)))))
    \<and> (\<forall>i. i \<notin> pk_order ` set (concat (map snd ?parts)) \<longrightarrow> results ! i = replicate (length keys) None ! i)"
    by (rule fetch_slices [OF inv]) (use batch_parts [OF db_invD(1) [OF inv]] in \<open>auto simp: slices_concat\<close>)
  then obtain r where r: "rfold (\<lambda>(bucket, part). fetch_bucket_batch db bucket part) ?parts (replicate (length keys) None) = Ok r"
    "length r = length keys"
    "\<forall>x \<in> set (batch_order db keys). r ! pk_order x = newest_word (pk_key x) (ch (unat (key_bucket db (pk_key x))))"
    by (auto simp: slices_concat)
  have "r = map (\<lambda>k. newest_word k (ch (unat (key_bucket db k)))) keys"
  proof (rule nth_equalityI)
    fix i assume "i < length r"
    then have "prep_key db (i, keys ! i) \<in> set (batch_order db keys)" using r(2) by (auto simp: batch_order_mem)
    then show "r ! i = map (\<lambda>k. newest_word k (ch (unat (key_bucket db k)))) keys ! i" using r(2,3) \<open>i < length r\<close> by fastforce
  qed (simp add: r(2))
  then show ?thesis using r(1) by simp
qed

subsection \<open>Reading the values\<close>

definition inline_result :: "(u64 \<Rightarrow> bytes) \<Rightarrow> u64 option \<Rightarrow> bytes option" where
  "inline_result val v = (case v of None \<Rightarrow> None | Some w \<Rightarrow> if w AND VALUE_BLOB_TAG = 0 then Some (val w) else None)"

definition blob_reads :: "nat \<Rightarrow> u64 option list \<Rightarrow> (u64 \<times> usize) list" where
  "blob_reads n encoded = concat (map (\<lambda>(i, v). case v of None \<Rightarrow> []
     | Some w \<Rightarrow> if w AND VALUE_BLOB_TAG = 0 then [] else [(w AND VALUE_OFFSET_MASK, i)]) (enumerate n encoded))"

lemma materialize_inline:
  assumes "\<forall>w. Some w \<in> set encoded \<longrightarrow> read_value db w = Ok (val w)" "length done = n"
  shows "rfold (\<lambda>(order, value) (results, blobs). case value of
           None \<Rightarrow> Ok (results, blobs)
         | Some v \<Rightarrow>
             if v AND VALUE_BLOB_TAG = 0 then
               rbind (read_value db v) (\<lambda>bytes. Ok (results[order := Some bytes], blobs))
             else Ok (results, blobs @ [(v AND VALUE_OFFSET_MASK, order)]))
         (enumerate n encoded) (done @ replicate (length encoded) None, blobs) =
    Ok (done @ map (inline_result val) encoded, blobs @ blob_reads n encoded)"
  using assms
proof (induction encoded arbitrary: n "done" blobs)
  case (Cons v encoded)
  show ?case
  proof (cases v)
    case None
    then show ?thesis using Cons.IH [of "done @ [None]" "Suc n" blobs] Cons.prems
      by (simp add: blob_reads_def inline_result_def)
  next
    case (Some w)
    then show ?thesis
      using Cons.IH [of "done @ [Some (val w)]" "Suc n" blobs]
        Cons.IH [of "done @ [None]" "Suc n" "blobs @ [(w AND VALUE_OFFSET_MASK, n)]"] Cons.prems
      by (simp add: blob_reads_def inline_result_def list_update_append)
  qed
qed (simp add: blob_reads_def)

lemma materialize_blobs:
  assumes "\<forall>(off, i) \<in> set bs. i < length results \<and> read_blob db off = Ok (g i)"
  shows "\<exists>r. rfold (\<lambda>(offset, order) results. rbind (read_blob db offset) (\<lambda>bytes. Ok (results[order := Some bytes]))) bs results = Ok r
    \<and> length r = length results \<and> (\<forall>i. r ! i = (if i \<in> snd ` set bs then Some (g i) else results ! i))"
  using assms
proof (induction bs arbitrary: results)
  case (Cons b bs)
  obtain off i where b: "b = (off, i)" by (cases b)
  from Cons.IH [of "results[i := Some (g i)]"] Cons.prems show ?case
    by (auto simp: b nth_list_update)
qed simp

lemma materialize_values_eq:
  assumes rd: "\<forall>w. Some w \<in> set encoded \<longrightarrow> read_value db w = Ok (val w)"
    and lim: "length encoded \<le> reserve_limit (db_heads db)"
  shows "materialize_values db encoded = Ok (map (map_option val) encoded)"
proof -
  let ?bs = "sort_key fst (blob_reads 0 encoded)" and ?r = "map (inline_result val) encoded"
  have mem: "(off, i) \<in> set (blob_reads 0 encoded) \<longleftrightarrow> i < length encoded
      \<and> (\<exists>w. encoded ! i = Some w \<and> w AND VALUE_BLOB_TAG \<noteq> 0 \<and> off = w AND VALUE_OFFSET_MASK)" for off i
    by (auto simp: blob_reads_def in_set_enumerate_eq split: option.splits if_splits)
  have rb: "read_blob db (w AND VALUE_OFFSET_MASK) = Ok (val w)" if "encoded ! i = Some w" "i < length encoded" "w AND VALUE_BLOB_TAG \<noteq> 0" for i w
  proof -
    have "read_value db w = Ok (val w)" using rd that nth_mem [OF that(2)] by simp
    then show ?thesis using that(3) by (simp add: read_value_def)
  qed
  have "\<forall>(off, i) \<in> set ?bs. i < length ?r \<and> read_blob db off = Ok (val (the (encoded ! i)))"
    using mem rb by auto
  from materialize_blobs [OF this] obtain r where
    r: "rfold (\<lambda>(offset, order) results. rbind (read_blob db offset) (\<lambda>bytes. Ok (results[order := Some bytes]))) ?bs ?r = Ok r"
    "length r = length encoded" "\<forall>i. r ! i = (if i \<in> snd ` set ?bs then Some (val (the (encoded ! i))) else ?r ! i)"
    by auto
  have "r = map (map_option val) encoded"
  proof (rule nth_equalityI)
    fix i assume i: "i < length r"
    have "i \<in> snd ` set ?bs \<longleftrightarrow> (\<exists>w. encoded ! i = Some w \<and> w AND VALUE_BLOB_TAG \<noteq> 0)"
      using mem i r(2) by (force simp: image_iff)
    then show "r ! i = map (map_option val) encoded ! i"
      using i r(2,3) by (auto simp: inline_result_def split: option.splits)
  qed (simp add: r(2))
  then show ?thesis
    using r(1) materialize_inline [OF rd, of "[]" 0 "[]"] lim
    by (simp add: materialize_values_def db_try_reserve_def try_reserve_def)
qed

text \<open>A batch answers, for each key, its newest value.\<close>

definition newest :: "history \<Rightarrow> bytes \<Rightarrow> bytes option" where
  "newest f k = (case f k of [] \<Rightarrow> None | v # _ \<Rightarrow> Some v)"

lemma batch_fetch_refines:
  assumes s: "stores db f" and k: "\<forall>k \<in> set keys. length k = 16" and m: "mode (db_config db) = Map"
    and lim: "length keys \<le> reserve_limit (db_heads db)"
    and room: "\<forall>k \<in> set keys. \<forall>v vs bl. f k = v # vs \<longrightarrow> db_blobs db = Some bl \<longrightarrow> length v \<le> reserve_limit (al_data bl)"
  shows "db_batch_fetch simd db keys = Ok (map (newest f) keys)"
proof -
  from s obtain ch where tab: "table db ch" and f: "f = versions db ch" unfolding stores_def by blast
  note inv = stores_inv(1) [OF tab]
  let ?es = "\<lambda>k. ch (unat (key_bucket db k))"
  define val where "val w = (case read_value db w of Some (Inr v) \<Rightarrow> v | _ \<Rightarrow> [])" for w
  have rv: "read_value db (en_word e) = Ok (en_value e)" if kk: "k \<in> set keys" and le: "lookup_entry k (?es k) = Some e" for k e
  proof -
    obtain vs where vs: "f k = en_value e # vs" using lookup_versions(2) [of k ch db e] le f by blast
    have "e \<in> entries db ch" using lookup_mem [OF le] key_bucket_lt [OF db_invD(1) [OF inv], of k] entriesI by blast
    from read_entry_value [OF inv this m, of 0] obtain bl where "db_blobs db = Some bl"
      "read_node_value db (node_of e 0) =
        (if en_blob e = None \<or> length (en_value e) \<le> reserve_limit (al_data bl) then Ok (en_value e) else Err OutOfMemory)" by blast
    then show ?thesis using room kk vs by (simp add: read_node_value_def node_of_def)
  qed
  let ?enc = "map (\<lambda>k. newest_word k (?es k)) keys"
  have "read_value db w = Ok (val w)" if enc: "Some w \<in> set ?enc" for w
  proof -
    obtain k where "k \<in> set keys" "newest_word k (?es k) = Some w" using enc by (auto simp: image_iff eq_commute [of "Some w"])
    then show ?thesis using rv [of k] by (auto simp: val_def)
  qed
  then have "\<forall>w. Some w \<in> set ?enc \<longrightarrow> read_value db w = Ok (val w)" by blast
  then have "materialize_values db ?enc = Ok (map (map_option val) ?enc)" by (rule materialize_values_eq) (use lim in simp)
  moreover have "map (map_option val) ?enc = map (newest f) keys"
  proof -
    have "map_option val (newest_word k (?es k)) = newest f k" if kk: "k \<in> set keys" for k
    proof (cases "lookup_entry k (?es k)")
      case None
      then show ?thesis using lookup_versions(1) [of k ch db] f by (simp add: newest_def)
    next
      case (Some e)
      then show ?thesis using lookup_versions(2) [of k ch db e] Some f rv [OF kk Some] by (auto simp: val_def newest_def)
    qed
    then show ?thesis by simp
  qed
  ultimately show ?thesis
    using prepare_keys_eq [OF k lim, of simd] fetch_words [OF inv, of keys] guard_ok [OF inv] m lim
    by (simp add: db_batch_fetch_def db_try_reserve_def try_reserve_def)
qed

end
