(* ===== verification/Table_Unlink.thy ===== *)
theory Table_Unlink
  imports Table_Fetch
begin

text \<open>
  The destructive batches of src/table.rs: a batch of distinct keys visits each bucket once, under
  its delete lock, and removes the newest entry of every key that has one. This theory has what
  both batches share: the keys they accept, tables some of whose entries are detached and not yet
  released, and the state of the walk along a chain.
\<close>

subsection \<open>Distinct keys\<close>

lemma no_duplicate: "distinct (map pk_key es) \<Longrightarrow> \<not> has_duplicate_key es"
  by (induction es) auto

lemma takeWhile_map_distinct: "distinct (map g es) \<Longrightarrow> distinct (map g (takeWhile P es)) \<and> distinct (map g (dropWhile P es))"
  by (metis distinct_append map_append takeWhile_dropWhile_id)

lemma validate_unique_Ok: "distinct (map pk_key es) \<Longrightarrow> validate_unique_batch_keys es = Ok ()"
proof (induction es rule: validate_unique_batch_keys.induct)
  case (2 e es)
  let ?same = "\<lambda>x. pk_bucket x = pk_bucket e \<and> pk_hash x = pk_hash e"
  have d: "distinct (map pk_key (takeWhile ?same es))" "distinct (map pk_key (dropWhile ?same es))"
    using takeWhile_map_distinct [of pk_key es ?same] "2.prems" by simp_all
  have "distinct (map pk_key (e # takeWhile ?same es))"
    using "2.prems" d(1) by (auto dest: set_takeWhileD)
  then have nd: "\<not> has_duplicate_key (e # takeWhile ?same es)" by (rule no_duplicate)
  then have "validate_unique_batch_keys (dropWhile ?same es) = Ok ()" by (intro "2.IH" refl d(2)) 
  then show ?case using nd by (simp only: validate_unique_batch_keys.simps Let_def if_False)
qed simp

lemma prep_keys: "map pk_key (map (prep_key db) (enumerate 0 keys)) = keys"
  by (rule nth_equalityI) (simp_all add: nth_enumerate_eq)

lemma batch_order_set: "pk_key ` set (batch_order db keys) = set keys"
  unfolding batch_order_def set_sort by (metis prep_keys set_map)

lemma batch_order_keys: "distinct (map pk_key (batch_order db keys)) \<longleftrightarrow> distinct keys"
proof -
  have "distinct (map pk_key (sort_key g xs)) \<longleftrightarrow> distinct (map pk_key xs)" for g :: "prepared_key \<Rightarrow> u64 \<times> u64 \<times> nat" and xs
    by (simp add: distinct_map)
  then show ?thesis by (simp only: batch_order_def prep_keys)
qed

subsection \<open>Tables with detached entries\<close>

text \<open>The entries \<open>D\<close> left their chains and are not yet released: the live pages are those of the
  chains and of \<open>D\<close>.\<close>

definition blobs_of :: "entry list \<Rightarrow> allocation set" where
  "blobs_of D = (\<Union>d \<in> set D. set_option (en_blob d))"

definition held :: "entry list \<Rightarrow> database \<Rightarrow> chains \<Rightarrow> bool" where
  "held D db ch \<longleftrightarrow> db_inv db ch (node_pages db ch \<union> en_node ` set D) (blob_pages db ch \<union> blobs_of D)
     \<and> distinct (map en_node D) \<and> en_node ` set D \<inter> node_pages db ch = {} \<and> one_owner (set D \<union> entries db ch)
     \<and> (\<forall>d \<in> set D. node_alloc (en_node d))"

lemma held_inv: "held D db ch \<Longrightarrow> db_inv db ch (node_pages db ch \<union> en_node ` set D) (blob_pages db ch \<union> blobs_of D)"
  by (simp add: held_def)

lemma table_held: "table db ch \<longleftrightarrow> held [] db ch \<and> unlocked db"
  by (auto simp: table_def held_def blobs_of_def dest: db_invD(7))

lemma held_locks:
  assumes "length l = length (delete_locks db)"
  shows "held D (db\<lparr>delete_locks := l\<rparr>) ch = held D db ch" "versions (db\<lparr>delete_locks := l\<rparr>) ch = versions db ch"
proof -
  show "versions (db\<lparr>delete_locks := l\<rparr>) ch = versions db ch" by (rule versions_cong) simp
  show "held D (db\<lparr>delete_locks := l\<rparr>) ch = held D db ch"
    using db_inv_locks [OF assms] by (simp add: held_def entries_def blob_pages_def)
qed

lemma held_drop:
  assumes h: "held [] db ch" and b: "b < buckets db" and s: "ch b = pre @ e # post" and st: "db_step db t"
    and i: "db_inv t (ch(b := pre @ post)) (node_pages db ch \<union> en_node ` set [] - {en_node e})
       (blob_pages db ch \<union> blobs_of [] - set_option (en_blob e))"
  shows "held [] t (ch(b := pre @ post))"
proof -
  have "db_inv t (ch(b := pre @ post)) (node_pages t (ch(b := pre @ post))) (blob_pages t (ch(b := pre @ post)))"
    using i unfolding entries_cong [OF st] pages_cong [OF st] pages_drop [OF held_inv [OF h] b s] by (simp add: blobs_of_def)
  then show ?thesis using db_invD(7) by (auto simp: held_def blobs_of_def)
qed

lemma held_detach:
  assumes h: "held D db ch" and b: "b < buckets db" and s: "ch b = pre @ e # post" and st: "db_step db t"
    and i: "db_inv t (ch(b := pre @ post)) (node_pages db ch \<union> en_node ` set D) (blob_pages db ch \<union> blobs_of D)"
  shows "held (D @ [e]) t (ch(b := pre @ post))"
proof -
  let ?ch = "ch(b := pre @ post)"
  note inv = held_inv [OF h]
  have sp: "entries db ch = insert e (entries db ?ch)" using entries_split [OF b, of ch pre e post] s by blast
  note pd = pages_drop [OF inv b s]
  have "node_pages t ?ch \<union> en_node ` set (D @ [e]) = node_pages db ch \<union> en_node ` set D"
    unfolding entries_cong [OF st] pd(1) using sp by auto
  moreover have "blob_pages t ?ch \<union> blobs_of (D @ [e]) = blob_pages db ch \<union> blobs_of D"
    unfolding pages_cong [OF st] pd(2) using sp by (auto simp: blobs_of_def blob_pages_def)
  moreover have "node_alloc (en_node e)" using bucket_facts(5) [OF inv b, of e] s by simp
  moreover have "en_node ` set (D @ [e]) \<inter> node_pages t ?ch = {}"
    using h unfolding entries_cong [OF st] pd(1) held_def by auto
  moreover have "en_node e \<notin> en_node ` set D" using h sp unfolding held_def by auto
  moreover have "one_owner (set (D @ [e]) \<union> entries t ?ch)"
    by (rule one_owner_mono [of "set D \<union> entries db ch"]) (use h sp entries_cong [OF st] in \<open>auto simp: held_def\<close>)
  ultimately show ?thesis using h i by (simp add: held_def)
qed

lemma held_snoc:
  assumes h: "held (D @ [d]) db ch"
  shows "en_node d \<notin> en_node ` set D" "en_node d \<notin> node_pages db ch"
    and "f \<in> set D \<union> entries db ch \<Longrightarrow> set_option (en_blob f) \<inter> set_option (en_blob d) = {}"
proof -
  have oo: "one_owner (set (D @ [d]) \<union> entries db ch)" using h by (simp add: held_def)
  show nn: "en_node d \<notin> en_node ` set D" "en_node d \<notin> node_pages db ch" using h unfolding held_def by auto
  assume f: "f \<in> set D \<union> entries db ch"
  then have "en_node f \<noteq> en_node d" using nn by (metis Un_iff imageI)
  moreover have "en_blob f = Some x \<Longrightarrow> en_blob d = Some x \<Longrightarrow> en_node f = en_node d" for x
    using one_ownerD [OF oo, of f d x] f by auto
  ultimately show "set_option (en_blob f) \<inter> set_option (en_blob d) = {}" by (cases "en_blob f"; cases "en_blob d") auto
qed

lemma held_same:
  assumes h: "held D db ch" and st: "db_step db t"
    and i: "db_inv t ch (node_pages db ch \<union> en_node ` set E) (blob_pages db ch \<union> blobs_of E)"
    and E: "set E \<subseteq> set D" "distinct (map en_node E)"
  shows "held E t ch"
proof -
  have "one_owner (set E \<union> entries db ch)"
    by (rule one_owner_mono [of "set D \<union> entries db ch"]) (use h E(1) in \<open>auto simp: held_def\<close>)
  then show ?thesis unfolding held_def entries_cong [OF st] pages_cong [OF st] using h i E by (auto simp: held_def)
qed

lemma held_release_wp:
  assumes h: "held (D @ [d]) db ch"
  shows "wp (release_detached \<lparr>dn_body = en_node d, dn_blob = en_blob d\<rparr>) (\<lambda>_ t. db_step db t \<and> held D t ch) (\<lambda>_ _. False) db"
proof -
  note nn = held_snoc(1,2) [OF h] and bd = held_snoc(3) [OF h]
  have L: "(node_pages db ch \<union> en_node ` set (D @ [d])) - {en_node d} = node_pages db ch \<union> en_node ` set D"
    using nn by auto
  have B: "(blob_pages db ch \<union> blobs_of (D @ [d])) - set_option (en_blob d) = blob_pages db ch \<union> blobs_of D"
    using bd by (fastforce simp: blobs_of_def blob_pages_def)
  have "held D t ch" if t: "db_step db t" "db_inv t ch (node_pages db ch \<union> en_node ` set D) (blob_pages db ch \<union> blobs_of D)" for t
    by (rule held_same [OF h t]) (use h in \<open>auto simp: held_def\<close>)
  moreover have "wp (release_detached \<lparr>dn_body = en_node d, dn_blob = en_blob d\<rparr>)
     (\<lambda>_ t. db_step db t \<and> db_inv t ch ((node_pages db ch \<union> en_node ` set (D @ [d])) - {en_node d})
       ((blob_pages db ch \<union> blobs_of (D @ [d])) - set_option (en_blob d))) (\<lambda>_ _. False) db"
    by (rule release_detached_wp [OF held_inv [OF h]]) (use h nn bd in \<open>auto simp: held_def blobs_of_def\<close>)
  ultimately show ?thesis unfolding L B by (auto elim!: wp_mono)
qed

lemma filter_drop_first:
  assumes "en_key e \<notin> en_key ` set pre"
  shows "filter (\<lambda>x. en_key x = en_key e) (pre @ post) = tl (filter (\<lambda>x. en_key x = en_key e) (pre @ e # post))"
    and "k \<noteq> en_key e \<Longrightarrow> filter (\<lambda>x. en_key x = k) (pre @ post) = filter (\<lambda>x. en_key x = k) (pre @ e # post)"
proof -
  have "filter (\<lambda>x. en_key x = en_key e) pre = []" using assms by (metis (mono_tags, lifting) filter_False image_eqI)
  then show "filter (\<lambda>x. en_key x = en_key e) (pre @ post) = tl (filter (\<lambda>x. en_key x = en_key e) (pre @ e # post))"
    by simp
qed simp

lemma versions_drop:
  fixes db t :: database
  assumes c: "db_config t = db_config db" and b: "unat (key_bucket db (en_key e)) = b" and s: "ch b = pre @ e # post"
    and first: "en_key e \<notin> en_key ` set pre"
  shows "versions t (ch(b := pre @ post)) = (versions db ch)(en_key e := tl (versions db ch (en_key e)))"
proof -
  have "versions t (ch(unat (key_bucket db (en_key e)) := pre @ post))
      = (versions db ch)(en_key e := map en_value (filter (\<lambda>x. en_key x = en_key e) (pre @ post)))"
    by (rule versions_bucket [OF c]) (unfold b s, rule filter_drop_first(2) [OF first])
  then show ?thesis
    unfolding b filter_drop_first(1) [OF first, of post] versions_def [of db ch "en_key e"] s map_tl .
qed

subsection \<open>One bucket\<close>

lemma find_dropWhile: "(\<And>x. P x \<Longrightarrow> \<not> D x) \<Longrightarrow> find P (dropWhile D xs) = find P xs"
  by (induction xs) auto

text \<open>The entries of the part that are marked deleted had a value, and each lost its newest.\<close>

definition marked :: "bool list \<Rightarrow> prepared_key list \<Rightarrow> bytes set" where
  "marked del part = pk_key ` {x \<in> set part. del ! pk_order x}"

definition pop_keys :: "bytes set \<Rightarrow> history \<Rightarrow> history" where
  "pop_keys K f = (\<lambda>k. if k \<in> K then tl (f k) else f k)"

definition removed :: "prepared_key list \<Rightarrow> bool list \<Rightarrow> history \<Rightarrow> bool list \<Rightarrow> history \<Rightarrow> bool" where
  "removed part base f0 del f \<longleftrightarrow> length del = length base \<and> (\<forall>i. i \<notin> pk_order ` set part \<longrightarrow> del ! i = base ! i)
     \<and> (\<forall>k \<in> marked del part. f0 k \<noteq> []) \<and> f = pop_keys (marked del part) f0"

definition left :: "bool list \<Rightarrow> prepared_key list \<Rightarrow> prepared_key list" where
  "left del part = filter (\<lambda>x. \<not> get_or del (pk_order x) False) part"

definition unique_part :: "prepared_key list \<Rightarrow> bool" where
  "unique_part part \<longleftrightarrow> distinct (map pk_order part) \<and> distinct (map pk_key part)"

lemma unique_part_append: "unique_part (xs @ ys) \<Longrightarrow> unique_part xs \<and> unique_part ys"
  by (simp add: unique_part_def)

lemma unique_partD:
  "unique_part part \<Longrightarrow> x \<in> set part \<Longrightarrow> y \<in> set part \<Longrightarrow> pk_order x = pk_order y \<Longrightarrow> x = y"
  "unique_part part \<Longrightarrow> x \<in> set part \<Longrightarrow> y \<in> set part \<Longrightarrow> pk_key x = pk_key y \<Longrightarrow> x = y"
  by (auto simp: unique_part_def distinct_map inj_on_def)

lemma marked_set:
  assumes u: "unique_part part" and x: "x \<in> set part" "pk_order x < length del"
  shows "marked (del[pk_order x := True]) part = insert (pk_key x) (marked del part)"
proof -
  have "del[pk_order x := True] ! pk_order y \<longleftrightarrow> y = x \<or> del ! pk_order y" if "y \<in> set part" for y
    using unique_partD(1) [OF u that x(1)] x(2) by (cases "pk_order y = pk_order x") auto
  then show ?thesis using x(1) by (auto simp: marked_def)
qed

lemma removed_step:
  assumes u: "unique_part part" and x: "x \<in> set part" "pk_order x < length del" "\<not> del ! pk_order x"
    and r: "removed part base f0 del f" and v: "f (pk_key x) \<noteq> []"
  shows "removed part base f0 (del[pk_order x := True]) (f(pk_key x := tl (f (pk_key x))))"
proof -
  have "pk_key x \<notin> marked del part" using unique_partD(2) [OF u x(1)] x(3) by (auto simp: marked_def)
  then have "f (pk_key x) = f0 (pk_key x)" using r by (simp add: removed_def pop_keys_def)
  then show ?thesis
    using r v x marked_set [OF u x(1,2)] by (auto simp: removed_def pop_keys_def fun_eq_iff nth_list_update)
qed

lemma left_set:
  assumes u: "unique_part part" and x: "x \<in> set part" "pk_order x < length del" "\<not> del ! pk_order x"
  shows "length (left del part) = Suc (length (left (del[pk_order x := True]) part))"
  using x u
proof (induction part)
  case (Cons y part)
  have u': "unique_part part" using Cons.prems(4) by (simp add: unique_part_def)
  show ?case
  proof (cases "y = x")
    case True
    have "pk_order z \<noteq> pk_order x" if "z \<in> set part" for z using Cons.prems(4) True that by (force simp: unique_part_def image_iff)
    then have "del[pk_order x := True] ! pk_order z = del ! pk_order z" if "z \<in> set part" for z
      using that nth_list_update_neq by metis
    then have "left (del[pk_order x := True]) part = left del part"
      unfolding left_def by (intro filter_cong) (auto simp: get_or_def)
    then show ?thesis using True Cons.prems by (simp add: left_def get_or_def)
  next
    case False
    then have "pk_order y \<noteq> pk_order x" using unique_partD(1) [OF Cons.prems(4)] Cons.prems(1) by auto
    then show ?thesis using Cons.IH u' Cons.prems False by (simp add: left_def get_or_def)
  qed
qed simp


lemma marked_left:
  assumes "\<forall>x \<in> set part. pk_order x < length del" "left del part = []"
  shows "marked del part = pk_key ` set part"
  using assms by (auto simp: marked_def left_def get_or_def filter_empty_conv)

lemma left_mem:
  assumes "\<forall>x \<in> set part. pk_order x < length del"
  shows "x \<in> set (left del part) \<longleftrightarrow> x \<in> set part \<and> \<not> del ! pk_order x"
  using assms by (auto simp: left_def get_or_def)

text \<open>The node under the cursor matches at most one entry that is left.\<close>

lemma find_matching:
  assumes bp: "batch_part db bk part (length del)"
  shows "find (\<lambda>x. pk_hash x = key_hash db key \<and> \<not> get_or del (pk_order x) False \<and> pk_key x = key)
      (dropWhile (\<lambda>x. pk_hash x < key_hash db key) part) = find (\<lambda>x. pk_key x = key) (left del part)"
proof -
  have "find (\<lambda>x. pk_hash x = key_hash db key \<and> \<not> get_or del (pk_order x) False \<and> pk_key x = key)
      (dropWhile (\<lambda>x. pk_hash x < key_hash db key) part) =
    find (\<lambda>x. pk_hash x = key_hash db key \<and> \<not> get_or del (pk_order x) False \<and> pk_key x = key) part"
    by (rule find_dropWhile) auto
  also have "\<dots> = find (\<lambda>x. \<not> get_or del (pk_order x) False \<and> pk_key x = key) part"
    by (rule find_cong) (use bp in \<open>auto simp: batch_part_def\<close>)
  also have "\<dots> = find (\<lambda>x. pk_key x = key) (left del part)"
    unfolding left_def by (induction part) auto
  finally show ?thesis .
qed

lemma left_sub: "x \<in> set (left (del[i := True]) part) \<Longrightarrow> x \<in> set (left del part)"
  by (cases "i = pk_order x") (auto simp: left_def get_or_def)



text \<open>The state of the walk along the chain: the entries in \<open>pre\<close> are behind it.\<close>

definition walking ::
  "database \<Rightarrow> u64 \<Rightarrow> prepared_key list \<Rightarrow> bool list \<Rightarrow> history \<Rightarrow> link \<times> u64 \<times> u64 \<times> usize \<Rightarrow> database \<Rightarrow> bool list
    \<Rightarrow> entry list \<Rightarrow> chains \<Rightarrow> entry list \<Rightarrow> entry list \<Rightarrow> bool" where
  "walking db0 bk part base f0 v t del D ch pre post \<longleftrightarrow> held D t ch \<and> db_step db0 t \<and> ch (unat bk) = pre @ post
     \<and> v = (link_after bk pre, first_offset post, first_offset (ch (unat bk)), length (left del part))
     \<and> left del part \<noteq> [] \<and> removed part base f0 del (versions t ch)
     \<and> (\<forall>x \<in> set (left del part). pk_key x \<notin> en_key ` set pre)"

definition finished :: "database \<Rightarrow> prepared_key list \<Rightarrow> bool list \<Rightarrow> history \<Rightarrow> database \<Rightarrow> bool list \<Rightarrow> entry list \<Rightarrow> bool" where
  "finished db0 part base f0 t del D \<longleftrightarrow> (\<exists>ch. held D t ch \<and> versions t ch = pop_keys (pk_key ` set part) f0) \<and> db_step db0 t
     \<and> length del = length base \<and> (\<forall>i. i \<notin> pk_order ` set part \<longrightarrow> del ! i = base ! i)
     \<and> (\<forall>x \<in> set part. del ! pk_order x \<longleftrightarrow> f0 (pk_key x) \<noteq> [])"

lemma finished_step: "finished db part base f t del D \<Longrightarrow> db_step db t"
  by (simp add: finished_def)

lemma finished_empty: "held D db ch \<Longrightarrow> finished db [] base (versions db ch) db base D"
  by (auto simp: finished_def pop_keys_def)

lemma finished_append:
  assumes d: "unique_part (xs @ ys)" and a: "finished db0 xs base f0 t del D"
    and b: "finished t ys del (pop_keys (pk_key ` set xs) f0) t' del' D'"
  shows "finished db0 (xs @ ys) base f0 t' del' D'"
proof -
  have k: "pk_key y \<notin> pk_key ` set xs" "pk_order y \<notin> pk_order ` set xs" if "y \<in> set ys" for y
    using d that by (force simp: unique_part_def)+
  have o: "pk_order x \<notin> pk_order ` set ys" if "x \<in> set xs" for x using d that by (force simp: unique_part_def)
  have xy: "k' \<in> pk_key ` set ys \<Longrightarrow> k' \<notin> pk_key ` set xs" for k' using k(1) by (metis imageE)
  have "pop_keys (pk_key ` set ys) (pop_keys (pk_key ` set xs) f0) = pop_keys (pk_key ` set (xs @ ys)) f0"
    using xy by (auto simp: pop_keys_def fun_eq_iff simp del: image_iff)
  moreover have "pop_keys (pk_key ` set xs) f0 (pk_key y) = f0 (pk_key y)" if "y \<in> set ys" for y
    using k(1) [OF that] by (simp add: pop_keys_def)
  ultimately show ?thesis using a b o db_step_trans [of db0 t t'] by (auto simp: finished_def image_Un)
qed

lemma marked_iff:
  "unique_part part \<Longrightarrow> x \<in> set part \<Longrightarrow> pk_key x \<in> marked del part \<longleftrightarrow> del ! pk_order x"
  using unique_partD(2) [of part x] by (auto simp: marked_def)

lemma removed_finished:
  assumes u: "unique_part part" and h: "held D t ch" and st: "db_step db0 t" and r: "removed part base f0 del (versions t ch)"
    and un: "\<And>x. x \<in> set part \<Longrightarrow> \<not> del ! pk_order x \<Longrightarrow> versions t ch (pk_key x) = []"
  shows "finished db0 part base f0 t del D"
proof -
  have f: "versions t ch = pop_keys (marked del part) f0" using r by (simp add: removed_def)
  have e: "del ! pk_order x \<longleftrightarrow> f0 (pk_key x) \<noteq> []" if x: "x \<in> set part" for x
    using un [OF x] marked_iff [OF u x, of del] r f by (auto simp: removed_def pop_keys_def)
  have "pop_keys (marked del part) f0 = pop_keys (pk_key ` set part) f0"
    using e marked_iff [OF u, of _ del] by (fastforce simp: pop_keys_def fun_eq_iff marked_def)
  then show ?thesis using h st f r e by (auto simp: finished_def removed_def)
qed

lemma part_bounds:
  assumes bp: "batch_part db0 bk part (length base)" and w: "walking db0 bk part base f0 v t del D ch pre post"
  shows "\<forall>x \<in> set part. pk_order x < length del" "length del = length base" "batch_part t bk part (length del)"
proof -
  show l: "length del = length base" using w by (simp add: walking_def removed_def)
  then show "\<forall>x \<in> set part. pk_order x < length del" using bp by (simp add: batch_part_def)
  have "db_config t = db_config db0" using w db_step_config by (auto simp: walking_def)
  then show "batch_part t bk part (length del)" using bp l key_bucket_cong [of t db0] by (simp add: batch_part_def key_hash_def)
qed

lemma walk_end:
  assumes bp: "batch_part db0 bk part (length base)" and u: "unique_part part"
    and w: "walking db0 bk part base f0 v t del D ch pre []"
  shows "finished db0 part base f0 t del D"
proof (rule removed_finished [OF u])
  note pb = part_bounds [OF bp w]
  show "held D t ch" "db_step db0 t" "removed part base f0 del (versions t ch)" using w by (simp_all add: walking_def)
  fix x assume x: "x \<in> set part" "\<not> del ! pk_order x"
  then have "pk_key x \<notin> en_key ` set (ch (unat bk))" using w left_mem [OF pb(1)] by (auto simp: walking_def)
  then have "lookup_entry (pk_key x) (ch (unat (key_bucket t (pk_key x)))) = None" using pb(3) x(1) by (simp add: batch_part_def)
  then show "versions t ch (pk_key x) = []" by (simp add: lookup_versions(1))
qed

lemma walk_skip:
  assumes w: "walking db0 bk part base f0 v t del D ch pre (e # es)" and n: "\<forall>x \<in> set (left del part). pk_key x \<noteq> en_key e"
  shows "walking db0 bk part base f0 (Link_Node (alloc_offset (en_node e)), first_offset es, first_offset (ch (unat bk)), length (left del part))
     t del D ch (pre @ [e]) es"
  using w n by (auto simp: walking_def)

text \<open>The newest entry \<open>e\<close> of the key of \<open>x\<close> left the chain.\<close>

lemma walk_drop:
  assumes bp: "batch_part db0 bk part (length base)" and u: "unique_part part" and b: "unat bk < buckets db0"
    and w: "walking db0 bk part base f0 v t del D ch pre (e # es)"
    and x: "x \<in> set (left del part)" "pk_key x = en_key e"
    and st: "db_step t t'" and h: "held D' t' (ch(unat bk := pre @ es))"
  defines "del' \<equiv> del[pk_order x := True]"
  shows "length (left del part) = Suc (length (left del' part))"
    and "left del' part = [] \<Longrightarrow> finished db0 part base f0 t' del' D'"
    and "left del' part \<noteq> [] \<Longrightarrow> walking db0 bk part base f0
      (link_after bk pre, first_offset es, first_offset (pre @ es), length (left del' part)) t' del' D' (ch(unat bk := pre @ es)) pre es"
    and "\<exists>vs. f0 (pk_key x) = en_value e # vs"
proof -
  let ?ch = "ch(unat bk := pre @ es)"
  note pb = part_bounds [OF bp w]
  have xp: "x \<in> set part" "\<not> del ! pk_order x" "pk_order x < length del" using x(1) left_mem [OF pb(1)] pb(1) by auto
  have s: "ch (unat bk) = pre @ e # es" and st0: "db_step db0 t" and r0: "removed part base f0 del (versions t ch)"
    using w by (simp_all add: walking_def)
  have kb: "unat (key_bucket t (en_key e)) = unat bk" using pb(3) xp(1) x(2) by (auto simp: batch_part_def)
  have first: "en_key e \<notin> en_key ` set pre" using w x by (auto simp: walking_def)
  have ver: "versions t' ?ch = (versions t ch)(en_key e := tl (versions t ch (en_key e)))"
    using versions_drop [OF db_step_config [OF st] kb, of ch pre es] s first by blast
  have "lookup_entry (en_key e) (ch (unat (key_bucket t (en_key e)))) = Some e" using s first kb by simp
  then have hd: "\<exists>vs. versions t ch (pk_key x) = en_value e # vs" using lookup_versions(2) [of "en_key e" ch t e] x(2) by simp
  have "pk_key x \<notin> marked del part" using marked_iff [OF u xp(1)] xp(2) by blast
  then show "\<exists>vs. f0 (pk_key x) = en_value e # vs" using hd r0 by (auto simp: removed_def pop_keys_def)
  have r: "removed part base f0 del' (versions t' ?ch)"
    using removed_step [OF u xp(1,3,2) r0] hd ver x(2) by (auto simp: del'_def)
  show "length (left del part) = Suc (length (left del' part))"
    unfolding del'_def by (rule left_set [OF u xp(1,3,2)])
  have st': "db_step db0 t'" by (rule db_step_trans [OF st0 st])
  show "finished db0 part base f0 t' del' D'" if l: "left del' part = []"
  proof (rule removed_finished [OF u h st' r])
    fix y assume "y \<in> set part" "\<not> del' ! pk_order y"
    then have "y \<in> set (left del' part)" using left_mem [of part del'] pb(1) by (simp add: del'_def)
    then show "versions t' ?ch (pk_key y) = []" using l by simp
  qed
  have "\<forall>y \<in> set (left del' part). pk_key y \<notin> en_key ` set pre"
    using w left_sub unfolding del'_def by (auto simp: walking_def)
  then show "walking db0 bk part base f0 (link_after bk pre, first_offset es, first_offset (pre @ es), length (left del' part)) t' del' D' ?ch pre es"
    if "left del' part \<noteq> []" using that h st' r by (simp add: walking_def)
qed

text \<open>What a step reads at the cursor.\<close>

lemma walk_reads:
  assumes bp: "batch_part db0 bk part (length base)" and b: "unat bk < buckets db0"
    and w: "walking db0 bk part base f0 v t del D ch pre post"
  shows "runtime_heads t ! unat bk = first_offset (ch (unat bk))"
    and "v = (link_after bk pre, first_offset post, first_offset (ch (unat bk)), length (left del part))"
    and "link_value t (link_after bk pre) = Ok (first_offset post)"
    and "unat bk < buckets t" and "ch (unat bk) = pre @ post"
    and "post = e # es \<Longrightarrow> alloc_offset (en_node e) \<noteq> 0"
    and "post = e # es \<Longrightarrow> read_node (db_body t) (alloc_offset (en_node e)) = Ok (node_of e (first_offset es))"
    and "post = e # es \<Longrightarrow> read_next (db_body t) (alloc_offset (en_node e)) = Ok (first_offset es)"
    and "post = e # es \<Longrightarrow> (case link_after bk pre of Head _ \<Rightarrow> node_next (node_of e (first_offset es))
       | Link_Node _ \<Rightarrow> first_offset (ch (unat bk))) = first_offset (pre @ es)"
proof -
  have h: "held D t ch" and st0: "db_step db0 t" using w by (simp_all add: walking_def)
  show s: "ch (unat bk) = pre @ post"
    and "v = (link_after bk pre, first_offset post, first_offset (ch (unat bk)), length (left del part))"
    using w by (simp_all add: walking_def)
  note inv = held_inv [OF h]
  show bt: "unat bk < buckets t" using b db_step_config [OF st0] by simp
  show "runtime_heads t ! unat bk = first_offset (ch (unat bk))" by (rule bucket_facts(2) [OF inv bt])
  show "link_value t (link_after bk pre) = Ok (first_offset post)" by (rule link_value_eq [OF inv bt s])
  assume "post = e # es"
  then have se: "ch (unat bk) = pre @ e # es" using s by simp
  show "alloc_offset (en_node e) \<noteq> 0" using first_offset_small(2) [OF inv bt se] by simp
  show "read_node (db_body t) (alloc_offset (en_node e)) = Ok (node_of e (first_offset es))"
    "read_next (db_body t) (alloc_offset (en_node e)) = Ok (first_offset es)" by (rule read_entry [OF inv bt se])+
  show "(case link_after bk pre of Head _ \<Rightarrow> node_next (node_of e (first_offset es))
       | Link_Node _ \<Rightarrow> first_offset (ch (unat bk))) = first_offset (pre @ es)"
    using se by (cases pre) (simp_all add: link_after_def node_of_def)
qed

end
