(* ===== verification/Table_Walk.thy ===== *)
theory Table_Walk
  imports Table_Unlink
begin

text \<open>
  The walk of the destructive batches of src/table.rs as an interface: from the law of one step
  follow the loop along the chain, the bucket under its delete lock and the whole batch. The
  interpretation on \<open>delete_batch_step\<close> gives \<open>batch_delete\<close>.
\<close>

subsection \<open>The interface of a walk\<close>

text \<open>Both destructive batches walk a chain in the same way and differ in what a step does with a
  match and in the locals they keep. \<open>marks\<close> reads from the locals which entries of the batch are
  done, \<open>extra\<close> is what the batch knows of the locals and of the detached entries; \<open>es\<close> is the whole
  batch and \<open>F\<close> the contents of the table before it.\<close>

definition part_done ::
  "('x \<Rightarrow> bool list) \<Rightarrow> (database \<Rightarrow> 'x \<Rightarrow> entry list \<Rightarrow> bool) \<Rightarrow> database \<Rightarrow> prepared_key list \<Rightarrow> bool list \<Rightarrow> history \<Rightarrow> database \<times> 'x \<Rightarrow> bool" where
  "part_done marks extra db0 part base f0 s \<longleftrightarrow>
     (\<exists>D. extra (fst s) (snd s) D \<and> finished db0 part base f0 (fst s) (marks (snd s)) D)"

lemma part_doneI: "extra (fst s) (snd s) D \<Longrightarrow> finished db0 part base f0 (fst s) (marks (snd s)) D \<Longrightarrow> part_done marks extra db0 part base f0 s"
  by (auto simp: part_done_def)

locale bucket_walk =
  fixes step :: "u64 \<Rightarrow> prepared_key list \<Rightarrow> usize \<Rightarrow> link \<times> u64 \<times> u64 \<times> usize
      \<Rightarrow> (database \<times> 'x, (link \<times> u64 \<times> u64 \<times> usize, bool) flow) prog"
    and bucket :: "u64 \<Rightarrow> prepared_key list \<Rightarrow> (database \<times> 'x, unit) prog"
    and marks :: "'x \<Rightarrow> bool list"
    and extra :: "database \<Rightarrow> 'x \<Rightarrow> entry list \<Rightarrow> bool"
    and es :: "prepared_key list" and F :: history
  assumes bucket_law: "bucket bk part =
      loop (\<lambda>_.
        bnd (gets (\<lambda>(_, x). length (left (marks x) part))) (\<lambda>remaining.
        if remaining = 0 then ok (Return ())
        else
          bnd (reads (\<lambda>(db, _). head db bk)) (\<lambda>h.
          bnd (gets (\<lambda>(db, _). runtime_heads db ! h)) (\<lambda>expected_head.
          bnd (loop (step bk part h) (Head bk, expected_head, expected_head, remaining)) (\<lambda>done.
          ok (if done then Return () else Continue ())))))) ()"
    and extra_locks: "extra (t\<lparr>delete_locks := l\<rparr>) x D = extra t x D"
    and step_law: "batch_part db0 bk part (length base) \<Longrightarrow> unique_part part \<Longrightarrow> set part \<subseteq> set es
      \<Longrightarrow> \<forall>y \<in> set part. f0 (pk_key y) = F (pk_key y) \<Longrightarrow> unat bk < buckets db0
      \<Longrightarrow> walking db0 bk part base f0 v t (marks x) D ch pre post \<Longrightarrow> extra t x D
      \<Longrightarrow> wp (step bk part (unat bk) v)
           (\<lambda>c s. \<exists>D'. extra (fst s) (snd s) D' \<and> (case c of
              Return d \<Rightarrow> d \<and> finished db0 part base f0 (fst s) (marks (snd s)) D'
            | Continue v' \<Rightarrow> \<exists>ch' pre' post'. walking db0 bk part base f0 v' (fst s) (marks (snd s)) D' ch' pre' post'
                \<and> length post' < length post)) (\<lambda>_ _. False) (t, x)"
begin

lemma walk_wp:
  assumes p: "batch_part db0 bk part (length base)" "unique_part part" "set part \<subseteq> set es"
      "\<forall>y \<in> set part. f0 (pk_key y) = F (pk_key y)" "unat bk < buckets db0"
    and w: "walking db0 bk part base f0 v t (marks x) D ch pre post" "extra t x D"
  shows "wp (loop (step bk part (unat bk)) v) (\<lambda>d s. d \<and> part_done marks extra db0 part base f0 s) (\<lambda>_ _. False) (t, x)"
  using w
proof (induction "length post" arbitrary: v t x D ch pre post rule: less_induct)
  case less
  show ?case
    by (rule wp_loop_unfold, rule wp_mono [OF step_law [OF p less.prems]])
      (auto split: flow.splits intro: less.hyps part_doneI)
qed

lemma bucket_wp:
  assumes p: "batch_part db bk part (length (marks x))" "unique_part part" "set part \<subseteq> set es"
      "\<forall>y \<in> set part. versions db ch (pk_key y) = F (pk_key y)" "unat bk < buckets db"
    and h: "held D db ch" and e: "extra db x D" and z: "\<forall>y \<in> set part. \<not> marks x ! pk_order y"
  shows "wp (bucket bk part) (\<lambda>_ s. part_done marks extra db part (marks x) (versions db ch) s) (\<lambda>_ _. False) (db, x)"
proof -
  have m: "marked (marks x) part = {}" using z by (auto simp: marked_def)
  have r: "removed part (marks x) (versions db ch) (marks x) (versions db ch)" by (simp add: removed_def m pop_keys_def)
  note inv = held_inv [OF h]
  show ?thesis
  proof (cases "left (marks x) part = []")
    case True
    have "part = []" using True z left_mem [of part "marks x"] p(1) by (cases part) (auto simp: batch_part_def)
    then have "part_done marks extra db part (marks x) (versions db ch) (db, x)"
      using finished_empty [OF h, of "marks x"] e by (auto simp: part_done_def)
    then show ?thesis using True unfolding bucket_law
      by (intro wp_loop_once) (simp add: wp_bnd)
  next
    case False
    have "walking db bk part (marks x) (versions db ch)
        (link_after bk [], first_offset (ch (unat bk)), first_offset (ch (unat bk)), length (left (marks x) part))
        db (marks x) D ch [] (ch (unat bk))" using False r h by (simp add: walking_def)
    note d = walk_wp [OF p this e, unfolded link_after_simps]
    show ?thesis unfolding bucket_law
      using False read_head_eq(2) [OF inv p(5)] bucket_facts(2) [OF inv p(5)]
      apply (intro wp_loop_once)
      apply (simp add: wp_bnd wp_reads)
      by (rule wp_mono [OF d]) auto
  qed
qed

lemma guarded_wp:
  assumes p: "batch_part db bk part (length (marks x))" "unique_part part" "set part \<subseteq> set es"
      "\<forall>y \<in> set part. versions db ch (pk_key y) = F (pk_key y)" "unat bk < buckets db"
    and h: "held D db ch" "unlocked db" and e: "extra db x D" and z: "\<forall>y \<in> set part. \<not> marks x ! pk_order y"
  shows "wp (with_delete_guard_local bk (bucket bk part)) (\<lambda>_ s. part_done marks extra db part (marks x) (versions db ch) s) (\<lambda>_ _. False) (db, x)"
proof -
  let ?l = "locked (unat bk) db"
  have ll: "held D ?l ch" "versions ?l ch = versions db ch" "extra ?l x D"
    using h(1) e held_locks [of "(delete_locks db)[unat bk := 1]" db] by (simp_all add: locked_def extra_locks)
  have pl: "batch_part ?l bk part (length (marks x))" "\<forall>y \<in> set part. versions ?l ch (pk_key y) = F (pk_key y)" "unat bk < buckets ?l"
    using p ll(2) by (simp_all add: batch_part_def)
  have give: "part_done marks extra db part b f (t\<lparr>delete_locks := delete_locks db\<rparr>, y) \<and> db_step ?l t" if fin: "part_done marks extra ?l part b f (t, y)" for b f t y
  proof -
    from fin have st: "db_step ?l t" by (auto simp: part_done_def finished_def)
    then have "length (delete_locks db) = length (delete_locks t)" by (simp add: db_step_def locked_def)
    note el = held_locks [OF this]
    have "db_step db (t\<lparr>delete_locks := delete_locks db\<rparr>)" using st by (simp add: db_step_def locked_def)
    then show ?thesis using fin st by (simp add: finished_def part_done_def el extra_locks)
  qed
  show ?thesis
    by (rule with_delete_guard_local_wp [OF db_invD(1) [OF held_inv [OF h(1)]] h(2) p(5)],
        rule wp_mono [OF bucket_wp [OF pl(1) p(2,3) pl(2,3) ll(1,3) z]])
      (use give ll(2) in auto)
qed

lemma slices_wp:
  assumes parts: "\<forall>(b, part) \<in> set parts. unat b < buckets db \<and> batch_part db b part (length (marks x))"
    and u: "unique_part (concat (map snd parts))" and sub: "set (concat (map snd parts)) \<subseteq> set es"
    and h: "held D db ch" "unlocked db" "F = versions db ch" and e: "extra db x D"
    and z: "\<forall>y \<in> set (concat (map snd parts)). \<not> marks x ! pk_order y"
  shows "wp (forM parts (\<lambda>(b, part). with_delete_guard_local b (bucket b part)))
     (\<lambda>_ s. part_done marks extra db (concat (map snd parts)) (marks x) F s) (\<lambda>_ _. False) (db, x)"
proof -
  let ?I = "\<lambda>rest s. \<exists>ps. parts = ps @ rest \<and> part_done marks extra db (concat (map snd ps)) (marks x) F s"
  have "wp (forM parts (\<lambda>(b, part). with_delete_guard_local b (bucket b part))) (\<lambda>_. ?I []) (\<lambda>_ _. False) (db, x)"
  proof (rule wp_forM [where I = ?I])
    show "?I parts (db, x)" using finished_empty [OF h(1)] e h(3) by (auto simp: part_done_def)
    fix p rest and s :: "database \<times> 'x" assume "?I (p # rest) s"
    then obtain ps D' where ps: "parts = ps @ p # rest" and e': "extra (fst s) (snd s) D'"
      and fin: "finished db (concat (map snd ps)) (marks x) F (fst s) (marks (snd s)) D'" by (auto simp: part_done_def)
    obtain b part where p: "p = (b, part)" by (cases p)
    let ?xs = "concat (map snd ps)"
    have st: "db_step db (fst s)" and len: "length (marks (snd s)) = length (marks x)" using fin by (simp_all add: finished_def)
    have "unique_part ((?xs @ part) @ concat (map snd rest))" using u by (simp add: ps p)
    then have u2: "unique_part (?xs @ part)" "unique_part part" using unique_part_append by blast+
    have c: "db_config (fst s) = db_config db" by (rule db_step_config [OF st])
    have bp: "batch_part (fst s) b part (length (marks (snd s)))" "unat b < buckets (fst s)"
      using parts ps p len c key_bucket_cong [OF c] by (auto simp: batch_part_def key_hash_def)
    obtain ch' where ch': "held D' (fst s) ch'" "versions (fst s) ch' = pop_keys (pk_key ` set ?xs) F"
      using fin by (auto simp: finished_def)
    have new: "pk_order y \<notin> pk_order ` set ?xs" "pk_key y \<notin> pk_key ` set ?xs" if "y \<in> set part" for y
      using u2(1) that by (force simp: unique_part_def)+
    have zz: "\<forall>y \<in> set part. \<not> marks (snd s) ! pk_order y" using new(1) fin z ps p by (auto simp: finished_def)
    have vv: "\<forall>y \<in> set part. versions (fst s) ch' (pk_key y) = F (pk_key y)" using new(2) by (auto simp: ch'(2) pop_keys_def)
    have nx: "?I rest s'" if "part_done marks extra (fst s) part (marks (snd s)) (versions (fst s) ch') s'" for s'
    proof -
      from that obtain D'' where "extra (fst s') (snd s') D''"
        and f2: "finished (fst s) part (marks (snd s)) (pop_keys (pk_key ` set ?xs) F) (fst s') (marks (snd s')) D''"
        by (auto simp: part_done_def ch'(2))
      with finished_append [OF u2(1) fin f2] ps p show ?thesis
        by (intro exI [of _ "ps @ [p]"]) (auto simp: part_done_def)
    qed
    have un: "unlocked (fst s)" using unlocked_step [OF st] h(2) by simp
    have "set part \<subseteq> set es" using sub ps p by auto
    note g = guarded_wp [OF bp(1) u2(2) this vv bp(2) ch'(1) un e' zz, unfolded surjective_pairing [symmetric]]
    show "wp (case p of (b, part) \<Rightarrow> with_delete_guard_local b (bucket b part)) (\<lambda>_. ?I rest) (\<lambda>_ _. False) s"
      unfolding p prod.case by (rule wp_mono [OF g]) (use nx in auto)
  qed
  then show ?thesis by (rule wp_mono) auto
qed

end

subsection \<open>Batch delete\<close>

lemma delete_batch_step_wp:
  assumes bp: "batch_part db0 bk part (length base)" and u: "unique_part part" and b: "unat bk < buckets db0"
    and w: "walking db0 bk part base f0 v t del [] ch pre post"
  shows "wp (delete_batch_step bk part (unat bk) v)
     (\<lambda>c s. case c of Return d \<Rightarrow> d \<and> finished db0 part base f0 (fst s) (snd s) []
        | Continue v' \<Rightarrow> \<exists>ch' pre' post'. walking db0 bk part base f0 v' (fst s) (snd s) [] ch' pre' post' \<and> length post' < length post)
     (\<lambda>_ _. False) (t, del)"
proof -
  note pb = part_bounds [OF bp w] and wr = walk_reads [OF bp b w]
  have h: "held [] t ch" using w by (simp add: walking_def)
  show ?thesis
  proof (cases post)
    case Nil
    then have "finished db0 part base f0 t del []" using walk_end [OF bp u] w by simp
    then show ?thesis using wr(1,2) Nil by (simp add: delete_batch_step_def wp_bnd)
  next
    case (Cons e es)
    have k: "node_key (node_of e (first_offset es)) = en_key e" "node_next (node_of e (first_offset es)) = first_offset es"
      by (simp_all add: node_of_def)
    note fm = find_matching [OF pb(3), of "en_key e"]
    note rd = wr(2,3) wr(6-8) [OF Cons]
    show ?thesis
    proof (cases "find (\<lambda>x. pk_key x = en_key e) (left del part)")
      case None
      then have "walking db0 bk part base f0 (Link_Node (alloc_offset (en_node e)), first_offset es, first_offset (ch (unat bk)), length (left del part))
         t del [] ch (pre @ [e]) es" using walk_skip [of db0 bk part base f0 v t del "[]" ch pre e es] w Cons by (auto simp: find_None_iff)
      then have "\<exists>ch' pre' post'. walking db0 bk part base f0 (Link_Node (alloc_offset (en_node e)), first_offset es, first_offset (ch (unat bk)), length (left del part))
         t del [] ch' pre' post' \<and> length post' < length post" using Cons by fastforce
      then show ?thesis
        using rd None Cons k fm by (simp add: delete_batch_step_def wp_bnd wp_reads Let_def)
    next
      case (Some x)
      then have x: "x \<in> set (left del part)" "pk_key x = en_key e" by (auto simp: find_Some_iff)
      have xl: "pk_order x < length del" using x(1) left_mem [OF pb(1)] pb(1) by auto
      have step: "wp (lift_set (pk_order x) True msg) Q E (t', del) = Q () (t', del[pk_order x := True])" for t' :: database and Q E msg
        using xl by (simp add: lift_set_def wp_def)
      have se: "ch (unat bk) = pre @ e # es" using wr(5) Cons by simp
      note dr = walk_drop [OF bp u b, of f0 v t del "[]" ch pre e es x _ "[]", OF _ x]
      let ?Q = "\<lambda>c s. case c of Return d \<Rightarrow> d \<and> finished db0 part base f0 (fst s) (snd s) []
        | Continue v' \<Rightarrow> \<exists>ch' pre' post'. walking db0 bk part base f0 v' (fst s) (snd s) [] ch' pre' post' \<and> length post' < length post"
      have after: "(if length (left del part) = 0 then E
          else if length (left del part) - 1 = 0 then ?Q (Return True) (t', del[pk_order x := True])
          else ?Q (Continue (link_after bk pre, first_offset es, first_offset (pre @ es), length (left del part) - 1)) (t', del[pk_order x := True]))"
        if st: "db_step t t'" and i: "db_inv t' (ch(unat bk := pre @ es)) (node_pages t ch \<union> en_node ` set [] - {en_node e})
            (blob_pages t ch \<union> blobs_of [] - set_option (en_blob e))" for t' E
        using dr [OF _ st held_drop [OF h wr(4) se st i]] w Cons by auto
      show ?thesis
        using rd Some Cons k fm
        apply (simp add: delete_batch_step_def wp_bnd wp_reads wp_attempt wp_on_fst Let_def cong del: if_weak_cong split del: if_split)
        apply (rule wp_mono [OF unlink_link_wp [OF held_inv [OF h] wr(4) se]])
        using after by (auto simp: step wp_bnd wr(9) [OF Cons])
    qed
  qed
qed

interpretation delete_walk: bucket_walk delete_batch_step delete_bucket_batch "\<lambda>del. del" "\<lambda>_ _ D. D = []" es F for es F
proof unfold_locales
  fix bk part
  show "delete_bucket_batch bk part =
      loop (\<lambda>_.
        bnd (gets (\<lambda>(_, x). length (left x part))) (\<lambda>remaining.
        if remaining = 0 then ok (Return ())
        else
          bnd (reads (\<lambda>(db, _). head db bk)) (\<lambda>h.
          bnd (gets (\<lambda>(db, _). runtime_heads db ! h)) (\<lambda>expected_head.
          bnd (loop (delete_batch_step bk part h) (Head bk, expected_head, expected_head, remaining)) (\<lambda>done.
          ok (if done then Return () else Continue ())))))) ()"
    by (simp add: delete_bucket_batch_def left_def)
next
  fix db0 bk part base f0 v t x D ch pre post
  assume "batch_part db0 bk part (length base)" "unique_part part" "unat bk < buckets db0"
    "walking db0 bk part base f0 v t x D ch pre post" "D = []"
  then show "wp (delete_batch_step bk part (unat bk) v)
           (\<lambda>c s. \<exists>D'. D' = [] \<and> (case c of
              Return d \<Rightarrow> d \<and> finished db0 part base f0 (fst s) (snd s) D'
            | Continue v' \<Rightarrow> \<exists>ch' pre' post'. walking db0 bk part base f0 v' (fst s) (snd s) D' ch' pre' post'
                \<and> length post' < length post)) (\<lambda>_ _. False) (t, x)"
    using delete_batch_step_wp by simp
qed simp

text \<open>The marks of a finished batch answer which keys had a value.\<close>

lemma finished_answers:
  assumes fin: "finished db (batch_order db keys) base f t del D" and l: "length base = length keys"
  shows "del = map (\<lambda>k. f k \<noteq> []) keys"
proof (rule nth_equalityI)
  show "length del = length (map (\<lambda>k. f k \<noteq> []) keys)" using fin l by (simp add: finished_def)
  fix i assume i: "i < length del"
  then have "prep_key db (i, keys ! i) \<in> set (batch_order db keys)" using fin l by (auto simp: batch_order_mem finished_def)
  then have "del ! pk_order (prep_key db (i, keys ! i)) \<longleftrightarrow> f (pk_key (prep_key db (i, keys ! i))) \<noteq> []"
    using fin unfolding finished_def by blast
  then show "del ! i = map (\<lambda>k. f k \<noteq> []) keys ! i" using i fin l by (simp add: finished_def)
qed

lemma slices_facts:
  assumes shape: "db_shape db" and d: "distinct keys"
  shows "\<forall>(b, part) \<in> set (bucket_slices pk_bucket (batch_order db keys)). unat b < buckets db \<and> batch_part db b part (length keys)"
    and "unique_part (concat (map snd (bucket_slices pk_bucket (batch_order db keys))))"
    and "validate_unique_batch_keys (batch_order db keys) = Ok ()"
  using batch_parts [OF shape] d validate_unique_Ok
  by (auto simp: slices_concat unique_part_def batch_order_keys)

lemma batch_delete_refines:
  assumes s: "stores db f" and k: "\<forall>k \<in> set keys. length k = 16" and d: "distinct keys"
    and lim: "length keys \<le> reserve_limit (db_heads db)"
  shows "wp (db_batch_delete simd keys)
     (\<lambda>r t. db_step db t \<and> r = map (\<lambda>k. f k \<noteq> []) keys \<and> stores t (pop_keys (set keys) f)) (\<lambda>_ _. False) db"
proof -
  from s obtain ch where tab: "table db ch" and f: "f = versions db ch" unfolding stores_def by blast
  note inv = stores_inv(1) [OF tab]
  let ?es = "batch_order db keys" and ?n = "length keys"
  note sf = slices_facts [OF db_invD(1) [OF inv] d]
  have h: "held [] db ch" "unlocked db" using tab by (simp_all add: table_held)
  have z: "\<forall>y \<in> set ?es. \<not> replicate ?n False ! pk_order y" by (auto simp: batch_order_mem)
  have ds: "wp (forM (bucket_slices pk_bucket ?es) (\<lambda>(b, part). with_delete_guard_local b (delete_bucket_batch b part)))
     (\<lambda>_ s. part_done (\<lambda>del. del) (\<lambda>_ _ D. D = []) db ?es (replicate ?n False) f s) (\<lambda>_ _. False) (db, replicate ?n False)"
    using delete_walk.slices_wp [of "bucket_slices pk_bucket ?es" db "replicate ?n False" ?es "[]" ch f] sf(1,2) h f z
    by (simp add: slices_concat)
  have fin: "db_step db t \<and> del = map (\<lambda>k. f k \<noteq> []) keys \<and> stores t (pop_keys (set keys) f)"
    if pd: "part_done (\<lambda>del. del) (\<lambda>_ _ D. D = []) db ?es (replicate ?n False) f (t, del)" for t del
  proof -
    from pd have fi: "finished db ?es (replicate ?n False) f t del []" by (simp add: part_done_def)
    then obtain ch' where "held [] t ch'" "versions t ch' = pop_keys (set keys) f" "db_step db t"
      unfolding finished_def batch_order_set by blast
    then show ?thesis
      using finished_answers [OF fi] unlocked_step [of db t] h(2) by (auto simp: stores_def table_held)
  qed
  show ?thesis
    using prepare_keys_eq [OF k lim, of simd] sf(3) guard_ok [OF inv] lim
    apply (simp add: db_batch_delete_def wp_bnd wp_reads wp_lift wp_scoped db_try_reserve_def try_reserve_def)
    apply (rule wp_mono [OF ds])
    using fin by auto
qed

end
