(* ===== verification/Table_Pop.thy ===== *)
theory Table_Pop
  imports Table_Walk
begin

text \<open>
  \<open>batch_pop\<close> of src/table.rs: the matched nodes are detached, their values are read, and only then
  are the nodes and blobs released.
\<close>

subsection \<open>Batch pop\<close>

abbreviation detached :: "entry \<Rightarrow> detached_node" where
  "detached e \<equiv> \<lparr>dn_body = en_node e, dn_blob = en_blob e\<rparr>"

lemma compare_exchange_link_blobs: "compare_exchange_link l x y db = Some (r, t) \<Longrightarrow> db_blobs t = db_blobs db"
  by (cases l) (auto simp: compare_exchange_link_def bnd_def cas_head_def on_body_def zoom_def reads_def applied
      split: option.splits sum.splits if_splits prod.splits)

lemma detach_link_wp:
  assumes inv: "db_inv db ch L B" and b: "unat bk < buckets db" and s: "ch (unat bk) = pre @ e # post"
  shows "wp (detach_link (link_after bk pre) (node_of e (first_offset post)))
     (\<lambda>d t. d = detached e \<and> db_step db t \<and> db_blobs t = db_blobs db \<and> db_inv t (ch(unat bk := pre @ post)) L B)
     (\<lambda>_ _. False) db"
proof -
  have ein: "e \<in> entries db ch" using detached_free(3) [OF inv b s, of db] by simp
  have na: "node_allocations db (node_offset (node_of e (first_offset post))) (node_value (node_of e (first_offset post)))
      = Ok (en_node e, en_blob e)" using node_allocations_eq [OF inv ein] by (simp add: node_of_def)
  have off: "node_offset (node_of e (first_offset post)) = alloc_offset (en_node e)" "node_next (node_of e (first_offset post)) = first_offset post"
    by (simp_all add: node_of_def)
  have "wp (compare_exchange_link (link_after bk pre) (alloc_offset (en_node e)) (first_offset post))
     (\<lambda>swapped t. swapped \<and> db_step db t \<and> db_blobs t = db_blobs db \<and> db_inv t (ch(unat bk := pre @ post)) L B) (\<lambda>_ _. False) db"
    using compare_exchange_link_wp [OF inv b s] compare_exchange_link_blobs by (fastforce simp: wp_disj)
  then show ?thesis
    unfolding detach_link_def wp_bnd wp_reads na
    unfolding rwp_prim prod.case off wp_bnd
    by (rule wp_mono) auto
qed

definition is_set :: "u64 option list \<times> detached_node list \<Rightarrow> bool list" where
  "is_set x = map (\<lambda>w. w \<noteq> None) (fst x)"

text \<open>The locals of the batch: a word for every detached entry, which still holds the value the key
  had, and the allocations to release.\<close>

definition popped :: "prepared_key list \<Rightarrow> history \<Rightarrow> database \<Rightarrow> u64 option list \<times> detached_node list \<Rightarrow> entry list \<Rightarrow> bool" where
  "popped es F db x D \<longleftrightarrow> snd x = map detached D \<and> unique_part es
     \<and> (\<forall>y \<in> set es. pk_order y < length (fst x) \<and> fst x ! pk_order y = newest_word (pk_key y) D)
     \<and> (\<forall>d \<in> set D. value_ok db d \<and> (\<exists>vs. F (en_key d) = en_value d # vs))"

lemma is_set_update: "i < length enc \<Longrightarrow> is_set (enc[i := Some w], ds) = (is_set (enc, d))[i := True]"
  by (simp add: is_set_def map_update)

lemma get_or_is_set: "get_or enc i None = None \<longleftrightarrow> \<not> get_or (is_set (enc, d)) i False"
  by (simp add: is_set_def get_or_def)

lemma left_is_set: "filter (\<lambda>e. get_or enc (pk_order e) None = None) part = left (is_set (enc, d)) part"
  unfolding left_def by (simp only: get_or_is_set [of enc _ d])

lemma popped_step:
  assumes p: "popped es F db (enc, ds) D" and x: "x \<in> set es" "enc ! pk_order x = None" "pk_key x = en_key e"
    and v: "value_ok db e" "\<exists>vs. F (pk_key x) = en_value e # vs"
    and t: "db_config t = db_config db" "db_blobs t = db_blobs db"
  shows "popped es F t (enc[pk_order x := Some (en_word e)], ds @ [detached e]) (D @ [e])"
proof -
  have u: "unique_part es" using p by (simp add: popped_def)
  have new: "lookup_entry (pk_key x) D = None" using p x(1,2) by (auto simp: popped_def)
  have "enc[pk_order x := Some (en_word e)] ! pk_order y = newest_word (pk_key y) (D @ [e])" if y: "y \<in> set es" for y
  proof (cases "y = x")
    case True
    then show ?thesis using new x p by (simp add: popped_def)
  next
    case False
    then have "pk_order y \<noteq> pk_order x" "pk_key y \<noteq> pk_key x" using unique_partD [OF u y x(1)] by blast+
    then show ?thesis using p y x(3) by (auto simp: popped_def split: option.splits)
  qed
  then show ?thesis using p v x(3) value_ok_cong [OF t] by (auto simp: popped_def)
qed


lemma pop_batch_step_wp:
  assumes bp: "batch_part db0 bk part (length base)" and u: "unique_part part" and sub: "set part \<subseteq> set bs"
    and f0: "\<forall>y \<in> set part. f0 (pk_key y) = F (pk_key y)" and b: "unat bk < buckets db0"
    and w: "walking db0 bk part base f0 v t (is_set x) D ch pre post" and ex: "popped bs F t x D"
  shows "wp (pop_batch_step bk part (unat bk) v)
     (\<lambda>c s. \<exists>D'. popped bs F (fst s) (snd s) D' \<and> (case c of
        Return d \<Rightarrow> d \<and> finished db0 part base f0 (fst s) (is_set (snd s)) D'
      | Continue v' \<Rightarrow> \<exists>ch' pre' post'. walking db0 bk part base f0 v' (fst s) (is_set (snd s)) D' ch' pre' post' \<and> length post' < length post))
     (\<lambda>_ _. False) (t, x)"
proof -
  obtain enc ds where xd: "x = (enc, ds)" by (cases x)
  let ?del = "is_set (enc, ds)"
  note w' = w [unfolded xd]
  note pb = part_bounds [OF bp w'] and wr = walk_reads [OF bp b w']
  have h: "held D t ch" using w by (simp add: walking_def)
  show ?thesis
  proof (cases post)
    case Nil
    then have "finished db0 part base f0 t ?del D" using walk_end [OF bp u] w' by simp
    then show ?thesis using wr(1,2) Nil ex xd by (auto simp: pop_batch_step_def wp_bnd)
  next
    case (Cons e es)
    have k: "node_key (node_of e (first_offset es)) = en_key e" "node_next (node_of e (first_offset es)) = first_offset es"
        "node_value (node_of e (first_offset es)) = en_word e"
      by (simp_all add: node_of_def)
    note fm = find_matching [OF pb(3), of "en_key e", folded get_or_is_set]
    note rd = wr(2,3) wr(6-8) [OF Cons]
    show ?thesis
    proof (cases "find (\<lambda>y. pk_key y = en_key e) (left ?del part)")
      case None
      then have "walking db0 bk part base f0 (Link_Node (alloc_offset (en_node e)), first_offset es, first_offset (ch (unat bk)), length (left ?del part))
         t ?del D ch (pre @ [e]) es" using walk_skip [of db0 bk part base f0 v t ?del D ch pre e es] w' Cons by (auto simp: find_None_iff)
      then have "\<exists>ch' pre' post'. walking db0 bk part base f0 (Link_Node (alloc_offset (en_node e)), first_offset es, first_offset (ch (unat bk)), length (left ?del part))
         t ?del D ch' pre' post' \<and> length post' < length post" using Cons by fastforce
      then show ?thesis
        using rd None Cons k fm ex xd by (auto simp: pop_batch_step_def wp_bnd wp_reads Let_def)
    next
      case (Some y)
      then have y: "y \<in> set (left ?del part)" "pk_key y = en_key e" by (auto simp: find_Some_iff)
      have yl: "y \<in> set part" "pk_order y < length enc" "enc ! pk_order y = None"
        using y(1) left_mem [OF pb(1)] pb(1) by (auto simp: is_set_def)
      have se: "ch (unat bk) = pre @ e # es" using wr(5) Cons by simp
      let ?x' = "(enc[pk_order y := Some (en_word e)], ds @ [detached e])"
      let ?Q = "\<lambda>c s. \<exists>D'. popped bs F (fst s) (snd s) D' \<and> (case c of
        Return d \<Rightarrow> d \<and> finished db0 part base f0 (fst s) (is_set (snd s)) D'
      | Continue v' \<Rightarrow> \<exists>ch' pre' post'. walking db0 bk part base f0 v' (fst s) (is_set (snd s)) D' ch' pre' post' \<and> length post' < length post)"
      have after: "(if length (left ?del part) = 0 then E
          else if length (left ?del part) - 1 = 0 then ?Q (Return True) (t', ?x')
          else ?Q (Continue (link_after bk pre, first_offset es, first_offset (pre @ es), length (left ?del part) - 1)) (t', ?x'))"
        if st: "db_step t t'" and bl: "db_blobs t' = db_blobs t"
          and i: "db_inv t' (ch(unat bk := pre @ es)) (node_pages t ch \<union> en_node ` set D) (blob_pages t ch \<union> blobs_of D)" for t' E
      proof -
        note dr = walk_drop [OF bp u b w' [unfolded Cons] y st held_detach [OF h wr(4) se st i], folded is_set_update [OF yl(2), of "en_word e" "ds @ [detached e]"]]
        have vo: "value_ok t e" using bucket_facts(5) [OF held_inv [OF h] wr(4), of e] se by simp
        have "popped bs F t' ?x' (D @ [e])"
          by (rule popped_step [OF ex [unfolded xd] _ yl(3) y(2) vo _ db_step_config [OF st] bl])
            (use yl(1) sub f0 dr(4) in auto)
        then show ?thesis using dr(1-3) Cons by auto
      qed
      show ?thesis
        using rd Some Cons k fm xd
        apply (simp add: pop_batch_step_def wp_bnd wp_reads wp_attempt wp_on_fst Let_def cong del: if_weak_cong split del: if_split)
        apply (rule wp_mono [OF detach_link_wp [OF held_inv [OF h] wr(4) se]])
        using after yl(2) by (auto simp: wp_bnd wr(9) [OF Cons])
    qed
  qed
qed

interpretation pop_walk: bucket_walk pop_batch_step pop_bucket_batch is_set "popped es F" es F for es F
proof unfold_locales
  fix bk part
  have m: "(\<lambda>(_ :: database, encoded, _ :: detached_node list). length (filter (\<lambda>e. get_or encoded (pk_order e) (None :: u64 option) = None) part))
      = (\<lambda>(_, x). length (left (is_set x) part))"
    by (auto simp: fun_eq_iff simp flip: left_is_set)
  show "pop_bucket_batch bk part =
      loop (\<lambda>_.
        bnd (gets (\<lambda>(_, x). length (left (is_set x) part))) (\<lambda>remaining.
        if remaining = 0 then ok (Return ())
        else
          bnd (reads (\<lambda>(db, _). head db bk)) (\<lambda>h.
          bnd (gets (\<lambda>(db, _). runtime_heads db ! h)) (\<lambda>expected_head.
          bnd (loop (pop_batch_step bk part h) (Head bk, expected_head, expected_head, remaining)) (\<lambda>done.
          ok (if done then Return () else Continue ())))))) ()"
    by (simp add: pop_bucket_batch_def m)
  fix t l x D
  have "value_ok (t\<lparr>delete_locks := l\<rparr>) d = value_ok t d" for d by (rule value_ok_cong) simp_all
  then show "popped es F (t\<lparr>delete_locks := l\<rparr>) x D = popped es F t x D" by (simp add: popped_def)
qed (rule pop_batch_step_wp)


text \<open>Releasing what a batch detached, the last entry first.\<close>

lemma release_detached_batch_wp:
  "held D db ch \<Longrightarrow> wp (release_detached_batch (map detached D)) (\<lambda>_ t. db_step db t \<and> held [] t ch) (\<lambda>_ _. False) db"
  unfolding release_detached_batch_def
proof (induction D arbitrary: db rule: rev_induct)
  case (snoc d D)
  have "wp (each_first_error (rev (map detached D)) release_detached None) (\<lambda>_ u. db_step db u \<and> held [] u ch) (\<lambda>_ _. False) t"
    if "db_step db t" "held D t ch" for t
    using snoc.IH [OF that(2)] by (rule wp_mono) (use that(1) in \<open>auto intro: db_step_trans\<close>)
  then show ?case
    apply (simp add: wp_bnd wp_attempt)
    apply (rule wp_mono [OF held_release_wp [OF snoc.prems]])
    by auto
qed simp

text \<open>Reading the values of a batch ends in any case; the only error is a failed reservation, and then
  some value was not read.\<close>

lemma materialize_returns:
  assumes rd: "\<forall>w. Some w \<in> set encoded \<longrightarrow> read_value db w \<in> {Ok (val w), Err OutOfMemory}"
  shows "rwp (materialize_values db encoded) (\<lambda>_. \<forall>w. Some w \<in> set encoded \<longrightarrow> read_value db w = Ok (val w)) (\<lambda>e. e = OutOfMemory)"
proof -
  let ?E = "\<lambda>e. e = OutOfMemory" and ?ok = "\<lambda>off. rwp (read_blob db off) (\<lambda>_. True) (\<lambda>e. e = OutOfMemory)"
  let ?I = "\<lambda>xs (results, blobs). (\<forall>(i :: nat, v) \<in> set xs. v \<in> set encoded) \<and> (\<forall>(off, i :: nat) \<in> set blobs. ?ok off)
      \<and> (\<forall>w. Some w \<in> set encoded \<longrightarrow> Some w \<in> snd ` set xs \<or> read_value db w = Ok (val w)
           \<or> w AND VALUE_BLOB_TAG \<noteq> 0 \<and> w AND VALUE_OFFSET_MASK \<in> fst ` set blobs)"
  have inline: "rwp (rfold (\<lambda>(order, value) (results, blobs). case value of
           None \<Rightarrow> Ok (results, blobs)
         | Some v \<Rightarrow>
             if v AND VALUE_BLOB_TAG = 0 then
               rbind (read_value db v) (\<lambda>bytes. Ok (results[order := Some bytes], blobs))
             else Ok (results, blobs @ [(v AND VALUE_OFFSET_MASK, order)]))
         (enumerate 0 encoded) (r0, [])) (?I []) ?E" for r0
  proof (rule rwp_rfold [where I = ?I])
    have "snd ` set (enumerate 0 encoded) = set encoded" by (metis map_snd_enumerate set_map)
    then show "?I (enumerate 0 encoded) (r0, [])" by (auto simp: in_set_enumerate_eq)
    fix x xs and a :: "bytes option list \<times> (u64 \<times> usize) list" assume i: "?I (x # xs) a"
    obtain order word where x: "x = (order, word)" by (cases x)
    obtain results blobs where a: "a = (results, blobs)" by (cases a)
    show "rwp ((\<lambda>(order, value) (results, blobs). case value of
           None \<Rightarrow> Ok (results, blobs)
         | Some v \<Rightarrow>
             if v AND VALUE_BLOB_TAG = 0 then
               rbind (read_value db v) (\<lambda>bytes. Ok (results[order := Some bytes], blobs))
             else Ok (results, blobs @ [(v AND VALUE_OFFSET_MASK, order)])) x a) (?I xs) ?E"
    proof (cases word)
      case (Some w)
      then have rw: "read_value db w \<in> {Ok (val w), Err OutOfMemory}" using rd i x by auto
      show ?thesis
      proof (cases "w AND VALUE_BLOB_TAG = 0")
        case True
        then show ?thesis using i x a Some rw by auto
      next
        case False
        then have "?ok (w AND VALUE_OFFSET_MASK)" using rw by (auto simp: read_value_def)
        then show ?thesis using i x a Some False by auto
      qed
    qed (use i x a in auto)
  qed
  have blobs: "rwp (rfold (\<lambda>(offset, order) results. rbind (read_blob db offset) (\<lambda>bytes. Ok (results[order := Some bytes]))) bs r)
       (\<lambda>_. \<forall>off \<in> fst ` set bs. \<exists>v. read_blob db off = Ok v) ?E"
    if oks: "\<forall>(off, i :: nat) \<in> set bs. ?ok off" for bs and r :: "bytes option list"
  proof -
    let ?J = "\<lambda>xs _. (\<forall>(off, i :: nat) \<in> set xs. ?ok off) \<and> (\<forall>off \<in> fst ` set bs. off \<in> fst ` set xs \<or> (\<exists>v. read_blob db off = Ok v))"
    have "rwp (rfold (\<lambda>(offset, order) results. rbind (read_blob db offset) (\<lambda>bytes. Ok (results[order := Some bytes]))) bs r) (?J []) ?E"
    proof (rule rwp_rfold [where I = ?J])
      fix x xs a assume j: "?J (x # xs) a"
      obtain off i where x: "x = (off, i)" by (cases x)
      have "?ok off" using j x by auto
      then show "rwp ((\<lambda>(offset, order) results. rbind (read_blob db offset) (\<lambda>bytes. Ok (results[order := Some bytes]))) x a) (?J xs) ?E"
        using j x by (auto simp: rwp_disj)
    qed (use oks in auto)
    then show ?thesis by (rule rwp_mono) auto
  qed
  have close: "\<forall>w. Some w \<in> set encoded \<longrightarrow> read_value db w = Ok (val w)"
    if "?I [] (results, bs)" "\<forall>off \<in> fst ` set (sort_key fst bs). \<exists>v. read_blob db off = Ok v" for results bs
  proof (intro allI impI)
    fix w assume w: "Some w \<in> set encoded"
    have "read_value db w = Ok (val w) \<or> w AND VALUE_BLOB_TAG \<noteq> 0 \<and> w AND VALUE_OFFSET_MASK \<in> fst ` set bs"
      using that(1) w by simp
    then have "\<exists>v. read_value db w = Ok v"
    proof
      assume b: "w AND VALUE_BLOB_TAG \<noteq> 0 \<and> w AND VALUE_OFFSET_MASK \<in> fst ` set bs"
      then have "\<exists>v. read_blob db (w AND VALUE_OFFSET_MASK) = Ok v" using that(2) unfolding set_sort by blast
      with b show ?thesis by (simp add: read_value_def)
    qed simp
    then show "read_value db w = Ok (val w)" using rd w by auto
  qed
  have rest: "rwp (rfold (\<lambda>(offset, order) results. rbind (read_blob db offset) (\<lambda>bytes. Ok (results[order := Some bytes]))) (sort_key fst bs) r)
       (\<lambda>_. \<forall>w. Some w \<in> set encoded \<longrightarrow> read_value db w = Ok (val w)) ?E" if i: "?I [] (r, bs)" for bs r
  proof (rule rwp_mono [OF blobs])
    show "\<forall>(off, i :: nat) \<in> set (sort_key fst bs). ?ok off" using i by simp
  qed (rule close [OF i], assumption+)
  show ?thesis
    apply (simp add: materialize_values_def db_try_reserve_def try_reserve_def rwp_rbind)
    apply (intro impI)
    apply (rule rwp_mono [OF inline])
     apply (simp only: split_paired_all prod.case)
     apply (rule rest)
     apply simp_all
    done
qed

lemma popped_words:
  assumes "popped (batch_order db keys) F t (enc, ds) D" "length enc = length keys"
  shows "enc = map (\<lambda>k. newest_word k D) keys"
proof (rule nth_equalityI)
  fix i assume "i < length enc"
  then have "prep_key db (i, keys ! i) \<in> set (batch_order db keys)" using assms(2) by (auto simp: batch_order_mem)
  then have "enc ! pk_order (prep_key db (i, keys ! i)) = newest_word (pk_key (prep_key db (i, keys ! i))) D"
    using assms(1) unfolding popped_def fst_conv by blast
  then show "enc ! i = map (\<lambda>k. newest_word k D) keys ! i" using \<open>i < length enc\<close> assms(2) by simp
qed (simp add: assms(2))

text \<open>The values of the detached entries are those the keys had.\<close>

lemma popped_values:
  assumes p: "popped (batch_order db keys) f t (enc, ds) D"
    and fin: "finished db (batch_order db keys) base f t (is_set (enc, ds)) D" "length base = length keys"
    and m: "mode (db_config t) = Map" and lim: "length keys \<le> reserve_limit (db_heads t)"
  shows "rwp (materialize_values t enc) (\<lambda>vs. vs = map (newest f) keys) (\<lambda>e. e = OutOfMemory)"
    and "\<forall>k \<in> set keys. \<forall>v vs bl. f k = v # vs \<longrightarrow> db_blobs t = Some bl \<longrightarrow> length v \<le> reserve_limit (al_data bl) \<Longrightarrow>
      materialize_values t enc = Ok (map (newest f) keys)"
proof -
  obtain ch where h: "held D t ch" using fin(1) by (auto simp: finished_def)
  have len: "length enc = length keys" using fin by (simp add: finished_def is_set_def)
  note enc = popped_words [OF p len]
  have marks: "is_set (enc, ds) = map (\<lambda>k. f k \<noteq> []) keys" by (rule finished_answers [OF fin])
  have dd: "value_ok t d \<and> (\<exists>vs. f (en_key d) = en_value d # vs)" if "d \<in> set D" for d using p that by (auto simp: popped_def)
  have rv: "\<exists>bl. db_blobs t = Some bl \<and> read_value t (en_word d) =
     (if en_blob d = None \<or> length (en_value d) \<le> reserve_limit (al_data bl) then Ok (en_value d) else Err OutOfMemory)"
    if "d \<in> set D" for d
    by (rule read_value_ok [OF held_inv [OF h] conjunct1 [OF dd [OF that]] _ m]) (use that in \<open>auto simp: blobs_of_def\<close>)
  define val where "val w = (if \<exists>v. read_value t w = Ok v then THE v. read_value t w = Ok v else [])" for w
  have vw: "read_value t w = Ok v \<Longrightarrow> val w = v" for w v by (simp add: val_def)
  have ew: "\<exists>d \<in> set D. w = en_word d" if "Some w \<in> set enc" for w
  proof -
    obtain k where "Some w = newest_word k D" using \<open>Some w \<in> set enc\<close> unfolding enc by auto
    then show ?thesis using lookup_mem [of k D] by (cases "lookup_entry k D") auto
  qed
  have rd: "\<forall>w. Some w \<in> set enc \<longrightarrow> read_value t w \<in> {Ok (val w), Err OutOfMemory}"
    using ew rv vw by (fastforce split: if_splits)
  have all: "materialize_values t enc = Ok (map (newest f) keys)"
    if ok: "\<forall>w. Some w \<in> set enc \<longrightarrow> read_value t w = Ok (val w)"
  proof -
    have "materialize_values t enc = Ok (map (map_option val) enc)" by (rule materialize_values_eq [OF ok]) (use lim len in simp)
    moreover have "map_option val (newest_word k D) = newest f k" if k: "k \<in> set keys" for k
    proof (cases "lookup_entry k D")
      case None
      obtain i where i: "i < length keys" "keys ! i = k" using k by (auto simp: in_set_conv_nth)
      have "enc ! i = None" using None i unfolding enc by simp
      then have "\<not> is_set (enc, ds) ! i" using i len by (simp add: is_set_def)
      then have "f k = []" using i unfolding marks by simp
      then show ?thesis using None by (simp add: newest_def)
    next
      case (Some d)
      have "Some (en_word d) \<in> set enc" using k Some unfolding enc by (force simp: image_iff)
      then have "read_value t (en_word d) = Ok (en_value d)" using ok rv [of d] lookup_mem [OF Some] by (fastforce split: if_splits)
      then show ?thesis using vw lookup_mem [OF Some] dd [of d] Some by (auto simp: newest_def)
    qed
    ultimately show ?thesis unfolding enc by simp
  qed
  show "materialize_values t enc = Ok (map (newest f) keys)"
    if room: "\<forall>k \<in> set keys. \<forall>v vs bl. f k = v # vs \<longrightarrow> db_blobs t = Some bl \<longrightarrow> length v \<le> reserve_limit (al_data bl)"
  proof (rule all, intro allI impI)
    fix w assume "Some w \<in> set enc"
    then obtain k where k: "k \<in> set keys" "Some w = newest_word k D" unfolding enc by auto
    then obtain d where d: "lookup_entry k D = Some d" "w = en_word d" by (cases "lookup_entry k D") auto
    show "read_value t w = Ok (val w)"
      using lookup_mem [OF d(1)] rv [of d] dd [of d] room k(1) d(2) vw by fastforce
  qed
  show "rwp (materialize_values t enc) (\<lambda>vs. vs = map (newest f) keys) (\<lambda>e. e = OutOfMemory)"
    using materialize_returns [OF rd] all by (auto simp: rwp_disj)
qed

lemma step_data_limit:
  assumes "db_step db t" "db_blobs t = Some bl'"
  obtains bl where "db_blobs db = Some bl" "reserve_limit (al_data bl') = reserve_limit (al_data bl)"
  using assms by (cases "db_blobs db") (auto simp: db_step_def al_step_def)

text \<open>The values removed are returned, unless no buffer for one of them can be had: then they are lost.\<close>

lemma batch_pop_refines:
  assumes s: "stores db f" and k: "\<forall>k \<in> set keys. length k = 16" and d: "distinct keys" and m: "mode (db_config db) = Map"
    and lim: "length keys \<le> reserve_limit (db_heads db)"
  shows "wp (db_batch_pop simd keys)
     (\<lambda>r t. db_step db t \<and> stores t (pop_keys (set keys) f) \<and> r = map (newest f) keys)
     (\<lambda>e t. db_step db t \<and> stores t (pop_keys (set keys) f) \<and> e = OutOfMemory
        \<and> \<not> (\<forall>k \<in> set keys. \<forall>v vs bl. f k = v # vs \<longrightarrow> db_blobs db = Some bl \<longrightarrow> length v \<le> reserve_limit (al_data bl))) db"
proof -
  from s obtain ch where tab: "table db ch" and f: "f = versions db ch" unfolding stores_def by blast
  note inv = stores_inv(1) [OF tab]
  let ?es = "batch_order db keys" and ?n = "length keys" and ?x0 = "(replicate (length keys) None, []) :: pop_locals"
  let ?room = "\<lambda>t :: database. \<forall>k \<in> set keys. \<forall>v vs bl. f k = v # vs \<longrightarrow> db_blobs t = Some bl \<longrightarrow> length v \<le> reserve_limit (al_data bl)"
  note sf = slices_facts [OF db_invD(1) [OF inv] d]
  have h: "held [] db ch" "unlocked db" using tab by (simp_all add: table_held)
  have z: "\<forall>y \<in> set ?es. \<not> is_set ?x0 ! pk_order y" "length (is_set ?x0) = ?n" by (auto simp: batch_order_mem is_set_def)
  have "popped ?es f db ?x0 []" using sf(2) by (auto simp: popped_def slices_concat batch_order_mem)
  then have ds: "wp (forM (bucket_slices pk_bucket ?es) (\<lambda>(b, part). with_delete_guard_local b (pop_bucket_batch b part)))
     (\<lambda>_ s. part_done is_set (popped ?es f) db ?es (is_set ?x0) f s) (\<lambda>_ _. False) (db, ?x0)"
    using pop_walk.slices_wp [of "bucket_slices pk_bucket ?es" db ?x0 ?es "[]" ch f] sf(1,2) h f z
    by (simp add: slices_concat)
  let ?fin = "\<lambda>r u. db_step db u \<and> stores u (pop_keys (set keys) f)
      \<and> (case r of Inr vs \<Rightarrow> vs = map (newest f) keys | Inl e \<Rightarrow> e = OutOfMemory \<and> \<not> ?room db)"
  have fin: "rwp (materialize_values t enc) (\<lambda>vs. wp (release_detached_batch det) (\<lambda>_. ?fin (Inr vs)) (\<lambda>_ _. False) t)
       (\<lambda>e. wp (release_detached_batch det) (\<lambda>_. ?fin (Inl e)) (\<lambda>_ _. False) t)"
    if pd: "part_done is_set (popped ?es f) db ?es (is_set ?x0) f (t, enc, det)" for t enc det
  proof -
    from pd obtain D where p: "popped ?es f t (enc, det) D" and fi: "finished db ?es (is_set ?x0) f t (is_set (enc, det)) D"
      by (auto simp: part_done_def)
    then obtain ch' where ch': "held D t ch'" "versions t ch' = pop_keys (set keys) f" and st: "db_step db t"
      unfolding finished_def batch_order_set by blast
    have mt: "mode (db_config t) = Map" using m db_step_config [OF st] by simp
    have room: "?room t" if "?room db" using that step_data_limit [OF st] by metis
    have lt: "?n \<le> reserve_limit (db_heads t)" using lim st by (simp add: db_step_def)
    note pv = popped_values [OF p fi z(2) mt lt]
    have st2: "stores u (pop_keys (set keys) f) \<and> db_step db u" if "db_step t u" "held [] u ch'" for u
    proof -
      have "table u ch'" using that h(2) unlocked_step [OF st] unlocked_step [OF that(1)] by (simp add: table_held)
      then show ?thesis using ch'(2) versions_cong [OF db_step_config [OF that(1)]] db_step_trans [OF st that(1)]
        unfolding stores_def by metis
    qed
    have rel: "wp (release_detached_batch det) (\<lambda>_ u. stores u (pop_keys (set keys) f) \<and> db_step db u) (\<lambda>_ _. False) t"
      using release_detached_batch_wp [OF ch'(1)] p st2 by (auto simp: popped_def elim!: wp_mono)
    show ?thesis
    proof (cases "?room db")
      case True
      then show ?thesis using pv(2) [OF room] wp_mono [OF rel] by simp
    next
      case False
      then show ?thesis using rwp_mono [OF pv(1)] wp_mono [OF rel] by simp
    qed
  qed
  show ?thesis
    using prepare_keys_eq [OF k lim, of simd] sf(3) guard_ok [OF inv] lim m
    apply (simp add: db_batch_pop_def wp_bnd wp_reads wp_lift wp_scoped wp_attempt db_try_reserve_def try_reserve_def)
    apply (rule wp_mono [OF ds])
     apply (clarsimp simp: wp_bnd wp_reads wp_attempt)
     apply (erule rwp_mono [OF fin]; erule wp_mono; simp)
    apply simp
    done
qed

end
