(* ===== verification/Table_Stage.thy ===== *)
theory Table_Stage
  imports Table_Unlink
begin

text \<open>
  Batch insertion of src/table.rs, before publication: nodes are reserved page by page, each is
  filled with its blob and its key, and the nodes of one bucket are linked to each other. Until the
  groups are committed no chain has changed, and on an error everything is released.
\<close>

subsection \<open>Private entries and reserved nodes\<close>

text \<open>A reserved node that holds no entry yet.\<close>

definition spare :: "allocation \<Rightarrow> entry" where
  "spare a = \<lparr>en_node = a, en_key = [], en_word = 0, en_blob = None, en_value = []\<rparr>"

lemma spare_sel [simp]: "en_node (spare a) = a" "en_blob (spare a) = None"
  by (simp_all add: spare_def)

lemma spares [simp]: "en_node ` spare ` A = A" "map (en_node \<circ> spare) R = R"
  "blobs_of (map spare R) = {}"
  by (simp_all add: image_image blobs_of_def comp_def)

lemma blobs_of_simps [simp]: "blobs_of [] = {}" "blobs_of (x # xs) = set_option (en_blob x) \<union> blobs_of xs"
  "blobs_of (xs @ ys) = blobs_of xs \<union> blobs_of ys"
  by (auto simp: blobs_of_def)

lemma blobs_of_mem: "e \<in> set xs \<Longrightarrow> set_option (en_blob e) \<subseteq> blobs_of xs"
  by (auto simp: blobs_of_def)

text \<open>The entries \<open>P\<close> are private, the nodes \<open>R\<close> are reserved.\<close>

definition staged :: "entry list \<Rightarrow> allocation list \<Rightarrow> database \<Rightarrow> chains \<Rightarrow> bool" where
  "staged P R db ch \<longleftrightarrow> held (P @ map spare R) db ch \<and> (\<forall>e \<in> set P. value_ok db e)"

definition unlinked :: "(nat \<Rightarrow> u8) \<Rightarrow> entry list \<Rightarrow> bool" where
  "unlinked m P \<longleftrightarrow> (\<forall>e \<in> set P. node_at m (a_lo (en_node e)) (en_key e) (en_word e) 0)"

lemma staged_held: "staged P [] db ch \<Longrightarrow> held P db ch"
  by (simp add: staged_def)

lemma held_cong_set: "set E = set D \<Longrightarrow> distinct (map en_node E) \<Longrightarrow> held D db ch \<Longrightarrow> held E db ch"
  unfolding held_def blobs_of_def by simp

lemma one_owner_plain: "one_owner E \<Longrightarrow> (\<And>e. e \<in> F \<Longrightarrow> en_blob e = None) \<Longrightarrow> one_owner (E \<union> F)"
  unfolding one_owner_def by fastforce

text \<open>What every entry of a staged table has: a live node of its own.\<close>

lemma held_live:
  assumes "held D db ch"
  shows "al_inv (db_body db) (node_pages db ch \<union> en_node ` set D)"
    and "e \<in> set D \<Longrightarrow> node_alloc (en_node e) \<and> node_place (db_body db) (alloc_offset (en_node e)) \<and> a_lo (en_node e) < 2 ^ 48"
proof -
  note inv = held_inv [OF assms]
  show ai: "al_inv (db_body db) (node_pages db ch \<union> en_node ` set D)" by (rule db_invD(2) [OF inv])
  assume e: "e \<in> set D"
  then have l: "en_node e \<in> node_pages db ch \<union> en_node ` set D" by blast
  have na: "node_alloc (en_node e)" using assms e by (simp add: held_def)
  have "a_lo (en_node e) < 2 ^ 48"
    using live_in_file [OF ai l] db_invD(1) [OF inv] node_alloc_hi [OF na] by (simp add: db_shape_def)
  then show "node_alloc (en_node e) \<and> node_place (db_body db) (alloc_offset (en_node e)) \<and> a_lo (en_node e) < 2 ^ 48"
    using na live_node_place [OF ai l na] by blast
qed

lemma held_private:
  assumes h: "held (D @ [d]) db ch"
  shows "private_ok db ch (node_pages db ch \<union> en_node ` set D) (blob_pages db ch \<union> blobs_of D) (en_node d) (en_blob d)"
proof -
  note hs = held_snoc [OF h]
  have "set_option (en_blob d) \<inter> (blob_pages db ch \<union> blobs_of D) = {}"
    using hs(3) by (fastforce simp: blobs_of_def blob_pages_def)
  moreover have "node_alloc (en_node d)" using h by (simp add: held_def)
  moreover have "insert (en_node d) (node_pages db ch \<union> en_node ` set D) = node_pages db ch \<union> en_node ` set (D @ [d])" by auto
  moreover have "(blob_pages db ch \<union> blobs_of D) \<union> set_option (en_blob d) = blob_pages db ch \<union> blobs_of (D @ [d])" by auto
  ultimately show ?thesis
    using hs(1,2) held_inv [OF h] unfolding private_ok_def by (auto simp: blob_pages_def)
qed

text \<open>A change of the body that keeps the chains, for another list of private nodes.\<close>

lemma held_body:
  assumes h: "held D db ch" and st: "al_step (db_body db) t" and t: "al_inv t (node_pages db ch \<union> en_node ` set E)"
    and E: "distinct (map en_node E)" "en_node ` set E \<inter> node_pages db ch = {}" "blobs_of E = blobs_of D"
      "one_owner (set E \<union> entries db ch)" "\<forall>d \<in> set E. node_alloc (en_node d)"
    and mem: "\<And>a x. a \<in> node_pages db ch \<Longrightarrow> a_lo a \<le> x \<Longrightarrow> x < a_hi a \<Longrightarrow> dmem t x = dmem (db_body db) x"
  shows "held E (db\<lparr>db_body := t\<rparr>) ch"
proof -
  have "db_inv (db\<lparr>db_body := t\<rparr>) ch (node_pages db ch \<union> en_node ` set E) (blob_pages db ch \<union> blobs_of D)"
    by (rule db_inv_body [OF held_inv [OF h] st t]) (use mem in auto)
  moreover have "entries (db\<lparr>db_body := t\<rparr>) ch = entries db ch" by (simp add: entries_def)
  ultimately show ?thesis using E unfolding held_def blob_pages_def by simp
qed

lemma held_release_private:
  assumes h: "held (D @ [d]) db ch"
  shows "wp (release_private (en_node d) (en_blob d)) (\<lambda>_ t. db_step db t \<and> held D t ch) (\<lambda>_ _. False) db"
proof -
  have "held D t ch" if t: "db_step db t" "db_inv t ch (node_pages db ch \<union> en_node ` set D) (blob_pages db ch \<union> blobs_of D)" for t
    by (rule held_same [OF h t]) (use h in \<open>auto simp: held_def\<close>)
  then show ?thesis by (intro wp_mono [OF release_private_wp [OF held_private [OF h]]]) auto
qed

text \<open>Giving back a reserved node.\<close>

lemma held_release_spare:
  assumes h: "held (D @ spare a # E) db ch"
  shows "wp (on_body (release a)) (\<lambda>_ t. db_step db t \<and> held (D @ E) t ch) (\<lambda>_ _. False) db"
proof -
  have nn: "a \<notin> en_node ` set (D @ E)" "a \<notin> node_pages db ch" using h unfolding held_def by auto
  have L: "(node_pages db ch \<union> en_node ` set (D @ spare a # E)) - {a} = node_pages db ch \<union> en_node ` set (D @ E)" using nn by auto
  have "held (D @ E) t ch" if t: "db_step db t" "db_inv t ch (node_pages db ch \<union> en_node ` set (D @ E)) (blob_pages db ch \<union> blobs_of (D @ spare a # E))" for t
    by (rule held_same [OF h t(1)]) (use h t(2) in \<open>auto simp: held_def\<close>)
  then show ?thesis unfolding release_def
    by (intro wp_mono [OF release_node_wp [OF held_inv [OF h], of a, unfolded L]]) (use nn in auto)
qed

lemma release_spares_wp:
  assumes "held (P @ map spare R) db ch"
  shows "wp (forM R (\<lambda>u. on_fst (on_body (release u)))) (\<lambda>_ (t, y). y = x \<and> db_step db t \<and> held P t ch) (\<lambda>_ _. False) (db, x)"
proof -
  let ?I = "\<lambda>R (t, y). y = x \<and> db_step db t \<and> held (P @ map spare R) t ch"
  have "wp (forM R (\<lambda>u. on_fst (on_body (release u)))) (\<lambda>_. ?I []) (\<lambda>_ _. False) (db, x)"
  proof (rule wp_forM [where I = ?I])
    fix a R s assume s: "?I (a # R) s"
    then obtain t where t: "s = (t, x)" "db_step db t" "held (P @ spare a # map spare R) t ch" by auto
    show "wp (on_fst (on_body (release a))) (\<lambda>_. ?I R) (\<lambda>_ _. False) s"
      unfolding t(1) wp_on_fst
      by (rule wp_mono [OF held_release_spare [OF t(3)]]) (use t(2) in \<open>auto intro: db_step_trans\<close>)
  qed (use assms in auto)
  then show ?thesis by simp
qed

subsection \<open>Reserving and filling nodes\<close>

abbreviation value_of :: "bytes option \<Rightarrow> bytes" where
  "value_of v \<equiv> (case v of None \<Rightarrow> [] | Some v \<Rightarrow> v)"

abbreviation body_room :: "database \<Rightarrow> bool" where
  "body_room db \<equiv> al_calm (db_body db) \<and> hw (db_body db) < nbl (db_body db)"

lemma staged_nodes:
  assumes "staged P R db ch"
  shows "distinct (map en_node P)" "distinct R" "en_node ` set P \<inter> set R = {}"
  using assms unfolding staged_def held_def by auto

lemma reserve_wp:
  assumes s: "staged P [] db ch" and u: "unlinked (dmem (db_body db)) P" and k: "0 < k"
  shows "wp (on_body (allocate_batch simd NODE_SIZE NODE_ALIGNMENT k))
     (\<lambda>b t. db_step db t \<and> staged P (allocations b) t ch \<and> unlinked (dmem (db_body t)) P
        \<and> 1 \<le> batch_len b \<and> batch_len b \<le> k \<and> length (allocations b) = batch_len b)
     (\<lambda>_ t. db_step db t \<and> held P t ch \<and> \<not> body_room db) db"
proof -
  have h: "held P db ch" by (rule staged_held [OF s])
  note ai = held_live(1) [OF h]
  let ?L = "node_pages db ch \<union> en_node ` set P"
  have pw: "is_power_of_two (32 :: u64)" using is_power_of_two_2p [of 5, where 'a = 64] by simp
  have vr: "valid_request (db_body db) 32 32 k"
    using pw k al_geom_parts(5) [OF al_inv_geom [OF ai]] by (simp add: valid_request_def)
  have good: "staged P (allocations b) (db\<lparr>db_body := t\<rparr>) ch \<and> unlinked (dmem t) P"
    if t: "al_ext (db_body db) t" "granted ?L 32 32 k b t" for b t
  proof -
    have g: "al_inv t (?L \<union> set (allocations b))" "?L \<inter> set (allocations b) = {}" "distinct (allocations b)"
      "\<And>a. a \<in> set (allocations b) \<Longrightarrow> unat (alloc_length a) = 32 \<and> 32 dvd (a_lo a - 65536)"
      using t(2) by (auto simp: granted_def)
    have na: "node_alloc a" if "a \<in> set (allocations b)" for a
      using node_alloc_live [OF g(1), of a] g(4) that by blast
    have "held (P @ map spare (allocations b)) (db\<lparr>db_body := t\<rparr>) ch"
    proof (rule held_body [OF h])
      show "al_inv t (node_pages db ch \<union> en_node ` set (P @ map spare (allocations b)))" using g(1) by (simp add: image_Un Un_assoc)
      show "distinct (map en_node (P @ map spare (allocations b)))" using g(2,3) h by (auto simp: held_def)
      show "en_node ` set (P @ map spare (allocations b)) \<inter> node_pages db ch = {}" using g(2) h by (auto simp: held_def image_Un)
      have "one_owner ((set P \<union> entries db ch) \<union> spare ` set (allocations b))"
        by (rule one_owner_plain) (use h in \<open>auto simp: held_def\<close>)
      then show "one_owner (set (P @ map spare (allocations b)) \<union> entries db ch)" by (simp add: Un_ac)
    qed (use t(1) na h in \<open>auto simp: al_ext_step held_def\<close>)
    then show ?thesis
      using s u t(1) value_ok_cong [of "db\<lparr>db_body := t\<rparr>" db] by (simp add: staged_def al_ext_step)
  qed
  have keep: "held P (db\<lparr>db_body := t\<rparr>) ch" if "al_ext (db_body db) t" "al_inv t ?L" for t
    by (rule held_body [OF h]) (use that h in \<open>auto simp: al_ext_step held_def\<close>)
  show ?thesis
    unfolding wp_on_body
    apply (rule wp_mono [OF allocate_batch_wp [OF ai]])
    subgoal for b t using good [of t b] db_step_upd(1) [of db t] by (auto simp: layout_defs al_ext_step granted_def)
    subgoal for e t using keep [of t] vr db_step_upd(1) [of db t] by (auto simp: layout_defs al_ext_step)
    done
qed

definition private_of :: "database \<Rightarrow> entry \<Rightarrow> private_insert" where
  "private_of db e = \<lparr>pv_node = en_node e, pv_blob = en_blob e, pv_bucket = key_bucket db (en_key e)\<rparr>"

lemma private_of_cong: "db_config t = db_config db \<Longrightarrow> private_of t = private_of db"
  using key_bucket_cong [of t db] by (simp add: private_of_def fun_eq_iff)

lemma write_node_wp:
  assumes "al_inv s L" "a \<in> L" "node_alloc a" "length key = 16"
  shows "wp (write_node a key word) Q E s = Q () (put_data (mwrite (a_lo a) (node_image key word 0) (dmem s)) s)"
    and "al_inv (put_data (mwrite (a_lo a) (node_image key word 0) (dmem s)) s) L"
proof -
  have l: "unat (alloc_length a) = 32" using assms(3) by (simp add: node_alloc_def)
  note w = al_write_node [OF assms(1,2) l assms(4), of word]
  show "wp (write_node a key word) Q E s = Q () (put_data (mwrite (a_lo a) (node_image key word 0) (dmem s)) s)"
    using assms(4) w(1) by (simp add: write_node_def wp_bnd wp_lift serialize_node_eq) (simp add: wp_def)
  show "al_inv (put_data (mwrite (a_lo a) (node_image key word 0) (dmem s)) s) L" by (rule w(2))
qed

lemma initialize_reserved_insert_wp:
  assumes s: "staged P (a # R) db ch" and u: "unlinked (dmem (db_body db)) P"
    and k: "length (pi_key i) = 16" and v: "validate_value db (pi_value i) = Ok ()"
    and b: "pi_bucket i = key_bucket db (pi_key i)"
  shows "wp (initialize_reserved_insert simd i a)
     (\<lambda>p t. db_step db t \<and> (\<exists>e. p = private_of db e \<and> en_key e = pi_key i \<and> en_value e = value_of (pi_value i)
        \<and> staged (P @ [e]) R t ch \<and> unlinked (dmem (db_body t)) (P @ [e])))
     (\<lambda>_ t. db_step db t \<and> held (P @ map spare (a # R)) t ch \<and> \<not> roomy db (pi_value i)) db"
    (is "wp _ ?Q ?E db")
proof -
  let ?D = "P @ map spare (a # R)" and ?key = "pi_key i" and ?v = "pi_value i"
  let ?L = "node_pages db ch \<union> en_node ` set ?D" and ?B = "blob_pages db ch \<union> blobs_of ?D"
  have h: "held ?D db ch" and vo: "\<forall>e \<in> set P. value_ok db e" using s by (simp_all add: staged_def)
  have na: "node_alloc a" using h by (simp add: held_def)
  have aL: "a \<in> ?L" by simp
  have ap: "a \<notin> en_node ` set P" "a \<notin> node_pages db ch" using h by (auto simp: held_def)
  have good: "\<exists>e. \<lparr>pv_node = a, pv_blob = o', pv_bucket = pi_bucket i\<rparr> = private_of db e \<and> en_key e = ?key
        \<and> en_value e = value_of ?v \<and> staged (P @ [e]) R (t\<lparr>db_body := x\<rparr>) ch
        \<and> unlinked (dmem (db_body (t\<lparr>db_body := x\<rparr>))) (P @ [e])"
    if t: "db_step db t" "db_inv t ch ?L (?B \<union> set_option o')" "set_option o' \<inter> ?B = {}" "db_body t = db_body db"
      "keeps_blobs ?B db t" "stored t ?v o' word" and x: "x = put_data (mwrite (a_lo a) (node_image ?key word 0) (dmem (db_body db))) (db_body db)"
    for t o' word x
  proof -
    let ?e = "new_entry a ?key word o' ?v" and ?t = "t\<lparr>db_body := x\<rparr>"
    let ?E = "(P @ [?e]) @ map spare R"
    have en: "entries t ch = entries db ch" "entries ?t ch = entries db ch" "blob_pages ?t ch = blob_pages db ch"
      using entries_cong [OF t(1)] by (simp_all add: entries_def blob_pages_def)
    have xi: "al_inv x ?L" unfolding x by (rule write_node_wp(2) [OF held_live(1) [OF h] aL na k])
    have mem: "dmem x y = dmem (db_body db) y" if d: "d \<in> ?L" "d \<noteq> a" "a_lo d \<le> y" "y < a_hi d" for d y
      using pages.apart_law [OF held_live(1) [OF h] aL d(1)] d(2-4) node_alloc_hi [OF na] k
      by (auto simp: x mwrite_def length_node_image)
    have "db_inv ?t ch ?L (?B \<union> set_option o')"
      by (rule db_inv_body [OF t(2)]) (use mem xi ap t(4) in \<open>auto simp: en(1) x\<close>)
    moreover have "map en_node ?E = map en_node ?D" by simp
    then have E: "en_node ` set ?E = en_node ` set ?D" "distinct (map en_node ?E)" using h by (metis set_map, simp add: held_def)
    moreover have "blob_pages db ch \<union> blobs_of ?E = ?B \<union> set_option o'" by auto
    moreover have "one_owner (set ?E \<union> entries db ch)"
    proof (rule one_owner_mono)
      show "one_owner (insert ?e (set ?D \<union> entries db ch))"
        by (rule one_owner_insert) (use h t(3) in \<open>auto simp: held_def blob_pages_def blobs_of_def\<close>)
    qed auto
    moreover have "\<forall>d \<in> set ?E. node_alloc (en_node d)" using h by (auto simp: held_def)
    ultimately have "held ?E ?t ch" using h unfolding held_def en by simp
    moreover have "value_ok ?t d" if "d \<in> set (P @ [?e])" for d
    proof -
      have "value_ok t d" using t(5,6) vo blobs_of_mem [of d P] that by (auto simp: keeps_blobs_def stored_def)
      then show ?thesis using value_ok_cong [of ?t t] by simp
    qed
    moreover have "unlinked (dmem x) (P @ [?e])"
      unfolding unlinked_def
    proof
      fix d assume d: "d \<in> set (P @ [?e])"
      show "node_at (dmem x) (a_lo (en_node d)) (en_key d) (en_word d) 0"
      proof (cases "d \<in> set P")
        case True
        then have "en_node d \<noteq> a" "node_alloc (en_node d)" using ap h by (auto simp: held_def)
        then show ?thesis using True u mem [of "en_node d"] node_alloc_hi [of "en_node d"]
          by (intro node_at_cong [of _ "dmem x" "dmem (db_body db)"]) (auto simp: unlinked_def)
      next
        case False
        then show ?thesis using d node_at_write [OF k, of 0 "a_lo a"] by (simp add: x)
      qed
    qed
    ultimately show ?thesis using b by (intro exI [of _ ?e]) (simp add: staged_def private_of_def)
  qed
  have st: "wp (initialize_reserved_insert simd i a) Q E db = wp (allocate_blob simd ?v) (\<lambda>o' t.
      rwp (encoded_value t ?v o') (\<lambda>word. wp (catch (on_body (write_node a ?key word)) (\<lambda>e.
            bnd (case o' of Some b \<Rightarrow> release_blob b | None \<Rightarrow> ok ()) (\<lambda>_. err e)))
        (\<lambda>_. Q \<lparr>pv_node = a, pv_blob = o', pv_bucket = pi_bucket i\<rparr>) E t) (\<lambda>e. E e t)) E db" for Q E
    by (simp add: initialize_reserved_insert_def wp_bnd wp_reads wp_bnd [abs_def] wp_reads [abs_def] wp_ok_fun)
  show ?thesis
    unfolding st
  proof (rule wp_mono [OF allocate_blob_wp [OF held_inv [OF h] v]], goal_cases)
    case (1 o' t)
    then obtain word where t: "db_step db t" "db_inv t ch ?L (?B \<union> set_option o')" "set_option o' \<inter> ?B = {}" "db_body t = db_body db"
      "keeps_blobs ?B db t" "stored t ?v o' word" by blast
    have ev: "encoded_value t ?v o' = Ok word" using t(6) by (simp add: stored_def)
    let ?x = "put_data (mwrite (a_lo a) (node_image ?key word 0) (dmem (db_body db))) (db_body db)"
    have "db_step db (t\<lparr>db_body := ?x\<rparr>)" using db_step_trans [OF t(1) db_step_upd(1), of ?x] t(4) by simp
    moreover note good [OF t refl]
    ultimately show ?case
      unfolding ev rwp_prim wp_catch wp_on_body t(4) write_node_wp(1) [OF held_live(1) [OF h] aL na k] by blast
  next
    case (2 e t)
    then have "held ?D t ch" by (intro held_same [OF h]) (use h in \<open>auto simp: held_def\<close>)
    then show ?case using 2 by blast
  qed
qed

text \<open>Why a batch fails: a system call failed, or no page was left for a node or for the blob of
  one of the values \<open>vs\<close>, or such a blob is larger than a page.\<close>

definition short :: "database \<Rightarrow> bytes option list \<Rightarrow> database \<Rightarrow> bool" where
  "short db vs t \<longleftrightarrow> \<not> al_calm (db_body db) \<or> nbl (db_body db) \<le> hw (db_body t)
     \<or> (\<exists>bl bl' w. db_blobs db = Some bl \<and> db_blobs t = Some bl' \<and> Some w \<in> set vs \<and> inline_value_word w = None
          \<and> (\<not> al_calm bl \<or> nbl bl \<le> hw bl' \<or> bsz bl < 8 + length w))"

lemma db_step_blobs:
  "db_step s t \<Longrightarrow> db_blobs s = Some bl \<Longrightarrow> \<exists>bl'. db_blobs t = Some bl' \<and> al_step bl bl'"
  "db_step s t \<Longrightarrow> db_blobs t = Some bl' \<Longrightarrow> \<exists>bl. db_blobs s = Some bl \<and> al_step bl bl'"
  by (auto simp: db_step_def option_rel_Some1 option_rel_Some2)

lemma short_step:
  assumes "short db vs t" "db_step t u"
  shows "short db vs u"
proof -
  have "hw (db_body t) \<le> hw (db_body u)" using assms(2) by (simp add: db_step_def al_step_def)
  moreover have "\<exists>c. db_blobs u = Some c \<and> hw bl \<le> hw c" if "db_blobs t = Some bl" for bl
    using db_step_blobs(1) [OF assms(2) that] by (auto simp: al_step_def)
  ultimately show ?thesis using assms(1) unfolding short_def by (meson order_trans)
qed

lemma al_step_nbl: "al_step s t \<Longrightarrow> nbl t = nbl s" "al_step s t \<Longrightarrow> bsz t = bsz s"
  by (simp_all add: al_step_def)

lemma short_body: "db_step db t \<Longrightarrow> \<not> body_room t \<Longrightarrow> short db vs t"
  unfolding short_def db_step_def using al_step_nbl [of "db_body db" "db_body t"] by (auto simp: al_step_def)

lemma short_roomy:
  assumes st: "db_step db t" and r: "\<not> roomy t v" and v: "v \<in> set vs"
  shows "short db vs t"
proof (cases "body_room t")
  case True
  with r obtain bl' w where b: "db_blobs t = Some bl'" "v = Some w" "inline_value_word w = None"
    "\<not> (al_calm bl' \<and> hw bl' < nbl bl' \<and> 8 + length w \<le> bsz bl')" unfolding roomy_def by blast
  from db_step_blobs(2) [OF st b(1)] obtain bl where bl: "db_blobs db = Some bl" "al_step bl bl'" by blast
  then have "\<not> al_calm bl \<or> nbl bl \<le> hw bl' \<or> bsz bl < 8 + length w"
    using b(4) al_step_nbl [OF bl(2)] by (auto simp: al_step_def)
  then show ?thesis using b bl v unfolding short_def by blast
qed (rule short_body [OF st])

text \<open>What preparation establishes of an entry of a batch, and the entry made from it.\<close>

definition ready :: "database \<Rightarrow> prepared_insert \<Rightarrow> bool" where
  "ready db i \<longleftrightarrow> length (pi_key i) = 16 \<and> validate_value db (pi_value i) = Ok () \<and> pi_bucket i = key_bucket db (pi_key i)"

lemma ready_cong: "db_config t = db_config db \<Longrightarrow> ready t i = ready db i"
  using key_bucket_cong [of t db] by (simp add: ready_def validate_value_def)

definition fills :: "entry \<Rightarrow> prepared_insert \<Rightarrow> bool" where
  "fills e i \<longleftrightarrow> en_key e = pi_key i \<and> en_value e = value_of (pi_value i)"

definition gathered :: "database \<Rightarrow> chains \<Rightarrow> entry list \<Rightarrow> allocation list \<Rightarrow> database \<times> private_insert list \<Rightarrow> bool" where
  "gathered db ch P R = (\<lambda>(t, priv). db_step db t \<and> staged P R t ch \<and> unlinked (dmem (db_body t)) P \<and> priv = map (private_of db) P)"

definition spoiled :: "database \<Rightarrow> chains \<Rightarrow> bytes option list \<Rightarrow> database \<times> private_insert list \<Rightarrow> bool" where
  "spoiled db ch vs = (\<lambda>(t, priv). db_step db t \<and> short db vs t \<and> (\<exists>P. held P t ch \<and> priv = map (private_of db) P))"

lemma initialize_reserved_wp:
  assumes "gathered db ch P as s" "length as = length es" "\<forall>i \<in> set es. ready db i \<and> pi_value i \<in> set vs"
  shows "wp (initialize_reserved simd es as)
     (\<lambda>_ s. \<exists>Q. gathered db ch (P @ Q) [] s \<and> list_all2 fills Q es) (\<lambda>_. spoiled db ch vs) s"
  using assms
proof (induction es arbitrary: P as s)
  case Nil
  then show ?case by (auto simp: intro!: exI [of _ "[]"])
next
  case (Cons i es)
  then obtain a R where as: "as = a # R" by (cases as) auto
  obtain t where s: "s = (t, map (private_of db) P)" and t: "db_step db t" "staged P (a # R) t ch" "unlinked (dmem (db_body t)) P"
    using Cons.prems(1) as by (auto simp: gathered_def)
  have c: "db_config t = db_config db" by (rule db_step_config [OF t(1)])
  have rd: "length (pi_key i) = 16" "validate_value t (pi_value i) = Ok ()" "pi_bucket i = key_bucket t (pi_key i)"
    using Cons.prems(3) ready_cong [OF c, of i] by (auto simp: ready_def)
  have fail: "wp (bnd (on_fst (on_body (release a))) (\<lambda>_. bnd (forM R (\<lambda>u. on_fst (on_body (release u)))) (\<lambda>_. err e)))
      (\<lambda>_ s. \<exists>Q. gathered db ch (P @ Q) [] s \<and> list_all2 fills Q (i # es)) (\<lambda>_. spoiled db ch vs) (u, map (private_of db) P)"
    if u: "db_step t u" "held (P @ map spare (a # R)) u ch" "\<not> roomy t (pi_value i)" for u e
  proof -
    have sh: "short db vs u" by (rule short_step [OF short_roomy [OF t(1) u(3)] u(1)]) (use Cons.prems(3) in simp)
    have du: "db_step db u" by (rule db_step_trans [OF t(1) u(1)])
    have "wp (forM (a # R) (\<lambda>u. on_fst (on_body (release u)))) (\<lambda>_ (x, y). y = map (private_of db) P \<and> db_step u x \<and> held P x ch)
        (\<lambda>_ _. False) (u, map (private_of db) P)" by (rule release_spares_wp [OF u(2)])
    then show ?thesis
      unfolding forM.simps wp_bnd wp_prim
      by (auto simp: spoiled_def intro: db_step_trans [OF du] short_step [OF sh] elim!: wp_mono)
  qed
  have go: "wp (bnd (modify (\<lambda>(db, priv). (db, priv @ [private_of t e]))) (\<lambda>_. initialize_reserved simd es R))
      (\<lambda>_ s. \<exists>Q. gathered db ch (P @ Q) [] s \<and> list_all2 fills Q (i # es)) (\<lambda>_. spoiled db ch vs) (u, map (private_of db) P)"
    if u: "db_step t u" "en_key e = pi_key i" "en_value e = value_of (pi_value i)" "staged (P @ [e]) R u ch"
      "unlinked (dmem (db_body u)) (P @ [e])" for u e
  proof -
    have "gathered db ch (P @ [e]) R (u, map (private_of db) P @ [private_of t e])"
      using u db_step_trans [OF t(1) u(1)] private_of_cong [OF c] by (simp add: gathered_def)
    from Cons.IH [OF this] Cons.prems as have
      "wp (initialize_reserved simd es R) (\<lambda>_ s. \<exists>Q. gathered db ch ((P @ [e]) @ Q) [] s \<and> list_all2 fills Q es)
        (\<lambda>_. spoiled db ch vs) (u, map (private_of db) P @ [private_of t e])" by auto
    then have "wp (initialize_reserved simd es R) (\<lambda>_ s. \<exists>Q. gathered db ch (P @ Q) [] s \<and> list_all2 fills Q (i # es))
        (\<lambda>_. spoiled db ch vs) (u, map (private_of db) P @ [private_of t e])"
      by (rule wp_mono) (use u(2,3) in \<open>force simp: fills_def list_all2_Cons2\<close>, simp)
    then show ?thesis by (simp add: wp_bnd)
  qed
  show ?case
    unfolding as s initialize_reserved.simps wp_bnd [where m = "attempt _"] wp_attempt wp_on_fst
    by (rule wp_mono [OF initialize_reserved_insert_wp [OF t(2,3) rd]]) (use go fail in auto)
qed

lemma private_inserts_step_wp:
  assumes g: "gathered db ch P [] s" and r: "\<forall>i \<in> set rest. ready db i \<and> pi_value i \<in> set vs"
  shows "wp (private_inserts_step simd rest)
     (\<lambda>c s. case c of Return _ \<Rightarrow> rest = [] \<and> gathered db ch P [] s
        | Continue rest' \<Rightarrow> \<exists>Q now. rest = now @ rest' \<and> now \<noteq> [] \<and> gathered db ch (P @ Q) [] s \<and> list_all2 fills Q now)
     (\<lambda>_. spoiled db ch vs) s"
proof (cases "rest = []")
  case True
  then show ?thesis using g by (simp add: private_inserts_step_def)
next
  case False
  obtain t where s: "s = (t, map (private_of db) P)" and t: "db_step db t" "staged P [] t ch" "unlinked (dmem (db_body t)) P"
    using g by (auto simp: gathered_def)
  have fill: "wp (initialize_reserved simd (take n rest) as)
      (\<lambda>_ s. \<exists>Q now. rest = now @ drop n rest \<and> now \<noteq> [] \<and> gathered db ch (P @ Q) [] s \<and> list_all2 fills Q now)
      (\<lambda>_. spoiled db ch vs) (u, map (private_of db) P)"
    if u: "db_step t u" "staged P as u ch" "unlinked (dmem (db_body u)) P" "1 \<le> n" "n \<le> length rest" "length as = n" for u as n
  proof -
    have "gathered db ch P as (u, map (private_of db) P)" using u db_step_trans [OF t(1)] by (simp add: gathered_def)
    from initialize_reserved_wp [OF this, of "take n rest" vs simd] u r
    have "wp (initialize_reserved simd (take n rest) as) (\<lambda>_ s. \<exists>Q. gathered db ch (P @ Q) [] s \<and> list_all2 fills Q (take n rest))
      (\<lambda>_. spoiled db ch vs) (u, map (private_of db) P)" by (auto dest: in_set_takeD)
    moreover have "rest = take n rest @ drop n rest" "take n rest \<noteq> []" using u(4) False by auto
    ultimately show ?thesis by (elim wp_mono) blast+
  qed
  have "spoiled db ch vs (u, map (private_of db) P)" if "db_step t u" "held P u ch" "\<not> body_room t" for u
    using that db_step_trans [OF t(1)] short_step [OF short_body [OF t(1)]] by (auto simp: spoiled_def)
  then show ?thesis
    using False
    apply (simp add: private_inserts_step_def s wp_bnd [where m = "on_fst _"] wp_on_fst Let_def)
    apply (rule wp_mono [OF reserve_wp [OF t(2,3)]])
    subgoal by simp
    subgoal for b u using fill [of u "allocations b" "batch_len b"] by (simp add: wp_bnd wp_ok_fun)
    subgoal by simp
    done
qed

lemma allocate_private_inserts_wp:
  assumes h: "held [] db ch" and r: "\<forall>i \<in> set prepared. ready db i \<and> pi_value i \<in> set vs"
  shows "wp (allocate_private_inserts simd prepared)
     (\<lambda>_ s. \<exists>P. gathered db ch P [] s \<and> list_all2 fills P prepared) (\<lambda>_. spoiled db ch vs) (db, [])"
  unfolding allocate_private_inserts_def
proof (rule wp_loop [where I = "\<lambda>rest s. \<exists>P got. prepared = got @ rest \<and> gathered db ch P [] s \<and> list_all2 fills P got"
      and M = "\<lambda>rest _. length rest"])
  show "\<exists>P got. prepared = got @ prepared \<and> gathered db ch P [] (db, []) \<and> list_all2 fills P got"
    by (intro exI [of _ "[]"]) (use h in \<open>simp add: gathered_def staged_def unlinked_def\<close>)
next
  fix rest s
  assume "\<exists>P got. prepared = got @ rest \<and> gathered db ch P [] s \<and> list_all2 fills P got"
  then obtain P got where p: "prepared = got @ rest" "gathered db ch P [] s" "list_all2 fills P got" by blast
  have rr: "\<forall>i \<in> set rest. ready db i \<and> pi_value i \<in> set vs" using r p(1) by simp
  show "wp (private_inserts_step simd rest)
      (\<lambda>c t. case c of Return a \<Rightarrow> \<exists>P. gathered db ch P [] t \<and> list_all2 fills P prepared
        | Continue w \<Rightarrow> (\<exists>P got. prepared = got @ w \<and> gathered db ch P [] t \<and> list_all2 fills P got) \<and> length w < length rest)
      (\<lambda>_. spoiled db ch vs) s"
  proof (rule wp_mono [OF private_inserts_step_wp [OF p(2) rr]], goal_cases)
    case (1 c t)
    show ?case
    proof (cases c)
      case (Continue w)
      with 1 obtain Q now where q: "rest = now @ w" "now \<noteq> []" "gathered db ch (P @ Q) [] t" "list_all2 fills Q now" by auto
      then have "list_all2 fills (P @ Q) (got @ now)" using p(3) by (simp add: list_all2_appendI)
      then show ?thesis using Continue q p(1) by (auto intro!: exI [of _ "P @ Q"] exI [of _ "got @ now"])
    next
      case (Return x)
      then show ?thesis using 1 p by auto
    qed
  qed simp
qed

text \<open>The error path: everything private is released.\<close>

lemma release_private_batch_wp:
  assumes "held P db ch"
  shows "wp (release_private_batch (map (private_of db0) P)) (\<lambda>_ t. db_step db t \<and> held [] t ch) (\<lambda>_ _. False) db"
  unfolding release_private_batch_def rev_map
  using assms
proof (induction P arbitrary: db rule: rev_induct)
  case Nil
  then show ?case by simp
next
  case (snoc d P)
  show ?case
    apply (simp add: wp_bnd wp_attempt private_of_def)
    apply (rule wp_mono [OF held_release_private [OF snoc.prems]])
    subgoal for _ t using snoc.IH [of t] db_step_trans [of db t] by (auto simp: private_of_def elim!: wp_mono)
    subgoal by simp
    done
qed

end
