(* ===== verification/Table_Commit.thy ===== *)
theory Table_Commit
  imports Table_Stage
begin

text \<open>
  Batch insertion of src/table.rs, linking and publication: the private entries of each bucket
  become one chain, and one exchange of the bucket's head puts that chain in front of the old one.
  A batch pushes its values in the order of its entries.
\<close>

subsection \<open>Linking\<close>

lemma staged_relink:
  assumes s: "staged P [] db ch" and c: "c \<in> set P" and n: "unat new < 2 ^ 48"
    and at: "node_at (dmem (db_body db)) (a_lo (en_node c)) (en_key c) (en_word c) nxt"
  defines "x \<equiv> set_pointer (alloc_offset (en_node c)) (node_word (en_key c) (en_word c) new) (db_body db)"
  shows "wp (on_body (set_private_next (alloc_offset (en_node c)) nxt new)) Q E db = Q () (db\<lparr>db_body := x\<rparr>)"
    and "staged P [] (db\<lparr>db_body := x\<rparr>) ch" and "db_step db (db\<lparr>db_body := x\<rparr>)"
    and "node_at (dmem x) (a_lo (en_node c)) (en_key c) (en_word c) new"
    and "d \<in> set P \<union> entries db ch \<Longrightarrow> d \<noteq> c \<Longrightarrow> a_lo (en_node d) \<le> y \<Longrightarrow> y < a_lo (en_node d) + 32 \<Longrightarrow> dmem x y = dmem (db_body db) y"
    and "al_inv x (node_pages db ch \<union> en_node ` set P)"
proof -
  have h: "held P db ch" by (rule staged_held [OF s])
  note ai = held_live(1) [OF h] and lc = held_live(2) [OF h c]
  let ?L = "node_pages db ch \<union> en_node ` set P"
  have cl: "en_node c \<in> ?L" using c by blast
  have at': "node_at (dmem (db_body db)) (unat (alloc_offset (en_node c))) (en_key c) (en_word c) nxt"
    using at by (simp add: a_lo_def)
  show "wp (on_body (set_private_next (alloc_offset (en_node c)) nxt new)) Q E db = Q () (db\<lparr>db_body := x\<rparr>)"
    unfolding wp_on_body x_def by (rule wp_set_private_next [OF _ at' n]) (use lc in blast)
  show xi: "al_inv x ?L" unfolding x_def using al_inv_set_pointer [OF ai cl] lc by blast
  have mem: "dmem x y = dmem (db_body db) y" if "a \<in> ?L" "a \<noteq> en_node c" "a_lo a \<le> y" "y < a_hi a" for a y
    unfolding x_def using set_pointer_other [OF ai cl _ that(1,2)] that lc by blast
  have "held P (db\<lparr>db_body := x\<rparr>) ch"
    by (rule held_body [OF h _ xi]) (use h c mem in \<open>auto simp: held_def x_def\<close>)
  then show "staged P [] (db\<lparr>db_body := x\<rparr>) ch" using s value_ok_cong [of "db\<lparr>db_body := x\<rparr>" db] by (simp add: staged_def)
  show "db_step db (db\<lparr>db_body := x\<rparr>)" by (rule db_step_upd) (simp add: x_def)
  show "node_at (dmem x) (a_lo (en_node c)) (en_key c) (en_word c) new"
    using node_at_relink [OF at n] by (simp add: x_def a_lo_def)
  assume d: "d \<in> set P \<union> entries db ch" "d \<noteq> c" "a_lo (en_node d) \<le> y" "y < a_lo (en_node d) + 32"
  have "en_node d \<noteq> en_node c" using d(1,2) c h by (auto simp: held_def distinct_map inj_on_def)
  moreover have "node_alloc (en_node d)"
    using d(1) held_live(2) [OF h] bucket_facts(5) [OF held_inv [OF h]] by (auto simp: entries_def)
  ultimately show "dmem x y = dmem (db_body db) y" using mem [of "en_node d"] d node_alloc_hi by auto
qed

text \<open>Every entry points to the one before it when both are in one bucket.\<close>

fun linked :: "(nat \<Rightarrow> u8) \<Rightarrow> (entry \<Rightarrow> u64) \<Rightarrow> entry \<Rightarrow> entry list \<Rightarrow> bool" where
  "linked m bucket p [] \<longleftrightarrow> True"
| "linked m bucket p (c # cs) \<longleftrightarrow> node_at m (a_lo (en_node c)) (en_key c) (en_word c)
       (if bucket p = bucket c then alloc_offset (en_node p) else 0) \<and> linked m bucket c cs"

definition same_nodes :: "entry set \<Rightarrow> database \<Rightarrow> database \<Rightarrow> bool" where
  "same_nodes D s t \<longleftrightarrow> (\<forall>d \<in> D. \<forall>y. a_lo (en_node d) \<le> y \<longrightarrow> y < a_lo (en_node d) + 32 \<longrightarrow> dmem (db_body t) y = dmem (db_body s) y)"

lemma same_nodes_trans: "same_nodes D s t \<Longrightarrow> same_nodes E t u \<Longrightarrow> F \<subseteq> D \<Longrightarrow> F \<subseteq> E \<Longrightarrow> same_nodes F s u"
  unfolding same_nodes_def by (metis subsetD)

lemma same_nodes_at:
  "same_nodes D s t \<Longrightarrow> d \<in> D \<Longrightarrow> node_at (dmem (db_body s)) (a_lo (en_node d)) k w n \<Longrightarrow> node_at (dmem (db_body t)) (a_lo (en_node d)) k w n"
  by (rule node_at_cong) (auto simp: same_nodes_def)

lemma link_private_batch_wp:
  assumes "staged P [] db ch" "set (p # cs) \<subseteq> set P" "distinct (p # cs)" "unlinked (dmem (db_body db)) cs"
  shows "wp (link_private_batch (map (private_of db0) (p # cs)))
     (\<lambda>_ t. db_step db t \<and> staged P [] t ch \<and> linked (dmem (db_body t)) (\<lambda>e. key_bucket db0 (en_key e)) p cs
        \<and> same_nodes (set P - set cs) db t) (\<lambda>_ _. False) db"
  using assms
proof (induction cs arbitrary: p db)
  case Nil
  then show ?case by (simp add: same_nodes_def)
next
  case (Cons c cs)
  let ?B = "\<lambda>e. key_bucket db0 (en_key e)"
  have pc: "p \<in> set P" "c \<in> set P" "set (c # cs) \<subseteq> set P" "distinct (c # cs)" "p \<noteq> c" using Cons.prems by auto
  have at: "node_at (dmem (db_body db)) (a_lo (en_node c)) (en_key c) (en_word c) 0" using Cons.prems(4) by (simp add: unlinked_def)
  have rest: "wp (link_private_batch (map (private_of db0) (c # cs)))
     (\<lambda>_ t. db_step db t \<and> staged P [] t ch \<and> linked (dmem (db_body t)) ?B p (c # cs)
        \<and> same_nodes (set P - set (c # cs)) db t) (\<lambda>_ _. False) u"
    if u: "db_step db u" "staged P [] u ch" "same_nodes (set P - {c}) db u"
      "node_at (dmem (db_body u)) (a_lo (en_node c)) (en_key c) (en_word c) (if ?B p = ?B c then alloc_offset (en_node p) else 0)" for u
  proof -
    have "unlinked (dmem (db_body u)) cs"
      unfolding unlinked_def
    proof
      fix e assume e: "e \<in> set cs"
      then have "e \<in> set P - {c}" using pc by auto
      then show "node_at (dmem (db_body u)) (a_lo (en_node e)) (en_key e) (en_word e) 0"
        using same_nodes_at [OF u(3)] Cons.prems(4) e by (simp add: unlinked_def)
    qed
    from Cons.IH [OF u(2) pc(3,4) this] show ?thesis
    proof (rule wp_mono, goal_cases)
      case (1 _ t)
      have "c \<in> set P - set cs" using pc by auto
      then have "node_at (dmem (db_body t)) (a_lo (en_node c)) (en_key c) (en_word c) (if ?B p = ?B c then alloc_offset (en_node p) else 0)"
        using same_nodes_at u(4) 1 by blast
      moreover have "same_nodes (set P - set cs) u t" using 1 by blast
      then have "same_nodes (set P - set (c # cs)) db t" by (rule same_nodes_trans [OF u(3)]) auto
      ultimately show ?case using 1 db_step_trans [OF u(1)] by simp
    qed simp
  qed
  have lk: "link_private_batch (map (private_of db0) (p # c # cs)) =
      bnd (if ?B p = ?B c then on_body (set_private_next (alloc_offset (en_node c)) 0 (alloc_offset (en_node p))) else ok ())
        (\<lambda>_. link_private_batch (map (private_of db0) (c # cs)))" by (simp add: private_of_def)
  show ?case
  proof (cases "?B p = ?B c")
    case True
    have small: "unat (alloc_offset (en_node p)) < 2 ^ 48"
      using held_live(2) [OF staged_held [OF Cons.prems(1)] pc(1)] by (simp add: a_lo_def)
    note r = staged_relink [OF Cons.prems(1) pc(2) small at]
    let ?u = "db\<lparr>db_body := set_pointer (alloc_offset (en_node c)) (node_word (en_key c) (en_word c) (alloc_offset (en_node p))) (db_body db)\<rparr>"
    have "same_nodes (set P - {c}) db ?u" using r(5) unfolding same_nodes_def by auto
    moreover have "node_at (dmem (db_body ?u)) (a_lo (en_node c)) (en_key c) (en_word c) (if ?B p = ?B c then alloc_offset (en_node p) else 0)"
      using r(4) True by simp
    ultimately show ?thesis using rest [OF r(3,2)] unfolding lk wp_bnd if_P [OF True] r(1) by blast
  next
    case False
    then have "wp (link_private_batch (map (private_of db0) (c # cs)))
     (\<lambda>_ t. db_step db t \<and> staged P [] t ch \<and> linked (dmem (db_body t)) ?B p (c # cs)
        \<and> same_nodes (set P - set (c # cs)) db t) (\<lambda>_ _. False) db"
      using at Cons.prems(1) by (intro rest) (simp_all add: same_nodes_def)
    then show ?thesis unfolding lk wp_bnd if_not_P [OF False] wp_prim .
  qed
qed

lemma linked_chain:
  "linked m bucket p cs \<Longrightarrow> \<forall>c \<in> set cs. bucket c = bucket p \<Longrightarrow> chain m (p # ys) \<Longrightarrow> chain m (rev cs @ p # ys)"
proof (induction cs arbitrary: p ys)
  case (Cons c cs)
  then show ?case using Cons.IH [of c "p # ys"] by simp
qed simp

lemma linked_append: "linked m bucket p (xs @ ys) \<longleftrightarrow> linked m bucket p xs \<and> linked m bucket (last (p # xs)) ys"
  by (induction xs arbitrary: p) auto

definition linked_all :: "(nat \<Rightarrow> u8) \<Rightarrow> (entry \<Rightarrow> u64) \<Rightarrow> entry list \<Rightarrow> bool" where
  "linked_all m bucket P \<longleftrightarrow> (case P of [] \<Rightarrow> True | p # cs \<Rightarrow> chain m [p] \<and> linked m bucket p cs)"

lemma linked_slices: "linked_all m bucket P \<Longrightarrow> (b, part) \<in> set (bucket_slices bucket P) \<Longrightarrow> chain m (rev part)"
proof (induction bucket P rule: bucket_slices.induct)
  case (2 bucket e es)
  let ?same = "\<lambda>x. bucket x = bucket e"
  let ?tw = "takeWhile ?same es" and ?dw = "dropWhile ?same es"
  have l: "chain m [e]" "linked m bucket e (?tw @ ?dw)" using "2.prems"(1) by (simp_all add: linked_all_def)
  have tw: "\<forall>c \<in> set ?tw. bucket c = bucket e" by (auto dest: set_takeWhileD)
  have lb: "bucket (last (e # ?tw)) = bucket e" using tw by (metis last_ConsL last_ConsR last_in_set)
  have "linked m bucket e ?tw" using l(2) unfolding linked_append by blast
  then have "chain m (rev (e # ?tw))" using linked_chain [OF _ tw l(1)] by simp
  moreover have "linked_all m bucket ?dw"
  proof (cases ?dw)
    case (Cons d ds)
    then have "bucket d \<noteq> bucket e" using hd_dropWhile [of ?same es] by simp
    moreover have "linked m bucket (last (e # ?tw)) (d # ds)" using l(2) unfolding linked_append Cons by blast
    ultimately show ?thesis unfolding Cons linked.simps lb by (simp add: linked_all_def)
  next
    case Nil
    then show ?thesis unfolding linked_all_def Nil by simp
  qed
  ultimately show ?case using "2.IH" "2.prems"(2) by auto
qed simp

subsection \<open>Publication\<close>

lemma chain_join:
  assumes "chain m (xs @ [p])" "chain m' ys" "node_at m' (a_lo (en_node p)) (en_key p) (en_word p) (first_offset ys)"
    and "\<And>d x. d \<in> set xs \<Longrightarrow> a_lo (en_node d) \<le> x \<Longrightarrow> x < a_lo (en_node d) + 32 \<Longrightarrow> m' x = m x"
  shows "chain m' (xs @ p # ys)"
  using assms(1,4)
proof (induction xs)
  case Nil
  then show ?case using assms(2,3) by simp
next
  case (Cons d xs)
  have "first_offset (xs @ [p]) = first_offset (xs @ p # ys)" by (cases xs) simp_all
  then have "node_at m' (a_lo (en_node d)) (en_key d) (en_word d) (first_offset (xs @ p # ys))"
    using Cons.prems by (intro node_at_cong [of _ m' m]) auto
  moreover have "chain m' (xs @ p # ys)" by (rule Cons.IH) (use Cons.prems in auto)
  ultimately show ?case by simp
qed

text \<open>The values of the entries \<open>P\<close>, pushed in order.\<close>

definition push_entries :: "entry list \<Rightarrow> history \<Rightarrow> history" where
  "push_entries P f = (\<lambda>k. rev (map en_value (filter (\<lambda>e. en_key e = k) P)) @ f k)"

lemma push_entries_simps [simp]: "push_entries [] f = f" "push_entries (xs @ ys) f = push_entries ys (push_entries xs f)"
  by (simp_all add: push_entries_def fun_eq_iff)

lemma versions_push:
  assumes c: "db_config t = db_config db" and b: "\<forall>e \<in> set part. key_bucket db (en_key e) = b"
  shows "versions t (ch(unat b := rev part @ ch (unat b))) = push_entries part (versions db ch)"
proof
  fix k
  show "versions t (ch(unat b := rev part @ ch (unat b))) k = push_entries part (versions db ch) k"
  proof (cases "key_bucket db k = b")
    case True
    then show ?thesis using key_bucket_cong [OF c, of k] by (simp add: versions_def push_entries_def rev_map rev_filter)
  next
    case False
    then have "unat (key_bucket t k) \<noteq> unat b" using key_bucket_cong [OF c, of k] by (simp add: word_unat_eq_iff)
    moreover have "filter (\<lambda>e. en_key e = k) part = []" using b False by (auto simp: filter_empty_conv)
    ultimately show ?thesis using key_bucket_cong [OF c, of k] by (simp add: versions_def push_entries_def)
  qed
qed

text \<open>The body after the oldest entry of a part was linked to the old chain of its bucket.\<close>

definition joined :: "database \<Rightarrow> entry list \<Rightarrow> u64 \<Rightarrow> block_allocator" where
  "joined db part root =
     set_pointer (alloc_offset (en_node (hd part))) (node_word (en_key (hd part)) (en_word (hd part)) root) (db_body db)"

lemma joined_facts:
  assumes s: "staged (part @ P) [] db ch" and ne: "part \<noteq> []" and b: "b < buckets db"
    and c: "chain (dmem (db_body db)) (rev part)"
  defines "x \<equiv> joined db part (first_offset (ch b))"
  shows "node_at (dmem (db_body db)) (a_lo (en_node (hd part))) (en_key (hd part)) (en_word (hd part)) 0"
    and "unat (first_offset (ch b)) < 2 ^ 48" and "al_inv x (node_pages db ch \<union> en_node ` set (part @ P))"
    and "d \<in> set (part @ P) \<union> entries db ch \<Longrightarrow> d \<noteq> hd part \<Longrightarrow> a_lo (en_node d) \<le> y \<Longrightarrow> y < a_lo (en_node d) + 32
       \<Longrightarrow> dmem x y = dmem (db_body db) y"
    and "chain (dmem x) (rev part @ ch b)"
proof -
  obtain p xs where part: "part = p # xs" using ne by (cases part) auto
  have h: "held (part @ P) db ch" by (rule staged_held [OF s])
  note inv = held_inv [OF h]
  have pD: "p \<in> set (part @ P)" by (simp add: part)
  have at: "node_at (dmem (db_body db)) (a_lo (en_node p)) (en_key p) (en_word p) 0"
    using chain_mem [of _ "rev xs" p "[]"] c by (simp add: part)
  have small: "unat (first_offset (ch b)) < 2 ^ 48" using first_offset_small(1) [OF inv b, of "[]" "ch b"] by simp
  have xd: "x = set_pointer (alloc_offset (en_node p)) (node_word (en_key p) (en_word p) (first_offset (ch b))) (db_body db)"
    by (simp add: x_def joined_def part)
  note r = staged_relink [OF s pD small at, folded xd]
  show "node_at (dmem (db_body db)) (a_lo (en_node (hd part))) (en_key (hd part)) (en_word (hd part)) 0" using at by (simp add: part)
  show "unat (first_offset (ch b)) < 2 ^ 48" by (rule small)
  show "al_inv x (node_pages db ch \<union> en_node ` set (part @ P))" by (rule r(6))
  show "d \<in> set (part @ P) \<union> entries db ch \<Longrightarrow> d \<noteq> hd part \<Longrightarrow> a_lo (en_node d) \<le> y \<Longrightarrow> y < a_lo (en_node d) + 32
       \<Longrightarrow> dmem x y = dmem (db_body db) y" for d y using r(5) by (simp add: part)
  have fr: "dmem x y = dmem (db_body db) y"
    if "e \<in> set (ch b) \<or> e \<in> set xs" "a_lo (en_node e) \<le> y" "y < a_lo (en_node e) + 32" for e y
  proof (rule r(5) [OF _ _ that(2,3)])
    show "e \<in> set (part @ P) \<union> entries db ch" using that(1) b by (auto simp: part entries_def)
    show "e \<noteq> p" using that(1) h b by (auto simp: part held_def entries_def)
  qed
  have "chain (dmem x) (rev xs @ p # ch b)"
  proof (rule chain_join [OF _ _ r(4)])
    show "chain (dmem (db_body db)) (rev xs @ [p])" using c by (simp add: part)
    show "chain (dmem x) (ch b)" by (rule chain_cong [OF bucket_facts(1) [OF inv b]]) (use fr in blast)
  qed (rule fr; simp)
  then show "chain (dmem x) (rev part @ ch b)" by (simp add: part)
qed

lemma joined_staged:
  assumes s: "staged (part @ P) [] db ch" and ne: "part \<noteq> []" and b: "b < buckets db"
    and k: "\<forall>e \<in> set part. unat (key_bucket db (en_key e)) = b" and c: "chain (dmem (db_body db)) (rev part)"
  shows "staged P [] (db\<lparr>db_body := joined db part (first_offset (ch b)), runtime_heads := (runtime_heads db)[b := first_offset (rev part @ ch b)]\<rparr>)
    (ch(b := rev part @ ch b))"
proof -
  let ?es = "rev part @ ch b" and ?D = "part @ P" and ?x = "joined db part (first_offset (ch b))"
  let ?t = "db\<lparr>db_body := ?x, runtime_heads := (runtime_heads db)[b := first_offset ?es]\<rparr>"
  have h: "held ?D db ch" by (rule staged_held [OF s])
  note inv = held_inv [OF h] and j = joined_facts [OF s ne b c]
  have dn: "distinct (map en_node ?D)" "en_node ` set ?D \<inter> node_pages db ch = {}" using h by (simp_all add: held_def)
  have sub: "set (ch b) \<subseteq> entries db ch" using b by (auto simp: entries_def)
  have i: "db_inv ?t (ch(b := ?es)) (node_pages db ch \<union> en_node ` set ?D) (blob_pages db ch \<union> blobs_of ?D)"
  proof (rule db_inv_bucket [OF inv b _ j(3,5), where F = "set ?D \<union> entries db ch"])
    show "al_step (db_body db) ?x" by (simp add: joined_def)
    have "en_node ` set part \<inter> en_node ` set (ch b) = {}" using dn(2) sub by auto
    then show "distinct (map en_node ?es)" using dn(1) bucket_facts(3) [OF inv b] by (simp add: rev_map [symmetric])
    show "node_alloc (en_node e) \<and> unat (key_bucket db (en_key e)) = b \<and> value_ok db e" if "e \<in> set ?es" for e
      using that k s h bucket_facts(5) [OF inv b, of e] by (auto simp: staged_def held_def)
    show "one_owner (set ?D \<union> entries db ch)" using h by (simp add: held_def)
    show "x \<in> blob_pages db ch \<union> blobs_of ?D" if "e \<in> set ?D \<union> entries db ch" "en_blob e = Some x" for e x
      using that by (auto simp: blob_pages_def blobs_of_def)
    show "dmem ?x y = dmem (db_body db) y"
      if e: "c < buckets db" "c \<noteq> b" "e \<in> set (ch c)" "a_lo (en_node e) \<le> y" "y < a_lo (en_node e) + 32" for c e y
    proof (rule j(4) [OF _ _ e(4,5)])
      have "e \<in> entries db ch" using e by (auto simp: entries_def)
      then show "e \<in> set ?D \<union> entries db ch" "e \<noteq> hd part" using dn(2) hd_in_set [OF ne] by auto
    qed
  qed (use sub in auto)
  have en: "entries ?t (ch(b := ?es)) = set part \<union> entries db ch"
    using entries_bucket [of b ?t ch ?es] entries_bucket [of b db ch "ch b"] b by (auto simp: entries_def)
  have bp: "blob_pages ?t (ch(b := ?es)) = blob_pages db ch \<union> blobs_of part"
    unfolding blob_pages_def en by (auto simp: blobs_of_def)
  have "held P ?t (ch(b := ?es))"
    unfolding held_def en bp
  proof (intro conjI)
    show "db_inv ?t (ch(b := ?es)) (en_node ` (set part \<union> entries db ch) \<union> en_node ` set P) (blob_pages db ch \<union> blobs_of part \<union> blobs_of P)"
      using i by (simp add: image_Un Un_ac)
    show "one_owner (set P \<union> (set part \<union> entries db ch))" using h by (simp add: held_def Un_ac)
    show "en_node ` set P \<inter> en_node ` (set part \<union> entries db ch) = {}" using dn by (auto simp: image_Un)
  qed (use h in \<open>auto simp: held_def\<close>)
  then show ?thesis using s value_ok_cong [of ?t db] by (simp add: staged_def)
qed

lemma commit_group_wp:
  assumes s: "staged (part @ P) [] db ch" and ne: "part \<noteq> []" and b: "\<forall>e \<in> set part. key_bucket db (en_key e) = bk"
    and c: "chain (dmem (db_body db)) (rev part)"
  shows "wp (commit_private_group \<lparr>pg_head = unat bk, pg_tail_node = alloc_offset (en_node (hd part)), pg_root = alloc_offset (en_node (last part))\<rparr>)
     (\<lambda>_ t. db_step db t \<and> staged P [] t (ch(unat bk := rev part @ ch (unat bk))) \<and> same_nodes (set P) db t)
     (\<lambda>_ _. False) db"
proof -
  let ?b = "unat bk" and ?p = "hd part" and ?root = "first_offset (ch (unat bk))"
  let ?t = "db\<lparr>db_body := joined db part ?root, runtime_heads := (runtime_heads db)[?b := alloc_offset (en_node (last part))]\<rparr>"
  have h: "held (part @ P) db ch" by (rule staged_held [OF s])
  note inv = held_inv [OF h]
  have bl: "?b < buckets db" using key_bucket_lt [OF db_invD(1) [OF inv], of "en_key ?p"] b ne by simp
  note j = joined_facts [OF s ne bl c]
  have fo: "first_offset (rev part @ ch ?b) = alloc_offset (en_node (last part))"
    using ne by (cases part rule: rev_cases) simp_all
  have st: "staged P [] ?t (ch(?b := rev part @ ch ?b))"
    using joined_staged [OF s ne bl _ c] b unfolding fo by simp
  have "d \<noteq> ?p" if "d \<in> set P" for d using that h ne by (cases part) (auto simp: held_def)
  then have sn: "same_nodes (set P) db ?t" using j(4) unfolding same_nodes_def by auto
  have pl: "node_place (db_body db) (alloc_offset (en_node ?p))" using held_live(2) [OF h, of ?p] ne by simp
  have at: "node_at (dmem (db_body db)) (unat (alloc_offset (en_node ?p))) (en_key ?p) (en_word ?p) 0" using j(1) by (simp add: a_lo_def)
  have ds: "db_step db ?t" by (simp add: db_step_def option.rel_refl joined_def)
  show ?thesis
    unfolding commit_private_group_def
    apply (rule wp_loop_once)
    using ds st sn bucket_facts(2) [OF inv bl] read_pointer_at(2) [OF pl at]
    by (simp add: commit_step_def wp_bnd wp_reads wp_on_body wp_compare_exchange_next [OF pl at _ j(2)] wp_cas_head joined_def)
qed

lemma bucket_slices_map:
  "bucket_slices f (map g xs) = map (\<lambda>(b, part). (b, map g part)) (bucket_slices (\<lambda>x. f (g x)) xs)"
  by (induction "\<lambda>x. f (g x)" xs rule: bucket_slices.induct) (simp_all add: takeWhile_map dropWhile_map comp_def)

lemma slices_nonempty: "(b, part) \<in> set (bucket_slices bucket es) \<Longrightarrow> part \<noteq> []"
  by (rule slices_split)

text \<open>The groups of a batch, and what each part promises until it is committed.\<close>

abbreviation group_of :: "u64 \<times> entry list \<Rightarrow> private_group" where
  "group_of \<equiv> \<lambda>(b, part). \<lparr>pg_head = unat b, pg_tail_node = alloc_offset (en_node (hd part)), pg_root = alloc_offset (en_node (last part))\<rparr>"

definition publishable :: "database \<Rightarrow> u64 \<times> entry list \<Rightarrow> bool" where
  "publishable db = (\<lambda>(b, part). part \<noteq> [] \<and> (\<forall>e \<in> set part. key_bucket db (en_key e) = b) \<and> chain (dmem (db_body db)) (rev part))"

lemma collect_private_groups_eq:
  assumes inv: "db_inv db ch L B" and p: "\<forall>s \<in> set (bucket_slices (\<lambda>e. key_bucket db0 (en_key e)) P). publishable db s"
  shows "collect_private_groups db (map (private_of db0) P) = Ok (map group_of (bucket_slices (\<lambda>e. key_bucket db0 (en_key e)) P))"
proof -
  let ?ss = "bucket_slices (\<lambda>e. key_bucket db0 (en_key e)) P"
  have hd: "head db b = Ok (unat b) \<and> part \<noteq> []" if s: "(b, part) \<in> set ?ss" for b part
  proof -
    have pb: "part \<noteq> []" "\<forall>e \<in> set part. key_bucket db (en_key e) = b" using p s by (auto simp: publishable_def)
    then have "unat b < buckets db" using key_bucket_lt [OF db_invD(1) [OF inv], of "en_key (hd part)"] by simp
    then show ?thesis using read_head_eq(2) [OF inv] pb(1) by blast
  qed
  have "\<forall>(b, part) \<in> set ss. head db b = Ok (unat b) \<and> part \<noteq> [] \<Longrightarrow>
      rmap (\<lambda>(bucket, part). rbind (head db bucket) (\<lambda>h. Ok \<lparr>pg_head = h, pg_tail_node = alloc_offset (pv_node (hd part)),
        pg_root = alloc_offset (pv_node (last part))\<rparr>)) (map (\<lambda>(b, part). (b, map (private_of db0) part)) ss) = Ok (map group_of ss)" for ss
    by (induction ss) (auto simp: hd_map last_map private_of_def)
  from this [of ?ss] hd have "rmap (\<lambda>(bucket, part). rbind (head db bucket) (\<lambda>h. Ok \<lparr>pg_head = h, pg_tail_node = alloc_offset (pv_node (hd part)),
        pg_root = alloc_offset (pv_node (last part))\<rparr>)) (map (\<lambda>(b, part). (b, map (private_of db0) part)) ?ss) = Ok (map group_of ?ss)" by blast
  then show ?thesis unfolding collect_private_groups_def bucket_slices_map by (simp add: private_of_def)
qed

lemma publishable_keep:
  assumes "publishable db (b, part)" "db_config t = db_config db" "same_nodes (set part) db t"
  shows "publishable t (b, part)"
proof -
  have "chain (dmem (db_body t)) (rev part)"
    by (rule chain_cong [of "dmem (db_body db)"]) (use assms in \<open>auto simp: publishable_def same_nodes_def\<close>)
  then show ?thesis using assms key_bucket_cong [OF assms(2)] by (simp add: publishable_def)
qed

lemma commit_groups_wp:
  assumes "staged (concat (map snd ss)) [] db ch" "\<forall>s \<in> set ss. publishable db s"
  shows "wp (forM (map group_of ss) commit_private_group)
     (\<lambda>_ t. db_step db t \<and> (\<exists>ch'. held [] t ch' \<and> versions t ch' = push_entries (concat (map snd ss)) (versions db ch)))
     (\<lambda>_ _. False) db"
  using assms
proof (induction ss arbitrary: db ch)
  case Nil
  then show ?case by (auto dest: staged_held)
next
  case (Cons s ss)
  obtain b part where s: "s = (b, part)" by (cases s)
  let ?P = "concat (map snd ss)" and ?ch = "ch(unat b := rev part @ ch (unat b))"
  have pb: "publishable db (b, part)" and st: "staged (part @ ?P) [] db ch" using Cons.prems s by simp_all
  note pd = pb [unfolded publishable_def prod.case, THEN conjunct1] pb [unfolded publishable_def prod.case, THEN conjunct2, THEN conjunct1]
    pb [unfolded publishable_def prod.case, THEN conjunct2, THEN conjunct2]
  have rest: "wp (forM (map group_of ss) commit_private_group)
     (\<lambda>_ u. db_step db u \<and> (\<exists>ch'. held [] u ch' \<and> versions u ch' = push_entries (part @ ?P) (versions db ch))) (\<lambda>_ _. False) t"
    if t: "db_step db t" "staged ?P [] t ?ch" "same_nodes (set ?P) db t" for t
  proof -
    have c: "db_config t = db_config db" by (rule db_step_config [OF t(1)])
    have "publishable t x" if x: "x \<in> set ss" for x
    proof -
      have "same_nodes (set (snd x)) db t" using t(3) x by (auto simp: same_nodes_def)
      then show ?thesis using publishable_keep [of db "fst x" "snd x" t] Cons.prems(2) x c by simp
    qed
    from Cons.IH [OF t(2)] this show ?thesis
      unfolding versions_push [OF c pd(2)] push_entries_simps by (auto intro: db_step_trans [OF t(1)] elim!: wp_mono)
  qed
  show ?case
    unfolding s list.map prod.case forM.simps wp_bnd
    by (rule wp_mono [OF commit_group_wp [OF st pd]]) (use rest in simp_all)
qed

subsection \<open>Preparing a batch\<close>

definition prep_insert :: "database \<Rightarrow> usize \<times> bytes \<times> bytes option \<Rightarrow> prepared_insert" where
  "prep_insert db = (\<lambda>(order, key, v).
     \<lparr>pi_key = key, pi_value = v, pi_hash = key_hash db key, pi_bucket = key_bucket db key, pi_order = order\<rparr>)"

definition insert_order :: "database \<Rightarrow> (bytes \<times> bytes option) list \<Rightarrow> prepared_insert list" where
  "insert_order db es = sort_key (\<lambda>e. (pi_bucket e, pi_order e)) (map (prep_insert db) (enumerate 0 es))"

lemma hash_prepared_inserts_eq:
  assumes "\<forall>e \<in> set es. length (pi_key e) < 2 ^ 63"
  shows "hash_prepared_inserts avx2 (db_config db) es =
    map (\<lambda>e. e\<lparr>pi_hash := key_hash db (pi_key e), pi_bucket := key_bucket db (pi_key e)\<rparr>) es"
  using assms
  by (induction avx2 "db_config db" es rule: hash_prepared_inserts.induct)
    (simp_all add: batch4_eq set_pi_hash_def key_hash_def hash_bucket_def del: xxh64_batch4.simps)

definition acceptable :: "database \<Rightarrow> (bytes \<times> bytes option) list \<Rightarrow> bool" where
  "acceptable db es \<longleftrightarrow> (\<forall>(key, v) \<in> set es. length key = 16 \<and> validate_value db v = Ok ()) \<and> length es \<le> reserve_limit (db_heads db)"

lemma prepare_inserts_loop:
  assumes "\<forall>(key, v) \<in> set es. length key = 16 \<and> validate_value db v = Ok ()" "length acc + length es \<le> reserve_limit (db_heads db)"
  shows "rfold (\<lambda>(order, key, v) prepared.
         rbind (validate_key key) (\<lambda>_.
         rbind (validate_value db v) (\<lambda>_.
         rbind (db_try_reserve db (length prepared + 1)) (\<lambda>_.
         Ok (prepared @ [\<lparr>pi_key = key, pi_value = v, pi_hash = 0, pi_bucket = 0, pi_order = order\<rparr>]))))) (enumerate n es) acc =
    Ok (acc @ map (\<lambda>(i, k, v). \<lparr>pi_key = k, pi_value = v, pi_hash = 0, pi_bucket = 0, pi_order = i\<rparr>) (enumerate n es))"
  using assms
  by (induction es arbitrary: n acc)
    (auto simp: validate_key_def KEY_SIZE_def db_try_reserve_def try_reserve_def)

lemma prepare_batch_eq:
  assumes "acceptable db es"
  shows "prepare_batch simd db es = Ok (insert_order db es)"
proof -
  let ?raw = "map (\<lambda>(i, k, v). \<lparr>pi_key = k, pi_value = v, pi_hash = 0, pi_bucket = 0, pi_order = i\<rparr>) (enumerate 0 es)"
  have "\<forall>e \<in> set ?raw. length (pi_key e) < 2 ^ 63"
    using assms by (force simp: set_zip enumerate_eq_zip acceptable_def dest: nth_mem)
  then have "hash_prepared_inserts (simd = Avx2) (db_config db) ?raw = map (prep_insert db) (enumerate 0 es)"
    by (simp add: hash_prepared_inserts_eq prep_insert_def case_prod_beta)
  then show ?thesis using assms prepare_inserts_loop [of es db "[]" 0]
    by (simp add: prepare_batch_def db_try_reserve_def try_reserve_def insert_order_def acceptable_def)
qed

lemma insert_order_simps:
  "length (insert_order db es) = length es" "insert_order db es = [] \<longleftrightarrow> es = []"
proof -
  show l: "length (insert_order db es) = length es" by (simp add: insert_order_def)
  then show "insert_order db es = [] \<longleftrightarrow> es = []" by (metis length_0_conv)
qed

lemma insert_order_ready:
  assumes "acceptable db es"
  shows "\<forall>i \<in> set (insert_order db es). ready db i \<and> pi_value i \<in> set (map snd es)"
proof
  fix i assume "i \<in> set (insert_order db es)"
  then obtain n where n: "n < length es" "i = prep_insert db (n, es ! n)" by (auto simp: insert_order_def in_set_enumerate_eq)
  obtain k v where kv: "es ! n = (k, v)" by (cases "es ! n")
  then have "(k, v) \<in> set es" using n(1) by (metis nth_mem)
  then show "ready db i \<and> pi_value i \<in> set (map snd es)"
    using assms n(2) kv by (force simp: acceptable_def ready_def prep_insert_def)
qed

text \<open>Sorting by bucket keeps the order of the entries of one key.\<close>

lemma insert_order_key:
  "map (\<lambda>i. value_of (pi_value i)) (filter (\<lambda>i. pi_key i = k) (insert_order db es)) =
   map (\<lambda>e. value_of (snd e)) (filter (\<lambda>e. fst e = k) es)"
proof -
  let ?f = "\<lambda>i. (pi_bucket i, pi_order i)" and ?P = "\<lambda>i. pi_key i = k"
  have srt: "sorted (map ?f (filter ?P (map (prep_insert db) (enumerate n es))))
     \<and> (\<forall>i \<in> set (filter ?P (map (prep_insert db) (enumerate n es))). pi_bucket i = key_bucket db k \<and> n \<le> pi_order i)" for n
  proof (induction es arbitrary: n)
    case (Cons e es)
    from Cons.IH [of "Suc n"] show ?case by (cases e) (auto simp: prep_insert_def)
  qed simp
  have "filter ?P (insert_order db es) = filter ?P (map (prep_insert db) (enumerate 0 es))"
    unfolding insert_order_def filter_sort using sort_key_id_if_sorted srt [of 0] by blast
  moreover have "map (\<lambda>i. value_of (pi_value i)) (filter ?P (map (prep_insert db) (enumerate n es))) =
      map (\<lambda>e. value_of (snd e)) (filter (\<lambda>e. fst e = k) es)" for n
    by (induction es arbitrary: n) (auto simp: prep_insert_def)
  ultimately show ?thesis by simp
qed

subsection \<open>Refinement\<close>

lemma wp_err_fun: "wp (err e) Q E = E e"
  by (rule ext) simp

text \<open>A batch pushes the values of its entries in order.\<close>

definition push_batch :: "(bytes \<times> bytes option) list \<Rightarrow> history \<Rightarrow> history" where
  "push_batch es f = (\<lambda>k. rev (map (\<lambda>e. value_of (snd e)) (filter (\<lambda>e. fst e = k) es)) @ f k)"

lemma push_filled:
  assumes "list_all2 fills P (insert_order db es)"
  shows "push_entries P f = push_batch es f"
proof -
  have "list_all2 fills P is \<Longrightarrow> map en_value (filter (\<lambda>e. en_key e = k) P) = map (\<lambda>i. value_of (pi_value i)) (filter (\<lambda>i. pi_key i = k) is)" for k "is"
    by (induction rule: list_all2_induct) (auto simp: fills_def)
  from this [OF assms] show ?thesis unfolding push_entries_def push_batch_def insert_order_key by simp
qed

lemma publish_batch_wp:
  assumes s: "staged P [] db ch" and u: "unlinked (dmem (db_body db)) P" and c: "db_config db = db_config db0"
  shows "wp (bnd (catch (link_private_batch (map (private_of db0) P)) (\<lambda>e. bnd (release_private_batch (map (private_of db0) P)) (\<lambda>_. err e))) (\<lambda>_.
       bnd (catch (reads (\<lambda>d. collect_private_groups d (map (private_of db0) P)))
             (\<lambda>e. bnd (release_private_batch (map (private_of db0) P)) (\<lambda>_. err e))) (\<lambda>groups.
       bnd (forM groups commit_private_group) (\<lambda>_. ok n))))
     (\<lambda>r t. r = n \<and> db_step db t \<and> (\<exists>ch'. held [] t ch' \<and> versions t ch' = push_entries P (versions db ch))) (\<lambda>_ _. False) db"
proof -
  let ?B = "\<lambda>e. key_bucket db0 (en_key e)"
  let ?ss = "bucket_slices ?B P"
  have link: "wp (link_private_batch (map (private_of db0) P))
      (\<lambda>_ t. db_step db t \<and> staged P [] t ch \<and> linked_all (dmem (db_body t)) ?B P) (\<lambda>_ _. False) db"
  proof (cases P)
    case Nil
    then show ?thesis using s by (simp add: linked_all_def)
  next
    case (Cons p cs)
    have d: "distinct P" using staged_nodes(1) [OF s] by (simp add: distinct_map)
    have "wp (link_private_batch (map (private_of db0) (p # cs))) (\<lambda>_ t. db_step db t \<and> staged P [] t ch
        \<and> linked (dmem (db_body t)) ?B p cs \<and> same_nodes (set P - set cs) db t) (\<lambda>_ _. False) db"
      by (rule link_private_batch_wp [OF s]) (use Cons d u in \<open>auto simp: unlinked_def\<close>)
    moreover have "node_at (dmem (db_body t)) (a_lo (en_node p)) (en_key p) (en_word p) 0" if "same_nodes (set P - set cs) db t" for t
      by (rule same_nodes_at [OF that]) (use Cons d u in \<open>auto simp: unlinked_def\<close>)
    ultimately show ?thesis unfolding Cons by (elim wp_mono) (auto simp: linked_all_def)
  qed
  have rest: "wp (forM (map group_of ?ss) commit_private_group)
      (\<lambda>_ u. db_step db u \<and> (\<exists>ch'. held [] u ch' \<and> versions u ch' = push_entries P (versions db ch))) (\<lambda>_ _. False) t
     \<and> collect_private_groups t (map (private_of db0) P) = Ok (map group_of ?ss)"
    if t: "db_step db t" "staged P [] t ch" "linked_all (dmem (db_body t)) ?B P" for t
  proof -
    have ct: "db_config t = db_config db0" using db_step_config [OF t(1)] c by simp
    have pb: "\<forall>s \<in> set ?ss. publishable t s"
    proof
      fix s assume m: "s \<in> set ?ss"
      obtain b part where sp: "s = (b, part)" by (cases s)
      have "part \<noteq> []" by (rule slices_nonempty) (use m sp in blast)
      then show "publishable t s"
        unfolding sp publishable_def prod.case
        using slices_bucket [of b part ?B P] linked_slices [OF t(3), of b part] m sp key_bucket_cong [OF ct] by simp
    qed
    have "wp (forM (map group_of ?ss) commit_private_group)
       (\<lambda>_ u. db_step t u \<and> (\<exists>ch'. held [] u ch' \<and> versions u ch' = push_entries P (versions t ch))) (\<lambda>_ _. False) t"
      using commit_groups_wp [of ?ss t ch] t(2) pb unfolding slices_concat by blast
    then have "wp (forM (map group_of ?ss) commit_private_group)
       (\<lambda>_ u. db_step db u \<and> (\<exists>ch'. held [] u ch' \<and> versions u ch' = push_entries P (versions db ch))) (\<lambda>_ _. False) t"
      unfolding versions_cong [OF db_step_config [OF t(1)]] by (elim wp_mono) (auto intro: db_step_trans [OF t(1)])
    then show ?thesis using collect_private_groups_eq [OF held_inv [OF staged_held [OF t(2)]] pb] by blast
  qed
  show ?thesis
    unfolding wp_bnd wp_catch wp_reads wp_prim
  proof (rule wp_mono [OF link], goal_cases)
    case (1 _ t)
    with rest [of t] have
      w: "wp (forM (map group_of ?ss) commit_private_group)
      (\<lambda>_ u. db_step db u \<and> (\<exists>ch'. held [] u ch' \<and> versions u ch' = push_entries P (versions db ch))) (\<lambda>_ _. False) t"
      and cg: "collect_private_groups t (map (private_of db0) P) = Ok (map group_of ?ss)" by blast+
    show ?case unfolding cg rwp_prim by (rule wp_mono [OF w]) auto
  qed simp
qed

lemma insert_batch_refines:
  assumes st: "stores db f" and a: "acceptable db es"
  shows "wp (insert_batch_inner simd es)
     (\<lambda>n t. (db_step db t) \<and> n = length es \<and> stores t (push_batch es f))
     (\<lambda>_ t. (db_step db t) \<and> stores t f \<and> short db (map snd es) t) db"
proof (cases "es = []")
  case True
  obtain ch where "table db ch" using st by (auto simp: stores_def)
  then show ?thesis
    using True st prepare_batch_eq [OF a, of simd] insert_order_simps [of db es] guard_ok [OF stores_inv(1)]
    by (simp add: insert_batch_inner_def wp_bnd wp_reads push_batch_def)
next
  case False
  obtain ch where tab: "table db ch" and f: "f = versions db ch" using st by (auto simp: stores_def)
  have h: "held [] db ch" "unlocked db" using tab by (simp_all add: table_held)
  have sto: "stores t g" if "db_step db t" "held [] t ch'" "versions t ch' = g" for t ch' g
    using that h(2) unlocked_step by (auto simp: stores_def table_held)
  let ?E = "\<lambda>_ t. db_step db t \<and> stores t f \<and> short db (map snd es) t"
  have bad: "wp (release_private_batch priv) (\<lambda>_ t. ?E e t) ?E t" if sp: "spoiled db ch (map snd es) (t, priv)" for t priv e
  proof -
    obtain P where p: "held P t ch" "priv = map (private_of db) P" "db_step db t" "short db (map snd es) t"
      using sp by (auto simp: spoiled_def)
    have "?E e u" if u: "db_step t u" "held [] u ch" for u
    proof -
      have du: "db_step db u" by (rule db_step_trans [OF p(3) u(1)])
      then show ?thesis
        using sto [OF du u(2)] f versions_cong [OF db_step_config [OF du]] short_step [OF p(4) u(1)] by simp
    qed
    then show ?thesis unfolding p(2) by (intro wp_mono [OF release_private_batch_wp [OF p(1)]]) auto
  qed
  let ?n = "length es" and ?prep = "insert_order db es"
  let ?pub = "\<lambda>priv. bnd (catch (link_private_batch priv) (\<lambda>e. bnd (release_private_batch priv) (\<lambda>_. err e))) (\<lambda>_.
       bnd (catch (reads (\<lambda>d. collect_private_groups d priv)) (\<lambda>e. bnd (release_private_batch priv) (\<lambda>_. err e))) (\<lambda>groups.
       bnd (forM groups commit_private_group) (\<lambda>_. ok ?n)))"
  have start: "wp (insert_batch_inner simd es) Q E db = wp (allocate_private_inserts simd ?prep) (\<lambda>_ (t, priv). wp (?pub priv) Q E t)
      (\<lambda>e (t, priv). wp (release_private_batch priv) (\<lambda>_. E e) E t) (db, [])" for Q E
    using False a prepare_batch_eq [OF a, of simd] insert_order_simps [of db es] guard_ok [OF stores_inv(1) [OF tab]]
    by (simp add: insert_batch_inner_def wp_bnd [where m = "reads _"] wp_bnd [where m = "scoped _ _"] wp_reads wp_scoped
        db_try_reserve_def try_reserve_def acceptable_def wp_bnd [where m = "ok _"] wp_bnd [where m = "bnd _ _"]
        wp_bnd [where m = "release_private_batch _"] wp_ok_fun wp_err_fun Let_def)
  show ?thesis
    unfolding start
  proof (rule wp_mono [OF allocate_private_inserts_wp [OF h(1) insert_order_ready [OF a]]], goal_cases)
    case (1 _ s)
    then obtain P t where s: "s = (t, map (private_of db) P)" and t: "db_step db t" "staged P [] t ch" "unlinked (dmem (db_body t)) P"
      and fl: "list_all2 fills P ?prep" by (auto simp: gathered_def)
    have c: "db_config t = db_config db" by (rule db_step_config [OF t(1)])
    have "wp (?pub (map (private_of db) P)) (\<lambda>n u. db_step db u \<and> n = ?n \<and> stores u (push_batch es f)) ?E t"
      by (rule wp_mono [OF publish_batch_wp [OF t(2,3) c]])
        (use sto db_step_trans [OF t(1)] push_filled [OF fl] versions_cong [OF c] f in auto)
    then show ?case by (simp add: s)
  next
    case (2 e s)
    then show ?case using bad by (cases s) auto
  qed
qed

end
