(* ===== verification/Batch_Props.thy ===== *)
theory Batch_Props
  imports Table_Pop Table_Commit Table_Props
begin

text \<open>
  The properties of the batch operations of src/table.rs: a batch does to the table what its keys
  would do one after the other.
\<close>

text \<open>C10. \<open>batch_fetch\<close> terminates and answers every key as \<open>get\<close> does, in the order of the keys and
  with repeated keys allowed, however the keys share buckets and hashes.\<close>

theorem batch_fetch_correct:
  assumes "stores db f" "\<forall>k \<in> set keys. length k = 16" "mode (db_config db) = Map"
    and "length keys \<le> reserve_limit (db_heads db)"
    and "\<forall>k \<in> set keys. \<forall>v vs bl. f k = v # vs \<longrightarrow> db_blobs db = Some bl \<longrightarrow> length v \<le> reserve_limit (al_data bl)"
  shows "db_batch_fetch simd db keys = Ok (map (newest f) keys)
     \<and> (\<forall>k \<in> set keys. db_get db k = Ok (newest f k))"
proof -
  have "db_get db k = Ok (newest f k)" if k: "k \<in> set keys" for k
  proof (cases "f k")
    case Nil
    then show ?thesis using get_refines(1) [OF assms(1) _ assms(3), of k] assms(2) k by (simp add: newest_def)
  next
    case (Cons v vs)
    then show ?thesis using get_refines(2) [OF assms(1) _ assms(3), of k v vs] assms(2,5) k by (auto simp: newest_def)
  qed
  then show ?thesis using batch_fetch_refines [OF assms] by blast
qed

theorem batch_fetch_correct_witness:
  "\<exists>db t. db_create quiet_create (small_config Map) = Ok db \<and> db_put Neon key_a value_a db = Some (Inr PR_Inserted, t)
     \<and> db_batch_fetch Avx2 t [key_a, replicate 16 2, key_a] = Ok [Some value_a, None, Some value_a]"
proof -
  obtain db t where "db_create quiet_create (small_config Map) = Ok db" "db_put Neon key_a value_a db = Some (Inr PR_Inserted, t)"
    and t: "stores t ((\<lambda>_. [])(key_a := [value_a]))" "mode (db_config t) = Map" "reserve_limit (db_heads t) = 1048576"
      "\<forall>bl. db_blobs t = Some bl \<longrightarrow> reserve_limit (al_data bl) = 1048576" by (rule one_stored)
  moreover from batch_fetch_correct [OF t(1) _ t(2), of "[key_a, replicate 16 2, key_a]" Avx2]
  have "db_batch_fetch Avx2 t [key_a, replicate 16 2, key_a] = Ok [Some value_a, None, Some value_a]"
    using t(3,4) by (auto simp: key_a_def value_a_def newest_def)
  ultimately show ?thesis by blast
qed

text \<open>C11. \<open>batch_delete\<close> of distinct keys never fails on a well-formed table whose delete locks are
  free: it removes the newest value of every key that has one, says for each key whether it had
  one, keeps all other values and gives the delete locks and the pages of the removed values back.\<close>

theorem batch_delete_correct:
  assumes "stores db f" "\<forall>k \<in> set keys. length k = 16" "distinct keys" "length keys \<le> reserve_limit (db_heads db)"
  shows "\<exists>t. db_batch_delete simd keys db = Some (Inr (map (\<lambda>k. f k \<noteq> []) keys), t) \<and> db_step db t
     \<and> stores t (\<lambda>k. if k \<in> set keys then tl (f k) else f k)"
  using batch_delete_refines [OF assms, of simd] by (auto simp: wp_disj pop_keys_def)

theorem batch_delete_correct_witness:
  "\<exists>db t u. db_create quiet_create (small_config Map) = Ok db \<and> db_put Neon key_a value_a db = Some (Inr PR_Inserted, t)
     \<and> db_batch_delete Neon [replicate 16 2, key_a] t = Some (Inr [False, True], u)"
proof -
  obtain db t where "db_create quiet_create (small_config Map) = Ok db" "db_put Neon key_a value_a db = Some (Inr PR_Inserted, t)"
    and t: "stores t ((\<lambda>_. [])(key_a := [value_a]))" "reserve_limit (db_heads t) = 1048576" by (rule one_stored)
  moreover have "distinct [replicate 16 2, key_a]" by (simp add: key_a_def replicate_eq_replicate)
  with batch_delete_correct [OF t(1), of "[replicate 16 2, key_a]" Neon]
  have "\<exists>u. db_batch_delete Neon [replicate 16 2, key_a] t = Some (Inr [False, True], u)"
    using t(2) by (auto simp: key_a_def replicate_eq_replicate)
  ultimately show ?thesis by blast
qed



lemma push_batch_fold:
  "push_batch (map (\<lambda>(k, v). (k, Some v)) es) f = fold (\<lambda>(k, v) g. g(k := v # g k)) es f"
  "push_batch (map (\<lambda>k. (k, None)) keys) f = fold (\<lambda>k g. g(k := [] # g k)) keys f"
proof -
  have "push_batch ((k, v) # xs) g = push_batch xs (g(k := value_of v # g k))" for k v xs g
    by (simp add: push_batch_def fun_eq_iff)
  note c = this and n = push_batch_def [of "[]", simplified]
  show "push_batch (map (\<lambda>(k, v). (k, Some v)) es) f = fold (\<lambda>(k, v) g. g(k := v # g k)) es f"
    by (induction es arbitrary: f) (auto simp: c n)
  show "push_batch (map (\<lambda>k. (k, None)) keys) f = fold (\<lambda>k g. g(k := [] # g k)) keys f"
    by (induction keys arbitrary: f) (auto simp: c n)
qed

text \<open>C13. \<open>put_batch\<close> of the write-only writer always returns. On success it has pushed the values of
  its entries in their order, so that the last entry of a key is its newest value and older values
  stay below it, and it returns the number of entries. On an error the contents are unchanged and
  every page the batch had taken is given back; it fails only when a system call fails, the pages
  for nodes or blobs run out, or a value is larger than a page.\<close>

theorem put_batch_correct:
  assumes "stores db f" "mode (db_config db) = Map" "\<forall>(k, v) \<in> set es. length k = 16"
    and "length es \<le> reserve_limit (db_heads db)"
  shows "\<exists>r t. writer_put_batch simd es db = Some (r, t) \<and> db_step db t \<and> (case r of
       Inr n \<Rightarrow> n = length es \<and> stores t (fold (\<lambda>(k, v) g. g(k := v # g k)) es f)
     | Inl e \<Rightarrow> stores t f \<and> short db (map (\<lambda>(k, v). Some v) es) t)"
proof -
  let ?es = "map (\<lambda>(k, v). (k, Some v)) es"
  have a: "acceptable db ?es" using assms(2-4) validate_value_map by (auto simp: acceptable_def)
  have v: "map snd ?es = map (\<lambda>(k, v). Some v) es" by auto
  show ?thesis
    unfolding writer_put_batch_def using wp_returns [OF insert_batch_refines [OF assms(1) a, of simd]]
    unfolding v push_batch_fold length_map .
qed

theorem put_batch_correct_witness:
  "\<exists>db r t. db_create quiet_create (small_config Map) = Ok db
     \<and> writer_put_batch Avx2 [(key_a, value_a), (key_a, [9])] db = Some (r, t)
     \<and> (case r of Inr n \<Rightarrow> n = 2 \<and> stores t ((\<lambda>_. [])(key_a := [[9], value_a])) | Inl _ \<Rightarrow> stores t (\<lambda>_. []))"
proof -
  obtain db where "db_create quiet_create (small_config Map) = Ok db"
    and db: "stores db (\<lambda>_. [])" "mode (db_config db) = Map" "reserve_limit (db_heads db) = 1048576" by (rule small_database)
  moreover from put_batch_correct [OF db(1,2), of "[(key_a, value_a), (key_a, [9])]" Avx2] db(3)
  obtain r t where "writer_put_batch Avx2 [(key_a, value_a), (key_a, [9])] db = Some (r, t)"
    "case r of Inr n \<Rightarrow> n = 2 \<and> stores t ((\<lambda>_. [])(key_a := [[9], value_a])) | Inl _ \<Rightarrow> stores t (\<lambda>_. [])"
    by (auto simp: key_a_def split_sum_ex)
  ultimately show ?thesis by blast
qed

text \<open>C14. \<open>add_batch\<close> on a set always returns; on success every key has one more copy for each time it
  occurs in the batch, and the number of keys is returned. An error leaves the contents unchanged,
  gives all pages back, and means that a system call failed or that the pages ran out.\<close>

theorem add_batch_correct:
  assumes "stores db f" "mode (db_config db) = Set" "\<forall>k \<in> set keys. length k = 16"
    and "length keys \<le> reserve_limit (db_heads db)"
  shows "\<exists>r t. db_add_batch simd keys db = Some (r, t) \<and> db_step db t \<and> (case r of
       Inr n \<Rightarrow> n = length keys \<and> stores t (fold (\<lambda>k g. g(k := [] # g k)) keys f)
     | Inl e \<Rightarrow> stores t f \<and> (\<not> al_calm (db_body db) \<or> nbl (db_body db) \<le> hw (db_body t)))"
proof -
  let ?es = "map (\<lambda>k. (k, None :: bytes option)) keys"
  have a: "acceptable db ?es" using assms(2-4) by (auto simp: acceptable_def validate_value_def)
  have v: "short db (map snd ?es) t \<longleftrightarrow> \<not> al_calm (db_body db) \<or> nbl (db_body db) \<le> hw (db_body t)" for t
    by (auto simp: short_def)
  have d: "db_add_batch simd keys db = insert_batch_inner simd ?es db" using assms(2) by (simp add: db_add_batch_def applied)
  show ?thesis
    unfolding d using wp_returns [OF insert_batch_refines [OF assms(1) a, of simd]]
    unfolding v push_batch_fold length_map .
qed

theorem add_batch_correct_witness:
  "\<exists>db r t. db_create quiet_create (small_config Set) = Ok db \<and> db_add_batch Scalar [key_a, key_a] db = Some (r, t)
     \<and> (case r of Inr n \<Rightarrow> n = 2 \<and> stores t ((\<lambda>_. [])(key_a := [[], []])) | Inl _ \<Rightarrow> stores t (\<lambda>_. []))"
proof -
  obtain db where "db_create quiet_create (small_config Set) = Ok db" "db_config db = small_config Set"
    and db: "stores db (\<lambda>_. [])" "reserve_limit (db_heads db) = 1048576" by (rule small_create [of Set])
  moreover from add_batch_correct [OF db(1), of "[key_a, key_a]" Scalar] db(2) calculation
  obtain r t where "db_add_batch Scalar [key_a, key_a] db = Some (r, t)"
    "case r of Inr n \<Rightarrow> n = 2 \<and> stores t ((\<lambda>_. [])(key_a := [[], []])) | Inl _ \<Rightarrow> stores t (\<lambda>_. [])"
    by (auto simp: key_a_def small_config_def split_sum_ex)
  ultimately show ?thesis by blast
qed

end
