(* ===== verification/Macos.thy ===== *)
theory Macos
  imports Mapped_File Wp
begin

text \<open>
  src/platform/macos.rs: one stable anonymous reservation whose front is replaced, segment by
  segment, with shared views of the file as the file grows.

  Addresses are relative to the base of the reservation. The kernel is not code of the repository:
  its answers to the coming calls are lists in the state (once a list is used up, calls succeed).
  A refused \<open>MAP_FIXED\<close> call may have unmapped the range it was to replace, as the mmap
  documentation allows; the answer says whether it did.
\<close>

subsection \<open>State\<close>

datatype mac_view = Free | Inaccessible | File_View nat

datatype mmap_answer = At_Target | Null_Address | Other_Address | Refused io_error bool

record mac_os =
  mmap_answers :: "mmap_answer list"
  prealloc_answers :: "(io_error + nat) list"
  call_answers :: "io_error option list"
  file_len :: u64
  mac_space :: "nat \<Rightarrow> mac_view"
  mac_stray :: nat

record mac_mapping =
  mac_length :: usize
  committed :: usize

type_synonym 'a mac = "(mac_os \<times> mac_mapping, 'a) prog"

definition on_os :: "(mac_os, 'a) prog \<Rightarrow> 'a mac" where
  "on_os = zoom fst (\<lambda>s p. (s, snd p))"


definition set_view :: "nat \<Rightarrow> nat \<Rightarrow> (nat \<Rightarrow> mac_view) \<Rightarrow> mac_os \<Rightarrow> mac_os" where
  "set_view a n v s = s\<lparr>mac_space := (\<lambda>x. if a \<le> x \<and> x < a + n then v x else mac_space s x)\<rparr>"

text \<open>\<open>errno_result\<close> of msync, madvise and fstat.\<close>

definition mac_call :: "(mac_os, unit) prog" where
  "mac_call s = (case call_answers s of [] \<Rightarrow> Some (Inr (), s)
     | None # as \<Rightarrow> Some (Inr (), s\<lparr>call_answers := as\<rparr>)
     | Some e # as \<Rightarrow> Some (Inl (Io e), s\<lparr>call_answers := as\<rparr>))"

subsection \<open>Mappings\<close>


definition drop_mapping :: "usize \<Rightarrow> (mac_os, unit) prog" where
  "drop_mapping len = modify (set_view 0 len (\<lambda>_. Free))"




definition mac_drop :: "unit mac" where
  "mac_drop = bnd (gets (\<lambda>(_, m). mac_length m)) (\<lambda>len. on_os (drop_mapping len))"

subsection \<open>Reservation\<close>

text \<open>One F_PREALLOCATE call: the bytes it allocated, or that it failed.\<close>

definition preallocate :: "u64 \<Rightarrow> (mac_os, io_error + nat) prog" where
  "preallocate len s = (case prealloc_answers s of [] \<Rightarrow> Some (Inr (Inr (unat len)), s)
     | a # as \<Rightarrow> Some (Inr a, s\<lparr>prealloc_answers := as\<rparr>))"

definition mac_reserve :: "u64 \<Rightarrow> u64 \<Rightarrow> (mac_os, unit) prog" where
  "mac_reserve offset len =
     bnd (lift (ok_or (checked_add offset len) (InvalidConfig ''file reservation range overflow''))) (\<lambda>end.
     bnd mac_call (\<lambda>_.
     bnd (gets file_len) (\<lambda>n.
     if n \<noteq> end then err (Corrupt ''macOS can only reserve the newly grown file tail'')
     else if \<not> unat len < 2 ^ 63 then err (InvalidConfig ''file reservation exceeds macOS off_t'')
     else
       bnd (preallocate len) (\<lambda>contiguous.
       bnd (case contiguous of Inr n \<Rightarrow> ok n
            | Inl _ \<Rightarrow> bnd (preallocate len) (\<lambda>fallback. case fallback of Inr n \<Rightarrow> ok n | Inl e \<Rightarrow> err (Io e))) (\<lambda>bytes_allocated.
       if bytes_allocated < unat len then err (CapacityExhausted ''file reservation'') else ok ())))))"

subsection \<open>Published addresses\<close>




lemma wp_mac_call:
  "(\<And>as. Q () (s\<lparr>call_answers := as\<rparr>)) \<Longrightarrow> (\<And>e as. E (Io e) (s\<lparr>call_answers := as\<rparr>)) \<Longrightarrow> wp mac_call Q E s"
proof -
  assume q: "\<And>as. Q () (s\<lparr>call_answers := as\<rparr>)" "\<And>e as. E (Io e) (s\<lparr>call_answers := as\<rparr>)"
  have qs: "Q () s" using q(1) [of "call_answers s"] by simp
  show ?thesis
  proof (cases "call_answers s")
    case Nil
    then show ?thesis using qs by (simp add: wp_def mac_call_def)
  next
    case (Cons a as)
    then show ?thesis using q(1) [of as] q(2) [of _ as] by (cases a) (simp_all add: wp_def mac_call_def)
  qed
qed






text \<open>A reservation ends at the end of the file and was granted in full, by the contiguous attempt or
  by the one that follows its failure.\<close>

lemma mac_reserve_wp:
  "wp (mac_reserve offset len)
     (\<lambda>_ t. mac_space t = mac_space s \<and> unat (file_len s) = unat offset + unat len \<and> unat len < 2 ^ 63
        \<and> (case prealloc_answers s of Inr n # _ \<Rightarrow> unat len \<le> n | Inl _ # Inr n # _ \<Rightarrow> unat len \<le> n | Inl _ # Inl _ # _ \<Rightarrow> False | _ \<Rightarrow> True))
     (\<lambda>_ t. mac_space t = mac_space s) s"
proof (cases "checked_add offset len")
  case None
  then show ?thesis by (simp add: mac_reserve_def wp_bnd wp_lift)
next
  case (Some e)
  then have e: "unat e = unat offset + unat len" by (simp add: checked_add_unat)
  have pre: "wp (preallocate len) Q E t" if "\<And>a as. prealloc_answers t = a # as \<Longrightarrow> Q a (t\<lparr>prealloc_answers := as\<rparr>)"
    "prealloc_answers t = [] \<Longrightarrow> Q (Inr (unat len)) t" for Q E t
    using that by (cases "prealloc_answers t") (simp_all add: wp_def preallocate_def)
  show ?thesis
    using Some e
    by (auto simp: mac_reserve_def wp_bnd wp_lift intro!: wp_mac_call pre split: sum.splits list.splits)
qed

subsection \<open>Sessions\<close>






end
