(* ===== verification/Spec2Isabelle.thy ===== *)
theory Spec2Isabelle
  imports Table_Props Checkpoint_Props Hints_Props Batch_Props Macos
begin

text \<open>
  A verification library for floresta-db, a hash table in memory-mapped files (src/src/), and for its
  hints generator (src/examples/hintsgen/main.rs).

  \<^bold>\<open>The program.\<close> A database is a directory with a heads file (header page, bucket heads, two
  manifests, snapshot root banks), a body file of 32-byte chain nodes, a blob file for values that do
  not fit a node (the others are eight bytes with the high bit clear), and one count file beside each of the two. \<open>MappedFile\<close> gives range-checked access
  to a file and grows it; \<open>BlockAllocator\<close> hands out ranges of pages and keeps in the count file how
  many live allocations each page has; \<open>node.rs\<close> serialises chain nodes and blobs in such ranges;
  \<open>Database\<close> (table.rs) keeps one chain per bucket and implements put, put_new, get, delete, add, pop,
  their batch forms, compaction and synchronisation; checkpoint.rs copies the chains to snapshot
  files, publishes manifests and recovers from them. The hints generator uses the database as an index
  of unspent outputs: adder threads insert the outputs of blocks, remover threads pop the spent ones
  into run files, and an external sort and an encoder turn these into the hints file.

  \<^bold>\<open>Conventions\<close> (theories \<open>Prelude\<close>, \<open>Wp\<close>, \<open>Bytes\<close>).
  \<^item> An unsigned integer of width w is a \<open>w word\<close> (\<open>u64\<close>, \<open>u32\<close>, \<open>u16\<close>, \<open>u8\<close>); lengths of slices and
    vectors are \<open>nat\<close> with the 64-bit bound written out where the code checks it. \<open>checked_add\<close>,
    \<open>saturating_add\<close> and the other forms of Rust arithmetic are definitions; plain \<open>+\<close> wraps.
  \<^item> \<open>'a res\<close> is \<open>(error + 'a) option\<close>: \<open>Err e\<close>, \<open>Ok x\<close>, or \<open>None\<close> for a computation that does not
    return. \<open>('s, 'a) prog\<close> is a function of the state to such a result and the state after it;
    \<open>bnd\<close> is \<open>?\<close>-sequencing, \<open>catch\<close>, \<open>attempt\<close>, \<open>ignore\<close> and \<open>bracket\<close> are the error-handling shapes of
    the source, \<open>zoom\<close> runs a program on a field of a larger state.
  \<^item> Loops are \<open>loop\<close> and \<open>rloop\<close>, defined by \<open>partial_function (option)\<close>: there is no fuel, and a
    retry loop that spins forever has the value \<open>None\<close>. Statements that an operation returns are
    proved as such: \<open>wp m Q E s\<close> is total correctness, its failure branch \<open>E\<close> is what holds on error.
  \<^item> Error texts with run-time values in them keep their fixed part.

  \<^bold>\<open>Outside the repository.\<close> Operating-system calls answer from a list of coming outcomes in the
  state (\<open>os_results\<close>, \<open>wd_results\<close>, the outcomes of the directory in \<open>Checkpoint\<close>); every outcome list
  is covered by the theorems unless they say that calls succeed, and nothing else is assumed of the
  system. The process allocator grants reservations up to a limit of the state. Transactions of the
  bitcoin crate are what the code observes of them, the active chain of libbitcoinkernel is the record
  \<open>chainstate\<close>, and the builder of the hintsfile crate is the record \<open>hintsfile\<close>.

  \<^bold>\<open>Theories and parts.\<close>
  \<^item> \<open>Layout\<close>: layout.rs, config.rs and error.rs (constants, \<open>align_up\<close>, \<open>Config\<close> and its validation,
    \<open>Error\<close>).
  \<^item> \<open>Hash\<close>: hash.rs. Scalar XXH64 and the AVX2 four-lane batch; the lanes agree with the scalar
    function, and the published vectors hold.
  \<^item> \<open>Mapped_File\<close>: mapped_file.rs, platform/linux.rs and the refusal of platform/windows.rs. The state
    is the bytes of the file, the published length with its growing bit, and the mapping's size. Growth
    keeps the bytes and publishes a length only when the file has it. \<open>Macos\<close>: platform/macos.rs, where a
    mapping is a list of views that growth extends and never moves.
  \<^item> \<open>Allocator\<close>, \<open>Zero_Run\<close>, \<open>Allocator_Inv\<close>, \<open>Allocator_Correct\<close>, \<open>Allocator_Props\<close>: allocator.rs. The
    invariant \<open>al_inv al L\<close> relates the counts to the set \<open>L\<close> of live ranges; allocation, batch
    allocation and release keep it, the scan for free pages is correct in its scalar, AVX2 and NEON
    forms, a clean close and open give back the same state. The locale \<open>allocation_store\<close> is the
    contract the clients use, interpreted on \<open>allocate\<close> and \<open>release\<close>.
  \<^item> \<open>Node\<close>, \<open>Node_Correct\<close>: node.rs. Nodes and blobs written are read back; pointer updates keep key,
    value and checksum.
  \<^item> \<open>Table\<close> (state, lookups), \<open>Table_Ops\<close> (single operations), \<open>Table_Batch\<close> (batch operations and the
    write-only writer), \<open>Table_Admin\<close> (creation, sync, close, compaction): table.rs. \<open>Table_Inv\<close> holds the
    invariant \<open>db_inv\<close> (each head starts a finite chain of live nodes in the right bucket, the chains
    and the blobs are exactly the live allocations), \<open>Table_Correct\<close>, \<open>Table_Insert\<close> and \<open>Table_Map\<close> what
    each operation does to it and to the abstract contents (a stack of values per key). \<open>Table_Props\<close> has
    the locale \<open>map_store\<close>, the contract of a finite map, its interpretation on put, put_new and delete,
    and the refinement of sessions. \<open>Table_Fetch\<close> relates a batch of lookups to the contents;
    \<open>Table_Unlink\<close> describes a table from which entries have been unlinked but not yet released,
    \<open>Table_Walk\<close> has the locale \<open>bucket_walk\<close> (one pass over a bucket's chain, interpreted for batch
    deletion there and for batch pop in \<open>Table_Pop\<close>). \<open>Table_Stage\<close> follows a batch insertion while its
    nodes are reserved and filled, \<open>Table_Commit\<close> while groups of them are linked and published, down to the
    refinement of \<open>insert_batch\<close>, and \<open>Batch_Props\<close> has the properties of the batches.
  \<^item> \<open>Checkpoint\<close>, \<open>Manifest\<close>, \<open>Reopen\<close>, \<open>Checkpoint_Props\<close>: checkpoint.rs over an explicit directory of
    files. Header and manifest round trips, closing and opening the runtime files, the exclusion of
    concurrent checkpoints, and three behaviours recorded as findings.
  \<^item> \<open>Hints_Index\<close>, \<open>Hints_Runs\<close>, \<open>Hints_Workers\<close>, \<open>Hints_Run\<close>: main.rs of hintsgen (entries of a block,
    counts, settings; run files, external sort, encoding; range allocators, progress and threads; \<open>run\<close>
    around the threads). \<open>Hints_Sort\<close> proves the sort against the priority-queue locale \<open>min_queue\<close> and
    its extension \<open>merge_queue\<close>, both interpreted on the model's heap; \<open>Hints_Encode\<close> the collection and
    the encoding; \<open>Hints_Progress\<close> the invariant of the threads over every interleaving; \<open>Hints_Live\<close>
    and \<open>Hints_Finish\<close> deadlock, progress and termination; \<open>Hints_Props\<close> the properties.

  \<^bold>\<open>Concurrency.\<close> The operations of src/src/ are modelled one at a time: every atomic access, guard,
  lock and compare-exchange of the source is there, with the outcome it has when no other thread
  interferes, so the retry branches are part of the definitions and shown not to be needed. The
  hints generator's threads are interleaved: \<open>hints_step\<close> takes one thread from one access that
  others can see to the next, \<open>hints_reachable\<close> closes it, and the safety and liveness theorems hold for
  all schedules; one block's or one range's database work is a single step there.

  \<^bold>\<open>Not modelled.\<close> Interleavings inside database operations and weak memory orders; \<open>mmap\<close>, pointers
  and page faults; the crate root and platform selection
  (declarations only); formatting of errors and reports, clocks and log lines; the import of blocks by
  libbitcoinkernel; test code, benches, the stress example and the fuzz target, which drive the public
  operations. Compaction and the body of a checkpoint are modelled in full but have no
  functional-correctness theorem: they would be next, with recovery from a checkpoint after them.
\<close>

end
